(* ===== verification/Prelude.thy ===== *)
theory Prelude
  imports Main "HOL-Library.Word" "HOL-Library.Monad_Syntax"
begin

text \<open>
  Shared vocabulary of the development: the machine integers and byte strings of the C code,
  \<open>size_t\<close> arithmetic with its wrap-around written out, the functions of \<open>string.h\<close> the
  sources call (\<open>memchr\<close>, \<open>memrchr\<close>, \<open>memcmp\<close>, \<open>memcpy\<close>/\<open>memmove\<close> as a write into a
  list), the macro \<open>ALIGN_UP\<close> of \<open>src/src/macros.h\<close>, and the generic lemmas on lists and
  words that the component theories use through the collections \<open>size_simps\<close> and
  \<open>buffer_simps\<close>.
\<close>

unbundle bit_operations_syntax

named_theorems size_simps \<open>size_t arithmetic that does not wrap\<close>
named_theorems buffer_simps \<open>reads and writes of byte buffers\<close>

section \<open>Types\<close>

type_synonym u8 = "8 word"
type_synonym u16 = "16 word"
type_synonym u32 = "32 word"
type_synonym u64 = "64 word"
type_synonym bytes = "u8 list"

text \<open>A string literal of the C source as the bytes it stands for.\<close>

abbreviation ascii :: "string \<Rightarrow> bytes" where
  "ascii s \<equiv> map of_char s"

section \<open>size\_t\<close>

text \<open>
  A \<open>size_t\<close> is a natural number below \<open>2 ^ 64\<close>; the three operations wrap as the
  machine's do.
\<close>

definition sz_add :: "nat \<Rightarrow> nat \<Rightarrow> nat" where
  "sz_add a b = (a + b) mod 2 ^ 64"

definition sz_sub :: "nat \<Rightarrow> nat \<Rightarrow> nat" where
  "sz_sub a b = (a + (2 ^ 64 - b mod 2 ^ 64)) mod 2 ^ 64"

definition sz_mul :: "nat \<Rightarrow> nat \<Rightarrow> nat" where
  "sz_mul a b = (a * b) mod 2 ^ 64"

lemma sz_add_lt [simp]: "sz_add a b < 2 ^ 64"
  by (simp add: sz_add_def)

lemma sz_sub_lt [simp]: "sz_sub a b < 2 ^ 64"
  by (simp add: sz_sub_def)

lemma sz_mul_lt [simp]: "sz_mul a b < 2 ^ 64"
  by (simp add: sz_mul_def)

lemma sz_add_nowrap [size_simps]: "a + b < 2 ^ 64 \<Longrightarrow> sz_add a b = a + b"
  by (simp add: sz_add_def)

lemma sz_mul_nowrap [size_simps]: "a * b < 2 ^ 64 \<Longrightarrow> sz_mul a b = a * b"
  by (simp add: sz_mul_def)

lemma sz_sub_nowrap [size_simps]: "b \<le> a \<Longrightarrow> a < 2 ^ 64 \<Longrightarrow> sz_sub a b = a - b"
proof -
  assume h: "b \<le> a" "a < 2 ^ 64"
  then have "b mod 2 ^ 64 = b" by simp
  then have "a + (2 ^ 64 - b mod 2 ^ 64) = (a - b) + 2 ^ 64"
    using h by simp
  then have "sz_sub a b = ((a - b) + 2 ^ 64) mod 2 ^ 64"
    unfolding sz_sub_def by (rule arg_cong)
  also have "\<dots> = (a - b) mod 2 ^ 64"
    by (rule mod_add_self2)
  finally show ?thesis
    using h by simp
qed

lemma sz_sub_wrap: "a < b \<Longrightarrow> b < 2 ^ 64 \<Longrightarrow> sz_sub a b = 2 ^ 64 - (b - a)"
  by (simp add: sz_sub_def)

text \<open>Conversion of a wider integer to \<open>int\<close>: the low 32 bits, read with their sign.\<close>

definition c_int :: "int \<Rightarrow> int" where
  "c_int z = signed_take_bit 31 z"

lemma c_int_id [simp]: "- (2 ^ 31) \<le> z \<Longrightarrow> z < 2 ^ 31 \<Longrightarrow> c_int z = z"
  by (simp add: c_int_def signed_take_bit_int_eq_self)

section \<open>ALIGN\_UP\<close>

text \<open>\<open>((n) + (a) - 1) & ~((a) - 1)\<close> at the width of \<open>size_t\<close>.\<close>

definition ALIGN_UP :: "nat \<Rightarrow> nat \<Rightarrow> nat" where
  "ALIGN_UP n a = unat ((of_nat n + of_nat a - 1 :: u64) AND NOT (of_nat a - 1))"

lemma and_not_mask_div: "(x :: u64) AND NOT (mask k) = push_bit k (drop_bit k x)"
  by (rule bit_word_eqI) (auto simp: bit_simps)

lemma ALIGN_UP_128:
  assumes "n + 127 < 2 ^ 64"
  shows "ALIGN_UP n 128 = (n + 127) div 128 * 128"
proof -
  have m: "(of_nat 128 - 1 :: u64) = mask 7"
    by (simp add: mask_eq_exp_minus_1)
  have s: "(of_nat n + of_nat 128 - 1 :: u64) = of_nat (n + 127)"
    by simp
  have d: "unat (drop_bit 7 (of_nat (n + 127) :: u64)) = (n + 127) div 128"
  proof -
    have "unat (of_nat (n + 127) :: u64) = n + 127"
      using assms unfolding unat_of_nat by simp
    then show ?thesis
      by (simp only: unat_drop_bit_eq) (simp add: drop_bit_eq_div)
  qed
  have "ALIGN_UP n 128 = unat (push_bit 7 (drop_bit 7 (of_nat (n + 127) :: u64)))"
    unfolding ALIGN_UP_def m s and_not_mask_div ..
  also have "\<dots> = (n + 127) div 128 * 128 mod 2 ^ 64"
    by (simp only: unsigned_push_bit_eq d) (simp add: take_bit_eq_mod push_bit_eq_mult)
  also have "\<dots> = (n + 127) div 128 * 128"
  proof -
    have "(n + 127) div 128 * 128 \<le> n + 127" by (rule div_times_less_eq_dividend)
    with assms show ?thesis by (intro mod_less) linarith
  qed
  finally show ?thesis .
qed

section \<open>Small facts on words\<close>

lemma unat_and_15: "unat (w AND 0xf :: 'a :: len word) = unat w mod 16"
proof -
  have "unat (w AND 0xf) = unat (take_bit 4 w)"
    by (simp add: take_bit_eq_mask mask_eq_exp_minus_1)
  then show ?thesis
    by (simp only: unsigned_take_bit_eq) (simp add: take_bit_eq_mod)
qed

lemma ucast_u16_u8: "(ucast (w :: u16) :: u8) = of_nat (unat w)"
  by simp

lemma less_16_cases:
  "(n :: nat) < 16 \<Longrightarrow> n \<in> {0, 1, 2, 3, 4, 5, 6, 7, 8, 9, 10, 11, 12, 13, 14, 15}"
  by (simp add: numeral_eq_Suc less_Suc_eq)

section \<open>Buffers as lists\<close>

text \<open>\<open>memcpy\<close>, \<open>memmove\<close> and single stores: overwrite \<open>xs\<close> with \<open>ys\<close> from index \<open>i\<close> on.\<close>

definition write_at :: "'a list \<Rightarrow> nat \<Rightarrow> 'a list \<Rightarrow> 'a list" where
  "write_at xs i ys = take i xs @ ys @ drop (i + length ys) xs"

lemma length_write_at [simp, buffer_simps]:
  "i + length ys \<le> length xs \<Longrightarrow> length (write_at xs i ys) = length xs"
  by (simp add: write_at_def)

lemma write_at_Nil [simp]: "i \<le> length xs \<Longrightarrow> write_at xs i [] = xs"
  by (simp add: write_at_def)

lemma take_write_at [buffer_simps]:
  "k \<le> i \<Longrightarrow> i \<le> length xs \<Longrightarrow> take k (write_at xs i ys) = take k xs"
  by (simp add: write_at_def min_def)

lemma take_write_at_exact [buffer_simps]:
  "i \<le> length xs \<Longrightarrow> take (i + length ys) (write_at xs i ys) = take i xs @ ys"
  by (simp add: write_at_def)

lemma drop_write_at [buffer_simps]:
  "i \<le> length xs \<Longrightarrow> drop (i + length ys) (write_at xs i ys) = drop (i + length ys) xs"
  by (simp add: write_at_def)

lemma nth_write_at_inside [buffer_simps]:
  "i \<le> length xs \<Longrightarrow> i \<le> k \<Longrightarrow> k < i + length ys \<Longrightarrow> write_at xs i ys ! k = ys ! (k - i)"
  by (simp add: write_at_def nth_append less_diff_conv2)

lemma nth_write_at_before [buffer_simps]:
  "k < i \<Longrightarrow> i \<le> length xs \<Longrightarrow> write_at xs i ys ! k = xs ! k"
  by (simp add: write_at_def nth_append)

text \<open>The bytes of a buffer from index \<open>i\<close> up to index \<open>j\<close>.\<close>

definition segment :: "'a list \<Rightarrow> nat \<Rightarrow> nat \<Rightarrow> 'a list" where
  "segment xs i j = drop i (take j xs)"

lemma length_segment [simp]: "length (segment xs i j) = min j (length xs) - i"
  by (simp add: segment_def min.commute)

lemma segment_empty [simp]: "j \<le> i \<Longrightarrow> segment xs i j = []"
  by (simp add: segment_def)

lemma segment_write_at_append [buffer_simps]:
  "i \<le> j \<Longrightarrow> j \<le> length xs \<Longrightarrow>
   segment (write_at xs j ys) i (j + length ys) = segment xs i j @ ys"
  by (simp add: segment_def take_write_at_exact)

lemma nth_segment: "i \<le> j \<Longrightarrow> j \<le> length xs \<Longrightarrow> k < j - i \<Longrightarrow> segment xs i j ! k = xs ! (i + k)"
  by (simp add: segment_def)

lemma segment_split:
  "i \<le> k \<Longrightarrow> k \<le> j \<Longrightarrow> j \<le> length xs \<Longrightarrow> segment xs i j = segment xs i k @ segment xs k j"
  by (rule nth_equalityI) (auto simp: nth_append segment_def add.commute)

section \<open>The allocator\<close>

text \<open>
  \<open>malloc\<close>, \<open>calloc\<close> and \<open>realloc\<close> may fail: whether a request of \<open>n\<close> bytes succeeds, and what
  uninitialised bytes hold, are the fields of a \<open>heap_env\<close>.  A request of more than
  \<open>PTRDIFF_MAX\<close> bytes never succeeds.
\<close>

record heap_env =
  alloc_ok :: "nat \<Rightarrow> bool"
  junk :: "nat \<Rightarrow> u8"

definition heap_env_ok :: "heap_env \<Rightarrow> bool" where
  "heap_env_ok env \<longleftrightarrow> (\<forall>n. alloc_ok env n \<longrightarrow> n < 2 ^ 63)"

text \<open>
  \<open>realloc\<close> of a block (\<^term>\<open>None\<close> for a null pointer).  For a size of zero the block is freed
  and a null pointer returned; the second component says whether the old block is still
  allocated after the call returned a null pointer.
\<close>

definition realloc :: "heap_env \<Rightarrow> bytes option \<Rightarrow> nat \<Rightarrow> bytes option \<times> bool" where
  "realloc env p n =
    (let old = (case p of None \<Rightarrow> [] | Some b \<Rightarrow> b) in
     if n = 0 then (None, False)
     else if alloc_ok env n then (Some (take n old @ map (junk env) [length old ..< n]), True)
     else (None, True))"

section \<open>string.h\<close>

fun memchr :: "bytes \<Rightarrow> u8 \<Rightarrow> nat option" where
  "memchr [] c = None"
| "memchr (x # xs) c = (if x = c then Some 0 else map_option Suc (memchr xs c))"

lemma memchr_None: "memchr xs c = None \<longleftrightarrow> c \<notin> set xs"
  by (induction xs) auto

lemma memchr_SomeD:
  "memchr xs c = Some i \<Longrightarrow> i < length xs \<and> xs ! i = c \<and> c \<notin> set (take i xs)"
  by (induction xs arbitrary: i) (auto split: if_splits)

lemma memchr_append_found: "c \<notin> set xs \<Longrightarrow> memchr (xs @ c # ys) c = Some (length xs)"
  by (induction xs) auto

lemma memchr_split:
  assumes "memchr xs c = Some i"
  shows "xs = take i xs @ c # drop (Suc i) xs"
  using memchr_SomeD [OF assms] by (metis id_take_nth_drop)

definition memrchr :: "bytes \<Rightarrow> u8 \<Rightarrow> nat option" where
  "memrchr xs c = map_option (\<lambda>i. length xs - 1 - i) (memchr (rev xs) c)"

lemma memrchr_None: "memrchr xs c = None \<longleftrightarrow> c \<notin> set xs"
  by (simp add: memrchr_def memchr_None)

text \<open>\<open>memcmp\<close> of two buffers of the same length: the sign of the first difference.\<close>

fun memcmp :: "bytes \<Rightarrow> bytes \<Rightarrow> int" where
  "memcmp (x # xs) (y # ys) = (if x = y then memcmp xs ys else uint x - uint y)"
| "memcmp _ _ = 0"

lemma memcmp_eq_0 [simp]: "length xs = length ys \<Longrightarrow> memcmp xs ys = 0 \<longleftrightarrow> xs = ys"
  by (induction xs ys rule: list_induct2) (auto simp: word_uint_eq_iff)

end
