(* ===== verification/Codec.thy ===== *)
theory Codec
  imports Prelude
begin

text \<open>
  The encoders and decoders at the top of \<open>src/src/str_util.h\<close>: decimal and hexadecimal
  printing of small integers, the branch-free hexadecimal digit decoder, and the big-endian
  16 and 32 bit reads and writes of the DNS code.  An encoder that stores at \<open>wptr\<close> and returns
  the advanced pointer is the list of bytes it stores.
\<close>

section \<open>Model\<close>

definition uint8_toa :: "u8 \<Rightarrow> bytes" where
  "uint8_toa val =
    (if val < 10 then [val + 48]
     else if val < 100 then
       (let d1 = of_nat (drop_bit 11 (unat val * 205));
            d2 = val - d1 * 10
        in [d1 + 48, d2 + 48])
     else
       (let d1 = of_nat (drop_bit 14 (unat val * 164));
            rem = val - d1 * 100;
            d2 = of_nat (drop_bit 11 (unat rem * 205));
            d3 = rem - d2 * 10
        in [d1 + 48, d2 + 48, d3 + 48]))"

definition uint16_toa :: "u16 \<Rightarrow> bytes" where
  "uint16_toa val =
    (if val \<ge> 10000 then [ucast (val div 10000) + 48] else []) @
    (if val \<ge> 1000 then [ucast (val div 1000 mod 10) + 48] else []) @
    (if val \<ge> 100 then [ucast (val div 100 mod 10) + 48] else []) @
    (if val \<ge> 10 then [ucast (val div 10 mod 10) + 48] else []) @
    [ucast (val mod 10) + 48]"

definition hex_table :: bytes where
  "hex_table = ascii ''0123456789abcdef''"

definition uint16_toax :: "u16 \<Rightarrow> bytes" where
  "uint16_toax val =
    (if val \<ge> 0x1000 then [hex_table ! unat (drop_bit 12 val AND 0xf)] else []) @
    (if val \<ge> 0x100 then [hex_table ! unat (drop_bit 8 val AND 0xf)] else []) @
    (if val \<ge> 0x10 then [hex_table ! unat (drop_bit 4 val AND 0xf)] else []) @
    [hex_table ! unat (val AND 0xf)]"

text \<open>
  \<open>uint8_tostr\<close> stores the digits and a terminator in \<open>str\<close> when \<open>len\<close> is at least 3; the
  result is the buffer after the call.
\<close>

definition uint8_tostr :: "u8 \<Rightarrow> bytes \<Rightarrow> nat \<Rightarrow> bytes" where
  "uint8_tostr val str len =
    (if len < 3 then str else write_at str 0 (uint8_toa val @ [0]))"

text \<open>A \<open>char\<close> is signed: the shifts of \<open>hex_to_nibble\<close> are arithmetic.\<close>

definition hex_to_nibble :: "u8 \<Rightarrow> u8" where
  "hex_to_nibble ch =
    (let c = sint ch in of_int ((c AND 0xf) + drop_bit 6 c + push_bit 3 (drop_bit 6 c)))"

definition enc_u32 :: "u32 \<Rightarrow> bytes" where
  "enc_u32 v = [ucast (drop_bit 24 v), ucast (drop_bit 16 v), ucast (drop_bit 8 v), ucast v]"

definition enc_u16 :: "u16 \<Rightarrow> bytes" where
  "enc_u16 v = [ucast (drop_bit 8 v), ucast v]"

definition dec_u32 :: "bytes \<Rightarrow> nat \<Rightarrow> u32" where
  "dec_u32 buf i =
    push_bit 24 (ucast (buf ! i)) OR push_bit 16 (ucast (buf ! (i + 1)))
    OR push_bit 8 (ucast (buf ! (i + 2))) OR ucast (buf ! (i + 3))"

definition dec_u16 :: "bytes \<Rightarrow> nat \<Rightarrow> u16" where
  "dec_u16 buf i = push_bit 8 (ucast (buf ! i)) OR ucast (buf ! (i + 1))"

section \<open>Reference printing of a number\<close>

fun dec_digits :: "nat \<Rightarrow> bytes" where
  "dec_digits n = (if n < 10 then [of_nat n + 48] else dec_digits (n div 10) @ [of_nat (n mod 10) + 48])"

fun hex_digits :: "nat \<Rightarrow> bytes" where
  "hex_digits n = (if n < 16 then [hex_table ! n] else hex_digits (n div 16) @ [hex_table ! (n mod 16)])"

declare dec_digits.simps [simp del] hex_digits.simps [simp del]

lemma dec_digits_lt10: "n < 10 \<Longrightarrow> dec_digits n = [of_nat n + 48]"
  by (simp add: dec_digits.simps)

lemma dec_digits_step:
  "10 \<le> n \<Longrightarrow> dec_digits n = dec_digits (n div 10) @ [of_nat (n mod 10) + 48]"
  by (subst dec_digits.simps) simp

lemma hex_digits_lt16: "n < 16 \<Longrightarrow> hex_digits n = [hex_table ! n]"
  by (simp add: hex_digits.simps)

lemma hex_digits_step:
  "16 \<le> n \<Longrightarrow> hex_digits n = hex_digits (n div 16) @ [hex_table ! (n mod 16)]"
  by (subst hex_digits.simps) simp

section \<open>Decimal printing\<close>

text \<open>The multiplications that stand for the divisions by 10 and 100.\<close>

lemma mul205_div10: "n < 100 \<Longrightarrow> drop_bit 11 (n * 205) = n div (10 :: nat)"
  unfolding drop_bit_eq_div
proof (rule div_nat_eqI)
  assume "n < 100"
  then have q: "n div 10 \<le> 9" "n mod 10 \<le> 9" "10 * (n div 10) + n mod 10 = n" by simp_all
  show "2 ^ 11 * (n div 10) \<le> n * 205" using q by simp
  show "n * 205 < 2 ^ 11 * Suc (n div 10)" using q by simp
qed

lemma mul164_div100: "n < 256 \<Longrightarrow> drop_bit 14 (n * 164) = n div (100 :: nat)"
  unfolding drop_bit_eq_div
proof (rule div_nat_eqI)
  assume "n < 256"
  then have q: "n div 100 \<le> 2" "n mod 100 \<le> 99" "100 * (n div 100) + n mod 100 = n" by simp_all
  show "2 ^ 14 * (n div 100) \<le> n * 164" using q by simp
  show "n * 164 < 2 ^ 14 * Suc (n div 100)" using q by simp
qed

lemma word_minus_div_mod:
  fixes w :: "'a :: len word"
  shows "w - of_nat (unat w div k) * of_nat k = of_nat (unat w mod k)"
proof -
  have "w = of_nat (unat w div k * k + unat w mod k)"
    unfolding div_mult_mod_eq by simp
  also have "\<dots> = of_nat (unat w div k) * of_nat k + of_nat (unat w mod k)"
    by (simp only: of_nat_add of_nat_mult)
  finally show ?thesis
    by (metis add_diff_cancel_left')
qed

lemma unat_of_nat_u8: "n < 256 \<Longrightarrow> unat (of_nat n :: u8) = n"
  by (simp add: unat_of_nat)

lemma uint8_toa_eq: "uint8_toa val = dec_digits (unat val)"
proof -
  define n where "n = unat val"
  have n: "n < 256" using unsigned_less [of val] by (simp add: n_def)
  have lt: "val < 10 \<longleftrightarrow> n < 10" "val < 100 \<longleftrightarrow> n < 100"
    by (simp_all add: n_def word_less_nat_alt)
  consider "n < 10" | "10 \<le> n" "n < 100" | "100 \<le> n" by linarith
  then show ?thesis
  proof cases
    case 1
    then show ?thesis by (simp add: uint8_toa_def lt dec_digits_lt10 flip: n_def) (simp add: n_def)
  next
    case 2
    have "val - of_nat (n div 10) * 10 = of_nat (n mod 10)"
      using word_minus_div_mod [of val 10] by (simp add: n_def)
    with 2 show ?thesis
      by (simp add: uint8_toa_def lt mul205_div10 dec_digits_step dec_digits_lt10 Let_def flip: n_def)
  next
    case 3
    define r where "r = val - of_nat (n div 100) * 100"
    have r: "r = of_nat (n mod 100)"
      using word_minus_div_mod [of val 100] by (simp add: n_def r_def)
    then have ur: "unat r = n mod 100" by (simp add: unat_of_nat_u8)
    have "r - of_nat (n mod 100 div 10) * 10 = of_nat (n mod 100 mod 10)"
      using word_minus_div_mod [of r 10] by (simp add: ur)
    moreover have "n mod 100 mod 10 = n mod 10" by (simp add: mod_mod_cancel)
    moreover have "n mod 100 div 10 = n div 10 mod 10"
      using mod_mult2_eq [of n 10 10] by simp
    moreover have "n div 10 div 10 = n div 100" by (simp add: div_mult2_eq [symmetric])
    moreover have "10 \<le> n div 10" "n div 100 < 10" using 3 n by simp_all
    ultimately show ?thesis using 3 n
      by (simp add: uint8_toa_def lt mul164_div100 mul205_div10 dec_digits_step dec_digits_lt10
          Let_def ur flip: n_def r_def)
  qed
qed

lemma uint16_toa_eq: "uint16_toa val = dec_digits (unat val)"
proof -
  define n where "n = unat val"
  have v: "val = of_nat n" by (simp add: n_def)
  have n: "n < 65536" using unsigned_less [of val] by (simp add: n_def)
  have ge: "val \<ge> 10000 \<longleftrightarrow> n \<ge> 10000" "val \<ge> 1000 \<longleftrightarrow> n \<ge> 1000" "val \<ge> 100 \<longleftrightarrow> n \<ge> 100"
    "val \<ge> 10 \<longleftrightarrow> n \<ge> 10"
    by (simp_all add: n_def word_le_nat_alt)
  have c: "ucast (val div 10000) = (of_nat (n div 10000) :: u8)"
    "ucast (val div 1000 mod 10) = (of_nat (n div 1000 mod 10) :: u8)"
    "ucast (val div 100 mod 10) = (of_nat (n div 100 mod 10) :: u8)"
    "ucast (val div 10 mod 10) = (of_nat (n div 10 mod 10) :: u8)"
    "ucast (val mod 10) = (of_nat (n mod 10) :: u8)"
    unfolding ucast_u16_u8 by (simp_all add: n_def unat_div unat_mod)
  have d: "n div 10 div 10 = n div 100" "n div 100 div 10 = n div 1000"
    "n div 1000 div 10 = n div 10000"
    by (simp_all add: div_mult2_eq [symmetric])
  have s: "n div 10000 < 10" using n by simp
  show ?thesis
    unfolding uint16_toa_def ge c n_def [symmetric]
    using s by (simp add: dec_digits_step dec_digits_lt10 d)
qed

section \<open>Hexadecimal printing and reading\<close>

lemma uint16_toax_eq: "uint16_toax val = hex_digits (unat val)"
proof -
  define n where "n = unat val"
  have n: "n < 65536" using unsigned_less [of val] by (simp add: n_def)
  have ge: "val \<ge> 0x1000 \<longleftrightarrow> n \<ge> 4096" "val \<ge> 0x100 \<longleftrightarrow> n \<ge> 256" "val \<ge> 0x10 \<longleftrightarrow> n \<ge> 16"
    by (simp_all add: n_def word_le_nat_alt)
  have c: "unat (drop_bit 12 val AND 0xf) = n div 4096 mod 16"
    "unat (drop_bit 8 val AND 0xf) = n div 256 mod 16"
    "unat (drop_bit 4 val AND 0xf) = n div 16 mod 16"
    "unat (val AND 0xf) = n mod 16"
    unfolding unat_and_15 n_def by (simp_all only: unat_drop_bit_eq) (simp_all add: drop_bit_eq_div)
  have d: "n div 16 div 16 = n div 256" "n div 256 div 16 = n div 4096"
    by (simp_all add: div_mult2_eq [symmetric])
  have s: "n div 4096 < 16" using n by simp
  show ?thesis
    unfolding uint16_toax_def ge c n_def [symmetric]
    using s by (simp add: hex_digits_step hex_digits_lt16 d)
qed

lemma hex_to_nibble_lower: "n < 16 \<Longrightarrow> hex_to_nibble (hex_table ! n) = of_nat n"
  by (drule less_16_cases) (auto simp: hex_to_nibble_def hex_table_def)

lemma hex_to_nibble_upper:
  "n < 6 \<Longrightarrow> hex_to_nibble (ascii ''ABCDEF'' ! n) = of_nat (n + 10)"
  using less_16_cases [of n] by (auto simp: hex_to_nibble_def)

section \<open>Big-endian integers\<close>

lemma length_enc_u16 [simp]: "length (enc_u16 v) = 2"
  by (simp add: enc_u16_def)

lemma length_enc_u32 [simp]: "length (enc_u32 v) = 4"
  by (simp add: enc_u32_def)

lemma dec_enc_u16: "dec_u16 (xs @ enc_u16 v @ ys) (length xs) = v"
  unfolding dec_u16_def enc_u16_def
  by (rule bit_word_eqI) (auto simp: nth_append bit_simps)

lemma dec_enc_u32: "dec_u32 (xs @ enc_u32 v @ ys) (length xs) = v"
  unfolding dec_u32_def enc_u32_def
proof (rule bit_word_eqI)
  fix n assume "n < LENGTH(32)"
  then consider "n < 8" | "8 \<le> n" "n < 16" | "16 \<le> n" "n < 24" | "24 \<le> n" "n < 32" by fastforce
  then show "bit (push_bit 24 (ucast ((xs @ [ucast (drop_bit 24 v), ucast (drop_bit 16 v),
      ucast (drop_bit 8 v), ucast v] @ ys) ! length xs)) OR
    push_bit 16 (ucast ((xs @ [ucast (drop_bit 24 v), ucast (drop_bit 16 v),
      ucast (drop_bit 8 v), ucast v] @ ys) ! (length xs + 1))) OR
    push_bit 8 (ucast ((xs @ [ucast (drop_bit 24 v), ucast (drop_bit 16 v),
      ucast (drop_bit 8 v), ucast v] @ ys) ! (length xs + 2))) OR
    ucast ((xs @ [ucast (drop_bit 24 v), ucast (drop_bit 16 v),
      ucast (drop_bit 8 v), ucast v] @ ys) ! (length xs + 3)) :: u32) n = bit v n"
    by cases (auto simp: nth_append bit_simps)
qed

lemma enc_dec_u16: "i + 2 \<le> length buf \<Longrightarrow> enc_u16 (dec_u16 buf i) = segment buf i (i + 2)"
proof (rule nth_equalityI)
  fix k assume "i + 2 \<le> length buf" "k < length (enc_u16 (dec_u16 buf i))"
  then have "k = 0 \<or> k = 1" by auto
  then show "enc_u16 (dec_u16 buf i) ! k = segment buf i (i + 2) ! k"
    using \<open>i + 2 \<le> length buf\<close>
    by (auto simp: nth_segment enc_u16_def dec_u16_def intro!: bit_word_eqI)
      (auto simp: bit_simps dest: bit_imp_le_length)
qed auto

end
