(* ===== verification/Strings.thy ===== *)
theory Strings
  imports Codec
begin

text \<open>
  The string, slice and bounded string buffer helpers of \<open>src/src/str_util.h\<close>.  A pair of pointer
  and length is the list of bytes it spans; a \<open>struct slice\<close> is \<^term>\<open>None\<close> for
  \<open>{ NULL, 0 }\<close> and \<^term>\<open>Some b\<close> for a pointer to the bytes \<open>b\<close>, so that the tests for a
  null pointer in the code are visible.  A function that advances a \<open>struct slice *\<close> returns the
  new slice beside its result.  The lemmas show what a split, trim or comparison computes, that
  the decimal reader inverts the printer, and that an append to an \<open>sbuf\<close> is all or nothing.
\<close>

section \<open>Characters and strings\<close>

definition is_white :: "u8 \<Rightarrow> bool" where
  "is_white ch \<longleftrightarrow> ch = 32 \<or> ch = 9 \<or> ch = 11 \<or> ch = 13 \<or> ch = 10"

definition is_numeral :: "u8 \<Rightarrow> bool" where
  "is_numeral ch \<longleftrightarrow> ch \<ge> 48 \<and> ch \<le> 57"

fun str_tolower :: "bytes \<Rightarrow> bytes" where
  "str_tolower [] = []"
| "str_tolower (ch # str) = (if ch \<ge> 65 \<and> ch \<le> 90 then ch + 0x20 else ch) # str_tolower str"

fun str_toupper :: "bytes \<Rightarrow> bytes" where
  "str_toupper [] = []"
| "str_toupper (ch # str) = (if ch \<ge> 97 \<and> ch \<le> 122 then ch - 0x20 else ch) # str_toupper str"

fun str_countch :: "bytes \<Rightarrow> u8 \<Rightarrow> nat" where
  "str_countch [] ch = 0"
| "str_countch (c # str) ch = (if c = ch then 1 else 0) + str_countch str ch"

text \<open>\<open>return len1 - len2\<close> converts a \<open>size_t\<close> difference to \<open>int\<close>.\<close>

definition str_cmp :: "bytes \<Rightarrow> bytes \<Rightarrow> int" where
  "str_cmp s1 s2 =
    (if length s1 \<noteq> length s2 then
       (let len = min (length s1) (length s2);
            rc = memcmp (take len s1) (take len s2)
        in if rc \<noteq> 0 then rc else c_int (int (length s1) - int (length s2)))
     else memcmp s1 s2)"

definition casefold :: "u8 \<Rightarrow> u8" where
  "casefold c = (if c \<ge> 65 \<and> c \<le> 90 then c OR 0x20 else c)"

fun casecmp_loop :: "nat \<Rightarrow> bytes \<Rightarrow> bytes \<Rightarrow> int option" where
  "casecmp_loop (Suc len) (s1 # ss1) (s2 # ss2) =
    (let c1 = casefold s1; c2 = casefold s2
     in if c1 \<noteq> c2 then Some (sint c1 - sint c2) else casecmp_loop len ss1 ss2)"
| "casecmp_loop _ _ _ = None"

definition str_casecmp :: "bytes \<Rightarrow> bytes \<Rightarrow> int" where
  "str_casecmp s1 s2 =
    (case casecmp_loop (min (length s1) (length s2)) s1 s2 of
       Some rc \<Rightarrow> rc
     | None \<Rightarrow> if length s1 = length s2 then 0 else c_int (int (length s1) - int (length s2)))"

definition str_startswith :: "bytes \<Rightarrow> u8 \<Rightarrow> bool" where
  "str_startswith str ch \<longleftrightarrow> length str \<noteq> 0 \<and> str ! 0 = ch"

definition str_endswith :: "bytes \<Rightarrow> u8 \<Rightarrow> bool" where
  "str_endswith str ch \<longleftrightarrow> length str \<noteq> 0 \<and> str ! (length str - 1) = ch"

fun all_numeral :: "bytes \<Rightarrow> bool" where
  "all_numeral [] = True"
| "all_numeral (c # str) = (if \<not> is_numeral c then False else all_numeral str)"

definition str_isnumeric :: "bytes \<Rightarrow> bool" where
  "str_isnumeric str = (if length str = 0 then False else all_numeral str)"

fun tou32_loop :: "bytes \<Rightarrow> u32 \<Rightarrow> u32" where
  "tou32_loop [] val = val"
| "tou32_loop (c # str) val =
    (if is_numeral c
     then tou32_loop str (push_bit 3 val + push_bit 1 val + (ucast c - 48))
     else val)"

definition str_tou32 :: "bytes \<Rightarrow> u32" where
  "str_tou32 str = tou32_loop str 0"

section \<open>Slices\<close>

type_synonym slice = "bytes option"

definition slice_bytes :: "slice \<Rightarrow> bytes" where
  "slice_bytes s = (case s of None \<Rightarrow> [] | Some b \<Rightarrow> b)"

lemma slice_bytes_simps [simp]: "slice_bytes None = []" "slice_bytes (Some b) = b"
  by (simp_all add: slice_bytes_def)

definition slice_tocstr :: "slice \<Rightarrow> bytes \<Rightarrow> nat \<Rightarrow> bool \<times> bytes" where
  "slice_tocstr val dst len =
    (let b = slice_bytes val
     in if length b + 1 > len then (False, dst) else (True, write_at dst 0 (b @ [0])))"

definition slice_cmp :: "slice \<Rightarrow> slice \<Rightarrow> int" where
  "slice_cmp s1 s2 = str_cmp (slice_bytes s1) (slice_bytes s2)"

definition slice_cmpmem :: "slice \<Rightarrow> bytes \<Rightarrow> int" where
  "slice_cmpmem s mem = str_cmp (slice_bytes s) mem"

definition slice_casecmp :: "slice \<Rightarrow> slice \<Rightarrow> int" where
  "slice_casecmp s1 s2 = str_casecmp (slice_bytes s1) (slice_bytes s2)"

text \<open>
  \<open>slice_unbracket\<close> tests the byte at index \<open>len\<close> of the shortened slice, which is the byte after
  the slice in memory: it is the argument \<open>next\<close>.  When nothing is left of the slice, the length
  wraps around to the largest \<open>size_t\<close>; that slice has no contents, and the result is \<^term>\<open>None\<close>.
\<close>

definition slice_unbracket :: "slice \<Rightarrow> u8 \<Rightarrow> u8 \<Rightarrow> u8 \<Rightarrow> slice option" where
  "slice_unbracket str next left right =
    (case str of
       Some (c # b) \<Rightarrow>
         if c = left then
           let len = (if next = right then sz_sub (length b) 1 else length b)
           in if len > length b then None else Some (Some (take len b))
         else Some str
     | _ \<Rightarrow> Some str)"

definition slice_chop :: "slice \<Rightarrow> u8 \<Rightarrow> slice" where
  "slice_chop str ch =
    (case memchr (slice_bytes str) ch of
       Some i \<Rightarrow> Some (take i (slice_bytes str))
     | None \<Rightarrow> str)"

definition slice_splitch :: "slice \<Rightarrow> u8 \<Rightarrow> slice \<times> slice" where
  "slice_splitch src ch =
    (case src of
       None \<Rightarrow> (None, None)
     | Some b \<Rightarrow>
         (case memchr b ch of
            Some i \<Rightarrow> (Some (take i b), Some (drop (i + 1) b))
          | None \<Rightarrow> (Some b, None)))"

definition slice_splitset :: "slice \<Rightarrow> bytes \<Rightarrow> slice \<times> slice" where
  "slice_splitset src dset =
    (case src of
       None \<Rightarrow> (None, None)
     | Some b \<Rightarrow>
         (let tok = takeWhile (\<lambda>c. memchr dset c = None) b;
              rest = dropWhile (\<lambda>c. memchr dset c \<noteq> None) (drop (length tok) b)
          in (Some tok, Some rest)))"

definition slice_rsplit :: "slice \<Rightarrow> u8 \<Rightarrow> slice \<times> slice" where
  "slice_rsplit src ch =
    (case src of
       None \<Rightarrow> (None, None)
     | Some b \<Rightarrow>
         (case memrchr b ch of
            Some len \<Rightarrow> (Some (drop (len + 1) b), Some (take len b))
          | None \<Rightarrow> (None, Some b)))"

fun ltrim_loop :: "bytes \<Rightarrow> bytes" where
  "ltrim_loop [] = []"
| "ltrim_loop (c # b) = (if is_white c then ltrim_loop b else c # b)"

function rtrim_loop :: "bytes \<Rightarrow> nat \<Rightarrow> nat" where
  "rtrim_loop b len = (if len \<noteq> 0 \<and> is_white (b ! (len - 1)) then rtrim_loop b (len - 1) else len)"
  by auto
termination by (relation "measure snd") auto

declare rtrim_loop.simps [simp del]

definition slice_ltrim :: "slice \<Rightarrow> slice" where
  "slice_ltrim str = map_option ltrim_loop str"

definition slice_rtrim :: "slice \<Rightarrow> slice" where
  "slice_rtrim str = map_option (\<lambda>b. take (rtrim_loop b (length b)) b) str"

definition slice_trim :: "slice \<Rightarrow> slice" where
  "slice_trim str = slice_ltrim (slice_rtrim str)"

text \<open>A C string is given as the bytes before its terminator, a null pointer as \<open>None\<close>.\<close>

definition slice_cmpstr :: "slice \<Rightarrow> slice \<Rightarrow> int" where
  "slice_cmpstr s str = str_cmp (slice_bytes s) (slice_bytes str)"

definition slice_casecmpmem :: "slice \<Rightarrow> bytes \<Rightarrow> int" where
  "slice_casecmpmem s mem = str_casecmp (slice_bytes s) mem"

definition slice_casecmpstr :: "slice \<Rightarrow> slice \<Rightarrow> int" where
  "slice_casecmpstr s str = str_casecmp (slice_bytes s) (slice_bytes str)"

definition slice_startswith :: "slice \<Rightarrow> u8 \<Rightarrow> bool" where
  "slice_startswith str ch = str_startswith (slice_bytes str) ch"

definition slice_endswith :: "slice \<Rightarrow> u8 \<Rightarrow> bool" where
  "slice_endswith str ch = str_endswith (slice_bytes str) ch"

definition slice_isnumeric :: "slice \<Rightarrow> bool" where
  "slice_isnumeric str = str_isnumeric (slice_bytes str)"

definition slice_countch :: "slice \<Rightarrow> u8 \<Rightarrow> nat" where
  "slice_countch str ch = str_countch (slice_bytes str) ch"

definition slice_tou32 :: "slice \<Rightarrow> u32" where
  "slice_tou32 str = str_tou32 (slice_bytes str)"

definition slice_toupper :: "slice \<Rightarrow> slice" where
  "slice_toupper str = map_option str_toupper str"

definition slice_tolower :: "slice \<Rightarrow> slice" where
  "slice_tolower str = map_option str_tolower str"

section \<open>String buffers\<close>

text \<open>
  \<open>sb_mem\<close> is the memory from \<open>mem\<close> to \<open>end\<close>, \<open>sb_ptr\<close> the index of \<open>ptr\<close> in it.  A null
  \<open>mem\<close> gives an empty buffer.
\<close>

record sbuf =
  sb_mem :: bytes
  sb_ptr :: nat

definition sbuf_init :: "bytes option \<Rightarrow> sbuf" where
  "sbuf_init mem = \<lparr> sb_mem = (case mem of None \<Rightarrow> [] | Some m \<Rightarrow> m), sb_ptr = 0 \<rparr>"

definition sbuf_reset :: "sbuf \<Rightarrow> sbuf" where
  "sbuf_reset buf = buf\<lparr> sb_ptr := 0 \<rparr>"

definition sbuf_len :: "sbuf \<Rightarrow> nat" where
  "sbuf_len buf = length (sb_mem buf)"

definition sbuf_rem :: "sbuf \<Rightarrow> nat" where
  "sbuf_rem buf = length (sb_mem buf) - sb_ptr buf"

definition sbuf_pos :: "sbuf \<Rightarrow> nat" where
  "sbuf_pos buf = sb_ptr buf"

definition sbuf_end :: "sbuf \<Rightarrow> bool" where
  "sbuf_end buf \<longleftrightarrow> sb_ptr buf \<ge> length (sb_mem buf)"

definition sbuf_mksp :: "sbuf \<Rightarrow> nat \<Rightarrow> nat option \<times> sbuf" where
  "sbuf_mksp buf len =
    (if len > sbuf_rem buf then (None, buf)
     else (Some (sb_ptr buf), buf\<lparr> sb_ptr := sb_ptr buf + len \<rparr>))"

definition sbuf_endz :: "sbuf \<Rightarrow> sbuf" where
  "sbuf_endz buf =
    (if sb_ptr buf < length (sb_mem buf) then buf\<lparr> sb_mem := write_at (sb_mem buf) (sb_ptr buf) [0] \<rparr>
     else buf)"

definition sbuf_store :: "sbuf \<Rightarrow> nat \<Rightarrow> bytes \<Rightarrow> sbuf" where
  "sbuf_store buf wptr b = buf\<lparr> sb_mem := write_at (sb_mem buf) wptr b \<rparr>"

definition sbuf_putm :: "sbuf \<Rightarrow> bytes \<Rightarrow> nat \<times> sbuf" where
  "sbuf_putm buf mem =
    (case sbuf_mksp buf (length mem) of
       (None, buf') \<Rightarrow> (0, buf')
     | (Some wptr, buf') \<Rightarrow> (length mem, sbuf_store buf' wptr mem))"

definition sbuf_putmc :: "sbuf \<Rightarrow> bytes \<Rightarrow> u8 \<Rightarrow> nat \<times> sbuf" where
  "sbuf_putmc buf mem c =
    (case sbuf_mksp buf (length mem + 1) of
       (None, buf') \<Rightarrow> (0, buf')
     | (Some wptr, buf') \<Rightarrow>
         (length mem + 1, sbuf_store (sbuf_store buf' wptr mem) (wptr + length mem) [c]))"

definition sbuf_putmz :: "sbuf \<Rightarrow> bytes \<Rightarrow> nat \<times> sbuf" where
  "sbuf_putmz buf mem = sbuf_putmc buf mem 0"

definition sbuf_putcm :: "sbuf \<Rightarrow> u8 \<Rightarrow> bytes \<Rightarrow> nat \<times> sbuf" where
  "sbuf_putcm buf c mem =
    (case sbuf_mksp buf (length mem + 1) of
       (None, buf') \<Rightarrow> (0, buf')
     | (Some wptr, buf') \<Rightarrow>
         (length mem + 1, sbuf_store (sbuf_store buf' wptr [c]) (wptr + 1) mem))"

definition sbuf_puticm :: "sbuf \<Rightarrow> u8 \<Rightarrow> bytes \<Rightarrow> nat \<times> sbuf" where
  "sbuf_puticm buf ch mem =
    (if sbuf_pos buf \<noteq> 0 then sbuf_putcm buf ch mem else sbuf_putm buf mem)"

definition sbuf_puts :: "sbuf \<Rightarrow> bytes option \<Rightarrow> nat \<times> sbuf" where
  "sbuf_puts buf str = (case str of None \<Rightarrow> (0, buf) | Some s \<Rightarrow> sbuf_putm buf s)"

definition sbuf_putcs :: "sbuf \<Rightarrow> u8 \<Rightarrow> bytes option \<Rightarrow> nat \<times> sbuf" where
  "sbuf_putcs buf ch str = (case str of None \<Rightarrow> (0, buf) | Some s \<Rightarrow> sbuf_putcm buf ch s)"

section \<open>Comparison\<close>

lemma c_int_length_diff [simp]:
  assumes "length xs < 2 ^ 31" "length ys < 2 ^ 31"
  shows "c_int (int (length xs) - int (length ys)) = int (length xs) - int (length ys)"
  using assms by (intro c_int_id; simp)

text \<open>Below two gigabytes \<open>str_cmp\<close> returns zero exactly on equal strings.\<close>

lemma str_cmp_eq_0:
  assumes "length s1 < 2 ^ 31" "length s2 < 2 ^ 31"
  shows "str_cmp s1 s2 = 0 \<longleftrightarrow> s1 = s2"
  using assms by (auto simp: str_cmp_def Let_def)

lemma str_cmp_eq_len: "length s1 = length s2 \<Longrightarrow> str_cmp s1 s2 = 0 \<longleftrightarrow> s1 = s2"
  by (simp add: str_cmp_def)

lemma casecmp_loop_None:
  "length s1 = n \<Longrightarrow> length s2 = n \<Longrightarrow>
   casecmp_loop n s1 s2 = None \<longleftrightarrow> map casefold s1 = map casefold s2"
proof (induction n arbitrary: s1 s2)
  case (Suc n)
  then show ?case
    by (cases s1; cases s2) (auto simp: Let_def)
qed simp

lemma sint_inject: "sint v = sint w \<longleftrightarrow> v = w"
  by (metis of_int_sint scast_id)

lemma casecmp_loop_Some:
  "length s1 = n \<Longrightarrow> length s2 = n \<Longrightarrow> casecmp_loop n s1 s2 = Some rc \<Longrightarrow> rc \<noteq> 0"
proof (induction n arbitrary: s1 s2)
  case (Suc n)
  then show ?case
    by (cases s1; cases s2) (auto simp: Let_def sint_inject split: if_splits)
qed simp

lemma casecmp_loop_take:
  "casecmp_loop n s1 s2 = casecmp_loop n (take n s1) (take n s2)"
  by (induction n s1 s2 rule: casecmp_loop.induct) (auto simp: Let_def)

lemma str_casecmp_eq_0:
  assumes "length s1 < 2 ^ 31" "length s2 < 2 ^ 31"
  shows "str_casecmp s1 s2 = 0 \<longleftrightarrow> map casefold s1 = map casefold s2"
proof (cases "length s1 = length s2")
  case True
  then have "casecmp_loop (length s1) s1 s2 = None \<longleftrightarrow> map casefold s1 = map casefold s2"
    by (intro casecmp_loop_None) simp_all
  moreover have "casecmp_loop (length s1) s1 s2 = Some rc \<Longrightarrow> rc \<noteq> 0" for rc
    using True by (intro casecmp_loop_Some [of s1 "length s1" s2]) simp_all
  ultimately show ?thesis
    using True by (cases "casecmp_loop (length s1) s1 s2") (simp_all add: str_casecmp_def)
next
  case False
  define n where "n = min (length s1) (length s2)"
  have l: "length (take n s1) = n" "length (take n s2) = n" by (simp_all add: n_def)
  have "str_casecmp s1 s2 \<noteq> 0"
  proof (cases "casecmp_loop n s1 s2")
    case None
    with False assms show ?thesis
      unfolding str_casecmp_def n_def [symmetric] by simp
  next
    case (Some rc)
    then have "rc \<noteq> 0"
      using casecmp_loop_Some [OF l] by (subst (asm) casecmp_loop_take) blast
    with Some show ?thesis
      unfolding str_casecmp_def n_def [symmetric] by simp
  qed
  moreover have "map casefold s1 \<noteq> map casefold s2"
    using False map_eq_imp_length_eq by blast
  ultimately show ?thesis by simp
qed

section \<open>Reading numbers\<close>

lemma is_numeral_digit: "d < 10 \<Longrightarrow> is_numeral (of_nat d + 48)"
  using less_16_cases [of d] by (auto simp: is_numeral_def)

lemma ucast_digit: "d < 10 \<Longrightarrow> ucast (of_nat d + 48 :: u8) - 48 = (of_nat d :: u32)"
  using less_16_cases [of d] by auto

lemma tou32_loop_Cons:
  "tou32_loop (c # str) val =
    (if is_numeral c then tou32_loop str (10 * val + (ucast c - 48)) else val)"
  by (simp add: push_bit_eq_mult)

declare tou32_loop.simps(2) [simp del]

text \<open>Reading the digits of \<open>n\<close> yields \<open>n\<close> modulo \<open>2 ^ 32\<close>, whatever follows them.\<close>

lemma tou32_loop_dec_digits:
  "tou32_loop (dec_digits n @ ys) 0 = tou32_loop ys (of_nat n)"
proof (induction n arbitrary: ys rule: dec_digits.induct)
  case (1 n)
  show ?case
  proof (cases "n < 10")
    case True
    then show ?thesis
      by (simp add: dec_digits_lt10 is_numeral_digit ucast_digit tou32_loop_Cons)
  next
    case False
    have "n = 10 * (n div 10) + n mod 10" by simp
    then have "(of_nat n :: u32) = 10 * of_nat (n div 10) + of_nat (n mod 10)"
      by (metis of_nat_add of_nat_mult of_nat_numeral)
    moreover have "tou32_loop (dec_digits (n div 10) @ (of_nat (n mod 10) + 48) # ys) 0 =
        tou32_loop ((of_nat (n mod 10) + 48) # ys) (of_nat (n div 10))"
      using 1 [of "(of_nat (n mod 10) + 48) # ys"] False by simp
    ultimately show ?thesis
      using False by (simp add: dec_digits_step is_numeral_digit ucast_digit tou32_loop_Cons)
  qed
qed

lemma str_tou32_dec_digits: "str_tou32 (dec_digits n) = of_nat n"
  using tou32_loop_dec_digits [of n "[]"] by (simp add: str_tou32_def)

lemma all_numeral_iff [simp]: "all_numeral s \<longleftrightarrow> (\<forall>c \<in> set s. is_numeral c)"
  by (induction s) auto

lemma dec_digits_numeral: "\<forall>c \<in> set (dec_digits n). is_numeral c"
proof (induction n rule: dec_digits.induct)
  case (1 n)
  then show ?case
    by (cases "n < 10") (auto simp: dec_digits_lt10 dec_digits_step is_numeral_digit)
qed

lemma dec_digits_nonempty [simp]: "dec_digits n \<noteq> []"
  by (subst dec_digits.simps) simp

section \<open>Splitting\<close>

lemma slice_splitch_Some:
  "slice_splitch (Some b) ch = (tok, Some rest) \<longleftrightarrow>
   (\<exists>t. tok = Some t \<and> b = t @ ch # rest \<and> ch \<notin> set t)"
proof (cases "memchr b ch")
  case None
  then show ?thesis
    using memchr_None [THEN iffD1, OF None] by (auto simp: slice_splitch_def)
next
  case (Some i)
  note d = memchr_SomeD [OF Some] and s = memchr_split [OF Some]
  show ?thesis
  proof
    assume "slice_splitch (Some b) ch = (tok, Some rest)"
    with Some d s show "\<exists>t. tok = Some t \<and> b = t @ ch # rest \<and> ch \<notin> set t"
      by (auto simp: slice_splitch_def)
  next
    assume "\<exists>t. tok = Some t \<and> b = t @ ch # rest \<and> ch \<notin> set t"
    with Some show "slice_splitch (Some b) ch = (tok, Some rest)"
      by (auto simp: slice_splitch_def memchr_append_found)
  qed
qed

lemma slice_splitch_None:
  "slice_splitch (Some b) ch = (tok, None) \<longleftrightarrow> tok = Some b \<and> ch \<notin> set b"
  by (auto simp: slice_splitch_def memchr_None split: option.split dest: memchr_SomeD)

lemma slice_splitset_spec:
  assumes "slice_splitset (Some b) dset = (Some tok, Some rest)"
  obtains seps where "b = tok @ seps @ rest" "set tok \<inter> set dset = {}" "set seps \<subseteq> set dset"
    "rest = [] \<or> hd rest \<notin> set dset" "tok = b \<or> seps \<noteq> []"
proof -
  define d where "d = dropWhile (\<lambda>c. c \<notin> set dset) b"
  have h: "d \<noteq> [] \<Longrightarrow> hd d \<in> set dset"
    using hd_dropWhile [of "\<lambda>c. c \<notin> set dset" b] by (simp add: d_def)
  have tok: "tok = takeWhile (\<lambda>c. c \<notin> set dset) b"
    using assms by (simp add: slice_splitset_def Let_def memchr_None)
  moreover have "drop (length tok) b = d"
    unfolding tok d_def by (simp add: dropWhile_eq_drop)
  ultimately have rest: "rest = dropWhile (\<lambda>c. c \<in> set dset) d"
    using assms by (simp add: slice_splitset_def Let_def memchr_None)
  have b: "b = tok @ d" unfolding tok d_def by simp
  show ?thesis
  proof (rule that)
    show "b = tok @ takeWhile (\<lambda>c. c \<in> set dset) d @ rest" using b rest by simp
    show "set tok \<inter> set dset = {}" using tok by (auto dest: set_takeWhileD)
    show "set (takeWhile (\<lambda>c. c \<in> set dset) d) \<subseteq> set dset" by (auto dest: set_takeWhileD)
    show "rest = [] \<or> hd rest \<notin> set dset" using rest hd_dropWhile by blast
    show "tok = b \<or> takeWhile (\<lambda>c. c \<in> set dset) d \<noteq> []"
      using b h by (cases d) auto
  qed
qed

lemma memrchr_SomeD:
  assumes "memrchr xs c = Some i"
  shows "xs = take i xs @ c # drop (Suc i) xs" "c \<notin> set (drop (Suc i) xs)"
proof -
  obtain j where j: "memchr (rev xs) c = Some j" "i = length xs - 1 - j"
    using assms by (auto simp: memrchr_def)
  note d = memchr_SomeD [OF j(1)]
  then have i: "i < length xs" "xs ! i = c" using j(2) by (auto simp: rev_nth)
  then show "xs = take i xs @ c # drop (Suc i) xs" by (metis id_take_nth_drop)
  have "take j (rev xs) = rev (drop (Suc i) xs)"
    using d j(2) by (simp add: take_rev Suc_diff_Suc)
  with d show "c \<notin> set (drop (Suc i) xs)" by (metis set_rev)
qed

lemma slice_rsplit_Some:
  assumes "slice_rsplit (Some b) ch = (Some tok, rest)"
  shows "\<exists>r. rest = Some r \<and> b = r @ ch # tok \<and> ch \<notin> set tok"
  using assms by (auto simp: slice_rsplit_def split: option.splits dest: memrchr_SomeD)

section \<open>Trimming\<close>

lemma ltrim_loop_eq: "ltrim_loop b = dropWhile is_white b"
  by (induction b) auto

lemma rtrim_loop_eq:
  "n \<le> length b \<Longrightarrow> take (rtrim_loop b n) b = rev (dropWhile is_white (rev (take n b)))"
proof (induction n)
  case (Suc n)
  then have "take (Suc n) b = take n b @ [b ! n]" by (simp add: take_Suc_conv_app_nth)
  with Suc show ?case by (subst rtrim_loop.simps) simp
qed (simp add: rtrim_loop.simps)

lemma slice_trim_spec:
  assumes "slice_trim (Some b) = Some r"
  obtains l t where "b = l @ r @ t" "\<forall>c \<in> set l \<union> set t. is_white c"
    "r = [] \<or> \<not> is_white (hd r) \<and> \<not> is_white (last r)"
proof -
  define m where "m = rev (dropWhile is_white (rev b))"
  define t where "t = rev (takeWhile is_white (rev b))"
  have r: "r = dropWhile is_white m"
    using assms rtrim_loop_eq [of "length b" b]
    by (simp add: slice_trim_def slice_ltrim_def slice_rtrim_def ltrim_loop_eq m_def)
  have "rev b = rev t @ rev m" by (simp add: m_def t_def)
  then have b: "b = m @ t" by (metis rev_append rev_rev_ident)
  have m: "m = takeWhile is_white m @ r" using r by simp
  have ends: "\<not> is_white (last r)" "\<not> is_white (hd r)" if "r \<noteq> []"
  proof -
    have "last r = last m" "m \<noteq> []" using m that by (metis last_appendR, auto)
    then show "\<not> is_white (last r)"
      using hd_dropWhile [of is_white "rev b"] by (simp add: m_def last_rev)
    show "\<not> is_white (hd r)" using r that hd_dropWhile by blast
  qed
  show ?thesis
  proof (rule that [of "takeWhile is_white m" t])
    show "b = takeWhile is_white m @ r @ t" using b m by (metis append_assoc)
    show "\<forall>c \<in> set (takeWhile is_white m) \<union> set t. is_white c"
      by (auto simp: t_def dest: set_takeWhileD)
  qed (use ends in blast)
qed

section \<open>Appending to a string buffer\<close>

definition sbuf_ok :: "sbuf \<Rightarrow> bool" where
  "sbuf_ok b \<longleftrightarrow> sb_ptr b \<le> length (sb_mem b)"

definition sbuf_text :: "sbuf \<Rightarrow> bytes" where
  "sbuf_text b = take (sb_ptr b) (sb_mem b)"

text \<open>A run of calls of one append operation, with the lengths they return added up.\<close>

fun put_all :: "(sbuf \<Rightarrow> 'a \<Rightarrow> nat \<times> sbuf) \<Rightarrow> sbuf \<Rightarrow> 'a list \<Rightarrow> nat \<times> sbuf" where
  "put_all put b [] = (0, b)"
| "put_all put b (x # xs) = (let (n, b') = put b x; (m, b'') = put_all put b' xs in (n + m, b''))"

text \<open>
  What every append operation promises: the bytes it stands for are stored whole when they fit in
  the remaining space, and the buffer is untouched otherwise.
\<close>

locale sbuf_appender =
  fixes put :: "sbuf \<Rightarrow> 'a \<Rightarrow> nat \<times> sbuf"
    and out :: "'a \<Rightarrow> bytes"
  assumes put_fits: "\<lbrakk>sbuf_ok b; length (out x) \<le> sbuf_rem b\<rbrakk> \<Longrightarrow>
      put b x = (length (out x),
        b\<lparr> sb_mem := write_at (sb_mem b) (sb_ptr b) (out x), sb_ptr := sb_ptr b + length (out x) \<rparr>)"
    and put_full: "\<lbrakk>sbuf_ok b; sbuf_rem b < length (out x)\<rbrakk> \<Longrightarrow> put b x = (0, b)"
begin

lemma put_cases [case_names fits full]:
  assumes "sbuf_ok b"
  obtains "length (out x) \<le> sbuf_rem b" "fst (put b x) = length (out x)"
      "sbuf_text (snd (put b x)) = sbuf_text b @ out x"
      "length (sb_mem (snd (put b x))) = length (sb_mem b)"
      "drop (sb_ptr (snd (put b x))) (sb_mem (snd (put b x))) = drop (sb_ptr b + length (out x)) (sb_mem b)"
      "sb_ptr (snd (put b x)) = sb_ptr b + length (out x)"
    | "sbuf_rem b < length (out x)" "put b x = (0, b)"
proof (cases "length (out x) \<le> sbuf_rem b")
  case True
  then show ?thesis
    using assms by (intro that(1)) (auto simp: put_fits sbuf_ok_def sbuf_text_def sbuf_rem_def buffer_simps)
next
  case False
  then show ?thesis
    using assms by (intro that(2)) (auto simp: put_full)
qed

lemma put_ok: "sbuf_ok b \<Longrightarrow> sbuf_ok (snd (put b x))"
  by (cases rule: put_cases [of b x]) (auto simp: sbuf_ok_def sbuf_rem_def)

lemma put_count:
  "sbuf_ok b \<Longrightarrow> sb_ptr (snd (put b x)) = sb_ptr b + fst (put b x)"
  by (cases rule: put_cases [of b x]) auto

lemma put_len: "sbuf_ok b \<Longrightarrow> length (sb_mem (snd (put b x))) = length (sb_mem b)"
  by (cases rule: put_cases [of b x]) auto

text \<open>A run of appends that fits in the buffer leaves exactly the concatenation of its parts.\<close>

lemma put_all_fits:
  assumes "sbuf_ok b" "length (concat (map out xs)) \<le> sbuf_rem b"
  shows "fst (put_all put b xs) = length (concat (map out xs)) \<and>
    sbuf_text (snd (put_all put b xs)) = sbuf_text b @ concat (map out xs)"
  using assms
proof (induction xs arbitrary: b)
  case (Cons x xs)
  obtain n b' where p: "put b x = (n, b')" by fastforce
  obtain m b'' where q: "put_all put b' xs = (m, b'')" by fastforce
  from Cons.prems(1) show ?case
  proof (cases rule: put_cases [of b x])
    case fits
    then have "length (concat (map out xs)) \<le> sbuf_rem b'"
      using Cons.prems p by (simp add: sbuf_rem_def)
    moreover have "sbuf_ok b'" using put_ok [of b x] Cons.prems p by simp
    ultimately show ?thesis using Cons.IH [of b'] fits p q by simp
  qed (use Cons.prems in simp)
qed simp

end

interpretation putm: sbuf_appender sbuf_putm "\<lambda>m. m"
  by unfold_locales
    (auto simp: sbuf_putm_def sbuf_mksp_def sbuf_store_def)

lemma write_at_snoc:
  "i + length ys < length xs \<Longrightarrow>
   write_at (write_at xs i ys) (i + length ys) [c] = write_at xs i (ys @ [c])"
  by (simp add: write_at_def)

lemma write_at_Cons:
  "i + length ys < length xs \<Longrightarrow>
   write_at (write_at xs i [c]) (Suc i) ys = write_at xs i (c # ys)"
  by (simp add: write_at_def add.commute)

interpretation putmc: sbuf_appender "\<lambda>b m. sbuf_putmc b m c" "\<lambda>m. m @ [c]" for c
  by unfold_locales
    (auto simp: sbuf_putmc_def sbuf_mksp_def sbuf_store_def sbuf_rem_def sbuf_ok_def write_at_snoc)

interpretation putcm: sbuf_appender "\<lambda>b m. sbuf_putcm b c m" "\<lambda>m. c # m" for c
  by unfold_locales
    (auto simp: sbuf_putcm_def sbuf_mksp_def sbuf_store_def sbuf_rem_def sbuf_ok_def write_at_Cons)

interpretation puts: sbuf_appender sbuf_puts "\<lambda>s. case s of None \<Rightarrow> [] | Some m \<Rightarrow> m"
  by unfold_locales
    (auto simp: sbuf_puts_def putm.put_fits putm.put_full sbuf_ok_def split: option.split)

section \<open>Properties\<close>

text \<open>
  C29. Printing a 16-bit number with \<open>uint16_toa\<close> and reading it back with \<open>str_tou32\<close> gives the
  number, and the printed text consists of decimal digits only.
\<close>

theorem uint16_print_read:
  "str_tou32 (uint16_toa val) = ucast val \<and> str_isnumeric (uint16_toa val)"
  using dec_digits_numeral [of "unat val"]
  by (simp add: uint16_toa_eq str_tou32_dec_digits str_isnumeric_def)

text \<open>
  A run of \<open>sbuf_putm\<close> calls whose bytes fit in the space that remains stores the concatenation
  of the arguments after the existing text and returns its length.
\<close>

theorem sbuf_putm_run:
  assumes "sbuf_ok b" "length (concat ms) \<le> sbuf_rem b"
  shows "sbuf_text (snd (put_all sbuf_putm b ms)) = sbuf_text b @ concat ms \<and>
    fst (put_all sbuf_putm b ms) = length (concat ms)"
  using putm.put_all_fits [of b ms] assms by simp

theorem sbuf_putm_run_witness:
  "sbuf_text (snd (put_all sbuf_putm (sbuf_init (Some (replicate 8 0))) [ascii ''ab'', ascii ''cde''])) =
    ascii ''abcde''"
  using sbuf_putm_run [of "sbuf_init (Some (replicate 8 0))" "[ascii ''ab'', ascii ''cde'']"]
  by (simp add: sbuf_ok_def sbuf_init_def sbuf_rem_def sbuf_text_def)

end
