(* ===== verification/Rwbuf.thy ===== *)
theory Rwbuf
  imports Strings
begin

text \<open>
  The read/write buffer of \<open>src/src/rwbuf.c\<close> and \<open>src/src/rwbuf.h\<close>.  The model keeps the fields
  of \<open>struct rwbuf\<close>; the memory at \<open>data\<close> is a byte list and \<open>realloc\<close> goes through the
  \<^typ>\<open>heap_env\<close>.  One ghost field, \<open>rb_live\<close>, says whether \<open>data\<close> still points to an
  allocated block.  The buffer refines a queue of bytes: the contract is the locale
  \<open>byte_queue\<close>, and its interpretation discharges it for \<open>rwbuf_write\<close> and \<open>rwbuf_rdinc\<close>.
\<close>

section \<open>Model\<close>

record rwbuf =
  rb_data :: "bytes option"
  rb_max_size :: nat
  rb_size :: nat
  rb_ridx :: nat
  rb_widx :: nat
  rb_is_malloc :: bool
  rb_is_grow :: bool
  rb_live :: bool

definition rb_mem :: "rwbuf \<Rightarrow> bytes" where
  "rb_mem buf = (case rb_data buf of None \<Rightarrow> [] | Some m \<Rightarrow> m)"

definition RWBUF_INIT :: "bytes \<Rightarrow> rwbuf" where
  "RWBUF_INIT mem =
    \<lparr> rb_data = Some mem, rb_max_size = length mem, rb_size = length mem, rb_ridx = 0, rb_widx = 0,
      rb_is_malloc = False, rb_is_grow = False, rb_live = True \<rparr>"

definition rwbuf_used :: "rwbuf \<Rightarrow> nat" where
  "rwbuf_used buf = sz_sub (rb_widx buf) (rb_ridx buf)"

definition rwbuf_space :: "rwbuf \<Rightarrow> nat" where
  "rwbuf_space buf = sz_sub (rb_size buf) (rb_widx buf)"

text \<open>\<open>buf->data + buf->widx\<close> as an offset, or a null pointer when there is no data.\<close>

definition rwbuf_wptr :: "rwbuf \<Rightarrow> nat option" where
  "rwbuf_wptr buf = (case rb_data buf of None \<Rightarrow> None | Some _ \<Rightarrow> Some (rb_widx buf))"

definition rwbuf_rptr :: "rwbuf \<Rightarrow> nat option" where
  "rwbuf_rptr buf = (case rb_data buf of None \<Rightarrow> None | Some _ \<Rightarrow> Some (rb_ridx buf))"

text \<open>The shift of the unread bytes to the start of the buffer.\<close>

definition rwbuf_shift :: "rwbuf \<Rightarrow> rwbuf" where
  "rwbuf_shift buf =
    (let used = sz_sub (rb_widx buf) (rb_ridx buf) in
     if rb_ridx buf > 0 then
       buf\<lparr> rb_data := map_option (\<lambda>m. write_at m 0 (segment m (rb_ridx buf) (rb_ridx buf + used))) (rb_data buf),
            rb_ridx := 0, rb_widx := used \<rparr>
     else buf)"

definition rwbuf_mkspace :: "heap_env \<Rightarrow> rwbuf \<Rightarrow> nat \<Rightarrow> nat option \<times> rwbuf" where
  "rwbuf_mkspace env buf need =
    (let space = sz_sub (rb_size buf) (rb_widx buf) in
     if space \<ge> need then (rwbuf_wptr buf, buf)
     else
       (let buf = rwbuf_shift buf;
            space = sz_sub (rb_size buf) (rb_widx buf)
        in if space < need then
             (if \<not> rb_is_grow buf then (None, buf)
              else
                (let size = sz_mul (rb_size buf) 2;
                     size = (if size < sz_add (rb_widx buf) need then sz_add (rb_widx buf) need else size);
                     size = ALIGN_UP size 128
                 in if rb_max_size buf \<noteq> 0 \<and> size > rb_max_size buf then (None, buf)
                    else
                      (case realloc env (rb_data buf) size of
                         (None, live) \<Rightarrow> (None, buf\<lparr> rb_live := rb_live buf \<and> live \<rparr>)
                       | (Some data, live) \<Rightarrow>
                           (let buf = buf\<lparr> rb_data := Some data, rb_size := size, rb_live := True \<rparr>
                            in (rwbuf_wptr buf, buf)))))
           else (rwbuf_wptr buf, buf)))"

definition rwbuf_init :: "heap_env \<Rightarrow> nat \<Rightarrow> nat \<Rightarrow> int \<times> rwbuf" where
  "rwbuf_init env init_size max_size =
    (let buf = \<lparr> rb_data = None, rb_max_size = max_size, rb_size = 0, rb_ridx = 0, rb_widx = 0,
                 rb_is_malloc = True, rb_is_grow = True, rb_live = False \<rparr>
     in if init_size \<noteq> 0 then
          (case rwbuf_mkspace env buf init_size of
             (None, buf) \<Rightarrow> (-1, buf)
           | (Some _, buf) \<Rightarrow> (0, buf))
        else (0, buf))"

definition rwbuf_deinit :: "rwbuf \<Rightarrow> rwbuf" where
  "rwbuf_deinit buf =
    (let buf = (if rb_data buf \<noteq> None \<and> rb_is_malloc buf
                then buf\<lparr> rb_data := None, rb_live := False \<rparr> else buf)
     in buf\<lparr> rb_size := 0, rb_ridx := 0, rb_widx := 0 \<rparr>)"

text \<open>A store of bytes at an offset of the buffer's memory (\<open>memcpy\<close>, \<open>mempcpy\<close>).\<close>

definition rwbuf_poke :: "rwbuf \<Rightarrow> nat \<Rightarrow> bytes \<Rightarrow> rwbuf" where
  "rwbuf_poke buf off b = buf\<lparr> rb_data := map_option (\<lambda>m. write_at m off b) (rb_data buf) \<rparr>"

definition rwbuf_write :: "heap_env \<Rightarrow> rwbuf \<Rightarrow> bytes \<Rightarrow> int \<times> rwbuf" where
  "rwbuf_write env buf mem =
    (case rwbuf_mkspace env buf (length mem) of
       (None, buf) \<Rightarrow> (-1, buf)
     | (Some space, buf) \<Rightarrow>
         (0, (rwbuf_poke buf space mem)\<lparr> rb_widx := sz_add (rb_widx buf) (length mem) \<rparr>))"

definition iovs_len :: "bytes list \<Rightarrow> nat" where
  "iovs_len iovs = foldl (\<lambda>len iov. sz_add len (length iov)) 0 iovs"

fun mempcpy_all :: "rwbuf \<Rightarrow> nat \<Rightarrow> bytes list \<Rightarrow> rwbuf" where
  "mempcpy_all buf space [] = buf"
| "mempcpy_all buf space (iov # iovs) = mempcpy_all (rwbuf_poke buf space iov) (space + length iov) iovs"

definition rwbuf_writev :: "heap_env \<Rightarrow> rwbuf \<Rightarrow> bytes list \<Rightarrow> int \<times> rwbuf" where
  "rwbuf_writev env buf iovs =
    (let len = iovs_len iovs in
     case rwbuf_mkspace env buf len of
       (None, buf) \<Rightarrow> (-1, buf)
     | (Some space, buf) \<Rightarrow>
         (0, (mempcpy_all buf space iovs)\<lparr> rb_widx := sz_add (rb_widx buf) len \<rparr>))"

definition rwbuf_rdinc :: "rwbuf \<Rightarrow> nat \<Rightarrow> int \<times> rwbuf" where
  "rwbuf_rdinc buf len =
    (if sz_add (rb_ridx buf) len > rb_size buf then (-1, buf)
     else
       (let buf = buf\<lparr> rb_ridx := sz_add (rb_ridx buf) len \<rparr>
        in if rb_ridx buf = rb_widx buf then (0, buf\<lparr> rb_ridx := 0, rb_widx := 0 \<rparr>) else (0, buf)))"

definition RWBUF_EOF :: u32 where "RWBUF_EOF = 0x1"
definition RWBUF_NOLOG :: u32 where "RWBUF_NOLOG = 0x2"
definition RWBUF_ADDNUL :: u32 where "RWBUF_ADDNUL = 0x4"

text \<open>The length of a line without its terminator, which is \<open>llen\<close> bytes with it.\<close>

definition trim_crlf :: "bytes \<Rightarrow> nat \<Rightarrow> nat" where
  "trim_crlf str llen =
    (let len = llen;
         len = (if len \<noteq> 0 \<and> str ! (len - 1) = 10 then len - 1 else len);
         len = (if len \<noteq> 0 \<and> str ! (len - 1) = 13 then len - 1 else len)
     in len)"

text \<open>
  \<open>rwbuf_readline\<close> returns its code, the slice stored in \<open>line\<close> (\<^term>\<open>None\<close> when the caller's
  slice is left as it was) and the buffer.
\<close>

definition rwbuf_readline :: "rwbuf \<Rightarrow> nat \<Rightarrow> u32 \<Rightarrow> int \<times> bytes option \<times> rwbuf" where
  "rwbuf_readline buf maxlen flags =
    (let rlen = rwbuf_used buf;
         ridx = rb_ridx buf;
         str = segment (rb_mem buf) ridx (ridx + rlen)
     in case memchr str 10 of
          Some eol \<Rightarrow>
            (let llen = eol + 1;
                 buf = buf\<lparr> rb_ridx := sz_add (rb_ridx buf) llen \<rparr>;
                 buf = (if rb_ridx buf = rb_widx buf then buf\<lparr> rb_ridx := 0, rb_widx := 0 \<rparr> else buf);
                 len = trim_crlf str llen;
                 buf = (if flags AND RWBUF_ADDNUL \<noteq> 0 then rwbuf_poke buf (ridx + len) [0] else buf);
                 line = Some (take len str)
             in if maxlen \<noteq> 0 \<and> len > maxlen then (-1, line, buf) else (c_int (int llen), line, buf))
        | None \<Rightarrow>
            if maxlen \<noteq> 0 \<and> rlen > maxlen then (-1, None, buf)
            else if flags AND RWBUF_EOF \<noteq> 0 then
              (c_int (int rlen), Some str, buf\<lparr> rb_ridx := 0, rb_widx := 0 \<rparr>)
            else if rb_ridx buf > 0 then
              (0, None, buf\<lparr> rb_data := map_option (\<lambda>m. write_at m 0 str) (rb_data buf),
                             rb_ridx := 0, rb_widx := rlen \<rparr>)
            else (0, None, buf))"

section \<open>Invariant and abstraction\<close>

definition rwbuf_inv :: "rwbuf \<Rightarrow> bool" where
  "rwbuf_inv buf \<longleftrightarrow>
    rb_ridx buf \<le> rb_widx buf \<and> rb_widx buf \<le> rb_size buf \<and> rb_size buf = length (rb_mem buf) \<and>
    rb_size buf < 2 ^ 63 \<and> (rb_is_grow buf \<longrightarrow> 128 dvd rb_size buf) \<and>
    (rb_data buf \<noteq> None \<longrightarrow> rb_live buf)"

text \<open>The unread bytes.\<close>

definition rwbuf_content :: "rwbuf \<Rightarrow> bytes" where
  "rwbuf_content buf = segment (rb_mem buf) (rb_ridx buf) (rb_widx buf)"

lemma rb_mem_update [simp]:
  "rb_mem (buf\<lparr> rb_data := Some m \<rparr>) = m"
  "rb_mem (buf\<lparr> rb_ridx := i \<rparr>) = rb_mem buf" "rb_mem (buf\<lparr> rb_widx := i \<rparr>) = rb_mem buf"
  "rb_mem (buf\<lparr> rb_size := i \<rparr>) = rb_mem buf" "rb_mem (buf\<lparr> rb_live := l \<rparr>) = rb_mem buf"
  by (simp_all add: rb_mem_def)

lemma rb_mem_None: "rb_data buf = None \<Longrightarrow> rb_mem buf = []"
  and rb_mem_Some: "rb_data buf = Some m \<Longrightarrow> rb_mem buf = m"
  by (simp_all add: rb_mem_def)

lemma rwbuf_invD:
  assumes "rwbuf_inv buf"
  shows "rb_ridx buf \<le> rb_widx buf" "rb_widx buf \<le> rb_size buf" "rb_size buf = length (rb_mem buf)"
    "rb_size buf < 2 ^ 63" "rb_is_grow buf \<Longrightarrow> 128 dvd rb_size buf"
    "rb_data buf \<noteq> None \<Longrightarrow> rb_live buf"
  using assms by (auto simp: rwbuf_inv_def)

lemma rwbuf_used_inv [simp]: "rwbuf_inv buf \<Longrightarrow> rwbuf_used buf = rb_widx buf - rb_ridx buf"
  unfolding rwbuf_used_def by (rule sz_sub_nowrap) (auto simp: rwbuf_inv_def)

lemma rwbuf_space_inv [simp]: "rwbuf_inv buf \<Longrightarrow> rwbuf_space buf = rb_size buf - rb_widx buf"
  unfolding rwbuf_space_def by (rule sz_sub_nowrap) (auto simp: rwbuf_inv_def)

lemma length_content [simp]:
  "rwbuf_inv buf \<Longrightarrow> length (rwbuf_content buf) = rb_widx buf - rb_ridx buf"
  by (auto simp: rwbuf_content_def rwbuf_inv_def)

lemma rwbuf_shift_inv:
  assumes inv: "rwbuf_inv buf"
  shows "rwbuf_inv (rwbuf_shift buf)" "rwbuf_content (rwbuf_shift buf) = rwbuf_content buf"
    "rb_ridx (rwbuf_shift buf) = 0" "rb_widx (rwbuf_shift buf) = rb_widx buf - rb_ridx buf"
    "rb_size (rwbuf_shift buf) = rb_size buf" "rb_max_size (rwbuf_shift buf) = rb_max_size buf"
    "rb_is_grow (rwbuf_shift buf) = rb_is_grow buf" "rb_live (rwbuf_shift buf) = rb_live buf"
    "rb_data (rwbuf_shift buf) = None \<longleftrightarrow> rb_data buf = None"
proof -
  have u: "sz_sub (rb_widx buf) (rb_ridx buf) = rb_widx buf - rb_ridx buf"
    using rwbuf_used_inv [OF inv] by (simp add: rwbuf_used_def)
  note d = rwbuf_invD [OF inv]
  define s where "s = segment (rb_mem buf) (rb_ridx buf) (rb_widx buf)"
  have ls: "length s = rb_widx buf - rb_ridx buf" using d by (simp add: s_def)
  show "rb_ridx (rwbuf_shift buf) = 0" "rb_widx (rwbuf_shift buf) = rb_widx buf - rb_ridx buf"
    "rb_size (rwbuf_shift buf) = rb_size buf" "rb_max_size (rwbuf_shift buf) = rb_max_size buf"
    "rb_is_grow (rwbuf_shift buf) = rb_is_grow buf" "rb_live (rwbuf_shift buf) = rb_live buf"
    "rb_data (rwbuf_shift buf) = None \<longleftrightarrow> rb_data buf = None"
    by (simp_all add: rwbuf_shift_def Let_def u)
  have mem: "rb_mem (rwbuf_shift buf) = (if rb_ridx buf > 0 then write_at (rb_mem buf) 0 s else rb_mem buf)"
    using d by (cases "rb_data buf") (simp_all add: rwbuf_shift_def u rb_mem_def s_def write_at_def Let_def)
  have lm: "length (rb_mem (rwbuf_shift buf)) = length (rb_mem buf)"
    using d ls by (simp add: mem)
  show "rwbuf_inv (rwbuf_shift buf)"
    using d lm by (auto simp: rwbuf_inv_def rwbuf_shift_def u Let_def)
  have "take (length s) (write_at (rb_mem buf) 0 s) = s"
    using take_write_at_exact [of 0 "rb_mem buf" s] by simp
  then show "rwbuf_content (rwbuf_shift buf) = rwbuf_content buf"
    unfolding rwbuf_content_def mem
    by (auto simp: rwbuf_shift_def Let_def u segment_def ls simp flip: s_def) (simp_all add: s_def segment_def)
qed

text \<open>The size \<open>rwbuf_mkspace\<close> asks for when it has to grow.\<close>

definition grow_size :: "nat \<Rightarrow> nat \<Rightarrow> nat \<Rightarrow> nat" where
  "grow_size sz widx need = (max (2 * sz) (widx + need) + 127) div 128 * 128"

lemma grow_size_ge: "widx + need \<le> grow_size sz widx need" "sz \<le> grow_size sz widx need"
    "128 dvd grow_size sz widx need"
  unfolding grow_size_def by simp_all

lemma grow_size_pos: "0 < need \<Longrightarrow> 0 < grow_size sz widx need"
  using grow_size_ge(1) [of widx need sz] by simp

lemma size_calc_eq:
  assumes "sz < 2 ^ 63" "128 dvd sz" "widx \<le> sz" "need < 2 ^ 62"
  shows "ALIGN_UP (if sz_mul sz 2 < sz_add widx need then sz_add widx need else sz_mul sz 2) 128 =
    grow_size sz widx need"
proof -
  obtain k where k: "sz = 128 * k" using assms(2) by blast
  then have "k < 2 ^ 56" using assms(1) by simp
  then have "2 * sz + 127 < 2 ^ 64" using k by simp
  then have m: "sz_mul sz 2 = 2 * sz" "sz_add widx need = widx + need"
    using assms by (simp_all add: sz_mul_nowrap sz_add_nowrap)
  have "max (2 * sz) (widx + need) + 127 < 2 ^ 64"
    using assms \<open>2 * sz + 127 < 2 ^ 64\<close> by (simp add: max_def)
  then have "ALIGN_UP (max (2 * sz) (widx + need)) 128 = grow_size sz widx need"
    unfolding grow_size_def by (rule ALIGN_UP_128)
  moreover have "(if 2 * sz < widx + need then widx + need else 2 * sz) = max (2 * sz) (widx + need)"
    by (simp add: max_def)
  ultimately show ?thesis unfolding m by simp
qed

lemma rwbuf_mkspace_eq:
  assumes inv: "rwbuf_inv buf" and need: "need < 2 ^ 62"
  shows "rwbuf_mkspace env buf need =
    (let b = rwbuf_shift buf; g = grow_size (rb_size buf) (rb_widx b) need in
     if rb_widx buf + need \<le> rb_size buf then (rwbuf_wptr buf, buf)
     else if rb_widx b + need \<le> rb_size buf then (rwbuf_wptr b, b)
     else if \<not> rb_is_grow buf \<or> rb_max_size buf \<noteq> 0 \<and> g > rb_max_size buf \<or> \<not> alloc_ok env g then (None, b)
     else (Some (rb_widx b),
       b\<lparr> rb_data := Some (rb_mem b @ map (junk env) [rb_size buf ..< g]), rb_size := g, rb_live := True \<rparr>))"
proof -
  define b where "b = rwbuf_shift buf"
  note sh = rwbuf_shift_inv [OF inv, folded b_def]
  note d = rwbuf_invD [OF inv] and e = rwbuf_invD [OF sh(1)]
  define g where "g = grow_size (rb_size buf) (rb_widx b) need"
  have sp: "sz_sub (rb_size buf) (rb_widx buf) = rb_size buf - rb_widx buf"
    "sz_sub (rb_size buf) (rb_widx b) = rb_size buf - rb_widx b"
    using rwbuf_space_inv [OF inv] rwbuf_space_inv [OF sh(1)] by (simp_all add: rwbuf_space_def sh)
  have g: "ALIGN_UP (if sz_mul (rb_size buf) 2 < sz_add (rb_widx b) need then sz_add (rb_widx b) need
      else sz_mul (rb_size buf) 2) 128 = g" if "rb_is_grow buf"
    unfolding g_def using d e that need by (intro size_calc_eq) (simp_all add: sh)
  have r: "realloc env (rb_data b) g = (if alloc_ok env g
      then (Some (rb_mem b @ map (junk env) [rb_size buf ..< g]), True) else (None, True))"
    if "\<not> rb_widx b + need \<le> rb_size buf"
  proof -
    have "rb_mem b = (case rb_data b of None \<Rightarrow> [] | Some m \<Rightarrow> m)" by (simp add: rb_mem_def)
    moreover have "length (rb_mem b) = rb_size buf" using e sh by simp
    moreover have "rb_size buf \<le> g" "g \<noteq> 0"
      using grow_size_ge [where sz = "rb_size buf" and widx = "rb_widx b" and need = need] that
      by (simp_all add: g_def)
    ultimately show ?thesis by (simp add: realloc_def Let_def)
  qed
  note unf = rwbuf_mkspace_def Let_def b_def [symmetric] g_def [symmetric]
  have f1: "rb_size buf - rb_widx buf \<ge> need \<longleftrightarrow> rb_widx buf + need \<le> rb_size buf"
    and f2: "rb_size buf - rb_widx b < need \<longleftrightarrow> \<not> rb_widx b + need \<le> rb_size buf"
    using d e sh by linarith+
  consider "rb_widx buf + need \<le> rb_size buf"
    | "\<not> rb_widx buf + need \<le> rb_size buf" "rb_widx b + need \<le> rb_size buf"
    | "\<not> rb_widx buf + need \<le> rb_size buf" "\<not> rb_widx b + need \<le> rb_size buf" by blast
  then show ?thesis
  proof cases
    case 1
    then show ?thesis unfolding unf sp(1) f1 by (simp only: if_True)
  next
    case 2
    then show ?thesis unfolding unf sh(5) sp f1 f2 by (simp only: if_True if_False not_True_eq_False)
  next
    case 3
    show ?thesis
    proof (cases "rb_is_grow buf")
      case True
      show ?thesis
        unfolding unf sh(5-7) sp f1 f2 g [OF True] r [OF 3(2)]
        using 3 True by (simp only: if_True if_False not_False_eq_True not_True_eq_False simp_thms)
          (simp add: rwbuf_wptr_def)
    next
      case False
      then show ?thesis
        unfolding unf sh(5-7) sp f1 f2 using 3 by (simp only: if_True if_False not_False_eq_True simp_thms)
    qed
  qed
qed

lemma rwbuf_mkspace_inv:
  assumes inv: "rwbuf_inv buf" and need: "need < 2 ^ 62" and env: "heap_env_ok env"
    and r: "rwbuf_mkspace env buf need = (r, buf')"
  shows "rwbuf_inv buf'" "rwbuf_content buf' = rwbuf_content buf"
    "r = Some off \<Longrightarrow> off = rb_widx buf' \<and> off + need \<le> rb_size buf' \<and> rb_data buf' \<noteq> None"
    "rb_is_grow buf' = rb_is_grow buf" "rb_max_size buf' = rb_max_size buf" "rb_size buf \<le> rb_size buf'"
proof -
  define b where "b = rwbuf_shift buf"
  note sh = rwbuf_shift_inv [OF inv, folded b_def]
  define g where "g = grow_size (rb_size buf) (rb_widx b) need"
  note e = rwbuf_invD [OF sh(1)]
  have g: "rb_widx b + need \<le> g" "rb_size buf \<le> g" "128 dvd g"
    unfolding g_def by (rule grow_size_ge)+
  define b' where "b' = b\<lparr> rb_data := Some (rb_mem b @ map (junk env) [rb_size buf ..< g]),
      rb_size := g, rb_live := True \<rparr>"
  consider (asis) "buf' = buf" "rb_widx buf + need \<le> rb_size buf" "r = rwbuf_wptr buf"
    | (shift) "buf' = b" "rb_widx b + need \<le> rb_size buf" "r = rwbuf_wptr b"
    | (none) "buf' = b" "r = None"
    | (grown) "buf' = b'" "r = Some (rb_widx b)" "alloc_ok env g"
    using r unfolding rwbuf_mkspace_eq [OF inv need] b_def [symmetric] g_def [symmetric] Let_def b'_def
    by (auto split: if_splits)
  then have "rwbuf_inv buf' \<and> rwbuf_content buf' = rwbuf_content buf \<and>
    (r = Some off \<longrightarrow> off = rb_widx buf' \<and> off + need \<le> rb_size buf' \<and> rb_data buf' \<noteq> None) \<and>
    rb_is_grow buf' = rb_is_grow buf \<and> rb_max_size buf' = rb_max_size buf \<and> rb_size buf \<le> rb_size buf'"
  proof cases
    case grown
    have "g < 2 ^ 63" using env grown(3) by (simp add: heap_env_ok_def)
    moreover have "rwbuf_content b' = rwbuf_content b"
      using e by (simp add: b'_def rwbuf_content_def segment_def)
    moreover have "rb_mem b' = rb_mem b @ map (junk env) [rb_size buf ..< g]"
      by (simp add: b'_def)
    ultimately show ?thesis
      using e g grown by (auto simp: sh rwbuf_inv_def b'_def)
  qed (use inv sh in \<open>auto simp: rwbuf_wptr_def split: option.splits\<close>)
  then show "rwbuf_inv buf'" "rwbuf_content buf' = rwbuf_content buf"
    "r = Some off \<Longrightarrow> off = rb_widx buf' \<and> off + need \<le> rb_size buf' \<and> rb_data buf' \<noteq> None"
    "rb_is_grow buf' = rb_is_grow buf" "rb_max_size buf' = rb_max_size buf" "rb_size buf \<le> rb_size buf'"
    by blast+
qed

lemma rwbuf_mkspace_None_iff:
  assumes inv: "rwbuf_inv buf" and need: "0 < need" "need < 2 ^ 62"
  shows "fst (rwbuf_mkspace env buf need) = None \<longleftrightarrow>
    (let used = rb_widx buf - rb_ridx buf; g = grow_size (rb_size buf) used need in
     rb_size buf < used + need \<and>
     (\<not> rb_is_grow buf \<or> rb_max_size buf \<noteq> 0 \<and> rb_max_size buf < g \<or> \<not> alloc_ok env g))"
proof -
  note sh = rwbuf_shift_inv [OF inv]
  have "rwbuf_wptr b \<noteq> None" if "rwbuf_inv b" "rb_widx b + need \<le> rb_size b" for b
  proof -
    have "rb_data b \<noteq> None"
      using that(2) need(1) rwbuf_invD(3) [OF that(1)] by (cases "rb_data b") (auto simp: rb_mem_def)
    then show ?thesis by (auto simp: rwbuf_wptr_def)
  qed
  from this [OF inv] this [OF sh(1)] show ?thesis
    using rwbuf_invD [OF inv]
    unfolding rwbuf_mkspace_eq [OF inv need(2)] Let_def sh by (auto simp: not_le)
qed

section \<open>Writing and consuming\<close>

lemma rwbuf_poke_widx:
  assumes "rwbuf_inv buf" "rb_widx buf + length m \<le> rb_size buf"
  shows "rwbuf_inv ((rwbuf_poke buf (rb_widx buf) m)\<lparr> rb_widx := rb_widx buf + length m \<rparr>)"
    "rwbuf_content ((rwbuf_poke buf (rb_widx buf) m)\<lparr> rb_widx := rb_widx buf + length m \<rparr>) =
      rwbuf_content buf @ m"
proof -
  note d = rwbuf_invD [OF assms(1)]
  define b where "b = (rwbuf_poke buf (rb_widx buf) m)\<lparr> rb_widx := rb_widx buf + length m \<rparr>"
  have mem: "rb_mem b = write_at (rb_mem buf) (rb_widx buf) m"
    using d assms(2) by (cases "rb_data buf") (simp_all add: b_def rwbuf_poke_def rb_mem_def write_at_def)
  then have "length (rb_mem b) = length (rb_mem buf)" using d assms(2) by simp
  then show "rwbuf_inv b"
    using d assms(2) by (simp add: rwbuf_inv_def) (simp add: b_def rwbuf_poke_def)
  show "rwbuf_content b = rwbuf_content buf @ m"
    using d unfolding rwbuf_content_def mem
    by (simp add: segment_write_at_append [symmetric]) (simp add: b_def rwbuf_poke_def)
qed

lemma rwbuf_write_spec:
  assumes inv: "rwbuf_inv buf" and env: "heap_env_ok env" and m: "length m < 2 ^ 62"
    and w: "rwbuf_write env buf m = (rc, buf')"
  shows "rwbuf_inv buf'" "rc = 0 \<Longrightarrow> rwbuf_content buf' = rwbuf_content buf @ m"
    "rc \<noteq> 0 \<Longrightarrow> rc = -1 \<and> rwbuf_content buf' = rwbuf_content buf"
proof -
  obtain r b where mk: "rwbuf_mkspace env buf (length m) = (r, b)" by fastforce
  note k = rwbuf_mkspace_inv [OF inv m env mk]
  have "rwbuf_inv buf' \<and> (rc = 0 \<longrightarrow> rwbuf_content buf' = rwbuf_content buf @ m) \<and>
    (rc \<noteq> 0 \<longrightarrow> rc = -1 \<and> rwbuf_content buf' = rwbuf_content buf)"
  proof (cases r)
    case None
    with w mk k show ?thesis by (auto simp: rwbuf_write_def)
  next
    case (Some off)
    note o = k(3) [OF Some]
    have "sz_add (rb_widx b) (length m) = rb_widx b + length m"
      using o rwbuf_invD(4) [OF k(1)] by (intro sz_add_nowrap) simp
    with w mk Some o rwbuf_poke_widx [OF k(1), of m] k(2) show ?thesis
      by (auto simp: rwbuf_write_def)
  qed
  then show "rwbuf_inv buf'" "rc = 0 \<Longrightarrow> rwbuf_content buf' = rwbuf_content buf @ m"
    "rc \<noteq> 0 \<Longrightarrow> rc = -1 \<and> rwbuf_content buf' = rwbuf_content buf"
    by blast+
qed

lemma mempcpy_all_eq:
  assumes "off + length (concat iovs) \<le> length (rb_mem buf)" "rb_data buf \<noteq> None"
  shows "mempcpy_all buf off iovs = rwbuf_poke buf off (concat iovs)"
  using assms
proof (induction iovs arbitrary: buf off)
  case Nil
  then show ?case by (cases "rb_data buf") (auto simp: rwbuf_poke_def rb_mem_def)
next
  case (Cons iov iovs)
  obtain m where m: "rb_data buf = Some m" using Cons.prems by auto
  then have lm: "off + length iov + length (concat iovs) \<le> length m"
    using Cons.prems by (simp add: rb_mem_def)
  have "mempcpy_all (rwbuf_poke buf off iov) (off + length iov) iovs =
      rwbuf_poke (rwbuf_poke buf off iov) (off + length iov) (concat iovs)"
    using m lm by (intro Cons.IH) (simp_all add: rwbuf_poke_def rb_mem_def)
  also have "\<dots> = rwbuf_poke buf off (iov @ concat iovs)"
    using m lm by (simp add: rwbuf_poke_def write_at_def add.commute add.left_commute)
  finally show ?case by simp
qed

lemma iovs_len_eq: "length (concat iovs) < 2 ^ 64 \<Longrightarrow> iovs_len iovs = length (concat iovs)"
proof (induction iovs rule: rev_induct)
  case (snoc iov iovs)
  then show ?case by (simp add: iovs_len_def sz_add_nowrap)
qed (simp add: iovs_len_def)

text \<open>A vectored write is one write of the concatenation.\<close>

lemma rwbuf_writev_eq:
  assumes "rwbuf_inv buf" "heap_env_ok env" "length (concat iovs) < 2 ^ 62"
  shows "rwbuf_writev env buf iovs = rwbuf_write env buf (concat iovs)"
proof -
  obtain r b where mk: "rwbuf_mkspace env buf (length (concat iovs)) = (r, b)" by fastforce
  note k = rwbuf_mkspace_inv [OF assms(1) assms(3) assms(2) mk]
  have l: "iovs_len iovs = length (concat iovs)" using assms(3) by (intro iovs_len_eq) simp
  show ?thesis
  proof (cases r)
    case (Some off)
    then have "mempcpy_all b off iovs = rwbuf_poke b off (concat iovs)"
      using k(3) [OF Some] rwbuf_invD(3) [OF k(1)] by (intro mempcpy_all_eq) auto
    with mk Some show ?thesis by (simp add: rwbuf_writev_def rwbuf_write_def l)
  qed (use mk in \<open>simp add: rwbuf_writev_def rwbuf_write_def l\<close>)
qed

lemma rwbuf_rdinc_spec:
  assumes inv: "rwbuf_inv buf" and n: "n \<le> length (rwbuf_content buf)"
  shows "fst (rwbuf_rdinc buf n) = 0" "rwbuf_inv (snd (rwbuf_rdinc buf n))"
    "rwbuf_content (snd (rwbuf_rdinc buf n)) = drop n (rwbuf_content buf)"
proof -
  note d = rwbuf_invD [OF inv]
  have n': "rb_ridx buf + n \<le> rb_widx buf" using n d length_content [OF inv] by linarith
  then have a: "sz_add (rb_ridx buf) n = rb_ridx buf + n"
    using d by (intro sz_add_nowrap) simp
  show "fst (rwbuf_rdinc buf n) = 0" using n' d by (simp add: rwbuf_rdinc_def a Let_def)
  show "rwbuf_inv (snd (rwbuf_rdinc buf n))" using n' d by (simp add: rwbuf_rdinc_def a rwbuf_inv_def Let_def)
  show "rwbuf_content (snd (rwbuf_rdinc buf n)) = drop n (rwbuf_content buf)"
    using n' d by (simp add: rwbuf_rdinc_def a rwbuf_content_def segment_def add.commute Let_def)
qed

section \<open>Reading lines\<close>

text \<open>
  What \<open>rwbuf_readline\<close> does to a queue of bytes: the code, the line without its terminator and
  the bytes that remain.
\<close>

definition strip_cr :: "bytes \<Rightarrow> bytes" where
  "strip_cr l = (if l \<noteq> [] \<and> last l = 13 then butlast l else l)"

definition readline_spec :: "bytes \<Rightarrow> nat \<Rightarrow> bool \<Rightarrow> int \<times> bytes option \<times> bytes" where
  "readline_spec c maxlen eof =
    (case memchr c 10 of
       Some i \<Rightarrow>
         (let line = strip_cr (take i c)
          in (if maxlen \<noteq> 0 \<and> length line > maxlen then -1 else int (i + 1), Some line, drop (i + 1) c))
     | None \<Rightarrow>
         if maxlen \<noteq> 0 \<and> length c > maxlen then (-1, None, c)
         else if eof then (int (length c), Some c, [])
         else (0, None, c))"

lemma trim_crlf_eq:
  assumes "memchr str 10 = Some i"
  shows "take (trim_crlf str (i + 1)) str = strip_cr (take i str)" "trim_crlf str (i + 1) \<le> i"
proof -
  have i: "i < length str" "str ! i = 10" using memchr_SomeD [OF assms] by auto
  have l: "last (take i str) = str ! (i - 1)" if "i \<noteq> 0"
  proof -
    have "take i str \<noteq> []" using that i by auto
    then show ?thesis using that i by (simp add: last_conv_nth)
  qed
  show "take (trim_crlf str (i + 1)) str = strip_cr (take i str)"
    using i l by (auto simp: trim_crlf_def strip_cr_def butlast_take)
  show "trim_crlf str (i + 1) \<le> i"
    using i by (auto simp: trim_crlf_def)
qed

lemma rwbuf_poke_consumed:
  assumes "rwbuf_inv buf" "off < rb_ridx buf \<or> rb_ridx buf = rb_widx buf" "off < rb_size buf"
  shows "rwbuf_inv (rwbuf_poke buf off [c])" "rwbuf_content (rwbuf_poke buf off [c]) = rwbuf_content buf"
proof -
  note d = rwbuf_invD [OF assms(1)]
  have mem: "rb_mem (rwbuf_poke buf off [c]) = write_at (rb_mem buf) off [c]"
    using d assms(3) by (cases "rb_data buf") (simp_all add: rwbuf_poke_def rb_mem_def)
  then show "rwbuf_inv (rwbuf_poke buf off [c])"
    using d assms(3) by (simp add: rwbuf_inv_def) (simp add: rwbuf_poke_def)
  have "segment (write_at (rb_mem buf) off [c]) (rb_ridx buf) (rb_widx buf) =
      segment (rb_mem buf) (rb_ridx buf) (rb_widx buf)"
  proof (cases "rb_ridx buf = rb_widx buf")
    case False
    then have "off < rb_ridx buf" using assms by simp
    then show ?thesis
      using d assms(3)
      by (intro nth_equalityI) (auto simp: nth_segment write_at_def nth_append)
  qed simp
  then show "rwbuf_content (rwbuf_poke buf off [c]) = rwbuf_content buf"
    unfolding rwbuf_content_def mem by (simp add: rwbuf_poke_def)
qed

lemma rwbuf_readline_eol:
  assumes inv: "rwbuf_inv buf" and sz: "rb_size buf < 2 ^ 31"
    and eol: "memchr (rwbuf_content buf) 10 = Some i"
    and r: "rwbuf_readline buf maxlen flags = (rc, line, buf')"
  shows "rwbuf_inv buf'" "(rc, line, rwbuf_content buf') = readline_spec (rwbuf_content buf) maxlen eof"
proof -
  note d = rwbuf_invD [OF inv]
  define c where "c = rwbuf_content buf"
  have str: "segment (rb_mem buf) (rb_ridx buf) (rb_ridx buf + rwbuf_used buf) = c"
    using inv d by (simp add: c_def rwbuf_content_def)
  have i: "i < length c" using memchr_SomeD [OF eol] by (simp add: c_def)
  then have lt: "rb_ridx buf + i < rb_widx buf" using length_content [OF inv] by (simp add: c_def)
  have add: "sz_add (rb_ridx buf) (i + 1) = rb_ridx buf + (i + 1)"
    using lt d by (intro sz_add_nowrap) simp
  define b0 where "b0 = snd (rwbuf_rdinc buf (i + 1))"
  have rd: "(let b = buf\<lparr> rb_ridx := rb_ridx buf + (i + 1) \<rparr> in
      if rb_ridx b = rb_widx b then b\<lparr> rb_ridx := 0, rb_widx := 0 \<rparr> else b) = b0"
    using lt d by (simp add: b0_def rwbuf_rdinc_def add [simplified] Let_def)
  note b0 = rwbuf_rdinc_spec [OF inv, of "i + 1", folded b0_def c_def]
  have b0s: "rb_size b0 = rb_size buf" and b0r: "rb_ridx buf + i < rb_ridx b0 \<or> rb_ridx b0 = rb_widx b0"
    using lt d by (auto simp: b0_def rwbuf_rdinc_def add [simplified] Let_def)
  define len where "len = trim_crlf c (i + 1)"
  note t = trim_crlf_eq [OF eol [folded c_def], folded len_def]
  define b1 where "b1 = (if flags AND RWBUF_ADDNUL \<noteq> 0 then rwbuf_poke b0 (rb_ridx buf + len) [0] else b0)"
  have b1: "rwbuf_inv b1 \<and> rwbuf_content b1 = drop (i + 1) c"
    using b0 i b0r b0s t lt d rwbuf_poke_consumed [of b0 "rb_ridx buf + len" 0]
    by (auto simp: b1_def c_def)
  have ci: "c_int (int (i + 1)) = int (i + 1)" using lt d sz by (intro c_int_id) simp_all
  have "rwbuf_readline buf maxlen flags =
      (if maxlen \<noteq> 0 \<and> len > maxlen then -1 else int (i + 1), Some (take len c), b1)"
    using rd unfolding rwbuf_readline_def str Let_def eol [folded c_def] option.case add ci
      len_def [symmetric] b1_def by simp
  moreover have "length (take len c) = len" using t(2) i by simp
  ultimately show "rwbuf_inv buf'" "(rc, line, rwbuf_content buf') = readline_spec (rwbuf_content buf) maxlen eof"
    using r b1 t(1) eol by (auto simp: readline_spec_def c_def [symmetric] Let_def)
qed

lemma rwbuf_readline_refines:
  assumes inv: "rwbuf_inv buf" and sz: "rb_size buf < 2 ^ 31"
    and r: "rwbuf_readline buf maxlen flags = (rc, line, buf')"
  shows "rwbuf_inv buf'"
    "(rc, line, rwbuf_content buf') = readline_spec (rwbuf_content buf) maxlen (flags AND RWBUF_EOF \<noteq> 0)"
proof -
  note d = rwbuf_invD [OF inv]
  define c where "c = rwbuf_content buf"
  have str: "segment (rb_mem buf) (rb_ridx buf) (rb_ridx buf + rwbuf_used buf) = c"
    using inv d by (simp add: c_def rwbuf_content_def)
  have used: "rwbuf_used buf = length c" using inv by (simp add: c_def)
  have ci: "c_int (int (length c)) = int (length c)"
    using length_content [OF inv] d sz by (intro c_int_id) (simp_all add: c_def)
  have "rwbuf_inv buf' \<and>
    (rc, line, rwbuf_content buf') = readline_spec c maxlen (flags AND RWBUF_EOF \<noteq> 0)"
  proof (cases "memchr c 10")
    case (Some i)
    show ?thesis
      using rwbuf_readline_eol [OF inv sz Some [unfolded c_def] r] unfolding c_def by blast
  next
    case None
    have shift: "buf\<lparr> rb_data := map_option (\<lambda>m. write_at m 0 c) (rb_data buf),
        rb_ridx := 0, rb_widx := length c \<rparr> = rwbuf_shift buf" if "rb_ridx buf > 0"
      using that str used
      by (cases "rb_data buf") (simp_all add: rwbuf_shift_def rwbuf_used_def Let_def rb_mem_def)
    have empty: "rwbuf_inv (buf\<lparr> rb_ridx := 0, rb_widx := 0 \<rparr>)"
      "rwbuf_content (buf\<lparr> rb_ridx := 0, rb_widx := 0 \<rparr>) = []"
      using d by (simp_all add: rwbuf_inv_def rwbuf_content_def)
    have "rwbuf_readline buf maxlen flags =
        (if maxlen \<noteq> 0 \<and> length c > maxlen then (-1, None, buf)
         else if flags AND RWBUF_EOF \<noteq> 0 then (int (length c), Some c, buf\<lparr> rb_ridx := 0, rb_widx := 0 \<rparr>)
         else (0, None, if rb_ridx buf > 0 then rwbuf_shift buf else buf))"
      using shift str [unfolded used] None
      unfolding rwbuf_readline_def Let_def used by (simp add: ci)
    then show ?thesis
      using r inv empty rwbuf_shift_inv(1,2) [OF inv] None
      unfolding readline_spec_def by (auto simp: c_def [symmetric] split: if_splits)
  qed
  then show "rwbuf_inv buf'"
    "(rc, line, rwbuf_content buf') = readline_spec (rwbuf_content buf) maxlen (flags AND RWBUF_EOF \<noteq> 0)"
    by (simp_all add: c_def)
qed

section \<open>The buffer as a queue of bytes\<close>

datatype queue_op = Put bytes | Take nat

text \<open>
  A run of writes and reads on a queue with the given operations.  A read takes at most what is
  there.  The result is what was read, what was accepted for writing, and the final state.
\<close>

fun run_queue :: "('b \<Rightarrow> bytes) \<Rightarrow> ('b \<Rightarrow> bytes \<Rightarrow> int \<times> 'b) \<Rightarrow> ('b \<Rightarrow> nat \<Rightarrow> int \<times> 'b) \<Rightarrow>
    'b \<Rightarrow> queue_op list \<Rightarrow> bytes \<times> bytes \<times> 'b" where
  "run_queue content enq deq b [] = ([], [], b)"
| "run_queue content enq deq b (Put m # ops) =
    (let (rc, b') = enq b m; (got, put, b'') = run_queue content enq deq b' ops
     in (got, if rc = 0 then m @ put else put, b''))"
| "run_queue content enq deq b (Take n # ops) =
    (let k = min n (length (content b)); (rc, b') = deq b k;
         (got, put, b'') = run_queue content enq deq b' ops
     in (take k (content b) @ got, put, b''))"

definition small_op :: "queue_op \<Rightarrow> bool" where
  "small_op opr = (case opr of Put m \<Rightarrow> length m < 2 ^ 62 | Take _ \<Rightarrow> True)"

locale byte_queue =
  fixes inv :: "'b \<Rightarrow> bool"
    and content :: "'b \<Rightarrow> bytes"
    and enq :: "'b \<Rightarrow> bytes \<Rightarrow> int \<times> 'b"
    and deq :: "'b \<Rightarrow> nat \<Rightarrow> int \<times> 'b"
  assumes enq_inv: "\<lbrakk>inv b; length m < 2 ^ 62; enq b m = (rc, b')\<rbrakk> \<Longrightarrow> inv b'"
    and enq_done: "\<lbrakk>inv b; length m < 2 ^ 62; enq b m = (0, b')\<rbrakk> \<Longrightarrow> content b' = content b @ m"
    and enq_refused: "\<lbrakk>inv b; length m < 2 ^ 62; enq b m = (rc, b'); rc \<noteq> 0\<rbrakk> \<Longrightarrow> content b' = content b"
    and deq_inv: "\<lbrakk>inv b; n \<le> length (content b); deq b n = (rc, b')\<rbrakk> \<Longrightarrow> inv b'"
    and deq_drop: "\<lbrakk>inv b; n \<le> length (content b); deq b n = (rc, b')\<rbrakk> \<Longrightarrow>
      content b' = drop n (content b)"
begin

lemma fifo:
  assumes "inv b" "\<forall>x \<in> set ops. small_op x"
    and "run_queue content enq deq b ops = (got, put, b')"
  shows "inv b' \<and> content b @ put = got @ content b'"
  using assms
proof (induction ops arbitrary: b got put)
  case (Cons x ops)
  show ?case
  proof (cases x)
    case (Put m)
    obtain rc b1 where w: "enq b m = (rc, b1)" by fastforce
    obtain got1 put1 where r: "run_queue content enq deq b1 ops = (got1, put1, b')"
      and res: "got = got1" "put = (if rc = 0 then m @ put1 else put1)"
      using Cons.prems(3) Put w by (auto split: prod.splits)
    have m: "length m < 2 ^ 62" using Cons.prems(2) Put by (simp add: small_op_def)
    have "inv b' \<and> content b1 @ put1 = got1 @ content b'"
      using Cons.IH [OF enq_inv [OF Cons.prems(1) m w] _ r] Cons.prems(2) by simp
    then show ?thesis
      using res enq_done [OF Cons.prems(1) m] enq_refused [OF Cons.prems(1) m w] w
      by (cases "rc = 0") auto
  next
    case (Take n)
    define k where "k = min n (length (content b))"
    obtain rc b1 where c: "deq b k = (rc, b1)" by fastforce
    obtain got1 where r: "run_queue content enq deq b1 ops = (got1, put, b')"
      and res: "got = take k (content b) @ got1"
      using Cons.prems(3) Take c by (auto simp: k_def Let_def split: prod.splits)
    have k: "k \<le> length (content b)" by (simp add: k_def)
    have "inv b' \<and> content b1 @ put = got1 @ content b'"
      using Cons.IH [OF deq_inv [OF Cons.prems(1) k c] _ r] Cons.prems(2) by simp
    then show ?thesis
      using res deq_drop [OF Cons.prems(1) k c]
      by (metis append.assoc append_take_drop_id)
  qed
qed simp

end

interpretation rwq: byte_queue "\<lambda>b. heap_env_ok env \<and> rwbuf_inv b" rwbuf_content "rwbuf_write env" rwbuf_rdinc for env
proof unfold_locales
  fix b m rc b'
  assume "heap_env_ok env \<and> rwbuf_inv b" "length m < 2 ^ 62" "rwbuf_write env b m = (rc, b')"
  then show "heap_env_ok env \<and> rwbuf_inv b'" using rwbuf_write_spec(1) by blast
next
  fix b m b'
  assume "heap_env_ok env \<and> rwbuf_inv b" "length m < 2 ^ 62" "rwbuf_write env b m = (0, b')"
  then show "rwbuf_content b' = rwbuf_content b @ m" using rwbuf_write_spec(2) by blast
next
  fix b m rc b'
  assume "heap_env_ok env \<and> rwbuf_inv b" "length m < 2 ^ 62" "rwbuf_write env b m = (rc, b')" "rc \<noteq> 0"
  then show "rwbuf_content b' = rwbuf_content b" using rwbuf_write_spec(3) by blast
qed (use rwbuf_rdinc_spec in force)+

lemma rwbuf_init_inv:
  assumes "heap_env_ok env" "n < 2 ^ 62" "rwbuf_init env n maxs = (rc, buf)"
  shows "rwbuf_inv buf" "rwbuf_content buf = []"
proof -
  define b0 where "b0 = \<lparr> rb_data = None, rb_max_size = maxs, rb_size = 0, rb_ridx = 0, rb_widx = 0,
                 rb_is_malloc = True, rb_is_grow = True, rb_live = False \<rparr>"
  have b0: "rwbuf_inv b0" "rwbuf_content b0 = []"
    by (simp_all add: b0_def rwbuf_inv_def rwbuf_content_def rb_mem_def)
  obtain r b where mk: "rwbuf_mkspace env b0 n = (r, b)" by fastforce
  have "buf = b0 \<or> buf = b"
    using assms(3) mk by (auto simp: rwbuf_init_def b0_def [symmetric] Let_def split: if_splits option.splits)
  then show "rwbuf_inv buf" "rwbuf_content buf = []"
    using b0 rwbuf_mkspace_inv(1,2) [OF b0(1) assms(2,1) mk] by auto
qed

lemma RWBUF_INIT_inv: "length mem < 2 ^ 63 \<Longrightarrow> rwbuf_inv (RWBUF_INIT mem) \<and> rwbuf_content (RWBUF_INIT mem) = []"
  by (simp add: RWBUF_INIT_def rwbuf_inv_def rwbuf_content_def rb_mem_def)

section \<open>Properties\<close>

text \<open>
  C5. A read/write buffer is a first-in first-out queue of bytes: over any sequence of writes (which
  may be refused) and reads, the bytes read followed by the bytes left are the bytes there at the
  start followed by those accepted, and the buffer's invariant holds at the end.
\<close>

theorem rwbuf_fifo:
  assumes "heap_env_ok env" "rwbuf_inv buf" "\<forall>x \<in> set ops. small_op x"
    and "run_queue rwbuf_content (rwbuf_write env) rwbuf_rdinc buf ops = (got, put, buf')"
  shows "rwbuf_inv buf' \<and> rwbuf_content buf @ put = got @ rwbuf_content buf'"
  using rwq.fifo [of env buf ops got put buf'] assms by blast

theorem rwbuf_fifo_witness:
  "\<exists>buf'. run_queue rwbuf_content (rwbuf_write \<lparr> alloc_ok = (\<lambda>_. False), junk = (\<lambda>_. 0) \<rparr>) rwbuf_rdinc
      (RWBUF_INIT [0, 0, 0, 0]) [Put [1, 2, 3], Take 2, Put [4, 5, 6], Put [7]] = ([1, 2], [1, 2, 3, 4, 5, 6], buf')
    \<and> rwbuf_inv buf' \<and> rwbuf_content buf' = [3, 4, 5, 6]"
proof -
  let ?env = "\<lparr> alloc_ok = (\<lambda>_. False), junk = (\<lambda>_. 0) \<rparr>"
  let ?b = "\<lparr> rb_data = Some [3, 4, 5, 6], rb_max_size = 4, rb_size = 4, rb_ridx = 0, rb_widx = 4,
    rb_is_malloc = False, rb_is_grow = False, rb_live = True \<rparr>"
  have run: "run_queue rwbuf_content (rwbuf_write ?env) rwbuf_rdinc
      (RWBUF_INIT [0, 0, 0, 0]) [Put [1, 2, 3], Take 2, Put [4, 5, 6], Put [7]] =
      ([1, 2], [1, 2, 3, 4, 5, 6], ?b)"
    by (simp add: RWBUF_INIT_def rwbuf_write_def rwbuf_mkspace_def rwbuf_shift_def rwbuf_wptr_def
        rwbuf_poke_def rwbuf_rdinc_def rwbuf_content_def rb_mem_def segment_def write_at_def
        sz_add_def sz_sub_def Let_def)
  show ?thesis
    using rwbuf_fifo [OF _ _ _ run] RWBUF_INIT_inv [of "[0, 0, 0, 0]"] run
    by (simp add: heap_env_ok_def small_op_def)
qed

text \<open>
  C11. \<open>rwbuf_readline\<close> refines reading a line from a queue of bytes: up to the first line feed, with
  one preceding carriage return removed; an over-long line gives -1; at end of input the remaining
  bytes are a line; and otherwise nothing is consumed and 0 is returned.
\<close>

theorem rwbuf_readline_refinement:
  assumes "rwbuf_inv buf" "rb_size buf < 2 ^ 31"
  shows "case rwbuf_readline buf maxlen flags of (rc, line, buf') \<Rightarrow>
    rwbuf_inv buf' \<and>
    (rc, line, rwbuf_content buf') = readline_spec (rwbuf_content buf) maxlen (flags AND RWBUF_EOF \<noteq> 0)"
  using rwbuf_readline_refines [OF assms] by (auto split: prod.split)

theorem rwbuf_readline_refinement_witness:
  "fst (rwbuf_readline (snd (rwbuf_write \<lparr> alloc_ok = (\<lambda>_. False), junk = (\<lambda>_. 0) \<rparr>
      (RWBUF_INIT [0, 0, 0, 0]) [65, 13, 10, 66])) 8 0) = 3"
proof -
  let ?b = "\<lparr> rb_data = Some [65, 13, 10, 66], rb_max_size = 4, rb_size = 4, rb_ridx = 0, rb_widx = 4,
    rb_is_malloc = False, rb_is_grow = False, rb_live = True \<rparr>"
  have b: "snd (rwbuf_write \<lparr> alloc_ok = (\<lambda>_. False), junk = (\<lambda>_. 0) \<rparr>
      (RWBUF_INIT [0, 0, 0, 0]) [65, 13, 10, 66]) = ?b"
    by (simp add: RWBUF_INIT_def rwbuf_write_def rwbuf_mkspace_def rwbuf_wptr_def
        rwbuf_poke_def write_at_def sz_add_def sz_sub_def Let_def)
  have "rwbuf_inv ?b" "rwbuf_content ?b = [65, 13, 10, 66]"
    by (simp_all add: rwbuf_inv_def rb_mem_def rwbuf_content_def segment_def)
  then show ?thesis
    unfolding b using rwbuf_readline_refinement [of ?b 8 0]
    by (auto simp: readline_spec_def strip_cr_def split: prod.splits)
qed

text \<open>
  Reserving \<open>need > 0\<close> bytes fails exactly when the unread bytes and \<open>need\<close> exceed the capacity and
  the buffer may not grow: it is static, or the new size (twice the old one or what is needed,
  rounded up to 128) is over the limit, or the allocation is refused.
\<close>

theorem rwbuf_mkspace_fails:
  assumes "rwbuf_inv buf" "0 < need" "need < 2 ^ 62"
  shows "fst (rwbuf_mkspace env buf need) = None \<longleftrightarrow>
    (let used = rb_widx buf - rb_ridx buf; g = grow_size (rb_size buf) used need in
     rb_size buf < used + need \<and>
     (\<not> rb_is_grow buf \<or> rb_max_size buf \<noteq> 0 \<and> rb_max_size buf < g \<or> \<not> alloc_ok env g))"
  by (rule rwbuf_mkspace_None_iff [OF assms])

theorem rwbuf_mkspace_fails_witness:
  "fst (rwbuf_mkspace \<lparr> alloc_ok = (\<lambda>_. True), junk = (\<lambda>_. 0) \<rparr> (RWBUF_INIT [0, 0, 0, 0]) 5) = None"
  using rwbuf_mkspace_fails [of "RWBUF_INIT [0, 0, 0, 0]" 5] RWBUF_INIT_inv [of "[0, 0, 0, 0]"]
  by (simp add: RWBUF_INIT_def)

text \<open>
  \<open>rwbuf_rdinc\<close> checks the new read index against the capacity, not against the write index: a
  length beyond the unread bytes but within the capacity is accepted, and the amount of unread
  data then wraps around to a value close to \<open>2 ^ 64\<close>.
\<close>

theorem rwbuf_rdinc_past_write_index:
  assumes "rwbuf_inv buf" "rb_widx buf < rb_ridx buf + n" "rb_ridx buf + n \<le> rb_size buf"
  shows "fst (rwbuf_rdinc buf n) = 0 \<and>
    rwbuf_used (snd (rwbuf_rdinc buf n)) = 2 ^ 64 - (rb_ridx buf + n - rb_widx buf)"
proof -
  have "sz_add (rb_ridx buf) n = rb_ridx buf + n"
    using assms rwbuf_invD(4) [OF assms(1)] by (intro sz_add_nowrap) simp
  moreover have "rb_ridx buf + n < 2 ^ 64" using assms rwbuf_invD(4) [OF assms(1)] by simp
  ultimately show ?thesis
    using assms sz_sub_wrap [of "rb_widx buf" "rb_ridx buf + n"]
    by (simp add: rwbuf_rdinc_def rwbuf_used_def Let_def)
qed

theorem rwbuf_rdinc_past_write_index_witness:
  "rwbuf_used (snd (rwbuf_rdinc (RWBUF_INIT [0, 0, 0, 0]) 4)) = 2 ^ 64 - 4"
  using rwbuf_rdinc_past_write_index [of "RWBUF_INIT [0, 0, 0, 0]" 4] RWBUF_INIT_inv [of "[0, 0, 0, 0]"]
  by (simp add: RWBUF_INIT_def)

end
