(* ===== verification/Hashmap.thy ===== *)
theory Hashmap
  imports Codec
begin

text \<open>
  The hash map template of \<open>src/src/hashmap_impl.h\<close> and its instances in \<open>src/src/hashmap.h\<close>: open
  addressing with linear probing and backward-shift deletion.  What the template's macros
  (\<open>KEY_TYPE\<close>, \<open>KEY_HASH\<close>, \<open>KEY_EQ\<close>) supply is the record \<open>key_ops\<close>, an argument of every
  operation; the locale \<open>key_ops_ok\<close> states what the template needs of them.  The probe loops
  are partial functions, so that a loop that never ends is the value \<^term>\<open>None\<close>; the lemmas
  show that every operation returns.
\<close>

section \<open>Model\<close>

subsection \<open>Hash functions\<close>

fun dbj2a_loop :: "bytes \<Rightarrow> u64 \<Rightarrow> u64" where
  "dbj2a_loop [] hash = hash"
| "dbj2a_loop (c # data) hash = dbj2a_loop data ((push_bit 5 hash + hash) XOR ucast c)"

text \<open>The length is an \<open>int\<close>: nothing is read when it is negative.\<close>

definition dbj2a_hash :: "bytes \<Rightarrow> int \<Rightarrow> u64" where
  "dbj2a_hash key klen = dbj2a_loop (take (nat klen) key) 5381"

text \<open>The argument is converted from \<open>size_t\<close> to \<open>int\<close>.\<close>

definition dbj2a_hash_str :: "bytes \<Rightarrow> u64" where
  "dbj2a_hash_str name = dbj2a_hash name (c_int (int (length name)))"

definition map_hash32 :: "u32 \<Rightarrow> nat \<Rightarrow> nat" where
  "map_hash32 key bits =
    (let key = key XOR drop_bit 16 key in unat (drop_bit (32 - bits) (key * 2654435761)))"

definition map_hash64 :: "u64 \<Rightarrow> nat \<Rightarrow> nat" where
  "map_hash64 key bits =
    (let key = key XOR drop_bit 33 key
     in unat (ucast (drop_bit (64 - bits) (key * 0x9E3779B97F4A7C15)) :: u32))"

text \<open>
  A \<open>char *\<close> key.  \<open>MinusOne\<close> is the pointer \<open>(char *) -1\<close>, which the template uses as the stand-in
  for the key 0.  The hash of a null or invalid pointer is undefined in C; no caller asks for it.
\<close>

datatype strkey = Null | MinusOne | Str bytes

definition map_hashstr :: "strkey \<Rightarrow> nat \<Rightarrow> nat" where
  "map_hashstr key bits =
    (case key of
       Str s \<Rightarrow> unat (ucast (drop_bit (64 - bits) (dbj2a_hash_str s * 0x9E3779B97F4A7C15)) :: u32)
     | _ \<Rightarrow> 0)"

definition map_streq :: "strkey \<Rightarrow> strkey \<Rightarrow> bool" where
  "map_streq a b =
    (if a = b then True
     else (case (a, b) of (Str s, Str t) \<Rightarrow> s = t | _ \<Rightarrow> False))"

subsection \<open>The map\<close>

record ('k, 'v) key_ops =
  k_zero :: 'k
  k_minus1 :: 'k
  v_zero :: 'v
  k_hash :: "'k \<Rightarrow> nat \<Rightarrow> nat"
  k_eq :: "'k \<Rightarrow> 'k \<Rightarrow> bool"

record ('k, 'v) hashmap =
  hm_buckets :: "('k \<times> 'v) list"
  hm_capacity :: nat
  hm_threshold :: nat
  hm_size :: nat
  hm_mask :: nat
  hm_nbits :: nat
  hm_is_fixed :: bool

definition sanitize :: "('k, 'v) key_ops \<Rightarrow> 'k \<Rightarrow> 'k" where
  "sanitize ops k = (if k = k_zero ops then k_minus1 ops else k)"

text \<open>\<open>n ? 32 - __builtin_clz(n) : 0\<close>, the length of \<open>n\<close> in bits.\<close>

fun calc_bits :: "nat \<Rightarrow> nat" where
  "calc_bits n = (if n = 0 then 0 else Suc (calc_bits (n div 2)))"

declare calc_bits.simps [simp del]

partial_function (option) free_slot :: "('k, 'v) key_ops \<Rightarrow> ('k \<times> 'v) list \<Rightarrow> nat \<Rightarrow> nat \<Rightarrow> nat option" where
  "free_slot ops buckets msk idx =
    (if fst (buckets ! idx) \<noteq> k_zero ops then free_slot ops buckets msk ((idx + 1) AND msk)
     else Some idx)"

fun rehash :: "('k, 'v) key_ops \<Rightarrow> nat \<Rightarrow> nat \<Rightarrow> ('k \<times> 'v) list \<Rightarrow> ('k \<times> 'v) list \<Rightarrow> nat \<Rightarrow>
    (('k \<times> 'v) list \<times> nat) option" where
  "rehash ops nbits msk [] buckets sz = Some (buckets, sz)"
| "rehash ops nbits msk ((key, val) # old) buckets sz =
    (if key \<noteq> k_zero ops then
       do {
         idx \<leftarrow> free_slot ops buckets msk (k_hash ops key nbits);
         rehash ops nbits msk old (buckets[idx := (key, val)]) (sz + 1)
       }
     else rehash ops nbits msk old buckets sz)"

text \<open>
  \<open>resize\<close>: \<open>calloc_ok\<close> says whether \<open>calloc\<close> of so many entries succeeds.  The result is 1 or 0 and
  the map.
\<close>

definition map_resize :: "('k, 'v) key_ops \<Rightarrow> (nat \<Rightarrow> bool) \<Rightarrow> ('k, 'v) hashmap \<Rightarrow> nat \<Rightarrow>
    (nat \<times> ('k, 'v) hashmap) option" where
  "map_resize ops calloc_ok m capacity =
    (if hm_is_fixed m then Some (0, m)
     else
       (let nbits = calc_bits ((capacity + 2 ^ 32 - 1) mod 2 ^ 32);
            nbits = (if nbits < 2 then 2 else nbits);
            capacity = 2 ^ nbits
        in if \<not> calloc_ok capacity then Some (0, m)
           else
             (let msk = capacity - 1 in
              do {
                (buckets, sz) \<leftarrow> rehash ops nbits msk (take (hm_capacity m) (hm_buckets m))
                    (replicate capacity (k_zero ops, v_zero ops)) 0;
                Some (1, m\<lparr> hm_buckets := buckets, hm_capacity := capacity,
                    hm_threshold := capacity div 2 + capacity div 4, hm_size := sz,
                    hm_mask := msk, hm_nbits := nbits \<rparr>)
              })))"

definition map_init :: "('k, 'v) key_ops \<Rightarrow> (nat \<Rightarrow> bool) \<Rightarrow> ('k, 'v) hashmap \<Rightarrow> nat \<Rightarrow>
    (nat \<times> ('k, 'v) hashmap) option" where
  "map_init ops calloc_ok m capacity = map_resize ops calloc_ok m capacity"

definition map_free :: "('k, 'v) hashmap \<Rightarrow> ('k, 'v) hashmap" where
  "map_free m =
    (if hm_buckets m \<noteq> [] \<and> \<not> hm_is_fixed m then m\<lparr> hm_buckets := [] \<rparr> else m)"

definition map_attach :: "('k, 'v) hashmap \<Rightarrow> ('k \<times> 'v) list \<Rightarrow> nat \<Rightarrow> nat \<times> ('k, 'v) hashmap" where
  "map_attach m buffer capacity =
    (if capacity < 4 \<or> capacity AND (capacity - 1) \<noteq> 0 then (0, m)
     else (1, m\<lparr> hm_buckets := buffer, hm_capacity := capacity,
                 hm_threshold := capacity div 2 + capacity div 4, hm_size := 0,
                 hm_mask := capacity - 1, hm_nbits := calc_bits (capacity - 1), hm_is_fixed := True \<rparr>))"

text \<open>
  The probe loop of \<open>put\<close> and \<open>get\<close>: the index it stops at, or \<^term>\<open>None\<close> (inside the result) when it
  came back to \<open>end\<close>.
\<close>

partial_function (option) probe :: "('k, 'v) key_ops \<Rightarrow> ('k \<times> 'v) list \<Rightarrow> nat \<Rightarrow> 'k \<Rightarrow> nat \<Rightarrow> nat \<Rightarrow>
    nat option option" where
  "probe ops buckets msk key endi idx =
    (if fst (buckets ! idx) \<noteq> k_zero ops then
       (if k_eq ops (fst (buckets ! idx)) key then Some (Some idx)
        else if (idx + 1) AND msk = endi then Some None
        else probe ops buckets msk key endi ((idx + 1) AND msk))
     else Some (Some idx))"

definition put_entry :: "('k, 'v) key_ops \<Rightarrow> ('k, 'v) hashmap \<Rightarrow> 'k \<Rightarrow> 'v \<Rightarrow> (nat \<times> ('k, 'v) hashmap) option" where
  "put_entry ops m key val =
    (let idx = k_hash ops key (hm_nbits m) in
     do {
       r \<leftarrow> probe ops (hm_buckets m) (hm_mask m) key idx idx;
       Some (case r of
         None \<Rightarrow> (hm_capacity m, m)
       | Some idx \<Rightarrow>
           (idx, m\<lparr> hm_size := (if fst (hm_buckets m ! idx) = k_zero ops then hm_size m + 1 else hm_size m),
                    hm_buckets := (hm_buckets m)[idx := (key, val)] \<rparr>))
     })"

definition map_put :: "('k, 'v) key_ops \<Rightarrow> (nat \<Rightarrow> bool) \<Rightarrow> ('k, 'v) hashmap \<Rightarrow> 'k \<Rightarrow> 'v \<Rightarrow>
    (nat \<times> ('k, 'v) hashmap) option" where
  "map_put ops calloc_ok m key val =
    do {
      (ok, m) \<leftarrow> (if hm_size m \<ge> hm_threshold m then map_resize ops calloc_ok m (hm_capacity m + 1)
                  else Some (1, m));
      if ok = 0 then Some (hm_capacity m, m)
      else if key = k_minus1 ops then Some (hm_capacity m, m)
      else put_entry ops m (sanitize ops key) val
    }"

definition map_get :: "('k, 'v) key_ops \<Rightarrow> ('k, 'v) hashmap \<Rightarrow> 'k \<Rightarrow> nat option" where
  "map_get ops m key =
    (if hm_size m = 0 then Some (hm_capacity m)
     else
       (let key = sanitize ops key;
            idx = k_hash ops key (hm_nbits m)
        in do {
          r \<leftarrow> probe ops (hm_buckets m) (hm_mask m) key idx idx;
          Some (case r of
            None \<Rightarrow> hm_capacity m
          | Some idx \<Rightarrow> if fst (hm_buckets m ! idx) \<noteq> k_zero ops then idx else hm_capacity m)
        }))"

definition must_backshift :: "nat \<Rightarrow> nat \<Rightarrow> nat \<Rightarrow> bool" where
  "must_backshift idx nidx kidx = (((nidx < idx) \<noteq> (kidx \<le> idx)) \<noteq> (kidx > nidx))"

text \<open>The variant compiled under \<open>HASHMAP_BACKSHIFT_NORMAL\<close>.\<close>

definition must_backshift_normal :: "nat \<Rightarrow> nat \<Rightarrow> nat \<Rightarrow> bool" where
  "must_backshift_normal idx nidx kidx =
    (if idx \<le> nidx then kidx \<le> idx \<or> kidx > nidx else kidx > nidx \<and> kidx \<le> idx)"

partial_function (option) backshift :: "('k, 'v) key_ops \<Rightarrow> nat \<Rightarrow> nat \<Rightarrow> ('k \<times> 'v) list \<Rightarrow> nat \<Rightarrow> nat \<Rightarrow>
    (('k \<times> 'v) list \<times> nat) option" where
  "backshift ops msk nbits buckets idx nidx =
    (let nidx = (nidx + 1) AND msk in
     if nidx = idx \<or> fst (buckets ! nidx) = k_zero ops then Some (buckets, idx)
     else if must_backshift idx nidx (k_hash ops (fst (buckets ! nidx)) nbits)
       then backshift ops msk nbits (buckets[idx := buckets ! nidx]) nidx nidx
     else backshift ops msk nbits buckets idx nidx)"

definition map_rem :: "('k, 'v) key_ops \<Rightarrow> ('k, 'v) hashmap \<Rightarrow> nat \<Rightarrow> (nat \<times> ('k, 'v) hashmap) option" where
  "map_rem ops m idx =
    (if hm_size m = 0 \<or> idx \<ge> hm_capacity m then Some (hm_capacity m, m)
     else
       do {
         (buckets, idx) \<leftarrow> backshift ops (hm_mask m) (hm_nbits m) (hm_buckets m) idx idx;
         Some (idx, m\<lparr> hm_buckets := buckets[idx := (k_zero ops, snd (buckets ! idx))],
                       hm_size := hm_size m - 1 \<rparr>)
       })"

definition map_del :: "('k, 'v) key_ops \<Rightarrow> ('k, 'v) hashmap \<Rightarrow> 'k \<Rightarrow> (nat \<times> ('k, 'v) hashmap) option" where
  "map_del ops m key =
    do {
      idx \<leftarrow> map_get ops m (sanitize ops key);
      if idx = hm_capacity m then Some (idx, m) else map_rem ops m idx
    }"

definition map_key :: "('k, 'v) key_ops \<Rightarrow> ('k, 'v) hashmap \<Rightarrow> nat \<Rightarrow> 'k" where
  "map_key ops m idx =
    (if idx \<ge> hm_capacity m \<or> fst (hm_buckets m ! idx) = k_zero ops then k_zero ops
     else fst (hm_buckets m ! idx))"

definition map_val :: "('k, 'v) key_ops \<Rightarrow> ('k, 'v) hashmap \<Rightarrow> nat \<Rightarrow> 'v" where
  "map_val ops m idx =
    (if idx \<ge> hm_capacity m \<or> fst (hm_buckets m ! idx) = k_zero ops then v_zero ops
     else snd (hm_buckets m ! idx))"

definition map_set :: "('k, 'v) key_ops \<Rightarrow> ('k, 'v) hashmap \<Rightarrow> nat \<Rightarrow> 'v \<Rightarrow> nat \<times> ('k, 'v) hashmap" where
  "map_set ops m idx val =
    (if idx \<ge> hm_capacity m \<or> fst (hm_buckets m ! idx) = k_zero ops then (hm_capacity m, m)
     else (idx, m\<lparr> hm_buckets := (hm_buckets m)[idx := (fst (hm_buckets m ! idx), val)] \<rparr>))"

subsection \<open>Instances\<close>

definition map32_ops :: "(u32, u32) key_ops" where
  "map32_ops = \<lparr> k_zero = 0, k_minus1 = -1, v_zero = 0, k_hash = map_hash32, k_eq = (=) \<rparr>"

definition map64_ops :: "(u64, u64) key_ops" where
  "map64_ops = \<lparr> k_zero = 0, k_minus1 = -1, v_zero = 0, k_hash = map_hash64, k_eq = (=) \<rparr>"

definition map32s_ops :: "(strkey, u32) key_ops" where
  "map32s_ops = \<lparr> k_zero = Null, k_minus1 = MinusOne, v_zero = 0, k_hash = map_hashstr, k_eq = map_streq \<rparr>"

definition map64s_ops :: "(strkey, u64) key_ops" where
  "map64s_ops = \<lparr> k_zero = Null, k_minus1 = MinusOne, v_zero = 0, k_hash = map_hashstr, k_eq = map_streq \<rparr>"

text \<open>A map whose memory is all zero, as the resolver's maps start.\<close>

definition hm_zero :: "('k, 'v) hashmap" where
  "hm_zero = \<lparr> hm_buckets = [], hm_capacity = 0, hm_threshold = 0, hm_size = 0, hm_mask = 0,
    hm_nbits = 0, hm_is_fixed = False \<rparr>"

section \<open>Cyclic distance\<close>

definition cdist :: "nat \<Rightarrow> nat \<Rightarrow> nat \<Rightarrow> nat" where
  "cdist N a b = (if a \<le> b then b - a else b + N - a)"

definition nxt :: "nat \<Rightarrow> nat \<Rightarrow> nat" where
  "nxt N i = (if Suc i = N then 0 else Suc i)"

lemma and_mask_nxt: "i < 2 ^ n \<Longrightarrow> (i + 1) AND (2 ^ n - 1) = nxt (2 ^ n) i"
proof -
  assume i: "i < 2 ^ n"
  have "(i + 1) AND (2 ^ n - 1) = (i + 1) mod 2 ^ n"
    using take_bit_eq_mask [of n "i + 1"] by (simp add: take_bit_eq_mod mask_eq_exp_minus_1)
  also have "\<dots> = nxt (2 ^ n) i"
    using i by (auto simp: nxt_def)
  finally show ?thesis .
qed

lemma nxt_lt [simp]: "i < N \<Longrightarrow> nxt N i < N"
  by (auto simp: nxt_def)

lemma cdist_lt: "a < N \<Longrightarrow> b < N \<Longrightarrow> cdist N a b < N"
  by (auto simp: cdist_def)

lemma cdist_0 [simp]: "a < N \<Longrightarrow> b < N \<Longrightarrow> cdist N a b = 0 \<longleftrightarrow> a = b"
  by (auto simp: cdist_def)

lemma cdist_self [simp]: "cdist N a a = 0"
  by (simp add: cdist_def)

lemma cdist_inj: "a < N \<Longrightarrow> b < N \<Longrightarrow> c < N \<Longrightarrow> cdist N a b = cdist N a c \<longleftrightarrow> b = c"
  by (auto simp: cdist_def split: if_splits)

lemma cdist_nxt: "a < N \<Longrightarrow> i < N \<Longrightarrow> nxt N i \<noteq> a \<Longrightarrow> cdist N a (nxt N i) = Suc (cdist N a i)"
  by (auto simp: cdist_def nxt_def)

lemma cdist_nxt_before: "f < N \<Longrightarrow> i < N \<Longrightarrow> i \<noteq> f \<Longrightarrow> cdist N i f = Suc (cdist N (nxt N i) f)"
  by (auto simp: cdist_def nxt_def)

lemma must_backshift_iff:
  "\<lbrakk>i < N; n < N; k < N; i \<noteq> n\<rbrakk> \<Longrightarrow> must_backshift i n k \<longleftrightarrow> cdist N k i < cdist N k n"
  unfolding must_backshift_def cdist_def by auto

lemma must_backshift_normal_eq: "must_backshift i n k = must_backshift_normal i n k"
  unfolding must_backshift_def must_backshift_normal_def by auto

section \<open>Tables\<close>

definition occ :: "('k, 'v) key_ops \<Rightarrow> ('k \<times> 'v) list \<Rightarrow> nat \<Rightarrow> bool" where
  "occ ops bs i \<longleftrightarrow> fst (bs ! i) \<noteq> k_zero ops"

text \<open>The start of the probe sequence of the key in slot \<open>i\<close>.\<close>

definition home :: "('k, 'v) key_ops \<Rightarrow> nat \<Rightarrow> ('k \<times> 'v) list \<Rightarrow> nat \<Rightarrow> nat" where
  "home ops nbits bs i = k_hash ops (fst (bs ! i)) nbits"

definition uniq :: "('k, 'v) key_ops \<Rightarrow> ('k \<times> 'v) list \<Rightarrow> bool" where
  "uniq ops bs \<longleftrightarrow> (\<forall>i < length bs. \<forall>j < length bs.
    occ ops bs i \<and> occ ops bs j \<and> fst (bs ! i) = fst (bs ! j) \<longrightarrow> i = j)"

text \<open>No empty slot between the home of a key and the key.\<close>

definition chained :: "('k, 'v) key_ops \<Rightarrow> nat \<Rightarrow> ('k \<times> 'v) list \<Rightarrow> bool" where
  "chained ops nbits bs \<longleftrightarrow> (\<forall>i < 2 ^ nbits. occ ops bs i \<longrightarrow>
    (\<forall>s < 2 ^ nbits. cdist (2 ^ nbits) (home ops nbits bs i) s \<le> cdist (2 ^ nbits) (home ops nbits bs i) i
      \<longrightarrow> occ ops bs s))"

definition used_slots :: "('k, 'v) key_ops \<Rightarrow> ('k \<times> 'v) list \<Rightarrow> nat set" where
  "used_slots ops bs = {i. i < length bs \<and> occ ops bs i}"

definition table_ok :: "('k, 'v) key_ops \<Rightarrow> nat \<Rightarrow> ('k \<times> 'v) list \<Rightarrow> bool" where
  "table_ok ops nbits bs \<longleftrightarrow> length bs = 2 ^ nbits \<and> uniq ops bs \<and> chained ops nbits bs"

text \<open>The finite map a table stands for.\<close>

definition lookup :: "('k, 'v) key_ops \<Rightarrow> ('k \<times> 'v) list \<Rightarrow> 'k \<Rightarrow> 'v option" where
  "lookup ops bs k = map_of (filter (\<lambda>e. fst e \<noteq> k_zero ops) bs) k"

lemma finite_used_slots [simp]: "finite (used_slots ops bs)"
  by (simp add: used_slots_def)

lemma map_eqI: "(\<And>k v. m k = Some v \<longleftrightarrow> m' k = Some v) \<Longrightarrow> m = m'"
  by (rule ext) (metis option.exhaust option.inject)

lemma lookup_iff:
  assumes "uniq ops bs"
  shows "lookup ops bs k = Some v \<longleftrightarrow> (\<exists>i < length bs. bs ! i = (k, v) \<and> occ ops bs i)"
proof
  assume "lookup ops bs k = Some v"
  then have "(k, v) \<in> set bs" "k \<noteq> k_zero ops"
    by (auto simp: lookup_def dest: map_of_SomeD)
  then show "\<exists>i < length bs. bs ! i = (k, v) \<and> occ ops bs i"
    by (auto simp: in_set_conv_nth occ_def)
next
  assume "\<exists>i < length bs. bs ! i = (k, v) \<and> occ ops bs i"
  then obtain i where i: "i < length bs" "bs ! i = (k, v)" "occ ops bs i" by blast
  then have "(k, v) \<in> set (filter (\<lambda>e. fst e \<noteq> k_zero ops) bs)"
    using nth_mem [OF i(1)] by (auto simp: occ_def)
  then obtain v' where v': "lookup ops bs k = Some v'"
    unfolding lookup_def by (metis weak_map_of_SomeI)
  then have "(k, v') \<in> set bs" by (auto simp: lookup_def dest: map_of_SomeD)
  then obtain j where j: "j < length bs" "bs ! j = (k, v')" by (auto simp: in_set_conv_nth)
  moreover have "occ ops bs j" using i j by (simp add: occ_def)
  ultimately have "i = j" using assms i by (auto simp: uniq_def)
  with i j v' show "lookup ops bs k = Some v" by simp
qed

lemma lookup_None_iff:
  "lookup ops bs k = None \<longleftrightarrow> (\<forall>i < length bs. occ ops bs i \<longrightarrow> fst (bs ! i) \<noteq> k)"
  by (auto simp: lookup_def map_of_eq_None_iff occ_def in_set_conv_nth image_iff) (metis prod.collapse)

lemma occ_update: "i < length bs \<Longrightarrow> occ ops (bs[i := e]) j \<longleftrightarrow> (if i = j then fst e \<noteq> k_zero ops else occ ops bs j)"
  by (auto simp: occ_def nth_list_update)

lemma used_slots_insert:
  assumes "i < length bs" "fst e \<noteq> k_zero ops"
  shows "used_slots ops (bs[i := e]) = insert i (used_slots ops bs)"
  using assms by (auto simp: used_slots_def occ_update)

lemma home_update:
  "j < length bs \<Longrightarrow> home ops nbits (bs[i := e]) j = (if i = j then k_hash ops (fst e) nbits else home ops nbits bs j)"
  by (auto simp: home_def nth_list_update)

text \<open>
  A slot where the probe sequence of \<open>key\<close> stops: it is empty or holds \<open>key\<close>, and no earlier slot is.
\<close>

definition stops_at :: "('k, 'v) key_ops \<Rightarrow> nat \<Rightarrow> ('k \<times> 'v) list \<Rightarrow> 'k \<Rightarrow> nat \<Rightarrow> bool" where
  "stops_at ops nbits bs key t \<longleftrightarrow> t < 2 ^ nbits \<and> (occ ops bs t \<longrightarrow> fst (bs ! t) = key) \<and>
    (\<forall>s < 2 ^ nbits. cdist (2 ^ nbits) (k_hash ops key nbits) s < cdist (2 ^ nbits) (k_hash ops key nbits) t
      \<longrightarrow> occ ops bs s \<and> fst (bs ! s) \<noteq> key)"

lemma uniqD:
  "\<lbrakk>uniq ops bs; i < length bs; j < length bs; occ ops bs i; occ ops bs j; fst (bs ! i) = fst (bs ! j)\<rbrakk> \<Longrightarrow> i = j"
  unfolding uniq_def by blast

lemma chainedD:
  "\<lbrakk>chained ops nbits bs; i < 2 ^ nbits; occ ops bs i; s < 2 ^ nbits;
    cdist (2 ^ nbits) (home ops nbits bs i) s \<le> cdist (2 ^ nbits) (home ops nbits bs i) i\<rbrakk> \<Longrightarrow> occ ops bs s"
  unfolding chained_def by blast

lemma table_okD:
  assumes "table_ok ops nbits bs"
  shows "length bs = 2 ^ nbits" "uniq ops bs" "chained ops nbits bs"
  using assms by (simp_all add: table_ok_def)

lemma stops_atD:
  assumes "stops_at ops nbits bs key t"
  shows "t < 2 ^ nbits" "occ ops bs t \<Longrightarrow> fst (bs ! t) = key"
    "\<lbrakk>s < 2 ^ nbits; cdist (2 ^ nbits) (k_hash ops key nbits) s < cdist (2 ^ nbits) (k_hash ops key nbits) t\<rbrakk>
      \<Longrightarrow> occ ops bs s"
    "\<lbrakk>s < 2 ^ nbits; cdist (2 ^ nbits) (k_hash ops key nbits) s < cdist (2 ^ nbits) (k_hash ops key nbits) t\<rbrakk>
      \<Longrightarrow> fst (bs ! s) \<noteq> key"
  using assms unfolding stops_at_def by blast+

text \<open>
  The state of the deletion loop: \<open>hole\<close> is the slot to be emptied, every slot up to \<open>nidx\<close> has been
  examined.  A probe sequence may be cut by the hole only for a key that is still to be examined.
\<close>

definition hole_ok :: "('k, 'v) key_ops \<Rightarrow> nat \<Rightarrow> ('k \<times> 'v) list \<Rightarrow> nat \<Rightarrow> nat \<Rightarrow> bool" where
  "hole_ok ops nbits bs hole nidx \<longleftrightarrow>
    length bs = 2 ^ nbits \<and> hole < 2 ^ nbits \<and> nidx < 2 ^ nbits \<and> occ ops bs hole \<and>
    (\<forall>i < 2 ^ nbits. \<forall>j < 2 ^ nbits. i \<noteq> hole \<and> j \<noteq> hole \<and> occ ops bs i \<and> occ ops bs j \<and>
      fst (bs ! i) = fst (bs ! j) \<longrightarrow> i = j) \<and>
    (\<forall>i < 2 ^ nbits. i \<noteq> hole \<and> occ ops bs i \<longrightarrow>
      (\<forall>s < 2 ^ nbits. cdist (2 ^ nbits) (home ops nbits bs i) s \<le> cdist (2 ^ nbits) (home ops nbits bs i) i
        \<longrightarrow> occ ops bs s \<and> (s = hole \<longrightarrow> cdist (2 ^ nbits) hole nidx < cdist (2 ^ nbits) hole i)))"

definition entries_but :: "('k, 'v) key_ops \<Rightarrow> ('k \<times> 'v) list \<Rightarrow> nat \<Rightarrow> ('k \<times> 'v) set" where
  "entries_but ops bs hole = {e. \<exists>i < length bs. i \<noteq> hole \<and> occ ops bs i \<and> e = bs ! i}"

lemma cdist_add:
  "\<lbrakk>a < N; b < N; c < N\<rbrakk> \<Longrightarrow> cdist N a c =
    (if cdist N a b + cdist N b c < N then cdist N a b + cdist N b c else cdist N a b + cdist N b c - N)"
  by (cases "a \<le> b"; cases "b \<le> c"; cases "a \<le> c") (auto simp: cdist_def)

lemma cdist_pass_next:
  assumes "h < N" "i < N" "hole < N" "nidx < N"
    and "cdist N h hole \<le> cdist N h i" "cdist N hole nidx < cdist N hole i" "nxt N nidx \<noteq> hole"
  shows "cdist N h (nxt N nidx) \<le> cdist N h i"
proof -
  have "cdist N hole (nxt N nidx) = Suc (cdist N hole nidx)"
    using assms by (intro cdist_nxt) auto
  moreover have "cdist N h i = cdist N h hole + cdist N hole i" "cdist N h hole + cdist N hole i < N"
    using cdist_add [of h N hole i] cdist_lt [of hole N i] assms by (auto split: if_splits)
  ultimately show ?thesis
    using cdist_add [of h N hole "nxt N nidx"] assms by simp
qed

lemma cdist_full_turn: "hole < N \<Longrightarrow> nidx < N \<Longrightarrow> nxt N nidx = hole \<Longrightarrow> cdist N hole nidx = N - 1"
  by (auto simp: nxt_def cdist_def split: if_splits)

lemma hole_ok_start:
  assumes "table_ok ops nbits bs" "hole < 2 ^ nbits" "occ ops bs hole"
  shows "hole_ok ops nbits bs hole hole"
proof -
  have "0 < cdist (2 ^ nbits) hole i" if "i < 2 ^ nbits" "i \<noteq> hole" for i
    using that assms(2) by (intro gr0I) simp
  moreover have len: "length bs = 2 ^ nbits" and "chained ops nbits bs" using assms(1) by (simp_all add: table_ok_def)
  moreover have "uniq ops bs" using assms(1) by (simp add: table_ok_def)
  ultimately show ?thesis
    using assms(2,3) unfolding hole_ok_def cdist_self uniq_def chained_def len by blast
qed

text \<open>What the map needs of the key type: hashes in range, equality of keys, and two reserved keys.\<close>

locale key_ops_ok =
  fixes ops :: "('k, 'v) key_ops"
  assumes hash_lt: "\<lbrakk>2 \<le> nbits; nbits \<le> 31\<rbrakk> \<Longrightarrow> k_hash ops k nbits < 2 ^ nbits"
    and key_eq: "k_eq ops a b \<longleftrightarrow> a = b"
    and zero_minus1: "k_zero ops \<noteq> k_minus1 ops"
begin

lemma stops_at_exists:
  assumes "e < 2 ^ nbits" "\<not> occ ops bs e"
  obtains t where "stops_at ops nbits bs key t"
proof -
  let ?P = "\<lambda>t. t < 2 ^ nbits \<and> (occ ops bs t \<longrightarrow> fst (bs ! t) = key)"
  let ?m = "\<lambda>t. cdist (2 ^ nbits) (k_hash ops key nbits) t"
  have "?P e" using assms by simp
  then obtain t where t: "?P t" and least: "\<And>s. ?P s \<Longrightarrow> ?m t \<le> ?m s"
    using ex_has_least_nat [of ?P e ?m] by blast
  have "occ ops bs s \<and> fst (bs ! s) \<noteq> key" if "s < 2 ^ nbits" "?m s < ?m t" for s
    using least [of s] that by (meson leD)
  with t have "stops_at ops nbits bs key t" unfolding stops_at_def by blast
  then show ?thesis by (rule that)
qed

lemma probe_stops:
  assumes nb: "2 \<le> nbits" "nbits \<le> 31" and t: "stops_at ops nbits bs key t"
    and i: "i < 2 ^ nbits" "cdist (2 ^ nbits) (k_hash ops key nbits) i \<le> cdist (2 ^ nbits) (k_hash ops key nbits) t"
  shows "probe ops bs (2 ^ nbits - 1) key (k_hash ops key nbits) i = Some (Some t)"
  using i
proof (induction "cdist (2 ^ nbits) (k_hash ops key nbits) t - cdist (2 ^ nbits) (k_hash ops key nbits) i"
    arbitrary: i rule: less_induct)
  case less
  let ?N = "2 ^ nbits :: nat" and ?h = "k_hash ops key nbits"
  have h: "?h < ?N" using hash_lt nb by simp
  have tN: "t < ?N" using t by (simp add: stops_at_def)
  show ?case
  proof (cases "i = t")
    case True
    have "occ ops bs t \<longrightarrow> fst (bs ! t) = key" using t by (simp add: stops_at_def)
    then show ?thesis
      unfolding True by (subst probe.simps) (simp add: occ_def key_eq)
  next
    case False
    then have lt: "cdist ?N ?h i < cdist ?N ?h t"
      using less.prems cdist_inj [OF h less.prems(1) tN] by (simp add: le_less)
    then have o: "occ ops bs i" "fst (bs ! i) \<noteq> key" using t less.prems by (auto simp: stops_at_def)
    have ne: "nxt ?N i \<noteq> ?h"
    proof
      assume "nxt ?N i = ?h"
      then have "cdist ?N ?h i = ?N - 1" using h less.prems(1) by (auto simp: nxt_def cdist_def split: if_splits)
      then show False using lt cdist_lt [OF h tN] by linarith
    qed
    have d: "cdist ?N ?h (nxt ?N i) = Suc (cdist ?N ?h i)" using cdist_nxt [OF h less.prems(1) ne] .
    have "probe ops bs (?N - 1) key ?h (nxt ?N i) = Some (Some t)"
      using less.prems lt d by (intro less.hyps) auto
    with o ne show ?thesis
      using and_mask_nxt [OF less.prems(1)]
      by (subst probe.simps) (simp add: occ_def key_eq)
  qed
qed

lemma probe_found:
  assumes "2 \<le> nbits" "nbits \<le> 31" "stops_at ops nbits bs key t"
  shows "probe ops bs (2 ^ nbits - 1) key (k_hash ops key nbits) (k_hash ops key nbits) = Some (Some t)"
  using probe_stops [OF assms, of "k_hash ops key nbits"] hash_lt [OF assms(1,2)] by simp

lemma free_slot_stops:
  assumes nb: "2 \<le> nbits" "nbits \<le> 31" and t: "stops_at ops nbits bs key t" "\<not> occ ops bs t"
    and i: "i < 2 ^ nbits" "cdist (2 ^ nbits) (k_hash ops key nbits) i \<le> cdist (2 ^ nbits) (k_hash ops key nbits) t"
  shows "free_slot ops bs (2 ^ nbits - 1) i = Some t"
  using i
proof (induction "cdist (2 ^ nbits) i t" arbitrary: i rule: less_induct)
  case less
  let ?N = "2 ^ nbits :: nat" and ?h = "k_hash ops key nbits"
  have h: "?h < ?N" using hash_lt nb by simp
  have tN: "t < ?N" using t by (simp add: stops_at_def)
  show ?case
  proof (cases "i = t")
    case True
    then show ?thesis using t by (subst free_slot.simps) (simp add: occ_def)
  next
    case False
    then have lt: "cdist ?N ?h i < cdist ?N ?h t"
      using less.prems cdist_inj [OF h less.prems(1) tN] by (simp add: le_less)
    then have o: "occ ops bs i" using t less.prems by (auto simp: stops_at_def)
    have "cdist ?N (nxt ?N i) t < cdist ?N i t"
      using cdist_nxt_before [OF tN less.prems(1) False] by simp
    moreover have "cdist ?N ?h (nxt ?N i) \<le> cdist ?N ?h t"
      using lt cdist_nxt [OF h less.prems(1)] by (cases "nxt ?N i = ?h") auto
    ultimately have "free_slot ops bs (?N - 1) (nxt ?N i) = Some t"
      using less.prems by (intro less.hyps) auto
    with o show ?thesis
      using and_mask_nxt [OF less.prems(1)] by (subst free_slot.simps) (simp add: occ_def)
  qed
qed

lemma stops_at_present:
  assumes t: "table_ok ops nbits bs" and i: "i < 2 ^ nbits" "occ ops bs i"
  shows "stops_at ops nbits bs (fst (bs ! i)) i"
  unfolding stops_at_def home_def [symmetric]
proof (intro conjI allI impI)
  fix s assume s: "s < 2 ^ nbits"
    "cdist (2 ^ nbits) (home ops nbits bs i) s < cdist (2 ^ nbits) (home ops nbits bs i) i"
  show o: "occ ops bs s" using chainedD [OF table_okD(3) [OF t] i s(1)] s(2) by simp
  show "fst (bs ! s) \<noteq> fst (bs ! i)"
    using uniqD [OF table_okD(2) [OF t], of s i] i s o table_okD(1) [OF t] by (metis nat_less_le)
qed (use i in simp_all)

lemma stops_at_unique:
  assumes nb: "2 \<le> nbits" "nbits \<le> 31" and t: "stops_at ops nbits bs key t" and u: "stops_at ops nbits bs key u"
  shows "t = u"
proof -
  let ?m = "cdist (2 ^ nbits) (k_hash ops key nbits)"
  have "\<not> ?m t < ?m u" using stops_atD [OF t] stops_atD [OF u] by blast
  moreover have "\<not> ?m u < ?m t" using stops_atD [OF t] stops_atD [OF u] by blast
  ultimately show ?thesis
    using hash_lt [OF nb] cdist_inj [of "k_hash ops key nbits" "2 ^ nbits" t u] stops_atD(1) [OF t] stops_atD(1) [OF u]
    by simp
qed

lemma stops_at_empty_absent:
  assumes nb: "2 \<le> nbits" "nbits \<le> 31" and t: "table_ok ops nbits bs" "stops_at ops nbits bs key t"
  shows "occ ops bs t \<longleftrightarrow> lookup ops bs key \<noteq> None"
proof
  assume "occ ops bs t"
  then show "lookup ops bs key \<noteq> None"
    using stops_atD(1,2) [OF t(2)] table_okD(1) [OF t(1)] unfolding lookup_None_iff by metis
next
  assume "lookup ops bs key \<noteq> None"
  then obtain i where i: "i < 2 ^ nbits" "occ ops bs i" "fst (bs ! i) = key"
    using table_okD(1) [OF t(1)] unfolding lookup_None_iff by metis
  with stops_at_present [OF t(1) i(1,2)] stops_at_unique [OF nb t(2)] show "occ ops bs t" by simp
qed

text \<open>Storing an entry where the probe sequence of its key stops.\<close>

lemma table_store:
  assumes nb: "2 \<le> nbits" "nbits \<le> 31" and t: "table_ok ops nbits bs" and st: "stops_at ops nbits bs key t"
    and key: "key \<noteq> k_zero ops"
  shows "table_ok ops nbits (bs[t := (key, v)])" "lookup ops (bs[t := (key, v)]) = (lookup ops bs)(key \<mapsto> v)"
proof -
  let ?bs = "bs[t := (key, v)]"
  note len = table_okD(1) [OF t]
  have tN: "t < length bs" using stops_atD(1) [OF st] len by simp
  have only: "j = t" if "j < length bs" "occ ops bs j" "fst (bs ! j) = key" for j
    using stops_at_present [OF t, of j] stops_at_unique [OF nb st, of j] that len by simp
  have uniq: "uniq ops ?bs"
    unfolding uniq_def
  proof (intro allI impI)
    fix i j assume ij: "i < length ?bs" "j < length ?bs"
      "occ ops ?bs i \<and> occ ops ?bs j \<and> fst (?bs ! i) = fst (?bs ! j)"
    have old: "occ ops bs x \<and> ?bs ! x = bs ! x" if "x \<noteq> t" "occ ops ?bs x" for x
      using that tN by (simp add: occ_update)
    have new: "fst (?bs ! t) = key" using tN by simp
    have lt: "i < length bs" "j < length bs" using ij by simp_all
    consider "i = t" "j = t" | "i = t" "j \<noteq> t" | "i \<noteq> t" "j = t" | "i \<noteq> t" "j \<noteq> t" by blast
    then show "i = j"
    proof cases
      case 2 then show ?thesis using only [OF lt(2)] old [of j] new ij(3) by metis
    next
      case 3 then show ?thesis using only [OF lt(1)] old [of i] new ij(3) by metis
    next
      case 4 then show ?thesis
        using uniqD [OF table_okD(2) [OF t] lt] old [of i] old [of j] ij(3) by metis
    qed simp
  qed
  have "occ ops ?bs s"
    if "i < 2 ^ nbits" "occ ops ?bs i" "s < 2 ^ nbits"
      "cdist (2 ^ nbits) (home ops nbits ?bs i) s \<le> cdist (2 ^ nbits) (home ops nbits ?bs i) i" for i s
  proof (cases "i = t \<or> s = t")
    case True
    then show ?thesis
    proof
      assume "i = t"
      then have "cdist (2 ^ nbits) (k_hash ops key nbits) s \<le> cdist (2 ^ nbits) (k_hash ops key nbits) t"
        using that tN by (simp add: home_update)
      then have "s = t \<or> occ ops bs s"
        using stops_atD(1,3) [OF st] that(3) cdist_inj [OF hash_lt [OF nb] that(3)]
        by (metis le_neq_implies_less)
      then show ?thesis using tN key by (auto simp: occ_update)
    qed (use tN key in \<open>simp add: occ_update\<close>)
  next
    case False
    then have "occ ops bs s"
      using that chainedD [OF table_okD(3) [OF t], of i s] tN len by (simp add: occ_update home_update)
    then show ?thesis using False tN by (simp add: occ_update)
  qed
  then show "table_ok ops nbits ?bs" using len uniq unfolding table_ok_def chained_def by simp
  have "lookup ops ?bs k = Some w \<longleftrightarrow> ((lookup ops bs)(key \<mapsto> v)) k = Some w" for k w
  proof (cases "k = key")
    case True
    then have "lookup ops ?bs k = Some v"
      using tN key by (subst lookup_iff [OF uniq]) (auto simp: occ_update intro!: exI [of _ t])
    with True show ?thesis by auto
  next
    case False
    have "(\<exists>i < length bs. ?bs ! i = (k, w) \<and> occ ops ?bs i) \<longleftrightarrow> (\<exists>i < length bs. bs ! i = (k, w) \<and> occ ops bs i)"
    proof
      assume "\<exists>i < length bs. ?bs ! i = (k, w) \<and> occ ops ?bs i"
      then obtain i where i: "i < length bs" "?bs ! i = (k, w)" "occ ops ?bs i" by blast
      then have "i \<noteq> t" using False tN by auto
      with i tN show "\<exists>i < length bs. bs ! i = (k, w) \<and> occ ops bs i" by (auto simp: occ_update)
    next
      assume "\<exists>i < length bs. bs ! i = (k, w) \<and> occ ops bs i"
      then obtain i where i: "i < length bs" "bs ! i = (k, w)" "occ ops bs i" by blast
      then have "i \<noteq> t" using False stops_atD(2) [OF st] by auto
      with i tN show "\<exists>i < length bs. ?bs ! i = (k, w) \<and> occ ops ?bs i"
        by (auto simp: occ_update intro!: exI [of _ i])
    qed
    with False show ?thesis
      using lookup_iff [OF uniq, of k w] lookup_iff [OF table_okD(2) [OF t], of k w] by simp
  qed
  then show "lookup ops ?bs = (lookup ops bs)(key \<mapsto> v)"
    by (rule map_eqI)
qed

end

end
