(* ===== verification/Map_Interface.thy ===== *)
theory Map_Interface
  imports Main "HOL-Library.Monad_Syntax"
begin

text \<open>
  The interface of a key/value container: insert, delete and look up, each of which may have no
  result (\<^term>\<open>None\<close>) in a model that allows for loops that do not end.  The locale \<open>map_adt\<close> says
  what an implementation promises relative to a finite map, and proves once that whole runs of
  operations then behave like runs on the finite map.  The hash map and the database both
  interpret it.
\<close>

datatype ('k, 'v) map_op = MPut 'k 'v | MDel 'k | MGet 'k

datatype 'v map_out = OPut bool | ODel bool | OGet "'v option"

fun op_key :: "('k, 'v) map_op \<Rightarrow> 'k" where
  "op_key (MPut k v) = k"
| "op_key (MDel k) = k"
| "op_key (MGet k) = k"

text \<open>
  A run of operations on an implementation and the same run on a finite map; a refused insertion
  leaves the map as it is.
\<close>

fun run_map :: "('m \<Rightarrow> 'k \<Rightarrow> 'v \<Rightarrow> (bool \<times> 'm) option) \<Rightarrow> ('m \<Rightarrow> 'k \<Rightarrow> (bool \<times> 'm) option) \<Rightarrow>
    ('m \<Rightarrow> 'k \<Rightarrow> 'v option option) \<Rightarrow> 'm \<Rightarrow> ('k, 'v) map_op list \<Rightarrow> ('v map_out list \<times> 'm) option" where
  "run_map put del look m [] = Some ([], m)"
| "run_map put del look m (MPut k v # xs) =
    do { (b, m) \<leftarrow> put m k v; (outs, m) \<leftarrow> run_map put del look m xs; Some (OPut b # outs, m) }"
| "run_map put del look m (MDel k # xs) =
    do { (b, m) \<leftarrow> del m k; (outs, m) \<leftarrow> run_map put del look m xs; Some (ODel b # outs, m) }"
| "run_map put del look m (MGet k # xs) =
    do { r \<leftarrow> look m k; (outs, m) \<leftarrow> run_map put del look m xs; Some (OGet r # outs, m) }"

fun spec_run :: "('k \<Rightarrow> 'v option) \<Rightarrow> ('k, 'v) map_op list \<Rightarrow> 'v map_out list \<Rightarrow> ('k \<Rightarrow> 'v option) \<Rightarrow> bool" where
  "spec_run a [] [] a' \<longleftrightarrow> a' = a"
| "spec_run a (MPut k v # xs) (OPut b # outs) a' \<longleftrightarrow> spec_run (if b then a(k \<mapsto> v) else a) xs outs a'"
| "spec_run a (MDel k # xs) (ODel b # outs) a' \<longleftrightarrow> (b \<longleftrightarrow> a k \<noteq> None) \<and> spec_run (a(k := None)) xs outs a'"
| "spec_run a (MGet k # xs) (OGet r # outs) a' \<longleftrightarrow> r = a k \<and> spec_run a xs outs a'"
| "spec_run _ _ _ _ \<longleftrightarrow> False"

locale map_adt =
  fixes rel :: "'m \<Rightarrow> ('k \<Rightarrow> 'v option) \<Rightarrow> bool"
    and ok_op :: "('k, 'v) map_op \<Rightarrow> bool"
    and put :: "'m \<Rightarrow> 'k \<Rightarrow> 'v \<Rightarrow> (bool \<times> 'm) option"
    and del :: "'m \<Rightarrow> 'k \<Rightarrow> (bool \<times> 'm) option"
    and look :: "'m \<Rightarrow> 'k \<Rightarrow> 'v option option"
  assumes put_law: "\<lbrakk>rel m a; ok_op (MPut k v)\<rbrakk> \<Longrightarrow>
      \<exists>b m'. put m k v = Some (b, m') \<and> rel m' (if b then a(k \<mapsto> v) else a)"
    and del_law: "\<lbrakk>rel m a; ok_op (MDel k)\<rbrakk> \<Longrightarrow>
      \<exists>b m'. del m k = Some (b, m') \<and> (b \<longleftrightarrow> a k \<noteq> None) \<and> rel m' (a(k := None))"
    and look_law: "\<lbrakk>rel m a; ok_op (MGet k)\<rbrakk> \<Longrightarrow> look m k = Some (a k)"
begin

lemma run_refines:
  assumes "rel m a" "\<forall>x \<in> set xs. ok_op x"
  shows "\<exists>outs m' a'. run_map put del look m xs = Some (outs, m') \<and> rel m' a' \<and> spec_run a xs outs a'"
  using assms
proof (induction xs arbitrary: m a)
  case (Cons x xs)
  have rest: "\<exists>outs m' a'. run_map put del look m1 xs = Some (outs, m') \<and> rel m' a' \<and> spec_run a1 xs outs a'"
    if "rel m1 a1" for m1 a1
    using Cons.IH [OF that] Cons.prems(2) by simp
  show ?case
  proof (cases x)
    case (MPut k v)
    then obtain b m1 where p: "put m k v = Some (b, m1)" "rel m1 (if b then a(k \<mapsto> v) else a)"
      using put_law [OF Cons.prems(1), of k v] Cons.prems(2) by auto
    from rest [OF p(2)] show ?thesis
      using MPut p(1) by (elim exE conjE) (rule exI [of _ "OPut b # _"], auto)
  next
    case (MDel k)
    then obtain b m1 where p: "del m k = Some (b, m1)" "b \<longleftrightarrow> a k \<noteq> None" "rel m1 (a(k := None))"
      using del_law [OF Cons.prems(1), of k] Cons.prems(2) by auto
    from rest [OF p(3)] show ?thesis
      using MDel p(1,2) by (elim exE conjE) (rule exI [of _ "ODel b # _"], auto)
  next
    case (MGet k)
    then have p: "look m k = Some (a k)" using look_law [OF Cons.prems(1), of k] Cons.prems(2) by simp
    from rest [OF Cons.prems(1)] show ?thesis
      using MGet p by (elim exE conjE) (rule exI [of _ "OGet (a k) # _"], auto)
  qed
qed simp

end

end
