(* ===== verification/Hashmap_Ops.thy ===== *)
theory Hashmap_Ops
  imports Hashmap Map_Interface
begin

text \<open>
  Correctness of the hash map operations modelled in \<open>Hashmap\<close>: rehashing into a larger table,
  insertion, lookup and backward-shift deletion refine the operations of a finite map, keep the
  table's invariant and always return.
\<close>

section \<open>Deletion\<close>

lemma hole_okD:
  assumes "hole_ok ops nbits bs hole nidx"
  shows "length bs = 2 ^ nbits" "hole < 2 ^ nbits" "nidx < 2 ^ nbits" "occ ops bs hole"
    "\<lbrakk>i < 2 ^ nbits; j < 2 ^ nbits; i \<noteq> hole; j \<noteq> hole; occ ops bs i; occ ops bs j; fst (bs ! i) = fst (bs ! j)\<rbrakk>
      \<Longrightarrow> i = j"
    "\<lbrakk>i < 2 ^ nbits; i \<noteq> hole; occ ops bs i; s < 2 ^ nbits;
      cdist (2 ^ nbits) (home ops nbits bs i) s \<le> cdist (2 ^ nbits) (home ops nbits bs i) i\<rbrakk> \<Longrightarrow> occ ops bs s"
    "\<lbrakk>i < 2 ^ nbits; i \<noteq> hole; occ ops bs i;
      cdist (2 ^ nbits) (home ops nbits bs i) hole \<le> cdist (2 ^ nbits) (home ops nbits bs i) i\<rbrakk>
      \<Longrightarrow> cdist (2 ^ nbits) hole nidx < cdist (2 ^ nbits) hole i"
  using assms unfolding hole_ok_def by blast+

lemma hole_okI:
  assumes "length bs = 2 ^ nbits" "hole < 2 ^ nbits" "nidx < 2 ^ nbits" "occ ops bs hole"
    "\<And>i j. \<lbrakk>i < 2 ^ nbits; j < 2 ^ nbits; i \<noteq> hole; j \<noteq> hole; occ ops bs i; occ ops bs j; fst (bs ! i) = fst (bs ! j)\<rbrakk>
      \<Longrightarrow> i = j"
    "\<And>i s. \<lbrakk>i < 2 ^ nbits; i \<noteq> hole; occ ops bs i; s < 2 ^ nbits;
      cdist (2 ^ nbits) (home ops nbits bs i) s \<le> cdist (2 ^ nbits) (home ops nbits bs i) i\<rbrakk>
      \<Longrightarrow> occ ops bs s \<and> (s = hole \<longrightarrow> cdist (2 ^ nbits) hole nidx < cdist (2 ^ nbits) hole i)"
  shows "hole_ok ops nbits bs hole nidx"
  using assms unfolding hole_ok_def by blast

lemma used_slots_move:
  assumes "length bs = 2 ^ nbits" "hole < 2 ^ nbits" "n < 2 ^ nbits" "occ ops bs hole" "occ ops bs n"
  shows "used_slots ops (bs[hole := bs ! n]) = used_slots ops bs"
  using assms by (auto simp: used_slots_def occ_update) (auto simp: occ_def)

context key_ops_ok
begin

text \<open>The loop examines a key whose probe sequence does not pass the hole.\<close>

lemma hole_ok_skip:
  assumes nb: "2 \<le> nbits" "nbits \<le> 31" and h: "hole_ok ops nbits bs hole nidx"
    and n: "n = nxt (2 ^ nbits) nidx" "n \<noteq> hole" "occ ops bs n" "\<not> must_backshift hole n (home ops nbits bs n)"
  shows "hole_ok ops nbits bs hole n"
proof (rule hole_okI)
  let ?N = "2 ^ nbits :: nat"
  note d = hole_okD [OF h]
  have nN: "n < ?N" using d(3) n(1) by simp
  have kN: "home ops nbits bs n < ?N" using hash_lt [OF nb] by (simp add: home_def)
  have dn: "cdist ?N hole n = Suc (cdist ?N hole nidx)"
    using cdist_nxt [OF d(2,3)] n(1,2) by simp
  show "length bs = ?N" "hole < ?N" "n < ?N" "occ ops bs hole" using d(1-4) nN by simp_all
  fix i s assume i: "i < ?N" "i \<noteq> hole" "occ ops bs i" "s < ?N"
    "cdist ?N (home ops nbits bs i) s \<le> cdist ?N (home ops nbits bs i) i"
  have "cdist ?N hole n < cdist ?N hole i" if "s = hole"
  proof -
    have "i \<noteq> n"
    proof
      assume "i = n"
      then have "cdist ?N (home ops nbits bs n) hole < cdist ?N (home ops nbits bs n) n"
        using i that cdist_inj [OF kN d(2) nN] n(2) by (simp add: le_less)
      then show False using n(2,4) must_backshift_iff [OF d(2) nN kN] by auto
    qed
    then have "cdist ?N hole i \<noteq> cdist ?N hole n" using cdist_inj [OF d(2) i(1) nN] by simp
    moreover have "cdist ?N hole nidx < cdist ?N hole i" using d(7) i that by simp
    ultimately show ?thesis using dn by simp
  qed
  then show "occ ops bs s \<and> (s = hole \<longrightarrow> cdist ?N hole n < cdist ?N hole i)" using d(6) i by blast
qed (rule hole_okD(5) [OF h])

text \<open>The loop moves a key into the hole, and its slot becomes the hole.\<close>

lemma hole_ok_move:
  assumes nb: "2 \<le> nbits" "nbits \<le> 31" and h: "hole_ok ops nbits bs hole nidx"
    and n: "n < 2 ^ nbits" "n \<noteq> hole" "occ ops bs n" "must_backshift hole n (home ops nbits bs n)"
  shows "hole_ok ops nbits (bs[hole := bs ! n]) n n"
proof (rule hole_okI)
  let ?N = "2 ^ nbits :: nat" and ?bs = "bs[hole := bs ! n]"
  note d = hole_okD [OF h]
  have kN: "home ops nbits bs n < ?N" using hash_lt [OF nb] by (simp add: home_def)
  have lt: "cdist ?N (home ops nbits bs n) hole < cdist ?N (home ops nbits bs n) n"
    using must_backshift_iff [OF d(2) n(1) kN] n by auto
  have o: "occ ops ?bs x \<longleftrightarrow> occ ops bs x" if "x < ?N" for x
    using that d(1,2,4) n(3) by (auto simp: occ_update) (auto simp: occ_def)
  have hm: "home ops nbits ?bs x = (if x = hole then home ops nbits bs n else home ops nbits bs x)" if "x < ?N" for x
    using that d(1,2) by (auto simp: home_def)
  have src: "?bs ! x = bs ! (if x = hole then n else x)" if "x < ?N" for x
    using that d(1,2) by auto
  show "length ?bs = ?N" "n < ?N" "n < ?N" "occ ops ?bs n"
    using d(1) n(1,3) o [OF n(1)] by simp_all
  fix i assume i: "i < ?N" "i \<noteq> n" "occ ops ?bs i"
  show "occ ops ?bs s \<and> (s = n \<longrightarrow> cdist ?N n n < cdist ?N n i)"
    if s: "s < ?N" "cdist ?N (home ops nbits ?bs i) s \<le> cdist ?N (home ops nbits ?bs i) i" for s
  proof
    have "0 < cdist ?N n i" using i n by (intro gr0I) simp
    then show "s = n \<longrightarrow> cdist ?N n n < cdist ?N n i" by simp
    show "occ ops ?bs s"
    proof (cases "i = hole")
      case True
      then have "cdist ?N (home ops nbits bs n) s \<le> cdist ?N (home ops nbits bs n) n"
        using s lt hm [OF i(1)] by simp
      then show ?thesis using d(6) [OF n(1,2,3) s(1)] o [OF s(1)] by simp
    next
      case False
      then show ?thesis using d(6) [OF i(1) False _ s(1)] s hm [OF i(1)] i o by simp
    qed
  qed
  fix j assume j: "j < ?N" "j \<noteq> n" "occ ops ?bs j" "fst (?bs ! i) = fst (?bs ! j)"
  define i' j' where "i' = (if i = hole then n else i)" and "j' = (if j = hole then n else j)"
  have "i' = j'"
    using i j n o [OF i(1)] o [OF j(1)] src [OF i(1)] src [OF j(1)]
    by (intro d(5)) (auto simp: i'_def j'_def)
  then show "i = j" using i(2) j(2) by (auto simp: i'_def j'_def split: if_splits)
qed

lemma entries_but_move:
  assumes "length bs = 2 ^ nbits" "hole < 2 ^ nbits" "n < 2 ^ nbits" "n \<noteq> hole" "occ ops bs n" "occ ops bs hole"
  shows "entries_but ops (bs[hole := bs ! n]) n = entries_but ops bs hole"
proof -
  have "(\<exists>i < 2 ^ nbits. i \<noteq> n \<and> occ ops (bs[hole := bs ! n]) i \<and> e = bs[hole := bs ! n] ! i) \<longleftrightarrow>
      (\<exists>i < 2 ^ nbits. i \<noteq> hole \<and> occ ops bs i \<and> e = bs ! i)" (is "?L \<longleftrightarrow> ?R") for e
  proof
    assume ?L
    then obtain i where i: "i < 2 ^ nbits" "i \<noteq> n" "occ ops (bs[hole := bs ! n]) i" "e = bs[hole := bs ! n] ! i"
      by blast
    with assms show ?R
      by (intro exI [of _ "if i = hole then n else i"]) (auto simp: occ_update)
  next
    assume ?R
    then obtain i where i: "i < 2 ^ nbits" "i \<noteq> hole" "occ ops bs i" "e = bs ! i" by blast
    with assms show ?L
      by (intro exI [of _ "if i = n then hole else i"]) (auto simp: occ_update occ_def)
  qed
  then show ?thesis unfolding entries_but_def length_list_update assms(1) by (simp only:)
qed

lemma hole_ok_finish:
  assumes nb: "2 \<le> nbits" "nbits \<le> 31" and h: "hole_ok ops nbits bs hole nidx"
    and e: "nxt (2 ^ nbits) nidx = hole \<or> \<not> occ ops bs (nxt (2 ^ nbits) nidx)"
  shows "table_ok ops nbits (bs[hole := (k_zero ops, w)])"
proof -
  let ?N = "2 ^ nbits :: nat" and ?bs = "bs[hole := (k_zero ops, w)]"
  note d = hole_okD [OF h]
  have o: "occ ops ?bs x \<longleftrightarrow> x \<noteq> hole \<and> occ ops bs x" for x
    using d(1,2) by (simp add: occ_update)
  have uniq: "uniq ops ?bs"
    unfolding uniq_def length_list_update d(1) o
  proof (intro allI impI, elim conjE)
    fix i j assume "i < ?N" "j < ?N" "i \<noteq> hole" "occ ops bs i" "j \<noteq> hole" "occ ops bs j"
      "fst (?bs ! i) = fst (?bs ! j)"
    then show "i = j" by (intro d(5)) simp_all
  qed
  have "s \<noteq> hole \<and> occ ops bs s"
    if i: "i < ?N" "i \<noteq> hole" "occ ops bs i" and s: "s < ?N"
      "cdist ?N (home ops nbits bs i) s \<le> cdist ?N (home ops nbits bs i) i" for i s
  proof
    show "occ ops bs s" using d(6) i s by blast
    have hN: "home ops nbits bs i < ?N" using hash_lt [OF nb] by (simp add: home_def)
    show "s \<noteq> hole"
    proof
      assume sh: "s = hole"
      then have lt: "cdist ?N hole nidx < cdist ?N hole i" using d(7) i s by blast
      have ne: "nxt ?N nidx \<noteq> hole"
      proof
        assume "nxt ?N nidx = hole"
        then have "cdist ?N hole nidx = ?N - 1" by (rule cdist_full_turn [OF d(2,3)])
        then show False using lt cdist_lt [OF d(2) i(1)] by simp
      qed
      have "cdist ?N (home ops nbits bs i) (nxt ?N nidx) \<le> cdist ?N (home ops nbits bs i) i"
        using cdist_pass_next [OF hN i(1) d(2,3) _ lt ne] s sh by simp
      then have "occ ops bs (nxt ?N nidx)" using d(6) [OF i] d(3) by simp
      then show False using e ne by simp
    qed
  qed
  note clear = this
  have "chained ops nbits ?bs"
    unfolding chained_def
  proof (intro allI impI)
    fix i s assume i: "i < ?N" "occ ops ?bs i" and s: "s < ?N"
      "cdist ?N (home ops nbits ?bs i) s \<le> cdist ?N (home ops nbits ?bs i) i"
    then have "home ops nbits ?bs i = home ops nbits bs i" using o d(1) by (simp add: home_update)
    then show "occ ops ?bs s" using clear [of i s] i s o by simp
  qed
  with uniq d(1) show ?thesis by (simp add: table_ok_def)
qed

lemma backshift_returns:
  assumes nb: "2 \<le> nbits" "nbits \<le> 31" and "hole_ok ops nbits bs hole nidx"
    and f: "f < 2 ^ nbits" and "\<not> occ ops bs f" "nidx \<noteq> f"
  shows "\<exists>bs' hole'. backshift ops (2 ^ nbits - 1) nbits bs hole nidx = Some (bs', hole') \<and>
    length bs' = 2 ^ nbits \<and> hole' < 2 ^ nbits \<and> occ ops bs' hole' \<and>
    (\<forall>w. table_ok ops nbits (bs'[hole' := (k_zero ops, w)])) \<and>
    entries_but ops bs' hole' = entries_but ops bs hole \<and> used_slots ops bs' = used_slots ops bs"
  using assms(3,5,6)
proof (induction "cdist (2 ^ nbits) nidx f" arbitrary: bs hole nidx rule: less_induct)
  case less
  let ?N = "2 ^ nbits :: nat"
  note d = hole_okD [OF less.prems(1)]
  define n where "n = nxt ?N nidx"
  have nN: "n < ?N" using d(3) by (simp add: n_def)
  have msk: "(nidx + 1) AND (?N - 1) = n" using and_mask_nxt [OF d(3)] by (simp add: n_def)
  have dec: "cdist ?N n f < cdist ?N nidx f"
    using cdist_nxt_before [OF f d(3) less.prems(3)] by (simp add: n_def)
  consider (stop) "n = hole \<or> \<not> occ ops bs n"
    | (move) "n \<noteq> hole" "occ ops bs n" "must_backshift hole n (home ops nbits bs n)"
    | (skip) "n \<noteq> hole" "occ ops bs n" "\<not> must_backshift hole n (home ops nbits bs n)" by blast
  then show ?case
  proof cases
    case stop
    then have "backshift ops (?N - 1) nbits bs hole nidx = Some (bs, hole)"
      by (subst backshift.simps) (simp add: msk [simplified] Let_def occ_def)
    with hole_ok_finish [OF nb less.prems(1) stop [unfolded n_def]] d(1,2,4) show ?thesis by blast
  next
    case move
    let ?bs = "bs[hole := bs ! n]"
    have u: "used_slots ops ?bs = used_slots ops bs"
      using used_slots_move [OF d(1,2) nN d(4) move(2)] .
    have "\<not> occ ops ?bs f" "n \<noteq> f"
      using less.prems(2) move(2) d(1,2,4) f by (auto simp: occ_update)
    from less.hyps [OF dec hole_ok_move [OF nb less.prems(1) nN move] this]
    obtain bs' hole' where r: "backshift ops (?N - 1) nbits ?bs n n = Some (bs', hole')"
        "length bs' = ?N" "hole' < ?N" "occ ops bs' hole'"
        "\<forall>w. table_ok ops nbits (bs'[hole' := (k_zero ops, w)])"
        "entries_but ops bs' hole' = entries_but ops ?bs n" "used_slots ops bs' = used_slots ops ?bs"
      by blast
    have "backshift ops (?N - 1) nbits bs hole nidx = Some (bs', hole')"
      using move r(1) by (subst backshift.simps) (simp add: msk [simplified] Let_def occ_def home_def)
    moreover have "entries_but ops bs' hole' = entries_but ops bs hole"
      using r(6) entries_but_move [OF d(1,2) nN move(1,2) d(4)] by simp
    ultimately show ?thesis using r(2-5,7) u by simp
  next
    case skip
    have "n \<noteq> f" using less.prems(2) skip(2) by auto
    from less.hyps [OF dec hole_ok_skip [OF nb less.prems(1) n_def skip] less.prems(2) this] skip
    show ?thesis
      by (subst backshift.simps) (simp add: msk [simplified] Let_def occ_def home_def)
  qed
qed

lemma lookup_without:
  assumes t: "table_ok ops nbits bs" and i: "i < 2 ^ nbits" "occ ops bs i"
  shows "((lookup ops bs)(fst (bs ! i) := None)) k = Some v \<longleftrightarrow> (k, v) \<in> entries_but ops bs i"
proof -
  note d = table_okD [OF t]
  have key: "fst (bs ! j) \<noteq> fst (bs ! i)" if "j < length bs" "j \<noteq> i" "occ ops bs j" for j
    using uniqD [OF d(2) that(1) _ that(3) i(2)] i(1) that(2) d(1) by metis
  have "((lookup ops bs)(fst (bs ! i) := None)) k = Some v \<longleftrightarrow>
      k \<noteq> fst (bs ! i) \<and> (\<exists>j < length bs. bs ! j = (k, v) \<and> occ ops bs j)"
    using lookup_iff [OF d(2)] by simp
  also have "\<dots> \<longleftrightarrow> (k, v) \<in> entries_but ops bs i"
    unfolding entries_but_def mem_Collect_eq using key by (metis fst_conv)
  finally show ?thesis .
qed

lemma lookup_hole:
  assumes "table_ok ops nbits (bs[i := (k_zero ops, w)])" "i < length bs"
  shows "lookup ops (bs[i := (k_zero ops, w)]) k = Some v \<longleftrightarrow> (k, v) \<in> entries_but ops bs i"
  unfolding lookup_iff [OF table_okD(2) [OF assms(1)]] entries_but_def mem_Collect_eq
  using assms(2) by (auto simp: occ_update)

end

section \<open>Growing\<close>

lemma calc_bits_le: "n < 2 ^ k \<Longrightarrow> calc_bits n \<le> k"
proof (induction k arbitrary: n)
  case (Suc k)
  then have "n div 2 < 2 ^ k" by simp
  then show ?case using Suc.IH [of "n div 2"] by (subst calc_bits.simps) simp
qed (simp add: calc_bits.simps)

lemma calc_bits_gt: "2 ^ k \<le> n \<Longrightarrow> k < calc_bits n"
proof (induction k arbitrary: n)
  case (Suc k)
  then have "2 ^ k \<le> n div 2" "n \<noteq> 0" by (simp, metis le_zero_eq power_not_zero zero_neq_numeral)
  then show ?case using Suc.IH [of "n div 2"] Suc.prems by (subst calc_bits.simps) simp
qed (simp add: calc_bits.simps)

lemma calc_bits_power: "calc_bits (2 ^ k) = Suc k"
  using calc_bits_le [of "2 ^ k" "Suc k"] calc_bits_gt [of k "2 ^ k"] by simp

lemma calc_bits_pred: "calc_bits (2 ^ k - 1) = k"
proof (cases k)
  case (Suc j)
  have "(2 :: nat) ^ j \<le> 2 ^ Suc j - 1" by simp
  then show ?thesis
    using calc_bits_le [of "2 ^ k - 1" k] calc_bits_gt [of j "2 ^ k - 1"] Suc by simp
qed (simp add: calc_bits.simps)

lemma calc_bits_0 [simp]: "calc_bits 0 = 0"
  by (simp add: calc_bits.simps)

lemma card_used_slots: "card (used_slots ops bs) = length (filter (\<lambda>e. fst e \<noteq> k_zero ops) bs)"
  by (simp add: used_slots_def occ_def length_filter_conv_card)

lemma uniq_Cons:
  assumes "uniq ops (e # bs)"
  shows "uniq ops bs" "fst e \<noteq> k_zero ops \<Longrightarrow> fst e \<notin> fst ` set (filter (\<lambda>e. fst e \<noteq> k_zero ops) bs)"
proof -
  show "uniq ops bs"
    unfolding uniq_def
  proof (intro allI impI, elim conjE)
    fix i j assume "i < length bs" "j < length bs" "occ ops bs i" "occ ops bs j" "fst (bs ! i) = fst (bs ! j)"
    then show "i = j" using uniqD [OF assms, of "Suc i" "Suc j"] by (simp add: occ_def)
  qed
  show "fst e \<notin> fst ` set (filter (\<lambda>e. fst e \<noteq> k_zero ops) bs)" if z: "fst e \<noteq> k_zero ops"
  proof
    assume "fst e \<in> fst ` set (filter (\<lambda>e. fst e \<noteq> k_zero ops) bs)"
    then obtain i where "i < length bs" "fst (bs ! i) = fst e"
      by (auto simp: in_set_conv_nth)
    then show False using uniqD [OF assms, of 0 "Suc i"] z by (simp add: occ_def)
  qed
qed

lemma empty_slot:
  assumes "length bs = 2 ^ nbits" "card (used_slots ops bs) < 2 ^ nbits"
  obtains f where "f < 2 ^ nbits" "\<not> occ ops bs f"
proof (rule ccontr)
  assume "\<not> thesis"
  then have "used_slots ops bs = {..< 2 ^ nbits}" using assms(1) that by (auto simp: used_slots_def)
  then show False using assms(2) by simp
qed

lemma table_ok_empty: "table_ok ops nbits (replicate (2 ^ nbits) (k_zero ops, v))"
  by (simp add: table_ok_def uniq_def chained_def occ_def)

lemma lookup_empty: "lookup ops (replicate n (k_zero ops, v)) = Map.empty"
  by (simp add: lookup_def fun_eq_iff)

context key_ops_ok
begin

lemma rehash_spec:
  assumes nb: "2 \<le> nbits" "nbits \<le> 31"
  shows "\<lbrakk>table_ok ops nbits bs; uniq ops old;
      card (used_slots ops bs) + length (filter (\<lambda>e. fst e \<noteq> k_zero ops) old) < 2 ^ nbits;
      \<forall>e \<in> set old. fst e \<noteq> k_zero ops \<longrightarrow> lookup ops bs (fst e) = None\<rbrakk> \<Longrightarrow>
    \<exists>bs'. rehash ops nbits (2 ^ nbits - 1) old bs sz =
        Some (bs', sz + length (filter (\<lambda>e. fst e \<noteq> k_zero ops) old)) \<and>
      table_ok ops nbits bs' \<and> lookup ops bs' = lookup ops bs ++ lookup ops old \<and>
      card (used_slots ops bs') = card (used_slots ops bs) + length (filter (\<lambda>e. fst e \<noteq> k_zero ops) old)"
proof (induction old arbitrary: bs sz)
  case Nil
  then show ?case by (simp add: lookup_def fun_eq_iff map_add_def)
next
  case (Cons e old)
  obtain key val where e: "e = (key, val)" by fastforce
  note u = uniq_Cons [OF Cons.prems(2)]
  show ?case
  proof (cases "key = k_zero ops")
    case True
    then have "lookup ops (e # old) = lookup ops old" by (simp add: lookup_def e fun_eq_iff)
    moreover have "\<forall>e \<in> set old. fst e \<noteq> k_zero ops \<longrightarrow> lookup ops bs (fst e) = None"
      using Cons.prems(4) by simp
    ultimately show ?thesis using Cons.IH [OF Cons.prems(1) u(1)] Cons.prems(3) True by (simp add: e)
  next
    case False
    have len: "length bs = 2 ^ nbits" using Cons.prems(1) by (simp add: table_ok_def)
    have "card (used_slots ops bs) < 2 ^ nbits" using Cons.prems(3) by simp
    then obtain f where "f < 2 ^ nbits" "\<not> occ ops bs f" by (rule empty_slot [OF len])
    then obtain t where t: "stops_at ops nbits bs key t" by (rule stops_at_exists)
    have none: "lookup ops bs key = None" using Cons.prems(4) False e by simp
    then have free: "\<not> occ ops bs t" using stops_at_empty_absent [OF nb Cons.prems(1) t] by simp
    have slot: "free_slot ops bs (2 ^ nbits - 1) (k_hash ops key nbits) = Some t"
      using free_slot_stops [OF nb t free, of "k_hash ops key nbits"] hash_lt [OF nb] by simp
    let ?bs = "bs[t := (key, val)]"
    note st = table_store [OF nb Cons.prems(1) t False, of val]
    have card: "card (used_slots ops ?bs) = Suc (card (used_slots ops bs))"
      using used_slots_insert [of t bs "(key, val)" ops] stops_atD(1) [OF t] len False free
      by (simp add: used_slots_def)
    have "\<forall>x \<in> set old. fst x \<noteq> k_zero ops \<longrightarrow> lookup ops ?bs (fst x) = None"
      using Cons.prems(4) u(2) False e by (auto simp: st(2))
    from Cons.IH [OF st(1) u(1) _ this, of "sz + 1"] Cons.prems(3) False card
    obtain bs' where r: "rehash ops nbits (2 ^ nbits - 1) old ?bs (sz + 1) =
          Some (bs', sz + 1 + length (filter (\<lambda>e. fst e \<noteq> k_zero ops) old))"
        "table_ok ops nbits bs'" "lookup ops bs' = lookup ops ?bs ++ lookup ops old"
        "card (used_slots ops bs') = Suc (card (used_slots ops bs)) + length (filter (\<lambda>e. fst e \<noteq> k_zero ops) old)"
      by (auto simp: e)
    have "lookup ops old key = None"
      using u(2) False e by (simp add: lookup_def map_of_eq_None_iff)
    then have "lookup ops ?bs ++ lookup ops old = lookup ops bs ++ lookup ops (e # old)"
      using False by (auto simp: st(2) e lookup_def map_add_def fun_eq_iff split: option.split)
    with r slot False show ?thesis by (simp add: e)
  qed
qed

end

section \<open>The map operations\<close>

text \<open>
  A map is either all zero or a table with a load of at most three quarters.  No table has more
  than \<open>2 ^ 30\<close> slots: \<open>calloc_bounded\<close> says that larger allocations fail, which keeps
  \<open>1 << nbits\<close> and the sizes within their 32 bits.
\<close>

definition hm_table :: "('k, 'v) key_ops \<Rightarrow> ('k, 'v) hashmap \<Rightarrow> bool" where
  "hm_table ops m \<longleftrightarrow>
    2 \<le> hm_nbits m \<and> hm_nbits m \<le> 30 \<and> hm_capacity m = 2 ^ hm_nbits m \<and> hm_mask m = hm_capacity m - 1 \<and>
    hm_threshold m = hm_capacity m div 2 + hm_capacity m div 4 \<and>
    table_ok ops (hm_nbits m) (hm_buckets m) \<and> hm_size m = card (used_slots ops (hm_buckets m)) \<and>
    hm_size m \<le> hm_threshold m"

definition hm_ok :: "('k, 'v) key_ops \<Rightarrow> ('k, 'v) hashmap \<Rightarrow> bool" where
  "hm_ok ops m \<longleftrightarrow>
    hm_buckets m = [] \<and> hm_capacity m = 0 \<and> hm_threshold m = 0 \<and> hm_size m = 0 \<or> hm_table ops m"

definition calloc_bounded :: "(nat \<Rightarrow> bool) \<Rightarrow> bool" where
  "calloc_bounded calloc_ok \<longleftrightarrow> (\<forall>n. calloc_ok n \<longrightarrow> n \<le> 2 ^ 30)"

text \<open>The map from user keys to values that a hash map stands for.\<close>

definition hm_map :: "('k, 'v) key_ops \<Rightarrow> ('k, 'v) hashmap \<Rightarrow> 'k \<Rightarrow> 'v option" where
  "hm_map ops m k = lookup ops (hm_buckets m) (sanitize ops k)"

text \<open>The number of bits of the table \<open>put\<close> grows to.\<close>

definition grown_bits :: "('k, 'v) hashmap \<Rightarrow> nat" where
  "grown_bits m = (if hm_capacity m = 0 then 2 else Suc (hm_nbits m))"

lemma hm_tableD:
  assumes "hm_table ops m"
  shows "2 \<le> hm_nbits m" "hm_nbits m \<le> 31" "hm_nbits m \<le> 30" "hm_capacity m = 2 ^ hm_nbits m"
    "hm_mask m = 2 ^ hm_nbits m - 1" "table_ok ops (hm_nbits m) (hm_buckets m)"
    "hm_size m = card (used_slots ops (hm_buckets m))" "hm_size m \<le> hm_threshold m"
    "hm_threshold m = 2 ^ hm_nbits m div 2 + 2 ^ hm_nbits m div 4"
    "length (hm_buckets m) = 2 ^ hm_nbits m"
  using assms by (auto simp: hm_table_def table_ok_def)

lemma threshold_lt: "2 \<le> n \<Longrightarrow> (2 :: nat) ^ n div 2 + 2 ^ n div 4 < 2 ^ n"
proof -
  assume "2 \<le> n"
  then obtain j where "n = j + 2" by (metis add.commute le_Suc_ex)
  then show ?thesis by (simp add: power_add)
qed

lemma threshold_mono: "2 \<le> n \<Longrightarrow> (2 :: nat) ^ n div 2 + 2 ^ n div 4 < 2 ^ Suc n div 2 + 2 ^ Suc n div 4"
proof -
  assume "2 \<le> n"
  then obtain j where "n = j + 2" by (metis add.commute le_Suc_ex)
  then show ?thesis by (simp add: power_add)
qed

lemma hm_table_room: "hm_table ops m \<Longrightarrow> card (used_slots ops (hm_buckets m)) < 2 ^ hm_nbits m"
  using hm_tableD [of ops m] threshold_lt [of "hm_nbits m"] by linarith

context key_ops_ok
begin

lemma sanitize_nonzero: "sanitize ops k \<noteq> k_zero ops"
  using zero_minus1 by (auto simp: sanitize_def)

lemma sanitize_idem [simp]: "sanitize ops (sanitize ops k) = sanitize ops k"
  using zero_minus1 by (simp add: sanitize_def)

lemma table_probe:
  assumes "hm_table ops m" "key \<noteq> k_zero ops"
  obtains t where "stops_at ops (hm_nbits m) (hm_buckets m) key t"
    "probe ops (hm_buckets m) (hm_mask m) key (k_hash ops key (hm_nbits m)) (k_hash ops key (hm_nbits m)) = Some (Some t)"
proof -
  note d = hm_tableD [OF assms(1)]
  obtain f where "f < 2 ^ hm_nbits m" "\<not> occ ops (hm_buckets m) f"
    by (rule empty_slot [OF d(10) hm_table_room [OF assms(1)]])
  then obtain t where t: "stops_at ops (hm_nbits m) (hm_buckets m) key t" by (rule stops_at_exists)
  show ?thesis using that [OF t] probe_found [OF d(1,2) t] d(5) by simp
qed

lemma lookup_size_0: "hm_ok ops m \<Longrightarrow> hm_size m = 0 \<Longrightarrow> lookup ops (hm_buckets m) k = None"
proof -
  assume "hm_ok ops m" "hm_size m = 0"
  then have "hm_buckets m = [] \<or> card (used_slots ops (hm_buckets m)) = 0"
    by (auto simp: hm_ok_def dest: hm_tableD(7))
  then show ?thesis
    by (auto simp: card_used_slots lookup_def)
qed

lemma map_get_spec:
  assumes "hm_ok ops m"
  shows "\<exists>idx. map_get ops m k = Some idx \<and>
    (case hm_map ops m k of
       None \<Rightarrow> idx = hm_capacity m
     | Some v \<Rightarrow> idx < hm_capacity m \<and> hm_buckets m ! idx = (sanitize ops k, v))"
proof (cases "hm_size m = 0")
  case True
  then show ?thesis using lookup_size_0 [OF assms True] by (simp add: map_get_def hm_map_def)
next
  case False
  then have t: "hm_table ops m" using assms by (simp add: hm_ok_def)
  note d = hm_tableD [OF t]
  obtain i where i: "stops_at ops (hm_nbits m) (hm_buckets m) (sanitize ops k) i"
    "probe ops (hm_buckets m) (hm_mask m) (sanitize ops k) (k_hash ops (sanitize ops k) (hm_nbits m))
      (k_hash ops (sanitize ops k) (hm_nbits m)) = Some (Some i)"
    by (rule table_probe [OF t sanitize_nonzero])
  show ?thesis
  proof (cases "occ ops (hm_buckets m) i")
    case True
    then have k: "fst (hm_buckets m ! i) = sanitize ops k" using stops_atD(2) [OF i(1)] by simp
    have iN: "i < hm_capacity m" using stops_atD(1) [OF i(1)] d(4) by simp
    have "lookup ops (hm_buckets m) (sanitize ops k) = Some (snd (hm_buckets m ! i))"
      unfolding lookup_iff [OF table_okD(2) [OF d(6)]]
      using True k iN d(4,10) by (metis prod.collapse)
    then show ?thesis
      using False i(2) True k iN by (simp add: map_get_def hm_map_def Let_def occ_def prod_eq_iff)
  next
    case nocc: False
    then have "lookup ops (hm_buckets m) (sanitize ops k) = None"
      using stops_at_empty_absent [OF d(1,2,6) i(1)] by simp
    then show ?thesis
      using False i(2) nocc by (simp add: map_get_def hm_map_def Let_def occ_def)
  qed
qed

lemma put_entry_spec:
  assumes t: "hm_table ops m" and room: "hm_size m < hm_threshold m" and key: "key \<noteq> k_zero ops"
  shows "\<exists>idx m'. put_entry ops m key val = Some (idx, m') \<and> hm_table ops m' \<and> idx < hm_capacity m' \<and>
    hm_buckets m' ! idx = (key, val) \<and>
    lookup ops (hm_buckets m') = (lookup ops (hm_buckets m))(key \<mapsto> val) \<and> hm_is_fixed m' = hm_is_fixed m"
proof -
  note d = hm_tableD [OF t]
  obtain i where i: "stops_at ops (hm_nbits m) (hm_buckets m) key i"
    "probe ops (hm_buckets m) (hm_mask m) key (k_hash ops key (hm_nbits m)) (k_hash ops key (hm_nbits m)) = Some (Some i)"
    by (rule table_probe [OF t key])
  have iN: "i < length (hm_buckets m)" using stops_atD(1) [OF i(1)] d(10) by simp
  define m' where "m' = m\<lparr> hm_size := (if fst (hm_buckets m ! i) = k_zero ops then hm_size m + 1 else hm_size m),
      hm_buckets := (hm_buckets m)[i := (key, val)] \<rparr>"
  note st = table_store [OF d(1,2,6) i(1) key, of val]
  have "card (used_slots ops (hm_buckets m')) = hm_size m'"
    using used_slots_insert [of i "hm_buckets m" "(key, val)" ops] iN key d(7)
    by (auto simp: m'_def card_insert_if used_slots_def occ_def)
  then have "hm_table ops m'"
    using d t room st(1) by (auto simp: hm_table_def m'_def)
  moreover have "put_entry ops m key val = Some (i, m')"
    using i(2) by (simp add: put_entry_def m'_def Let_def)
  moreover have "hm_capacity m' = hm_capacity m" "hm_is_fixed m' = hm_is_fixed m"
    "hm_buckets m' = (hm_buckets m)[i := (key, val)]" by (simp_all add: m'_def)
  ultimately show ?thesis using st(2) iN d(4,10) by auto
qed

text \<open>
  Resizing to a table with room for the present entries, in general and for the call in \<open>put\<close>.
\<close>

lemma map_resize_spec:
  assumes ok: "hm_ok ops m" and nf: "\<not> hm_is_fixed m"
    and n: "n = max 2 (calc_bits ((capacity + 2 ^ 32 - 1) mod 2 ^ 32))" "n \<le> 30" "calloc_ok (2 ^ n)"
    and room: "hm_size m < 2 ^ n div 2 + 2 ^ n div 4"
  shows "\<exists>m'. map_resize ops calloc_ok m capacity = Some (1, m') \<and> hm_table ops m' \<and> hm_nbits m' = n \<and>
    lookup ops (hm_buckets m') = lookup ops (hm_buckets m) \<and> hm_size m' = hm_size m \<and> hm_is_fixed m' = hm_is_fixed m"
proof -
  let ?old = "take (hm_capacity m) (hm_buckets m)" and ?new = "replicate (2 ^ n) (k_zero ops, v_zero ops)"
  have n2: "2 \<le> n" using n(1) by simp
  have old: "?old = hm_buckets m" "uniq ops (hm_buckets m)"
    "hm_size m = length (filter (\<lambda>e. fst e \<noteq> k_zero ops) (hm_buckets m))"
  proof -
    have "hm_buckets m = [] \<and> hm_size m = 0 \<or> hm_table ops m" using ok by (auto simp: hm_ok_def)
    then show "?old = hm_buckets m" "uniq ops (hm_buckets m)"
      "hm_size m = length (filter (\<lambda>e. fst e \<noteq> k_zero ops) (hm_buckets m))"
      using hm_tableD(4,7,10) [of ops m] hm_tableD(6) [of ops m, THEN table_okD(2)]
      by (auto simp: card_used_slots) (simp add: uniq_def)
  qed
  have c0: "card (used_slots ops ?new) = 0" by (simp add: card_used_slots)
  have "hm_size m < 2 ^ n" using room threshold_lt [OF n2] by linarith
  then obtain bs' where r: "rehash ops n (2 ^ n - 1) ?old ?new 0 = Some (bs', hm_size m)"
      "table_ok ops n bs'" "lookup ops bs' = lookup ops (hm_buckets m)" "card (used_slots ops bs') = hm_size m"
    using rehash_spec [OF n2 _ table_ok_empty [of ops n "v_zero ops"] old(2), of 0] n(2) old(1,3) c0
    by (auto simp: lookup_empty)
  have nb: "(let b = calc_bits ((capacity + 2 ^ 32 - 1) mod 2 ^ 32) in if b < 2 then 2 else b) = n"
    using n(1) by (simp add: max_def Let_def)
  define m' where "m' = m\<lparr> hm_buckets := bs', hm_capacity := 2 ^ n,
      hm_threshold := 2 ^ n div 2 + 2 ^ n div 4, hm_size := hm_size m, hm_mask := 2 ^ n - 1, hm_nbits := n \<rparr>"
  have "map_resize ops calloc_ok m capacity = Some (1, m')"
    using nf n(3) r(1) nb unfolding map_resize_def Let_def by (simp add: m'_def)
  moreover have "hm_table ops m'" using n2 n(2) r room by (simp add: hm_table_def m'_def)
  ultimately show ?thesis using r(3) by (auto simp: m'_def)
qed

lemma map_resize_put:
  assumes ok: "hm_ok ops m" and cb: "calloc_bounded calloc_ok"
  shows "if hm_is_fixed m \<or> \<not> calloc_ok (2 ^ grown_bits m)
    then map_resize ops calloc_ok m (hm_capacity m + 1) = Some (0, m)
    else \<exists>m'. map_resize ops calloc_ok m (hm_capacity m + 1) = Some (1, m') \<and> hm_table ops m' \<and>
      hm_nbits m' = grown_bits m \<and> lookup ops (hm_buckets m') = lookup ops (hm_buckets m) \<and>
      hm_size m' < hm_threshold m' \<and> hm_is_fixed m' = hm_is_fixed m"
proof -
  define b where "b = calc_bits ((hm_capacity m + 1 + 2 ^ 32 - 1) mod 2 ^ 32)"
  have cap: "hm_capacity m < 2 ^ 32"
  proof (cases "hm_capacity m = 0")
    case False
    then have t: "hm_table ops m" using ok by (auto simp: hm_ok_def)
    have "(2 :: nat) ^ hm_nbits m \<le> 2 ^ 30" using hm_tableD(3) [OF t] by (intro power_increasing) simp_all
    then show ?thesis using hm_tableD(4) [OF t] by simp
  qed simp
  then have "(hm_capacity m + 1 + 2 ^ 32 - 1) mod 2 ^ 32 = hm_capacity m" by simp
  then have bc: "b = calc_bits (hm_capacity m)" by (simp add: b_def)
  have b: "max 2 b = grown_bits m"
  proof (cases "hm_capacity m = 0")
    case False
    then have t: "hm_table ops m" using ok by (auto simp: hm_ok_def)
    with False show ?thesis using hm_tableD(1,4) [OF t] by (simp add: bc grown_bits_def calc_bits_power)
  qed (simp add: bc grown_bits_def calc_bits_0)
  show ?thesis
  proof (cases "hm_is_fixed m \<or> \<not> calloc_ok (2 ^ grown_bits m)")
    case True
    then show ?thesis using b unfolding map_resize_def Let_def b_def [symmetric]
      by (auto simp: max_def split: if_splits)
  next
    case False
    then have "(2 :: nat) ^ grown_bits m \<le> 2 ^ 30" using cb by (simp add: calloc_bounded_def)
    then have g30: "grown_bits m \<le> 30" by (rule power_le_imp_le_exp [rotated]) simp
    have room: "hm_size m < 2 ^ grown_bits m div 2 + 2 ^ grown_bits m div 4"
    proof (cases "hm_capacity m = 0")
      case True
      then have "hm_size m = 0" using ok by (auto simp: hm_ok_def hm_table_def)
      then show ?thesis using True by (simp add: grown_bits_def)
    next
      case nz: False
      then have t: "hm_table ops m" using ok by (auto simp: hm_ok_def)
      have "hm_size m \<le> 2 ^ hm_nbits m div 2 + 2 ^ hm_nbits m div 4" using hm_tableD(8,9) [OF t] by simp
      also have "\<dots> < 2 ^ Suc (hm_nbits m) div 2 + 2 ^ Suc (hm_nbits m) div 4"
        by (rule threshold_mono [OF hm_tableD(1) [OF t]])
      finally show ?thesis using nz by (simp only: grown_bits_def if_False)
    qed
    obtain m' where m': "map_resize ops calloc_ok m (hm_capacity m + 1) = Some (1, m')" "hm_table ops m'"
        "hm_nbits m' = grown_bits m" "lookup ops (hm_buckets m') = lookup ops (hm_buckets m)"
        "hm_size m' = hm_size m" "hm_is_fixed m' = hm_is_fixed m"
      using map_resize_spec [OF ok _ b [symmetric, unfolded b_def] g30 _ room] False by blast
    have "hm_size m' < hm_threshold m'" using room m'(3,5) hm_tableD(9) [OF m'(2)] by simp
    with False m' show ?thesis by auto
  qed
qed

lemma map_put_spec:
  assumes ok: "hm_ok ops m" and cb: "calloc_bounded calloc_ok"
  shows "\<exists>idx m'. map_put ops calloc_ok m k v = Some (idx, m') \<and> hm_ok ops m' \<and>
    (if k = k_minus1 ops \<or> hm_size m \<ge> hm_threshold m \<and> (hm_is_fixed m \<or> \<not> calloc_ok (2 ^ grown_bits m))
     then idx = hm_capacity m' \<and> lookup ops (hm_buckets m') = lookup ops (hm_buckets m)
     else idx < hm_capacity m' \<and> hm_buckets m' ! idx = (sanitize ops k, v) \<and>
       lookup ops (hm_buckets m') = (lookup ops (hm_buckets m))(sanitize ops k \<mapsto> v))"
proof -
  consider (full) "hm_size m \<ge> hm_threshold m" "hm_is_fixed m \<or> \<not> calloc_ok (2 ^ grown_bits m)"
    | (grow) "hm_size m \<ge> hm_threshold m" "\<not> (hm_is_fixed m \<or> \<not> calloc_ok (2 ^ grown_bits m))"
    | (room) "hm_size m < hm_threshold m" by linarith
  then show ?thesis
  proof cases
    case full
    then have "map_resize ops calloc_ok m (hm_capacity m + 1) = Some (0, m)"
      using map_resize_put [OF ok cb] by simp
    then show ?thesis using full ok by (simp add: map_put_def)
  next
    case grow
    then obtain m1 where m1: "map_resize ops calloc_ok m (hm_capacity m + 1) = Some (1, m1)" "hm_table ops m1"
        "lookup ops (hm_buckets m1) = lookup ops (hm_buckets m)" "hm_size m1 < hm_threshold m1"
      using map_resize_put [OF ok cb] by auto
    then have "map_put ops calloc_ok m k v =
        (if k = k_minus1 ops then Some (hm_capacity m1, m1) else put_entry ops m1 (sanitize ops k) v)"
      using grow by (simp add: map_put_def)
    then show ?thesis
      using put_entry_spec [OF m1(2,4) sanitize_nonzero [of k], of v] m1(2,3) grow
      by (cases "k = k_minus1 ops") (auto simp: hm_ok_def)
  next
    case room
    then have t: "hm_table ops m" using ok by (auto simp: hm_ok_def)
    have "map_put ops calloc_ok m k v =
        (if k = k_minus1 ops then Some (hm_capacity m, m) else put_entry ops m (sanitize ops k) v)"
      using room by (simp add: map_put_def)
    then show ?thesis
      using put_entry_spec [OF t room sanitize_nonzero [of k], of v] t room
      by (cases "k = k_minus1 ops") (auto simp: hm_ok_def)
  qed
qed

lemma map_rem_spec:
  assumes t: "hm_table ops m" and i: "i < hm_capacity m" "occ ops (hm_buckets m) i"
  shows "\<exists>idx m'. map_rem ops m i = Some (idx, m') \<and> hm_table ops m' \<and> idx < hm_capacity m' \<and>
    lookup ops (hm_buckets m') = (lookup ops (hm_buckets m))(fst (hm_buckets m ! i) := None) \<and>
    hm_capacity m' = hm_capacity m"
proof -
  let ?bs = "hm_buckets m" and ?n = "hm_nbits m"
  note d = hm_tableD [OF t]
  have iN: "i < 2 ^ ?n" using i d(4) by simp
  obtain f where f: "f < 2 ^ ?n" "\<not> occ ops ?bs f"
    by (rule empty_slot [OF d(10) hm_table_room [OF t]])
  then have if_ne: "i \<noteq> f" using i by auto
  obtain bs' h where b: "backshift ops (2 ^ ?n - 1) ?n ?bs i i = Some (bs', h)" "length bs' = 2 ^ ?n" "h < 2 ^ ?n"
      "occ ops bs' h" "\<And>w. table_ok ops ?n (bs'[h := (k_zero ops, w)])"
      "entries_but ops bs' h = entries_but ops ?bs i" "used_slots ops bs' = used_slots ops ?bs"
    using backshift_returns [OF d(1,2) hole_ok_start [OF d(6) iN i(2)] f if_ne] by blast
  have pos: "hm_size m \<noteq> 0" using d(7,10) i iN by (auto simp: used_slots_def)
  let ?bs' = "bs'[h := (k_zero ops, snd (bs' ! h))]"
  define m' where "m' = m\<lparr> hm_buckets := ?bs', hm_size := hm_size m - 1 \<rparr>"
  have "used_slots ops ?bs' = used_slots ops bs' - {h}"
    using b(2,3) by (auto simp: used_slots_def occ_update)
  moreover have "h \<in> used_slots ops bs'" using b(2-4) by (simp add: used_slots_def)
  ultimately have "card (used_slots ops ?bs') = hm_size m - 1" using b(7) d(7) by simp
  then have "hm_table ops m'" using t b(5) d by (auto simp: hm_table_def m'_def)
  moreover have "lookup ops ?bs' = (lookup ops ?bs)(fst (?bs ! i) := None)"
    using lookup_hole [OF b(5)] lookup_without [OF d(6) iN i(2)] b(2,3,6) by (intro map_eqI) simp
  moreover have "map_rem ops m i = Some (h, m')"
    using pos i b(1) d(5) by (simp add: map_rem_def m'_def)
  ultimately show ?thesis using b(3) d(4) by (auto simp: m'_def)
qed

lemma map_del_spec:
  assumes ok: "hm_ok ops m"
  shows "\<exists>idx m'. map_del ops m k = Some (idx, m') \<and> hm_ok ops m' \<and> hm_capacity m' = hm_capacity m \<and>
    (idx = hm_capacity m \<longleftrightarrow> hm_map ops m k = None) \<and>
    lookup ops (hm_buckets m') = (lookup ops (hm_buckets m))(sanitize ops k := None)"
proof -
  obtain idx where g: "map_get ops m (sanitize ops k) = Some idx"
      "case hm_map ops m k of None \<Rightarrow> idx = hm_capacity m
       | Some v \<Rightarrow> idx < hm_capacity m \<and> hm_buckets m ! idx = (sanitize ops k, v)"
    using map_get_spec [OF ok, of "sanitize ops k"] unfolding hm_map_def sanitize_idem by blast
  show ?thesis
  proof (cases "hm_map ops m k")
    case None
    then show ?thesis using g ok by (simp add: map_del_def hm_map_def fun_upd_idem)
  next
    case (Some v)
    then have i: "idx < hm_capacity m" "fst (hm_buckets m ! idx) = sanitize ops k" using g by simp_all
    then have t: "hm_table ops m" using ok by (auto simp: hm_ok_def)
    have "occ ops (hm_buckets m) idx" using i(2) sanitize_nonzero by (simp add: occ_def)
    from map_rem_spec [OF t i(1) this] i g(1) Some show ?thesis by (auto simp: map_del_def hm_ok_def)
  qed
qed

end

section \<open>Hash maps as finite maps\<close>

text \<open>What the callers do to read a value: \<open>map_get\<close>, the test for \<open>map_end\<close> and \<open>map_val\<close>.\<close>

definition map_find :: "('k, 'v) key_ops \<Rightarrow> ('k, 'v) hashmap \<Rightarrow> 'k \<Rightarrow> 'v option option" where
  "map_find ops m k =
    do {
      idx \<leftarrow> map_get ops m k;
      Some (if idx = hm_capacity m then None else Some (map_val ops m idx))
    }"

text \<open>The operations with the returned index reduced to whether it is an index of the table.\<close>

definition put_bool :: "('k, 'v) key_ops \<Rightarrow> (nat \<Rightarrow> bool) \<Rightarrow> ('k, 'v) hashmap \<Rightarrow> 'k \<Rightarrow> 'v \<Rightarrow>
    (bool \<times> ('k, 'v) hashmap) option" where
  "put_bool ops c m k v = do { (i, m') \<leftarrow> map_put ops c m k v; Some (i \<noteq> hm_capacity m', m') }"

definition del_bool :: "('k, 'v) key_ops \<Rightarrow> ('k, 'v) hashmap \<Rightarrow> 'k \<Rightarrow> (bool \<times> ('k, 'v) hashmap) option" where
  "del_bool ops m k = do { (i, m') \<leftarrow> map_del ops m k; Some (i \<noteq> hm_capacity m', m') }"

definition hm_abs :: "('k, 'v) key_ops \<Rightarrow> ('k, 'v) hashmap \<Rightarrow> 'k \<Rightarrow> 'v option" where
  "hm_abs ops m k = (if k = k_minus1 ops then None else hm_map ops m k)"

context key_ops_ok
begin

lemma sanitize_inject:
  "a \<noteq> k_minus1 ops \<Longrightarrow> b \<noteq> k_minus1 ops \<Longrightarrow> sanitize ops a = sanitize ops b \<longleftrightarrow> a = b"
  by (simp add: sanitize_def)

lemma hm_abs_upd:
  assumes "lookup ops (hm_buckets m') = (lookup ops (hm_buckets m))(sanitize ops k := r)" "k \<noteq> k_minus1 ops"
  shows "hm_abs ops m' = (hm_abs ops m)(k := r)"
proof
  fix x show "hm_abs ops m' x = ((hm_abs ops m)(k := r)) x"
    using assms(2) sanitize_inject [of x k]
    by (cases "x = k_minus1 ops"; cases "x = k") (simp_all add: hm_abs_def hm_map_def assms(1))
qed

lemma hm_abs_same:
  "lookup ops (hm_buckets m') = lookup ops (hm_buckets m) \<Longrightarrow> hm_abs ops m' = hm_abs ops m"
  by (simp add: hm_abs_def hm_map_def fun_eq_iff)

lemma put_bool_law:
  assumes "calloc_bounded c \<and> hm_ok ops m" "k \<noteq> k_minus1 ops"
  shows "\<exists>b m'. put_bool ops c m k v = Some (b, m') \<and> (calloc_bounded c \<and> hm_ok ops m') \<and>
      hm_abs ops m' = (if b then (hm_abs ops m)(k \<mapsto> v) else hm_abs ops m)"
proof -
  obtain i m' where r: "map_put ops c m k v = Some (i, m')" "hm_ok ops m'"
    "i = hm_capacity m' \<and> lookup ops (hm_buckets m') = lookup ops (hm_buckets m) \<or>
     i \<noteq> hm_capacity m' \<and> lookup ops (hm_buckets m') = (lookup ops (hm_buckets m))(sanitize ops k \<mapsto> v)"
    using map_put_spec [of m c k v] assms(1) by (metis nat_neq_iff)
  then show ?thesis
    using assms hm_abs_same [of m' m] hm_abs_upd [of m' m k "Some v"]
    by (intro exI [of _ "i \<noteq> hm_capacity m'"] exI [of _ m']) (auto simp: put_bool_def)
qed

lemma del_bool_law:
  assumes "calloc_bounded c \<and> hm_ok ops m" "k \<noteq> k_minus1 ops"
  shows "\<exists>b m'. del_bool ops m k = Some (b, m') \<and> (calloc_bounded c \<and> hm_ok ops m') \<and>
      (b \<longleftrightarrow> hm_abs ops m k \<noteq> None) \<and> hm_abs ops m' = (hm_abs ops m)(k := None)"
proof -
  obtain i m' where r: "map_del ops m k = Some (i, m')" "hm_ok ops m'" "hm_capacity m' = hm_capacity m"
    "i = hm_capacity m \<longleftrightarrow> hm_map ops m k = None"
    "lookup ops (hm_buckets m') = (lookup ops (hm_buckets m))(sanitize ops k := None)"
    using map_del_spec [OF conjunct2 [OF assms(1)], of k] by (elim exE conjE) (rule that)
  show ?thesis
    using r(1-4) assms hm_abs_upd [OF r(5) assms(2)]
    by (intro exI [of _ "i \<noteq> hm_capacity m'"] exI [of _ m']) (simp add: del_bool_def, simp add: hm_abs_def)
qed

lemma map_find_law:
  assumes "hm_ok ops m" "k \<noteq> k_minus1 ops"
  shows "map_find ops m k = Some (hm_abs ops m k)"
proof -
  obtain idx where g: "map_get ops m k = Some idx"
      "case hm_map ops m k of None \<Rightarrow> idx = hm_capacity m
       | Some v \<Rightarrow> idx < hm_capacity m \<and> hm_buckets m ! idx = (sanitize ops k, v)"
    using map_get_spec [OF assms(1)] by blast
  then show ?thesis
    using assms(2) sanitize_nonzero [of k]
    by (cases "hm_map ops m k") (simp_all add: map_find_def hm_abs_def map_val_def)
qed

end

sublocale key_ops_ok \<subseteq> adt: map_adt "\<lambda>m a. calloc_bounded c \<and> hm_ok ops m \<and> a = hm_abs ops m"
  "\<lambda>x. op_key x \<noteq> k_minus1 ops" "put_bool ops c" "del_bool ops" "map_find ops" for c
proof unfold_locales
  fix m :: "('k, 'v) hashmap" and a k and v :: 'v
  assume "calloc_bounded c \<and> hm_ok ops m \<and> a = hm_abs ops m" "op_key (MPut k v) \<noteq> k_minus1 ops"
  then show "\<exists>b m'. put_bool ops c m k v = Some (b, m') \<and>
      (calloc_bounded c \<and> hm_ok ops m' \<and> (if b then a(k \<mapsto> v) else a) = hm_abs ops m')"
    using put_bool_law [of c m k v] by (auto split: if_splits)
next
  fix m :: "('k, 'v) hashmap" and a k
  assume "calloc_bounded c \<and> hm_ok ops m \<and> a = hm_abs ops m" "op_key (MDel k :: ('k, 'v) map_op) \<noteq> k_minus1 ops"
  then show "\<exists>b m'. del_bool ops m k = Some (b, m') \<and> b = (a k \<noteq> None) \<and>
      (calloc_bounded c \<and> hm_ok ops m' \<and> a(k := None) = hm_abs ops m')"
    using del_bool_law [of c m k] by auto
next
  fix m :: "('k, 'v) hashmap" and a k
  assume "calloc_bounded c \<and> hm_ok ops m \<and> a = hm_abs ops m" "op_key (MGet k :: ('k, 'v) map_op) \<noteq> k_minus1 ops"
  then show "map_find ops m k = Some (a k)" using map_find_law [of m k] by simp
qed

section \<open>The four instances\<close>

lemma unat_drop_bit_lt:
  fixes w :: "'a :: len word"
  assumes "n \<le> LENGTH('a)"
  shows "unat (drop_bit (LENGTH('a) - n) w) < 2 ^ n"
proof -
  have "unat w < 2 ^ (LENGTH('a) - n) * 2 ^ n"
    using unsigned_less [of w] assms by (simp flip: power_add)
  then have "unat w div 2 ^ (LENGTH('a) - n) < 2 ^ n"
    by (simp add: less_mult_imp_div_less mult.commute)
  then show ?thesis
    by (simp only: unat_drop_bit_eq drop_bit_eq_div [where 'a = nat])
qed

lemma unat_ucast_le: "unat (ucast (w :: u64) :: u32) \<le> unat w"
  by (simp add: unsigned_ucast_eq)

interpretation m32: key_ops_ok map32_ops
proof
  fix nbits k assume "2 \<le> nbits" "nbits \<le> (31 :: nat)"
  then show "k_hash map32_ops k nbits < 2 ^ nbits"
    using unat_drop_bit_lt [where 'a = 32, of nbits] by (simp add: map32_ops_def map_hash32_def Let_def)
qed (simp_all add: map32_ops_def)

interpretation m64: key_ops_ok map64_ops
proof
  fix nbits k assume "2 \<le> nbits" "nbits \<le> (31 :: nat)"
  then show "k_hash map64_ops k nbits < 2 ^ nbits"
    using unat_drop_bit_lt [where 'a = 64, of nbits] unat_ucast_le
    by (simp add: map64_ops_def map_hash64_def Let_def) (meson le_less_trans)
qed (simp_all add: map64_ops_def)

lemma map_hashstr_lt: "nbits \<le> 31 \<Longrightarrow> map_hashstr k nbits < 2 ^ nbits"
  using unat_drop_bit_lt [where 'a = 64, of nbits] unat_ucast_le
  by (auto simp: map_hashstr_def split: strkey.split) (meson le_less_trans)

lemma map_streq_iff: "map_streq a b \<longleftrightarrow> a = b"
  by (auto simp: map_streq_def split: strkey.splits)

interpretation m32s: key_ops_ok map32s_ops
  by unfold_locales (simp_all add: map32s_ops_def map_hashstr_lt map_streq_iff)

interpretation m64s: key_ops_ok map64s_ops
  by unfold_locales (simp_all add: map64s_ops_def map_hashstr_lt map_streq_iff)

lemma hm_ok_zero: "hm_ok ops hm_zero" "hm_abs ops hm_zero = Map.empty"
  by (simp_all add: hm_ok_def hm_zero_def hm_abs_def hm_map_def lookup_def fun_eq_iff)

section \<open>Properties\<close>

text \<open>
  C4. The string-keyed hash map of the resolver refines a finite map: from any map that satisfies the
  invariant, every sequence of insertions, deletions and lookups of string keys returns (no probe
  loop runs forever), each lookup yields what the finite map holds, each deletion reports whether
  the key was there, an insertion that is refused changes nothing, and the invariant holds after.
\<close>

theorem hashmap64s_refines_map:
  assumes "calloc_bounded c" "hm_ok map64s_ops m" "\<forall>x \<in> set xs. \<exists>s. op_key x = Str s"
  shows "\<exists>outs m'. run_map (put_bool map64s_ops c) (del_bool map64s_ops) (map_find map64s_ops) m xs = Some (outs, m') \<and>
    hm_ok map64s_ops m' \<and> spec_run (hm_abs map64s_ops m) xs outs (hm_abs map64s_ops m')"
proof -
  have "\<forall>x \<in> set xs. op_key x \<noteq> k_minus1 map64s_ops"
    using assms(3) by (metis map64s_ops_def key_ops.select_convs(2) strkey.distinct(5))
  then show ?thesis using m64s.adt.run_refines [of c m "hm_abs map64s_ops m" xs] assms(1,2) by blast
qed

theorem hashmap64s_refines_map_witness:
  "\<exists>outs m'. run_map (put_bool map64s_ops (\<lambda>n. n \<le> 16)) (del_bool map64s_ops) (map_find map64s_ops) hm_zero
      [MPut (Str (ascii ''a'')) 5, MPut (Str (ascii ''b'')) 7, MDel (Str (ascii ''a'')), MGet (Str (ascii ''b''))] =
      Some (outs, m') \<and> hm_ok map64s_ops m' \<and>
    spec_run (hm_abs map64s_ops hm_zero)
      [MPut (Str (ascii ''a'')) 5, MPut (Str (ascii ''b'')) 7, MDel (Str (ascii ''a'')), MGet (Str (ascii ''b''))]
      outs (hm_abs map64s_ops m')"
  by (rule hashmap64s_refines_map) (simp_all add: calloc_bounded_def hm_ok_zero)

text \<open>
  C23. The integer-keyed map refines a finite map for every key but \<open>(uint32_t) -1\<close>, which stands in for
  the key 0.
\<close>

theorem hashmap32_refines_map:
  assumes "calloc_bounded c" "hm_ok map32_ops m" "\<forall>x \<in> set xs. op_key x \<noteq> -1"
  shows "\<exists>outs m'. run_map (put_bool map32_ops c) (del_bool map32_ops) (map_find map32_ops) m xs = Some (outs, m') \<and>
    hm_ok map32_ops m' \<and> spec_run (hm_abs map32_ops m) xs outs (hm_abs map32_ops m')"
proof -
  have "\<forall>x \<in> set xs. op_key x \<noteq> k_minus1 map32_ops" using assms(3) by (simp add: map32_ops_def)
  then show ?thesis using m32.adt.run_refines [of c m "hm_abs map32_ops m" xs] assms(1,2) by blast
qed

theorem hashmap32_refines_map_witness:
  "\<exists>outs m'. run_map (put_bool map32_ops (\<lambda>n. n \<le> 8)) (del_bool map32_ops) (map_find map32_ops) hm_zero
      [MPut 0 5, MPut 7 9, MGet 0, MDel 7] = Some (outs, m') \<and> hm_ok map32_ops m' \<and>
    spec_run (hm_abs map32_ops hm_zero) [MPut 0 5, MPut 7 9, MGet 0, MDel 7] outs (hm_abs map32_ops m')"
  by (rule hashmap32_refines_map) (simp_all add: calloc_bounded_def hm_ok_zero)

text \<open>
  An insertion is refused exactly for the reserved key, or when the load limit is reached and the
  table cannot grow because its memory is fixed or the allocation fails.  In particular, an update
  of a key that is present is refused in a fixed table at its load limit.
\<close>

theorem hashmap64s_put_refused:
  assumes "calloc_bounded c" "hm_ok map64s_ops m"
  shows "\<exists>b m'. put_bool map64s_ops c m k v = Some (b, m') \<and>
    (\<not> b \<longleftrightarrow> k = MinusOne \<or> hm_size m \<ge> hm_threshold m \<and> (hm_is_fixed m \<or> \<not> c (2 ^ grown_bits m)))"
  using m64s.map_put_spec [OF assms(2,1), of k v]
  by (auto simp: put_bool_def map64s_ops_def split: if_splits)

theorem hashmap64s_put_refused_witness:
  "\<exists>b m'. put_bool map64s_ops (\<lambda>n. False) hm_zero (Str []) 1 = Some (b, m') \<and> \<not> b"
proof -
  have "hm_size m \<ge> hm_threshold m" if "m = hm_zero" for m :: "(strkey, u64) hashmap"
    using that by (simp add: hm_zero_def)
  moreover have "calloc_bounded (\<lambda>n. False)" by (simp add: calloc_bounded_def)
  ultimately show ?thesis
    using hashmap64s_put_refused [OF _ hm_ok_zero(1), of "\<lambda>n. False" "Str []" 1] by blast
qed

text \<open>
  A lookup of the reserved key \<open>(uint32_t) -1\<close>, which can never be inserted, finds the entry of
  the key 0.
\<close>

theorem hashmap32_minus1_aliases_0:
  "map_find map32_ops m (-1) = map_find map32_ops m 0"
  by (simp add: map_find_def map_get_def sanitize_def map32_ops_def)

end
