(* ===== verification/Db.thy ===== *)
theory Db
  imports Strings Hashmap
begin

text \<open>
  The key/value store of \<open>src/src/db.c\<close>: a table of buckets, each the head of a singly linked chain
  of records, in heap memory or in a mapped file.  The memory behind the links is an explicit store
  from links (addresses or file offsets; 0 is the null link) to records.  A result \<^term>\<open>None\<close> means
  that the C code has no defined result: a chain that never ends, or a link to no record.
\<close>

section \<open>Model\<close>

definition DB_MAX_REC :: nat where "DB_MAX_REC = 10000"
definition DB_NUM_BUCKETS :: nat where "DB_NUM_BUCKETS = 15013"
definition MAX_LINE :: nat where "MAX_LINE = 256"
definition DB_REC_DEL :: u64 where "DB_REC_DEL = 0x1"
definition DB_MAGIC :: u32 where "DB_MAGIC = 0x4D594442"
definition DB_FAIL :: int where "DB_FAIL = -1"
definition DB_REINIT :: int where "DB_REINIT = -2"

text \<open>The sizes of \<open>struct db_rec\<close> without its data and of \<open>struct db_hdr\<close>.\<close>

definition rec_hdr_size :: nat where "rec_hdr_size = 32"
definition db_hdr_size :: nat where "db_hdr_size = 32"

record db_rec =
  r_next :: nat
  r_flags :: u64
  r_key_len :: nat
  r_val_len :: nat
  r_data :: bytes

text \<open>
  The static variables of \<open>db.c\<close> and the fields of the file header.  \<open>db_ready\<close> says that
  \<open>db_buckets\<close> is not null; \<open>hdr_magic\<close> is the magic number in host order.
\<close>

record db =
  db_file :: bool
  db_ready :: bool
  db_buckets :: "nat \<Rightarrow> nat"
  db_heap :: "nat \<Rightarrow> db_rec option"
  db_size :: nat
  hdr_magic :: u32
  hdr_version :: u32
  num_rec :: nat
  num_del :: nat
  next_offset :: nat
  init_done :: bool

text \<open>
  What \<open>malloc\<close> returns for a heap and a size (0 for failure), and the bytes that follow the data of
  the record at a link.
\<close>

record db_env =
  malloc :: "(nat \<Rightarrow> db_rec option) \<Rightarrow> nat \<Rightarrow> nat"
  after_rec :: "nat \<Rightarrow> nat \<Rightarrow> u8"

text \<open>The length of the key is converted from \<open>size_t\<close> to \<open>int\<close>.\<close>

definition calc_hash :: "bytes \<Rightarrow> nat" where
  "calc_hash key = unat (dbj2a_hash key (c_int (int (length key))) mod of_nat DB_NUM_BUCKETS)"

definition create_rec :: "db_env \<Rightarrow> db \<Rightarrow> bytes \<Rightarrow> bytes \<Rightarrow> nat \<times> db" where
  "create_rec env s key val =
    (let rec_size = sz_add (sz_add rec_hdr_size (length key)) (length val);
         rec = \<lparr> r_next = 0, r_flags = 0, r_key_len = length key, r_val_len = length val, r_data = key @ val \<rparr>
     in if db_file s then
          (if sz_add (next_offset s) rec_size > db_size s then (0, s)
           else (next_offset s,
             s\<lparr> next_offset := sz_add (next_offset s) rec_size, num_rec := num_rec s + 1,
                db_heap := (db_heap s)(next_offset s \<mapsto> rec) \<rparr>))
        else
          (let l = malloc env (db_heap s) rec_size
           in if l = 0 then (0, s) else (l, s\<lparr> db_heap := (db_heap s)(l \<mapsto> rec) \<rparr>)))"

definition del_rec :: "db \<Rightarrow> nat \<Rightarrow> db" where
  "del_rec s l =
    (if db_file s then
       s\<lparr> db_heap := (db_heap s)(l := map_option (\<lambda>r. r\<lparr> r_flags := r_flags r OR DB_REC_DEL \<rparr>) (db_heap s l)),
          num_del := num_del s + 1 \<rparr>
     else s\<lparr> db_heap := (db_heap s)(l := None) \<rparr>)"

text \<open>The \<open>n\<close> bytes from \<open>rec->data\<close> on.\<close>

definition rec_mem :: "db_env \<Rightarrow> nat \<Rightarrow> db_rec \<Rightarrow> nat \<Rightarrow> bytes" where
  "rec_mem env l r n = take n (r_data r @ map (after_rec env l) [0 ..< n])"

definition key_matches :: "db_env \<Rightarrow> bytes \<Rightarrow> nat \<Rightarrow> db_rec \<Rightarrow> bool" where
  "key_matches env key l r \<longleftrightarrow> slice_cmpmem (Some key) (rec_mem env l r (length key)) = 0"

text \<open>A \<open>uint64_t *\<close> into the table or into a record.\<close>

datatype lptr = Bucket nat | NextOf nat

definition lptr_get :: "db \<Rightarrow> lptr \<Rightarrow> nat option" where
  "lptr_get s pp = (case pp of Bucket i \<Rightarrow> Some (db_buckets s i) | NextOf l \<Rightarrow> map_option r_next (db_heap s l))"

definition lptr_set :: "db \<Rightarrow> lptr \<Rightarrow> nat \<Rightarrow> db" where
  "lptr_set s pp v =
    (case pp of
       Bucket i \<Rightarrow> s\<lparr> db_buckets := (db_buckets s)(i := v) \<rparr>
     | NextOf l \<Rightarrow> s\<lparr> db_heap := (db_heap s)(l := map_option (\<lambda>r. r\<lparr> r_next := v \<rparr>) (db_heap s l)) \<rparr>)"

text \<open>
  The loop of \<open>hash_put\<close> and \<open>hash_del\<close> along a chain: the pointer to the link of the first record
  that matches the key, with that link, or \<^term>\<open>None\<close> inside the result at the end of the chain.
\<close>

partial_function (option) walk :: "db_env \<Rightarrow> db \<Rightarrow> bytes \<Rightarrow> lptr \<Rightarrow> (lptr \<times> nat) option option" where
  "walk env s key pp =
    Option.bind (lptr_get s pp) (\<lambda>l.
      if l = 0 then Some None
      else Option.bind (db_heap s l) (\<lambda>r.
        if key_matches env key l r then Some (Some (pp, l)) else walk env s key (NextOf l)))"

definition hash_del :: "db_env \<Rightarrow> db \<Rightarrow> bytes \<Rightarrow> (int \<times> db) option" where
  "hash_del env s key =
    (if \<not> db_ready s then None
     else do {
       w \<leftarrow> walk env s key (Bucket (calc_hash key));
       case w of
         None \<Rightarrow> Some (-1, s)
       | Some (pp, l) \<Rightarrow>
           do {
             r \<leftarrow> db_heap s l;
             Some (0, del_rec (lptr_set s pp (r_next r)) l)
           }
     })"

partial_function (option) search :: "db_env \<Rightarrow> db \<Rightarrow> bytes \<Rightarrow> nat \<Rightarrow> nat option" where
  "search env s key l =
    (if l = 0 then Some 0
     else Option.bind (db_heap s l) (\<lambda>r.
       if key_matches env key l r then Some l else search env s key (r_next r)))"

definition hash_search :: "db_env \<Rightarrow> db \<Rightarrow> nat \<Rightarrow> bytes \<Rightarrow> nat option" where
  "hash_search env s idx key = (if \<not> db_ready s then None else search env s key (db_buckets s idx))"

definition hash_find :: "db_env \<Rightarrow> db \<Rightarrow> bytes \<Rightarrow> nat option" where
  "hash_find env s key = hash_search env s (calc_hash key) key"

definition set_next :: "db \<Rightarrow> nat \<Rightarrow> nat \<Rightarrow> db" where
  "set_next s l v = lptr_set s (NextOf l) v"

definition hash_put :: "db_env \<Rightarrow> db \<Rightarrow> bytes \<Rightarrow> bytes \<Rightarrow> (nat \<times> db) option" where
  "hash_put env s key val =
    (if \<not> db_ready s then None
     else do {
       w \<leftarrow> walk env s key (Bucket (calc_hash key));
       case w of
         Some (pp, l) \<Rightarrow>
           do {
             r \<leftarrow> db_heap s l;
             Some (case create_rec env s key val of (n, s) \<Rightarrow>
               if n = 0 then (0, s)
               else (n, del_rec (lptr_set (set_next s n (r_next r)) pp n) l))
           }
       | None \<Rightarrow>
           Some (case create_rec env s key val of (n, s) \<Rightarrow>
             if n = 0 then (0, s)
             else (n, lptr_set (set_next s n (db_buckets s (calc_hash key))) (Bucket (calc_hash key)) n))
     })"

text \<open>The checks of \<open>file_check\<close> along one chain, and over the buckets from \<open>i\<close> on.\<close>

partial_function (option) check_chain :: "db \<Rightarrow> nat \<Rightarrow> int option" where
  "check_chain s l =
    (if l = 0 then Some 0
     else if sz_add l rec_hdr_size > db_size s then Some (-1)
     else Option.bind (db_heap s l) (\<lambda>r.
       if sz_add l (sz_add rec_hdr_size (sz_add (r_key_len r) (r_val_len r))) > db_size s then Some (-1)
       else check_chain s (r_next r)))"

fun check_buckets :: "db \<Rightarrow> nat list \<Rightarrow> int option" where
  "check_buckets s [] = Some 0"
| "check_buckets s (i # is) =
    do {
      rc \<leftarrow> check_chain s (db_buckets s i);
      if rc \<noteq> 0 then Some rc else check_buckets s is
    }"

definition file_check :: "db \<Rightarrow> int option" where
  "file_check s =
    (if hdr_magic s \<noteq> DB_MAGIC then Some (-1)
     else if hdr_version s \<noteq> 1 then Some (-1)
     else check_buckets s [0 ..< DB_NUM_BUCKETS])"

text \<open>
  The system calls of \<open>file_init\<close> on a state of the system: \<open>open\<close> with \<open>O_CREAT | O_EXCL\<close>, with the
  descriptor or -1 and whether \<open>errno\<close> is \<open>EEXIST\<close>; \<open>open\<close> of an existing file; \<open>fstat\<close> with the size;
  \<open>ftruncate\<close>; \<open>mmap\<close> with the mapped file as a store; and \<open>close\<close>, whose result is not looked at.
\<close>

record 'w file_sys =
  fs_create :: "'w \<Rightarrow> (int \<times> bool) \<times> 'w"
  fs_open :: "'w \<Rightarrow> int \<times> 'w"
  fs_stat :: "'w \<Rightarrow> int \<Rightarrow> nat option \<times> 'w"
  fs_truncate :: "'w \<Rightarrow> int \<Rightarrow> nat \<Rightarrow> bool \<times> 'w"
  fs_mmap :: "'w \<Rightarrow> int \<Rightarrow> nat \<Rightarrow> db option \<times> 'w"
  fs_close :: "'w \<Rightarrow> int \<Rightarrow> 'w"

definition table_size :: nat where "table_size = DB_NUM_BUCKETS * 8"
definition db_file_size :: nat where "db_file_size = db_hdr_size + table_size + DB_MAX_REC * MAX_LINE"

text \<open>The descriptor of the file, or -1, and whether the file is new.\<close>

definition open_file :: "'w file_sys \<Rightarrow> 'w \<Rightarrow> int \<times> bool \<times> 'w" where
  "open_file fs w =
    (case fs_create fs w of ((fd, exists), w) \<Rightarrow>
       if fd \<noteq> -1 then (fd, True, w)
       else if \<not> exists then (-1, True, w)
       else case fs_open fs w of (fd, w) \<Rightarrow> (fd, False, w))"

text \<open>The mapped file, if every call succeeds; the descriptor is closed in any case.\<close>

definition map_file :: "'w file_sys \<Rightarrow> 'w \<Rightarrow> int \<Rightarrow> db option \<times> 'w" where
  "map_file fs w fd =
    (case fs_stat fs w fd of
       (None, w) \<Rightarrow> (None, fs_close fs w fd)
     | (Some st_size, w) \<Rightarrow>
         case (if st_size < db_file_size then fs_truncate fs w fd db_file_size else (True, w)) of (ok, w) \<Rightarrow>
           if \<not> ok then (None, fs_close fs w fd)
           else case fs_mmap fs w fd db_file_size of (m, w) \<Rightarrow> (m, fs_close fs w fd))"

definition file_init :: "'w file_sys \<Rightarrow> 'w \<Rightarrow> db \<Rightarrow> (int \<times> db \<times> 'w) option" where
  "file_init fs w s =
    (case open_file fs w of (fd, new_file, w) \<Rightarrow>
       if fd = -1 then Some (-1, s, w)
       else case map_file fs w fd of
         (None, w) \<Rightarrow> Some (-1, s, w)
       | (Some f, w) \<Rightarrow>
           (let s = f\<lparr> db_file := True, db_ready := True, db_size := db_file_size, init_done := init_done s \<rparr>
            in if new_file then
                 Some (0, s\<lparr> hdr_magic := DB_MAGIC, hdr_version := 1, num_rec := 0,
                             next_offset := db_hdr_size + table_size, db_buckets := (\<lambda>_. 0) \<rparr>, w)
               else do { rc \<leftarrow> file_check s; Some (rc, s, w) }))"

partial_function (option) free_chain :: "db \<Rightarrow> nat \<Rightarrow> db option" where
  "free_chain s i =
    (if db_buckets s i = 0 then Some s
     else Option.bind (db_heap s (db_buckets s i)) (\<lambda>r.
       free_chain (del_rec (s\<lparr> db_buckets := (db_buckets s)(i := r_next r) \<rparr>) (db_buckets s i)) i))"

fun free_buckets :: "db \<Rightarrow> nat list \<Rightarrow> db option" where
  "free_buckets s [] = Some s"
| "free_buckets s (i # is) = do { s \<leftarrow> free_chain s i; free_buckets s is }"

definition hash_deinit :: "db \<Rightarrow> db option" where
  "hash_deinit s =
    (if \<not> db_ready s then Some s
     else do { s \<leftarrow> free_buckets s [0 ..< DB_NUM_BUCKETS]; Some (s\<lparr> db_ready := False \<rparr>) })"

definition hash_init :: "bool \<Rightarrow> db \<Rightarrow> int \<times> db" where
  "hash_init calloc_ok s =
    (if calloc_ok then (0, s\<lparr> db_buckets := (\<lambda>_. 0), db_ready := True \<rparr>) else (-1, s\<lparr> db_ready := False \<rparr>))"

definition db_init :: "bool \<Rightarrow> 'w file_sys option \<Rightarrow> 'w \<Rightarrow> db \<Rightarrow> (int \<times> db \<times> 'w) option" where
  "db_init calloc_ok file w s =
    (if init_done s then Some (DB_REINIT, s, w)
     else do {
       (rc, s, w) \<leftarrow> (case file of
           Some fs \<Rightarrow> file_init fs w s
         | None \<Rightarrow> (case hash_init calloc_ok s of (rc, s) \<Rightarrow> Some (rc, s, w)));
       Some (if rc \<noteq> 0 then (rc, s, w) else (0, s\<lparr> init_done := True \<rparr>, w))
     })"

definition db_deinit :: "db \<Rightarrow> db option" where
  "db_deinit s = (if \<not> db_file s then hash_deinit s else Some s)"

definition db_set :: "db_env \<Rightarrow> db \<Rightarrow> bytes \<Rightarrow> bytes \<Rightarrow> (int \<times> db) option" where
  "db_set env s key val =
    do { (l, s) \<leftarrow> hash_put env s key val; Some (if l \<noteq> 0 then 0 else DB_FAIL, s) }"

definition db_get :: "db_env \<Rightarrow> db \<Rightarrow> bytes \<Rightarrow> slice option" where
  "db_get env s key =
    do {
      l \<leftarrow> hash_find env s key;
      if l = 0 then Some None
      else do { r \<leftarrow> db_heap s l; Some (Some (take (r_val_len r) (drop (r_key_len r) (r_data r)))) }
    }"

definition db_del :: "db_env \<Rightarrow> db \<Rightarrow> bytes \<Rightarrow> (int \<times> db) option" where
  "db_del env s key = hash_del env s key"

end
