(* ===== verification/Db_Store.thy ===== *)
theory Db_Store
  imports Db Map_Interface
begin

text \<open>
  Correctness of the store modelled in \<open>Db\<close>.  A representation invariant ties the chains of the
  buckets to lists of links; under it, and as long as the comparison of keys cannot confuse two of
  the keys in use, set, get and delete refine the operations of a finite map.  The comparison can
  confuse keys, and one of the properties shows how.
\<close>

section \<open>Chains\<close>

fun seg :: "(nat \<Rightarrow> db_rec option) \<Rightarrow> nat \<Rightarrow> nat list \<Rightarrow> nat \<Rightarrow> bool" where
  "seg h x [] y \<longleftrightarrow> x = y"
| "seg h x (a # ls) y \<longleftrightarrow> x = a \<and> a \<noteq> 0 \<and> (\<exists>r. h a = Some r \<and> seg h (r_next r) ls y)"

lemma seg_append: "seg h x (xs @ ys) z \<longleftrightarrow> (\<exists>y. seg h x xs y \<and> seg h y ys z)"
  by (induction xs arbitrary: x) auto

lemma seg_frame: "seg h x ls y \<Longrightarrow> \<forall>l \<in> set ls. h' l = h l \<Longrightarrow> seg h' x ls y"
  by (induction ls arbitrary: x) auto

lemma seg_next:
  "seg h x ls y \<Longrightarrow> \<forall>l \<in> set ls. map_option r_next (h' l) = map_option r_next (h l) \<Longrightarrow> seg h' x ls y"
proof (induction ls arbitrary: x)
  case (Cons a ls)
  then obtain r where r: "h a = Some r" "seg h (r_next r) ls y" "x = a" "a \<noteq> 0" by auto
  moreover obtain r' where "h' a = Some r'" "r_next r' = r_next r" using Cons.prems(2) r by auto
  ultimately show ?case using Cons by auto
qed simp

lemma seg_set_last:
  assumes "seg h x xs y" "xs \<noteq> []" "distinct xs"
  shows "seg (h(last xs := map_option (\<lambda>r. r\<lparr> r_next := v \<rparr>) (h (last xs)))) x xs v"
  using assms
proof (induction xs arbitrary: x)
  case (Cons a xs)
  then obtain r where r: "h a = Some r" "seg h (r_next r) xs y" "x = a" "a \<noteq> 0" by auto
  show ?case
  proof (cases "xs = []")
    case False
    then have "a \<noteq> last xs" using Cons.prems(3) by auto
    with Cons r False show ?thesis by auto
  qed (use r in simp)
qed simp

lemma seg_nonzero: "seg h x ls y \<Longrightarrow> l \<in> set ls \<Longrightarrow> l \<noteq> 0 \<and> (\<exists>r. h l = Some r)"
  by (induction ls arbitrary: x) auto

section \<open>The representation invariant\<close>

definition rec_key :: "db_rec \<Rightarrow> bytes" where
  "rec_key r = take (r_key_len r) (r_data r)"

definition rec_val :: "db_rec \<Rightarrow> bytes" where
  "rec_val r = take (r_val_len r) (drop (r_key_len r) (r_data r))"

definition rec_ok :: "db_rec \<Rightarrow> bool" where
  "rec_ok r \<longleftrightarrow> length (r_data r) = r_key_len r + r_val_len r"

definition link_key :: "db \<Rightarrow> nat \<Rightarrow> bytes" where
  "link_key s l = (case db_heap s l of None \<Rightarrow> [] | Some r \<Rightarrow> rec_key r)"

definition link_val :: "db \<Rightarrow> nat \<Rightarrow> bytes" where
  "link_val s l = (case db_heap s l of None \<Rightarrow> [] | Some r \<Rightarrow> rec_val r)"

text \<open>
  \<open>ch i\<close> is the chain of bucket \<open>i\<close>: chains are disjoint and without repetition, hold well-formed
  records of their bucket with distinct keys, and in a file all records lie below \<open>next_offset\<close>.
\<close>

definition db_inv :: "db \<Rightarrow> (nat \<Rightarrow> nat list) \<Rightarrow> bool" where
  "db_inv s ch \<longleftrightarrow> db_ready s \<and>
    (\<forall>i. seg (db_heap s) (db_buckets s i) (ch i) 0 \<and> distinct (ch i)) \<and>
    (\<forall>i j. i \<noteq> j \<longrightarrow> set (ch i) \<inter> set (ch j) = {}) \<and>
    (\<forall>i l r. l \<in> set (ch i) \<longrightarrow> db_heap s l = Some r \<longrightarrow> rec_ok r \<and> calc_hash (rec_key r) = i) \<and>
    (\<forall>i. distinct (map (link_key s) (ch i))) \<and>
    (db_file s \<longrightarrow> 0 < next_offset s \<and> next_offset s \<le> db_size s \<and> db_size s < 2 ^ 62 \<and>
      (\<forall>l. db_heap s l \<noteq> None \<longrightarrow> l < next_offset s))"

text \<open>The finite map a store with chains \<open>ch\<close> stands for.\<close>

definition db_map :: "db \<Rightarrow> (nat \<Rightarrow> nat list) \<Rightarrow> bytes \<Rightarrow> bytes option" where
  "db_map s ch key = map_of (map (\<lambda>l. (link_key s l, link_val s l)) (ch (calc_hash key))) key"

definition db_rel :: "db \<Rightarrow> (bytes \<Rightarrow> bytes option) \<Rightarrow> bool" where
  "db_rel s m \<longleftrightarrow> (\<exists>ch. db_inv s ch \<and> m = db_map s ch)"

lemma db_invD:
  assumes "db_inv s ch"
  shows "db_ready s" "seg (db_heap s) (db_buckets s i) (ch i) 0" "distinct (ch i)"
    "i \<noteq> j \<Longrightarrow> set (ch i) \<inter> set (ch j) = {}"
    "l \<in> set (ch i) \<Longrightarrow> db_heap s l = Some r \<Longrightarrow> rec_ok r"
    "l \<in> set (ch i) \<Longrightarrow> db_heap s l = Some r \<Longrightarrow> calc_hash (rec_key r) = i"
    "distinct (map (link_key s) (ch i))"
    "db_file s \<Longrightarrow> 0 < next_offset s" "db_file s \<Longrightarrow> next_offset s \<le> db_size s" "db_file s \<Longrightarrow> db_size s < 2 ^ 62"
    "db_file s \<Longrightarrow> db_heap s l \<noteq> None \<Longrightarrow> l < next_offset s"
  using assms unfolding db_inv_def by blast+

lemma db_invI:
  assumes "db_ready s" "\<And>i. seg (db_heap s) (db_buckets s i) (ch i) 0 \<and> distinct (ch i)"
    "\<And>i j. i \<noteq> j \<Longrightarrow> set (ch i) \<inter> set (ch j) = {}"
    "\<And>i l r. l \<in> set (ch i) \<Longrightarrow> db_heap s l = Some r \<Longrightarrow> rec_ok r \<and> calc_hash (rec_key r) = i"
    "\<And>i. distinct (map (link_key s) (ch i))"
    "db_file s \<Longrightarrow> 0 < next_offset s \<and> next_offset s \<le> db_size s \<and> db_size s < 2 ^ 62 \<and>
      (\<forall>l. db_heap s l \<noteq> None \<longrightarrow> l < next_offset s)"
  shows "db_inv s ch"
  using assms unfolding db_inv_def by blast

section \<open>Finding a record\<close>

lemma key_matches_iff: "key_matches env key l r \<longleftrightarrow> key = rec_mem env l r (length key)"
proof -
  have "length (rec_mem env l r (length key)) = length key" by (simp add: rec_mem_def)
  then show ?thesis by (simp add: key_matches_def slice_cmpmem_def str_cmp_eq_len)
qed

lemma key_matches_own: "rec_ok r \<Longrightarrow> key_matches env (rec_key r) l r"
  unfolding key_matches_iff rec_mem_def rec_key_def rec_ok_def by simp

text \<open>No record of the key's bucket is taken for the key but the key's own.\<close>

definition no_clash :: "db_env \<Rightarrow> db \<Rightarrow> (nat \<Rightarrow> nat list) \<Rightarrow> bytes \<Rightarrow> bool" where
  "no_clash env s ch key \<longleftrightarrow> (\<forall>l \<in> set (ch (calc_hash key)). \<forall>r. db_heap s l = Some r \<longrightarrow>
    key_matches env key l r \<longrightarrow> rec_key r = key)"

lemma match_iff_key:
  assumes "db_inv s ch" "no_clash env s ch key" "l \<in> set (ch (calc_hash key))" "db_heap s l = Some r"
  shows "key_matches env key l r \<longleftrightarrow> link_key s l = key"
  using assms key_matches_own [of r env l] db_invD(5) [OF assms(1) assms(3,4)]
  by (auto simp: no_clash_def link_key_def)

text \<open>The pointer through which the loops reach the link that follows the links \<open>xs\<close> of bucket \<open>i\<close>.\<close>

definition lptr_at :: "nat \<Rightarrow> nat list \<Rightarrow> lptr" where
  "lptr_at i xs = (if xs = [] then Bucket i else NextOf (last xs))"

lemma lptr_get_at:
  assumes "seg (db_heap s) (db_buckets s i) xs y"
  shows "lptr_get s (lptr_at i xs) = Some y"
proof (cases xs rule: rev_cases)
  case Nil
  then show ?thesis using assms by (simp add: lptr_get_def lptr_at_def)
next
  case (snoc zs a)
  then show ?thesis using assms by (auto simp: lptr_get_def lptr_at_def seg_append)
qed

lemma walk_chain:
  assumes "seg (db_heap s) (db_buckets s i) (xs @ ls) 0"
    and "\<And>l r. l \<in> set ls \<Longrightarrow> db_heap s l = Some r \<Longrightarrow> key_matches env key l r \<longleftrightarrow> link_key s l = key"
  shows "walk env s key (lptr_at i xs) = Some
    (case find (\<lambda>l. link_key s l = key) ls of
       None \<Rightarrow> None
     | Some l \<Rightarrow> Some (lptr_at i (xs @ takeWhile (\<lambda>l. link_key s l \<noteq> key) ls), l))"
  using assms
proof (induction ls arbitrary: xs)
  case Nil
  then show ?case using lptr_get_at [of s i xs 0] by (subst walk.simps) simp
next
  case (Cons a ls)
  then have g: "lptr_get s (lptr_at i xs) = Some a"
    by (intro lptr_get_at) (auto simp: seg_append)
  obtain r where r: "a \<noteq> 0" "db_heap s a = Some r" using Cons.prems(1) by (auto simp: seg_append)
  have m: "key_matches env key a r \<longleftrightarrow> link_key s a = key" using Cons.prems(2) r(2) by simp
  show ?case
  proof (cases "link_key s a = key")
    case True
    then show ?thesis using g r m by (subst walk.simps) simp
  next
    case False
    have "walk env s key (lptr_at i (xs @ [a])) = Some
      (case find (\<lambda>l. link_key s l = key) ls of
         None \<Rightarrow> None
       | Some l \<Rightarrow> Some (lptr_at i ((xs @ [a]) @ takeWhile (\<lambda>l. link_key s l \<noteq> key) ls), l))"
      using Cons.prems by (intro Cons.IH) simp_all
    moreover have "lptr_at i (xs @ [a]) = NextOf a" by (simp add: lptr_at_def)
    ultimately show ?thesis using False g r m by (subst walk.simps) (simp split: option.split)
  qed
qed

lemma search_chain:
  assumes "seg (db_heap s) x ls 0"
    and "\<And>l r. l \<in> set ls \<Longrightarrow> db_heap s l = Some r \<Longrightarrow> key_matches env key l r \<longleftrightarrow> link_key s l = key"
  shows "search env s key x = Some (case find (\<lambda>l. link_key s l = key) ls of None \<Rightarrow> 0 | Some l \<Rightarrow> l)"
  using assms
proof (induction ls arbitrary: x)
  case Nil
  then show ?case by (subst search.simps) simp
next
  case (Cons a ls)
  then obtain r where r: "x = a" "a \<noteq> 0" "db_heap s a = Some r" "seg (db_heap s) (r_next r) ls 0" by auto
  have m: "key_matches env key a r \<longleftrightarrow> link_key s a = key" using Cons.prems(2) r(3) by simp
  have "search env s key (r_next r) = Some (case find (\<lambda>l. link_key s l = key) ls of None \<Rightarrow> 0 | Some l \<Rightarrow> l)"
    using Cons.prems(2) r(4) by (intro Cons.IH) simp_all
  then show ?case using r m by (subst search.simps) simp
qed

lemma find_None_map: "find (\<lambda>l. f l = k) ls = None \<longleftrightarrow> map_of (map (\<lambda>l. (f l, g l)) ls) k = None"
  by (induction ls) auto

lemma find_Some_map: "find (\<lambda>l. f l = k) ls = Some l \<Longrightarrow> map_of (map (\<lambda>l. (f l, g l)) ls) k = Some (g l)"
  by (induction ls) (auto split: if_splits)

lemma db_get_refines:
  assumes inv: "db_inv s ch" and nc: "no_clash env s ch key"
  shows "db_get env s key = Some (db_map s ch key)"
proof -
  let ?i = "calc_hash key"
  have s: "search env s key (db_buckets s ?i) =
      Some (case find (\<lambda>l. link_key s l = key) (ch ?i) of None \<Rightarrow> 0 | Some l \<Rightarrow> l)"
    using db_invD(2) [OF inv] match_iff_key [OF inv nc] by (intro search_chain) blast+
  show ?thesis
  proof (cases "find (\<lambda>l. link_key s l = key) (ch ?i)")
    case None
    then have "db_map s ch key = None"
      unfolding db_map_def using find_None_map [of "link_key s" key "ch ?i" "link_val s"] by simp
    with None s show ?thesis
      using db_invD(1) [OF inv] by (simp add: db_get_def hash_find_def hash_search_def)
  next
    case (Some l)
    then have "l \<in> set (ch ?i)" by (metis find_Some_iff nth_mem)
    then obtain r where r: "l \<noteq> 0" "db_heap s l = Some r"
      using seg_nonzero [OF db_invD(2) [OF inv]] by blast
    have "db_map s ch key = Some (link_val s l)" unfolding db_map_def by (rule find_Some_map [OF Some])
    with Some s r show ?thesis
      using db_invD(1) [OF inv]
      by (simp add: db_get_def hash_find_def hash_search_def link_val_def rec_val_def)
  qed
qed

section \<open>Changing a chain\<close>

text \<open>
  Replacing the tail of one chain: the state after a store through the pointer that follows \<open>xs\<close>.
\<close>

lemma lptr_set_fields [simp]:
  "db_file (lptr_set s pp v) = db_file s" "db_ready (lptr_set s pp v) = db_ready s"
  "next_offset (lptr_set s pp v) = next_offset s" "db_size (lptr_set s pp v) = db_size s"
  by (simp_all add: lptr_set_def split: lptr.split)

lemma lptr_set_heap_next: "map_option r_data (db_heap (lptr_set s pp v) l) = map_option r_data (db_heap s l)"
  "map_option r_key_len (db_heap (lptr_set s pp v) l) = map_option r_key_len (db_heap s l)"
  "map_option r_val_len (db_heap (lptr_set s pp v) l) = map_option r_val_len (db_heap s l)"
  "db_heap (lptr_set s pp v) l = None \<longleftrightarrow> db_heap s l = None"
  by (auto simp: lptr_set_def split: lptr.split) (cases "db_heap s l"; simp)+

lemma lptr_set_link [simp]: "link_key (lptr_set s pp v) l = link_key s l" "link_val (lptr_set s pp v) l = link_val s l"
proof -
  have "db_heap s l = None \<and> db_heap (lptr_set s pp v) l = None \<or>
    (\<exists>r r'. db_heap s l = Some r \<and> db_heap (lptr_set s pp v) l = Some r' \<and> r_data r' = r_data r \<and>
      r_key_len r' = r_key_len r \<and> r_val_len r' = r_val_len r)"
    using lptr_set_heap_next [of s pp v l] by (cases "db_heap s l"; cases "db_heap (lptr_set s pp v) l") auto
  then show "link_key (lptr_set s pp v) l = link_key s l" "link_val (lptr_set s pp v) l = link_val s l"
    by (auto simp: link_key_def link_val_def rec_key_def rec_val_def)
qed

lemma lptr_set_link_fun: "link_key (lptr_set s pp v) = link_key s" "link_val (lptr_set s pp v) = link_val s"
  by (rule ext, simp)+

lemma seg_lptr_set:
  assumes "seg (db_heap s) (db_buckets s i) xs y" "distinct xs" "set zs \<inter> set xs = {}" "seg (db_heap s) v zs 0"
  shows "seg (db_heap (lptr_set s (lptr_at i xs) v)) (db_buckets (lptr_set s (lptr_at i xs) v) i) (xs @ zs) 0"
proof (cases "xs = []")
  case True
  then show ?thesis using assms(4) by (simp add: lptr_at_def lptr_set_def)
next
  case False
  let ?h = "db_heap (lptr_set s (lptr_at i xs) v)"
  have h: "?h = (db_heap s)(last xs := map_option (\<lambda>r. r\<lparr> r_next := v \<rparr>) (db_heap s (last xs)))"
    "db_buckets (lptr_set s (lptr_at i xs) v) = db_buckets s"
    using False by (simp_all add: lptr_at_def lptr_set_def)
  have "seg ?h (db_buckets s i) xs v" unfolding h by (rule seg_set_last [OF assms(1) False assms(2)])
  moreover have "seg ?h v zs 0"
  proof (rule seg_frame [OF assms(4)], unfold h, rule ballI)
    fix l assume "l \<in> set zs"
    then have "l \<noteq> last xs" using assms(3) False by auto
    then show "((db_heap s)(last xs := map_option (\<lambda>r. r\<lparr> r_next := v \<rparr>) (db_heap s (last xs)))) l = db_heap s l"
      by simp
  qed
  ultimately show ?thesis unfolding h(2) by (auto simp: seg_append)
qed

lemma seg_lptr_set_other:
  assumes "seg (db_heap s) (db_buckets s j) ls 0" "j \<noteq> i" "set ls \<inter> set xs = {}"
  shows "seg (db_heap (lptr_set s (lptr_at i xs) v)) (db_buckets (lptr_set s (lptr_at i xs) v) j) ls 0"
proof (cases "xs = []")
  case True
  then show ?thesis using assms(1,2) by (simp add: lptr_at_def lptr_set_def)
next
  case False
  then have "db_buckets (lptr_set s (lptr_at i xs) v) = db_buckets s" by (simp add: lptr_at_def lptr_set_def)
  moreover have "seg (db_heap (lptr_set s (lptr_at i xs) v)) (db_buckets s j) ls 0"
    using assms(3) False by (intro seg_frame [OF assms(1)]) (auto simp: lptr_at_def lptr_set_def)
  ultimately show ?thesis by simp
qed

text \<open>A store with chains \<open>ch\<close> in which one chain is cut after \<open>xs\<close> and continued with \<open>zs\<close>.\<close>

lemma db_inv_splice:
  assumes inv: "db_inv s ch" and c: "ch i = xs @ ys"
    and zs: "seg (db_heap s) v zs 0" "distinct zs" "\<And>j. set zs \<inter> set (if j = i then xs else ch j) = {}"
    and recs: "\<And>l r. l \<in> set zs \<Longrightarrow> db_heap s l = Some r \<Longrightarrow> rec_ok r \<and> calc_hash (rec_key r) = i"
    and keys: "distinct (map (link_key s) (xs @ zs))"
  shows "db_inv (lptr_set s (lptr_at i xs) v) (ch(i := xs @ zs))"
proof -
  let ?s = "lptr_set s (lptr_at i xs) v" and ?ch = "ch(i := xs @ zs)"
  note d = db_invD [OF inv]
  obtain y where y: "seg (db_heap s) (db_buckets s i) xs y"
    using d(2) [of i] c by (auto simp: seg_append)
  have dxs: "distinct xs" using d(3) [of i] c by simp
  show ?thesis
  proof (rule db_invI)
    fix j
    show "seg (db_heap ?s) (db_buckets ?s j) (?ch j) 0 \<and> distinct (?ch j)"
    proof (cases "j = i")
      case True
      have "set zs \<inter> set xs = {}" using zs(3) [of i] by simp
      then show ?thesis using True seg_lptr_set [OF y dxs _ zs(1)] dxs zs(2) by auto
    next
      case False
      have "set (ch j) \<inter> set xs = {}" using d(4) [OF False] c by auto
      then show ?thesis using False seg_lptr_set_other [OF d(2) [of j] False] d(3) [of j] by simp
    qed
    fix k
    show "set (?ch j) \<inter> set (?ch k) = {}" if "j \<noteq> k"
    proof -
      have "set (ch j) \<inter> set (ch k) = {}" using d(4) [OF that] .
      then show ?thesis using zs(3) [of j] zs(3) [of k] c that by (auto split: if_splits)
    qed
    show "rec_ok r \<and> calc_hash (rec_key r) = j" if l: "l \<in> set (?ch j)" and hr: "db_heap ?s l = Some r" for l r
    proof -
      obtain r' where r': "db_heap s l = Some r'" "r_data r = r_data r'" "r_key_len r = r_key_len r'" "r_val_len r = r_val_len r'"
        using lptr_set_heap_next [of s "lptr_at i xs" v l] hr by (cases "db_heap s l") auto
      have "rec_ok r' \<and> calc_hash (rec_key r') = j"
      proof (cases "j = i \<and> l \<in> set zs")
        case True
        then show ?thesis using recs r'(1) by blast
      next
        case False
        then have "l \<in> set (ch j)" using l c by (auto split: if_splits)
        then show ?thesis using d(5,6) r'(1) by blast
      qed
      then show ?thesis using r' by (simp add: rec_ok_def rec_key_def)
    qed
    show "distinct (map (link_key ?s) (?ch j))"
      using keys d(7) [of j] by (cases "j = i") (simp_all add: lptr_set_link_fun)
    show "db_ready ?s" using d(1) by simp
    show "0 < next_offset ?s \<and> next_offset ?s \<le> db_size ?s \<and> db_size ?s < 2 ^ 62 \<and>
        (\<forall>l. db_heap ?s l \<noteq> None \<longrightarrow> l < next_offset ?s)" if "db_file ?s"
      using d(8-11) that lptr_set_heap_next(4) [of s "lptr_at i xs" v] by simp
  qed
qed

section \<open>Creating and deleting records\<close>

definition malloc_fresh :: "db_env \<Rightarrow> bool" where
  "malloc_fresh env \<longleftrightarrow> (\<forall>h n. malloc env h n \<noteq> 0 \<longrightarrow> h (malloc env h n) = None)"

definition new_rec :: "bytes \<Rightarrow> bytes \<Rightarrow> db_rec" where
  "new_rec key val = \<lparr> r_next = 0, r_flags = 0, r_key_len = length key, r_val_len = length val, r_data = key @ val \<rparr>"

definition rec_size :: "bytes \<Rightarrow> bytes \<Rightarrow> nat" where
  "rec_size key val = rec_hdr_size + length key + length val"

lemma db_inv_heap_change:
  assumes inv: "db_inv s ch"
    and next_eq: "\<And>i l. l \<in> set (ch i) \<Longrightarrow> map_option r_next (db_heap s' l) = map_option r_next (db_heap s l)"
    and data_eq: "\<And>i l. l \<in> set (ch i) \<Longrightarrow> map_option (\<lambda>r. (r_key_len r, r_val_len r, r_data r)) (db_heap s' l) =
      map_option (\<lambda>r. (r_key_len r, r_val_len r, r_data r)) (db_heap s l)"
    and same: "db_buckets s' = db_buckets s" "db_ready s' = db_ready s" "db_file s' = db_file s" "db_size s' = db_size s"
    and off: "db_file s \<Longrightarrow> next_offset s \<le> next_offset s' \<and> next_offset s' \<le> db_size s \<and>
      (\<forall>l. db_heap s' l \<noteq> None \<longrightarrow> l < next_offset s')"
  shows "db_inv s' ch" "l \<in> set (ch i) \<Longrightarrow> link_key s' l = link_key s l" "l \<in> set (ch i) \<Longrightarrow> link_val s' l = link_val s l"
proof -
  note d = db_invD [OF inv]
  have r: "\<exists>r. db_heap s l = Some r \<and> r_key_len r' = r_key_len r \<and> r_val_len r' = r_val_len r \<and> r_data r' = r_data r"
    if "l \<in> set (ch i)" "db_heap s' l = Some r'" for i l r'
    using data_eq [OF that(1)] that(2) by (cases "db_heap s l") auto
  have e: "(\<exists>a. db_heap s' l = Some a) \<and> (\<exists>a. db_heap s l = Some a)" if "l \<in> set (ch i)" for i l
    using seg_nonzero [OF d(2) that] data_eq [OF that] by (cases "db_heap s' l") auto
  have lk: "link_key s' l = link_key s l \<and> link_val s' l = link_val s l" if "l \<in> set (ch i)" for i l
    using e [OF that] data_eq [OF that] by (auto simp: link_key_def link_val_def rec_key_def rec_val_def)
  then show "l \<in> set (ch i) \<Longrightarrow> link_key s' l = link_key s l" "l \<in> set (ch i) \<Longrightarrow> link_val s' l = link_val s l"
    by blast+
  show "db_inv s' ch"
  proof (rule db_invI)
    fix i
    have m: "map (link_key s') (ch i) = map (link_key s) (ch i)" using lk by simp
    show "distinct (map (link_key s') (ch i))" unfolding m by (rule d(7))
    show "seg (db_heap s') (db_buckets s' i) (ch i) 0 \<and> distinct (ch i)"
      using seg_next [OF d(2)] next_eq same(1) d(3) by simp
    show "rec_ok r' \<and> calc_hash (rec_key r') = i" if "l \<in> set (ch i)" "db_heap s' l = Some r'" for l r'
      using r [OF that] d(5,6) [OF that(1)] by (auto simp: rec_ok_def rec_key_def)
    show "set (ch i) \<inter> set (ch j) = {}" if "i \<noteq> j" for j using d(4) [OF that] .
    show "db_ready s'" using d(1) same by simp
    show "0 < next_offset s' \<and> next_offset s' \<le> db_size s' \<and> db_size s' < 2 ^ 62 \<and>
        (\<forall>l. db_heap s' l \<noteq> None \<longrightarrow> l < next_offset s')" if "db_file s'"
      using that d(8,10) off same by simp
  qed
qed

lemma create_rec_cases:
  assumes inv: "db_inv s ch" and fresh: "malloc_fresh env" and sz: "length key + length val < 2 ^ 62"
    and c: "create_rec env s key val = (n, s')"
  obtains (failed) "n = 0" "s' = s"
      "if db_file s then next_offset s + rec_size key val > db_size s else malloc env (db_heap s) (rec_size key val) = 0"
  | (made) "n \<noteq> 0" "db_heap s n = None" "db_inv s' ch" "db_heap s' = (db_heap s)(n \<mapsto> new_rec key val)"
      "db_buckets s' = db_buckets s"
      "\<not> (if db_file s then next_offset s + rec_size key val > db_size s else malloc env (db_heap s) (rec_size key val) = 0)"
proof -
  note d = db_invD [OF inv]
  have rs: "sz_add (sz_add rec_hdr_size (length key)) (length val) = rec_size key val"
    using sz by (simp add: sz_add_nowrap rec_size_def rec_hdr_size_def)
  have off: "sz_add (next_offset s) (rec_size key val) = next_offset s + rec_size key val" if "db_file s"
    using sz d(9,10) [OF that] by (intro sz_add_nowrap) (simp add: rec_size_def rec_hdr_size_def)
  note def = create_rec_def Let_def rs new_rec_def [symmetric]
  have fo: "db_heap s (next_offset s) = None" if "db_file s"
    using d(11) [OF that, of "next_offset s"] by (metis less_irrefl)
  have notin: "n \<notin> set (ch i)" if "db_heap s n = None" for i n
    using seg_nonzero [OF d(2), of n i] that by auto
  show ?thesis
  proof (cases "n = 0")
    case True
    then show ?thesis
      using c off d(8) unfolding def by (intro failed) (auto split: if_splits)
  next
    case False
    have n: "db_heap s n = None \<and> db_heap s' = (db_heap s)(n \<mapsto> new_rec key val) \<and> db_buckets s' = db_buckets s \<and>
        db_ready s' = db_ready s \<and> db_file s' = db_file s \<and> db_size s' = db_size s \<and>
        (db_file s \<longrightarrow> n = next_offset s \<and> next_offset s' = next_offset s + rec_size key val \<and> next_offset s' \<le> db_size s)"
      using c False off fresh fo unfolding def malloc_fresh_def by (auto split: if_splits)
    have "db_inv s' ch"
    proof (rule db_inv_heap_change [OF inv])
      show "next_offset s \<le> next_offset s' \<and> next_offset s' \<le> db_size s \<and>
          (\<forall>l. db_heap s' l \<noteq> None \<longrightarrow> l < next_offset s')" if "db_file s"
        using n that d(11) by (fastforce simp: rec_size_def rec_hdr_size_def)
    qed (use n notin in auto)
    then show ?thesis
      using n False c off unfolding def by (intro made) (auto split: if_splits)
  qed
qed

lemma del_rec_inv:
  assumes inv: "db_inv s ch" and "\<And>i. l \<notin> set (ch i)"
  shows "db_inv (del_rec s l) ch" "db_map (del_rec s l) ch = db_map s ch"
proof -
  have h: "db_heap (del_rec s l) x = db_heap s x" if "x \<noteq> l" for x
    using that by (simp add: del_rec_def)
  note c = db_inv_heap_change [OF inv, of "del_rec s l"]
  have off: "next_offset s \<le> next_offset (del_rec s l) \<and> next_offset (del_rec s l) \<le> db_size s \<and>
      (\<forall>x. db_heap (del_rec s l) x \<noteq> None \<longrightarrow> x < next_offset (del_rec s l))" if "db_file s"
    using db_invD(9,11) [OF inv that] that by (auto simp: del_rec_def)
  show "db_inv (del_rec s l) ch"
    by (rule c(1)) (use h assms(2) off in \<open>auto simp: del_rec_def\<close>)
  have "link_key (del_rec s l) x = link_key s x \<and> link_val (del_rec s l) x = link_val s x" if "x \<in> set (ch i)" for x i
  proof -
    have "x \<noteq> l" using that assms(2) by blast
    then show ?thesis by (simp add: h link_key_def link_val_def)
  qed
  then show "db_map (del_rec s l) ch = db_map s ch"
    unfolding db_map_def by (simp cong: map_cong)
qed

lemma db_map_iff:
  assumes "db_inv s ch"
  shows "db_map s ch k = Some v \<longleftrightarrow> (\<exists>l \<in> set (ch (calc_hash k)). link_key s l = k \<and> link_val s l = v)"
proof -
  have "distinct (map fst (map (\<lambda>l. (link_key s l, link_val s l)) (ch (calc_hash k))))"
    using db_invD(7) [OF assms] by (simp add: comp_def)
  then show ?thesis
    unfolding db_map_def by (subst map_of_eq_Some_iff) auto
qed

lemma set_next_fresh:
  assumes inv: "db_inv s1 ch" and h: "db_heap s1 = (db_heap s)(n \<mapsto> new_rec key val)"
    and n: "\<And>i. n \<notin> set (ch i)"
  shows "db_inv (set_next s1 n v) ch" "db_heap (set_next s1 n v) n = Some ((new_rec key val)\<lparr> r_next := v \<rparr>)"
    "l \<noteq> n \<Longrightarrow> db_heap (set_next s1 n v) l = db_heap s l" "db_buckets (set_next s1 n v) = db_buckets s1"
    "link_key (set_next s1 n v) n = key" "link_val (set_next s1 n v) n = val"
    "l \<noteq> n \<Longrightarrow> link_key (set_next s1 n v) l = link_key s l" "l \<noteq> n \<Longrightarrow> link_val (set_next s1 n v) l = link_val s l"
proof -
  have e: "db_heap (set_next s1 n v) = (db_heap s)(n \<mapsto> (new_rec key val)\<lparr> r_next := v \<rparr>)"
    by (simp add: set_next_def lptr_set_def h)
  then show "db_heap (set_next s1 n v) n = Some ((new_rec key val)\<lparr> r_next := v \<rparr>)"
    "l \<noteq> n \<Longrightarrow> db_heap (set_next s1 n v) l = db_heap s l" by simp_all
  show b: "db_buckets (set_next s1 n v) = db_buckets s1" by (simp add: set_next_def lptr_set_def)
  show "link_key (set_next s1 n v) n = key" "link_val (set_next s1 n v) n = val"
    by (simp_all add: link_key_def link_val_def e new_rec_def rec_key_def rec_val_def)
  show "l \<noteq> n \<Longrightarrow> link_key (set_next s1 n v) l = link_key s l" "l \<noteq> n \<Longrightarrow> link_val (set_next s1 n v) l = link_val s l"
    by (simp_all add: link_key_def link_val_def e)
  show "db_inv (set_next s1 n v) ch"
  proof (rule db_inv_heap_change(1) [OF inv])
    fix i l assume "l \<in> set (ch i)"
    then have "l \<noteq> n" using n by blast
    then have "db_heap (set_next s1 n v) l = db_heap s1 l" by (simp add: e h)
    then show "map_option r_next (db_heap (set_next s1 n v) l) = map_option r_next (db_heap s1 l)"
      "map_option (\<lambda>r. (r_key_len r, r_val_len r, r_data r)) (db_heap (set_next s1 n v) l) =
        map_option (\<lambda>r. (r_key_len r, r_val_len r, r_data r)) (db_heap s1 l)" by simp_all
  next
    assume "db_file s1"
    then show "next_offset s1 \<le> next_offset (set_next s1 n v) \<and> next_offset (set_next s1 n v) \<le> db_size s1 \<and>
        (\<forall>l. db_heap (set_next s1 n v) l \<noteq> None \<longrightarrow> l < next_offset (set_next s1 n v))"
      using db_invD(9,11) [OF inv] lptr_set_heap_next(4) [of s1 "NextOf n" v] by (simp add: set_next_def)
  qed (simp_all add: b, simp_all add: set_next_def)
qed

text \<open>Putting a new record in front of the tail \<open>zs\<close> of a chain, after \<open>xs\<close>.\<close>

lemma splice_new:
  assumes inv: "db_inv s ch" and c: "ch i = xs @ ys" and ys: "ys = zs \<or> (\<exists>l. ys = l # zs \<and> link_key s l = key)"
    and s1: "db_inv s1 ch" "db_heap s1 = (db_heap s)(n \<mapsto> new_rec key val)" "db_buckets s1 = db_buckets s"
    and n: "n \<noteq> 0" "\<And>j. n \<notin> set (ch j)" and v: "seg (db_heap s) v zs 0"
    and key: "i = calc_hash key" "key \<notin> link_key s ` (set xs \<union> set zs)"
  shows "db_inv (lptr_set (set_next s1 n v) (lptr_at i xs) n) (ch(i := xs @ n # zs))"
    "db_map (lptr_set (set_next s1 n v) (lptr_at i xs) n) (ch(i := xs @ n # zs)) = (db_map s ch)(key \<mapsto> val)"
proof -
  let ?s2 = "set_next s1 n v" and ?ch = "ch(i := xs @ n # zs)"
  let ?s3 = "lptr_set ?s2 (lptr_at i xs) n"
  note d = db_invD [OF inv] and f = set_next_fresh [OF s1(1,2) n(2), where v = v]
  have zsub: "set zs \<subseteq> set (ch i)" and ne: "\<And>l. l \<in> set xs \<union> set zs \<Longrightarrow> l \<noteq> n"
    using c ys n(2) [of i] by auto
  have v2: "seg (db_heap ?s2) v zs 0"
  proof (rule seg_frame [OF v], rule ballI)
    fix l assume "l \<in> set zs"
    then show "db_heap ?s2 l = db_heap s l" using f(3) [of l] ne by simp
  qed
  show inv3: "db_inv ?s3 ?ch"
  proof (rule db_inv_splice [OF f(1) c])
    show "seg (db_heap ?s2) n (n # zs) 0" using f(2) n(1) v2 by simp
    show "distinct (n # zs)" using d(3) [of i] c ys n(2) [of i] by auto
    show "set (n # zs) \<inter> set (if j = i then xs else ch j) = {}" for j
      using d(4) [of i j] d(3) [of i] c n(2) [of j] n(2) [of i] zsub ys by auto
    show "rec_ok r \<and> calc_hash (rec_key r) = i" if l: "l \<in> set (n # zs)" and r: "db_heap ?s2 l = Some r" for l r
    proof (cases "l = n")
      case True
      then show ?thesis using r f(2) key(1) by (auto simp: new_rec_def rec_ok_def rec_key_def)
    next
      case False
      then show ?thesis using r l f(3) [of l] zsub d(5,6) [of l i r] by auto
    qed
    have m: "map (link_key ?s2) (xs @ n # zs) = map (link_key s) xs @ key # map (link_key s) zs"
      using f(5,7) ne by simp
    have "distinct (map (link_key s) (xs @ zs))"
      using d(7) [of i] c ys by auto
    then show "distinct (map (link_key ?s2) (xs @ n # zs))"
      unfolding m using key(2) by auto
  qed
  have lk: "link_key ?s3 l = (if l = n then key else link_key s l) \<and> link_val ?s3 l = (if l = n then val else link_val s l)" for l
    using f(5-8) by simp
  show "db_map ?s3 ?ch = (db_map s ch)(key \<mapsto> val)"
  proof (rule map_eqI)
    fix k w
    show "db_map ?s3 ?ch k = Some w \<longleftrightarrow> ((db_map s ch)(key \<mapsto> val)) k = Some w"
    proof (cases "k = key")
      case True
      have "(\<exists>l \<in> set (?ch i). link_key ?s3 l = key \<and> link_val ?s3 l = w) \<longleftrightarrow> w = val"
        using key(2) ne lk by auto
      then show ?thesis using True key(1) db_map_iff [OF inv3, of key w] by auto
    next
      case False
      have "(\<exists>l \<in> set (?ch j). link_key ?s3 l = k \<and> link_val ?s3 l = w) \<longleftrightarrow>
          (\<exists>l \<in> set (ch j). link_key s l = k \<and> link_val s l = w)" for j
      proof (cases "j = i")
        case True
        then show ?thesis using False lk ne ys c n(2) [of j] by auto
      next
        case ji: False
        have "l \<noteq> n" if "l \<in> set (ch j)" for l using that n(2) by blast
        then show ?thesis using ji lk by (intro bex_cong) auto
      qed
      then show ?thesis using False db_map_iff [OF inv3, of k w] db_map_iff [OF inv, of k w] by simp
    qed
  qed
qed

section \<open>The operations\<close>

definition create_fails :: "db_env \<Rightarrow> db \<Rightarrow> bytes \<Rightarrow> bytes \<Rightarrow> bool" where
  "create_fails env s key val \<longleftrightarrow>
    (if db_file s then next_offset s + rec_size key val > db_size s
     else malloc env (db_heap s) (rec_size key val) = 0)"

lemma find_split:
  assumes "find P ls = Some l"
  obtains ys where "ls = takeWhile (\<lambda>x. \<not> P x) ls @ l # ys" "P l"
proof -
  have "dropWhile (\<lambda>x. \<not> P x) ls \<noteq> [] \<and> hd (dropWhile (\<lambda>x. \<not> P x) ls) = l \<and> P l"
    using assms by (induction ls) (auto split: if_splits)
  then show ?thesis using that by (metis list.collapse takeWhile_dropWhile_id)
qed

lemma walk_bucket:
  assumes "db_inv s ch" "no_clash env s ch key"
  shows "walk env s key (Bucket (calc_hash key)) = Some
    (case find (\<lambda>l. link_key s l = key) (ch (calc_hash key)) of
       None \<Rightarrow> None
     | Some l \<Rightarrow> Some (lptr_at (calc_hash key) (takeWhile (\<lambda>l. link_key s l \<noteq> key) (ch (calc_hash key))), l))"
proof -
  have "walk env s key (lptr_at (calc_hash key) []) = Some
    (case find (\<lambda>l. link_key s l = key) (ch (calc_hash key)) of
       None \<Rightarrow> None
     | Some l \<Rightarrow> Some (lptr_at (calc_hash key) ([] @ takeWhile (\<lambda>l. link_key s l \<noteq> key) (ch (calc_hash key))), l))"
    using db_invD(2) [OF assms(1)] match_iff_key [OF assms] by (intro walk_chain) auto
  moreover have "lptr_at (calc_hash key) [] = Bucket (calc_hash key)" by (simp add: lptr_at_def)
  ultimately show ?thesis by (simp only: append_Nil)
qed

lemma db_set_refines:
  assumes inv: "db_inv s ch" and nc: "no_clash env s ch key" and fresh: "malloc_fresh env"
    and sz: "length key + length val < 2 ^ 62"
  shows "\<exists>rc s'. db_set env s key val = Some (rc, s') \<and>
    (if create_fails env s key val then rc = DB_FAIL \<and> s' = s
     else rc = 0 \<and> (\<exists>ch'. db_inv s' ch' \<and> db_map s' ch' = (db_map s ch)(key \<mapsto> val)))"
proof -
  let ?i = "calc_hash key" and ?P = "\<lambda>l. link_key s l = key"
  note d = db_invD [OF inv]
  obtain n s1 where c: "create_rec env s key val = (n, s1)" by fastforce
  note w = walk_bucket [OF inv nc]
  from inv fresh sz c show ?thesis
  proof (cases rule: create_rec_cases)
    case failed
    have "hash_put env s key val = Some (0, s)"
    proof (cases "find ?P (ch ?i)")
      case None
      then show ?thesis using w d(1) c failed by (simp add: hash_put_def)
    next
      case (Some l)
      then have "l \<in> set (ch ?i)" by (metis find_Some_iff nth_mem)
      then obtain r where "db_heap s l = Some r" using seg_nonzero [OF d(2)] by blast
      then show ?thesis using w d(1) c failed Some by (simp add: hash_put_def)
    qed
    then show ?thesis using failed(3) by (simp add: db_set_def create_fails_def)
  next
    case made
    have nin: "n \<notin> set (ch j)" for j using seg_nonzero [OF d(2) [of j], of n] made(2) by auto
    have nf: "\<not> create_fails env s key val" using made(6) by (simp add: create_fails_def)
    show ?thesis
    proof (cases "find ?P (ch ?i)")
      case None
      then have nk: "key \<notin> link_key s ` (set [] \<union> set (ch ?i))" by (auto simp: find_None_iff)
      note sp = splice_new [OF inv _ _ made(3,4,5,1) nin d(2) refl nk, of "ch ?i"]
      have "hash_put env s key val =
          Some (n, lptr_set (set_next s1 n (db_buckets s ?i)) (lptr_at ?i []) n)"
        using w d(1) c made(1,5) None by (simp add: hash_put_def lptr_at_def)
      then show ?thesis using sp nf made(1) by (auto simp: db_set_def)
    next
      case (Some l)
      define xs where xs: "xs = takeWhile (\<lambda>l. link_key s l \<noteq> key) (ch ?i)"
      obtain ys where ys: "ch ?i = xs @ l # ys" "link_key s l = key" by (rule find_split [OF Some, folded xs])
      obtain r where r: "db_heap s l = Some r" "seg (db_heap s) (r_next r) ys 0"
        using d(2) [of ?i] unfolding ys(1) by (auto simp: seg_append)
      have dk: "distinct (map (link_key s) (xs @ l # ys))" using d(7) [of ?i] ys(1) by simp
      then have nk: "key \<notin> link_key s ` (set xs \<union> set ys)" using ys(2) by auto
      let ?s3 = "lptr_set (set_next s1 n (r_next r)) (lptr_at ?i xs) n" and ?ch = "ch(?i := xs @ n # ys)"
      note sp = splice_new [OF inv ys(1) disjI2 made(3,4,5,1) nin r(2) refl nk]
      have sp: "db_inv ?s3 ?ch" "db_map ?s3 ?ch = (db_map s ch)(key \<mapsto> val)"
        using sp ys(2) by blast+
      have "l \<notin> set (?ch j)" for j
      proof (cases "j = ?i")
        case True
        have "distinct (xs @ l # ys)" using d(3) [of ?i] ys(1) by simp
        then show ?thesis using True nin [of ?i] ys(1) by auto
      next
        case False
        have "l \<in> set (ch ?i)" using ys(1) by (metis in_set_conv_decomp)
        then show ?thesis using False d(4) [OF False] by auto
      qed
      note dl = del_rec_inv [where ch = ?ch and l = l, OF sp(1) this]
      have "hash_put env s key val = Some (n, del_rec ?s3 l)"
        using w [folded xs] d(1) c made(1) Some r by (simp add: hash_put_def)
      moreover have "db_inv (del_rec ?s3 l) ?ch \<and> db_map (del_rec ?s3 l) ?ch = (db_map s ch)(key \<mapsto> val)"
        using dl sp(2) by simp
      ultimately show ?thesis using nf made(1) by (auto simp: db_set_def)
    qed
  qed
qed

lemma db_set_rel:
  assumes "db_inv s ch" "no_clash env s ch key" "malloc_fresh env" "length key + length val < 2 ^ 62"
  shows "\<exists>rc s'. db_set env s key val = Some (rc, s') \<and>
    (rc \<noteq> 0 \<and> s' = s \<or> rc = 0 \<and> db_rel s' ((db_map s ch)(key \<mapsto> val)))"
proof -
  obtain rc s' where r: "db_set env s key val = Some (rc, s')"
    "if create_fails env s key val then rc = DB_FAIL \<and> s' = s
     else rc = 0 \<and> (\<exists>ch'. db_inv s' ch' \<and> db_map s' ch' = (db_map s ch)(key \<mapsto> val))"
    using db_set_refines [OF assms] by blast
  then have "rc \<noteq> 0 \<and> s' = s \<or> rc = 0 \<and> db_rel s' ((db_map s ch)(key \<mapsto> val))"
    unfolding db_rel_def DB_FAIL_def by (cases "create_fails env s key val") (simp, metis)
  with r(1) show ?thesis by blast
qed

lemma db_del_refines:
  assumes inv: "db_inv s ch" and nc: "no_clash env s ch key"
  shows "\<exists>rc s' ch'. db_del env s key = Some (rc, s') \<and> db_inv s' ch' \<and>
    rc = (if db_map s ch key = None then -1 else 0) \<and> db_map s' ch' = (db_map s ch)(key := None)"
proof -
  let ?i = "calc_hash key" and ?P = "\<lambda>l. link_key s l = key"
  note d = db_invD [OF inv] and w = walk_bucket [OF inv nc]
  show ?thesis
  proof (cases "find ?P (ch ?i)")
    case None
    then have "db_map s ch key = None"
      unfolding db_map_def using find_None_map [of "link_key s" key "ch ?i" "link_val s"] by simp
    then show ?thesis using w d(1) None inv by (auto simp: db_del_def hash_del_def fun_upd_idem)
  next
    case (Some l)
    define xs where xs: "xs = takeWhile (\<lambda>l. link_key s l \<noteq> key) (ch ?i)"
    obtain ys where ys: "ch ?i = xs @ l # ys" "link_key s l = key" by (rule find_split [OF Some, folded xs])
    obtain r where r: "db_heap s l = Some r" "seg (db_heap s) (r_next r) ys 0"
      using d(2) [of ?i] unfolding ys(1) by (auto simp: seg_append)
    let ?s3 = "lptr_set s (lptr_at ?i xs) (r_next r)" and ?ch = "ch(?i := xs @ ys)"
    have sub: "set ys \<subseteq> set (ch ?i)" "l \<in> set (ch ?i)" using ys(1) by auto
    have dist: "distinct (xs @ l # ys)" using d(3) [of ?i] ys(1) by simp
    have dk: "distinct (map (link_key s) (xs @ l # ys))" using d(7) [of ?i] ys(1) by simp
    have inv3: "db_inv ?s3 ?ch"
    proof (rule db_inv_splice [OF inv ys(1) r(2)])
      show "set ys \<inter> set (if j = ?i then xs else ch j) = {}" for j
        using dist d(4) [of ?i j] sub by auto
      show "rec_ok x \<and> calc_hash (rec_key x) = ?i" if "a \<in> set ys" "db_heap s a = Some x" for a x
        using d(5,6) [of a ?i x] that sub by auto
    qed (use dist dk in auto)
    have lnot: "l \<notin> set (?ch j)" for j
      using dist d(4) [of j ?i] sub by (cases "j = ?i") auto
    have "db_map ?s3 ?ch = (db_map s ch)(key := None)"
    proof (rule map_eqI)
      fix k v
      have "(\<exists>a \<in> set (?ch (calc_hash k)). link_key s a = k \<and> link_val s a = v) \<longleftrightarrow>
          k \<noteq> key \<and> (\<exists>a \<in> set (ch (calc_hash k)). link_key s a = k \<and> link_val s a = v)"
      proof (cases "calc_hash k = ?i")
        case True
        have "set (ch ?i) = insert l (set (xs @ ys))" using ys(1) by (metis Un_insert_right list.simps(15) set_append)
        moreover have "\<forall>a \<in> set (xs @ ys). link_key s a \<noteq> key" using dk ys(2) by (auto simp: image_iff)
        ultimately show ?thesis using True ys(2) by auto
      qed auto
      then show "db_map ?s3 ?ch k = Some v \<longleftrightarrow> ((db_map s ch)(key := None)) k = Some v"
        using db_map_iff [OF inv3, of k v] db_map_iff [OF inv, of k v] by simp
    qed
    moreover have "db_map s ch key \<noteq> None"
      unfolding db_map_def using find_Some_map [OF Some, of "link_val s"] by simp
    moreover have "db_del env s key = Some (0, del_rec ?s3 l)"
      using w [folded xs] d(1) Some r by (simp add: db_del_def hash_del_def)
    moreover have "db_inv (del_rec ?s3 l) ?ch \<and> db_map (del_rec ?s3 l) ?ch = db_map ?s3 ?ch"
      using del_rec_inv [where ch = ?ch and l = l, OF inv3 lnot] by simp
    ultimately show ?thesis by auto
  qed
qed

section \<open>The store as a finite map\<close>

definition set_bool :: "db_env \<Rightarrow> db \<Rightarrow> bytes \<Rightarrow> bytes \<Rightarrow> (bool \<times> db) option" where
  "set_bool env s key val = do { (rc, s') \<leftarrow> db_set env s key val; Some (rc = 0, s') }"

definition ddel_bool :: "db_env \<Rightarrow> db \<Rightarrow> bytes \<Rightarrow> (bool \<times> db) option" where
  "ddel_bool env s key = do { (rc, s') \<leftarrow> db_del env s key; Some (rc = 0, s') }"

definition op_size :: "(bytes, bytes) map_op \<Rightarrow> nat" where
  "op_size x = (case x of MPut k v \<Rightarrow> length k + length v | MDel k \<Rightarrow> length k | MGet k \<Rightarrow> length k)"

text \<open>
  Keys that can be told apart: of two different keys in the same bucket, none begins with the other.
  Then a record is never taken for that of another key, whatever the values are, since its data
  begin with its own key.  Keys of one length can be told apart, and so can keys no two of which
  share a bucket.
\<close>

definition told_apart :: "bytes set \<Rightarrow> bool" where
  "told_apart K \<longleftrightarrow> (\<forall>k \<in> K. \<forall>k' \<in> K. calc_hash k = calc_hash k' \<and> take (length k) k' = k \<longrightarrow> k = k')"

lemma told_apartD: "told_apart K \<Longrightarrow> k \<in> K \<Longrightarrow> k' \<in> K \<Longrightarrow> calc_hash k = calc_hash k' \<Longrightarrow> take (length k) k' = k \<Longrightarrow> k = k'"
  by (auto simp: told_apart_def)

lemma told_apart_length: "\<forall>k \<in> K. length k = n \<Longrightarrow> told_apart K"
  by (auto simp: told_apart_def)

lemma told_apart_buckets: "inj_on calc_hash K \<Longrightarrow> told_apart K"
  by (auto simp: told_apart_def inj_on_def)

lemma match_comparable:
  assumes "rec_ok r" "key_matches env key l r"
  shows "take (length key) (rec_key r) = key \<or> take (length (rec_key r)) key = rec_key r"
proof -
  define m where "m = map (after_rec env l) [0..<length key]"
  have k: "key = take (length key) (r_data r @ m)"
    using assms(2) by (simp add: key_matches_iff rec_mem_def m_def)
  have n: "r_key_len r \<le> length (r_data r)" using assms(1) by (simp add: rec_ok_def)
  show ?thesis
  proof (cases "length key \<le> r_key_len r")
    case True
    then have "take (length key) (rec_key r) = take (length key) (r_data r @ m)" using n by (simp add: rec_key_def min_def)
    then show ?thesis using k by simp
  next
    case False
    then have "take (r_key_len r) key = take (r_key_len r) (r_data r @ m)" by (subst k) (simp add: min_def)
    then show ?thesis using n by (simp add: rec_key_def min_def)
  qed
qed

lemma no_clash_apart:
  assumes "db_inv s ch" "dom (db_map s ch) \<subseteq> K" "told_apart K" "key \<in> K"
  shows "no_clash env s ch key"
  unfolding no_clash_def
proof (intro ballI allI impI)
  fix l r assume l: "l \<in> set (ch (calc_hash key))" and r: "db_heap s l = Some r" and m: "key_matches env key l r"
  have h: "calc_hash (rec_key r) = calc_hash key" using db_invD(6) [OF assms(1) l r] .
  have "db_map s ch (rec_key r) = Some (link_val s l)"
    unfolding db_map_iff [OF assms(1)] h using l r by (intro bexI [of _ l]) (simp_all add: link_key_def)
  then have k: "rec_key r \<in> K" using assms(2) by auto
  have "rec_ok r" using db_invD(5) [OF assms(1) l r] .
  from match_comparable [OF this m] show "rec_key r = key"
    using told_apartD [OF assms(3,4) k h [symmetric]] told_apartD [OF assms(3) k assms(4) h] by auto
qed

interpretation store: map_adt
  "\<lambda>s a. malloc_fresh env \<and> told_apart K \<and> dom a \<subseteq> K \<and> db_rel s a"
  "\<lambda>x. op_key x \<in> K \<and> op_size x < 2 ^ 62" "set_bool env" "ddel_bool env" "db_get env" for env K
proof unfold_locales
  fix s a k v
  assume a: "malloc_fresh env \<and> told_apart K \<and> dom a \<subseteq> K \<and> db_rel s a"
    "op_key (MPut k v) \<in> K \<and> op_size (MPut k v) < 2 ^ 62"
  then obtain ch where ch: "db_inv s ch" "a = db_map s ch" by (auto simp: db_rel_def)
  have "no_clash env s ch k" using no_clash_apart [OF ch(1), of K k env] ch(2) a by simp
  from db_set_rel [OF ch(1) this, of v] a
  obtain rc s' where "db_set env s k v = Some (rc, s')" "rc \<noteq> 0 \<and> s' = s \<or> rc = 0 \<and> db_rel s' (a(k \<mapsto> v))"
    unfolding ch(2) op_size_def by auto
  then show "\<exists>b s'. set_bool env s k v = Some (b, s') \<and> (malloc_fresh env \<and> told_apart K \<and>
      dom (if b then a(k \<mapsto> v) else a) \<subseteq> K \<and> db_rel s' (if b then a(k \<mapsto> v) else a))"
    using a by (intro exI [of _ "rc = 0"] exI [of _ s']) (auto simp: set_bool_def)
next
  fix s a and k :: bytes
  assume a: "malloc_fresh env \<and> told_apart K \<and> dom a \<subseteq> K \<and> db_rel s a"
    "op_key (MDel k) \<in> K \<and> op_size (MDel k) < 2 ^ 62"
  then obtain ch where ch: "db_inv s ch" "a = db_map s ch" by (auto simp: db_rel_def)
  have "no_clash env s ch k" using no_clash_apart [OF ch(1), of K k env] ch(2) a by simp
  from db_del_refines [OF ch(1) this]
  obtain rc s' where "db_del env s k = Some (rc, s')" "rc = (if a k = None then -1 else 0)" "db_rel s' (a(k := None))"
    unfolding ch(2) db_rel_def by metis
  then show "\<exists>b s'. ddel_bool env s k = Some (b, s') \<and> b = (a k \<noteq> None) \<and> (malloc_fresh env \<and> told_apart K \<and>
      dom (a(k := None)) \<subseteq> K \<and> db_rel s' (a(k := None)))"
    using a by (intro exI [of _ "rc = 0"] exI [of _ s']) (auto simp: ddel_bool_def)
next
  fix s a and k :: bytes
  assume a: "malloc_fresh env \<and> told_apart K \<and> dom a \<subseteq> K \<and> db_rel s a"
    "op_key (MGet k) \<in> K \<and> op_size (MGet k) < 2 ^ 62"
  then obtain ch where ch: "db_inv s ch" "a = db_map s ch" by (auto simp: db_rel_def)
  have "no_clash env s ch k" using no_clash_apart [OF ch(1), of K k env] ch(2) a by simp
  then show "db_get env s k = Some (a k)" using db_get_refines [OF ch(1)] ch(2) by simp
qed

text \<open>A store just set up stands for the empty map.\<close>

definition empty_db :: db where
  "empty_db = \<lparr> db_file = False, db_ready = False, db_buckets = (\<lambda>_. 0), db_heap = Map.empty, db_size = 0,
    hdr_magic = 0, hdr_version = 0, num_rec = 0, num_del = 0, next_offset = 0, init_done = False \<rparr>"

lemma db_rel_fresh:
  assumes "db_ready s" "db_buckets s = (\<lambda>_. 0)" "db_heap s = Map.empty"
    "db_file s \<Longrightarrow> 0 < next_offset s \<and> next_offset s \<le> db_size s \<and> db_size s < 2 ^ 62"
  shows "db_rel s Map.empty"
proof -
  have "db_inv s (\<lambda>_. [])" by (rule db_invI) (use assms in simp_all)
  moreover have "db_map s (\<lambda>_. []) = Map.empty" by (simp add: db_map_def fun_eq_iff)
  ultimately show ?thesis unfolding db_rel_def by (intro exI [of _ "\<lambda>_. []"]) simp
qed

section \<open>Checking a file and freeing the chains\<close>

definition rec_in_range :: "db \<Rightarrow> nat \<Rightarrow> bool" where
  "rec_in_range s l \<longleftrightarrow> (\<exists>r. db_heap s l = Some r \<and>
    sz_add l (sz_add rec_hdr_size (sz_add (r_key_len r) (r_val_len r))) \<le> db_size s)"

lemma check_chain_seg: "seg (db_heap s) l ls 0 \<Longrightarrow> \<forall>x \<in> set ls. rec_in_range s x \<and> sz_add x rec_hdr_size \<le> db_size s \<Longrightarrow>
    check_chain s l = Some 0"
proof (induction ls arbitrary: l)
  case Nil
  then show ?case by (subst check_chain.simps) simp
next
  case (Cons a ls)
  then obtain r where r: "l = a" "a \<noteq> 0" "db_heap s a = Some r" "seg (db_heap s) (r_next r) ls 0" by auto
  have "check_chain s (r_next r) = Some 0" using Cons r by simp
  then show ?case using r Cons.prems(2) by (subst check_chain.simps) (auto simp: rec_in_range_def)
qed

lemma check_chain_accepts:
  assumes "check_chain s l = Some 0"
  shows "\<exists>ls. seg (db_heap s) l ls 0 \<and> (\<forall>x \<in> set ls. rec_in_range s x)"
proof -
  have "0 = (0 :: int) \<longrightarrow> (\<exists>ls. seg (db_heap s) l ls 0 \<and> (\<forall>x \<in> set ls. rec_in_range s x))"
  proof (rule check_chain.raw_induct [OF _ assms, where P = "\<lambda>s l rc. rc = 0 \<longrightarrow>
      (\<exists>ls. seg (db_heap s) l ls 0 \<and> (\<forall>x \<in> set ls. rec_in_range s x))"])
    fix check :: "db \<Rightarrow> nat \<Rightarrow> int option" and s l rc
    assume ih: "\<And>s l rc. check s l = Some rc \<Longrightarrow> rc = 0 \<longrightarrow> (\<exists>ls. seg (db_heap s) l ls 0 \<and> (\<forall>x \<in> set ls. rec_in_range s x))"
      and c: "(if l = 0 then Some 0 else if sz_add l rec_hdr_size > db_size s then Some (-1)
        else Option.bind (db_heap s l) (\<lambda>r.
          if sz_add l (sz_add rec_hdr_size (sz_add (r_key_len r) (r_val_len r))) > db_size s then Some (-1)
          else check s (r_next r))) = Some rc"
    show "rc = 0 \<longrightarrow> (\<exists>ls. seg (db_heap s) l ls 0 \<and> (\<forall>x \<in> set ls. rec_in_range s x))"
    proof
      assume rc: "rc = 0"
      show "\<exists>ls. seg (db_heap s) l ls 0 \<and> (\<forall>x \<in> set ls. rec_in_range s x)"
      proof (cases "l = 0")
        case True
        then show ?thesis by (intro exI [of _ "[]"]) simp
      next
        case False
        with c rc obtain r where r: "db_heap s l = Some r" "check s (r_next r) = Some 0"
            "sz_add l (sz_add rec_hdr_size (sz_add (r_key_len r) (r_val_len r))) \<le> db_size s"
          by (auto split: if_splits bind_splits)
        obtain ls where "seg (db_heap s) (r_next r) ls 0" "\<forall>x \<in> set ls. rec_in_range s x" using ih [OF r(2)] by auto
        then show ?thesis using False r by (intro exI [of _ "l # ls"]) (auto simp: rec_in_range_def)
      qed
    qed
  qed
  then show ?thesis by simp
qed

lemma seg_unique: "seg h x ls 0 \<Longrightarrow> seg h x ls' 0 \<Longrightarrow> ls = ls'"
proof (induction ls arbitrary: x ls')
  case Nil
  then show ?case by (cases ls') auto
next
  case (Cons a ls)
  then show ?case by (cases ls') auto
qed

lemma check_chain_cycle:
  assumes "seg (db_heap s) l ls l" "ls \<noteq> []"
  shows "check_chain s l \<noteq> Some 0"
proof
  assume "check_chain s l = Some 0"
  then obtain xs where xs: "seg (db_heap s) l xs 0" using check_chain_accepts by blast
  then have "seg (db_heap s) l (ls @ xs) 0" using assms(1) by (auto simp: seg_append)
  from seg_unique [OF this xs] show False using assms(2) by simp
qed

lemma free_chain_frees:
  assumes "\<not> db_file s" "seg (db_heap s) (db_buckets s i) ls 0" "distinct ls"
  shows "free_chain s i = Some (s\<lparr> db_buckets := (db_buckets s)(i := 0),
    db_heap := (\<lambda>l. if l \<in> set ls then None else db_heap s l) \<rparr>)"
  using assms
proof (induction ls arbitrary: s)
  case Nil
  then show ?case by (subst free_chain.simps) (simp add: fun_upd_idem)
next
  case (Cons a ls)
  then obtain r where r: "db_buckets s i = a" "a \<noteq> 0" "db_heap s a = Some r" "seg (db_heap s) (r_next r) ls 0" by auto
  define s1 where "s1 = del_rec (s\<lparr> db_buckets := (db_buckets s)(i := r_next r) \<rparr>) a"
  have s1: "s1 = s\<lparr> db_buckets := (db_buckets s)(i := r_next r), db_heap := (db_heap s)(a := None) \<rparr>"
    using Cons.prems(1) by (simp add: s1_def del_rec_def)
  have g: "seg (db_heap s1) (db_buckets s1 i) ls 0"
    using r(4) Cons.prems(3) unfolding s1 by (auto intro: seg_frame)
  have f: "\<not> db_file s1" and dl: "distinct ls" using Cons.prems by (simp_all add: s1)
  note ih = Cons.IH [OF f g dl]
  have "free_chain s i = free_chain s1 i"
    using r unfolding s1_def by (subst free_chain.simps) simp
  also have "\<dots> = Some (s\<lparr> db_buckets := (db_buckets s)(i := 0),
      db_heap := (\<lambda>l. if l \<in> set (a # ls) then None else db_heap s l) \<rparr>)"
  proof -
    have "(\<lambda>l. if l \<in> set ls then None else db_heap s1 l) = (\<lambda>l. if l \<in> set (a # ls) then None else db_heap s l)"
      by (auto simp: s1)
    then show ?thesis unfolding ih by (simp add: s1)
  qed
  finally show ?case .
qed

lemma free_buckets_frees:
  assumes "\<not> db_file s" "\<And>i. seg (db_heap s) (db_buckets s i) (ch i) 0 \<and> distinct (ch i)"
    "\<And>i j. i \<noteq> j \<Longrightarrow> set (ch i) \<inter> set (ch j) = {}" "distinct is"
  shows "free_buckets s is = Some (s\<lparr> db_buckets := (\<lambda>i. if i \<in> set is then 0 else db_buckets s i),
    db_heap := (\<lambda>l. if \<exists>i \<in> set is. l \<in> set (ch i) then None else db_heap s l) \<rparr>)"
  using assms
proof (induction "is" arbitrary: s ch)
  case (Cons i "is")
  let ?s1 = "s\<lparr> db_buckets := (db_buckets s)(i := 0), db_heap := (\<lambda>l. if l \<in> set (ch i) then None else db_heap s l) \<rparr>"
  have f: "free_chain s i = Some ?s1" using Cons.prems by (intro free_chain_frees) auto
  have "free_buckets ?s1 is = Some (?s1\<lparr> db_buckets := (\<lambda>j. if j \<in> set is then 0 else db_buckets ?s1 j),
      db_heap := (\<lambda>l. if \<exists>j \<in> set is. l \<in> set ((ch(i := [])) j) then None else db_heap ?s1 l) \<rparr>)"
  proof (rule Cons.IH)
    fix j
    show "seg (db_heap ?s1) (db_buckets ?s1 j) ((ch(i := [])) j) 0 \<and> distinct ((ch(i := [])) j)"
    proof (cases "j = i")
      case False
      have "seg (db_heap ?s1) (db_buckets s j) (ch j) 0"
      proof (rule seg_frame, rule conjunct1 [OF Cons.prems(2)], rule ballI)
        fix l assume "l \<in> set (ch j)"
        then have "l \<notin> set (ch i)" using Cons.prems(3) [OF False] by blast
        then show "db_heap ?s1 l = db_heap s l" by simp
      qed
      then show ?thesis using False Cons.prems(2) [of j] by simp
    qed simp
    show "set ((ch(i := [])) j) \<inter> set ((ch(i := [])) k) = {}" if "j \<noteq> k" for k
      using Cons.prems(3) [OF that] by auto
  qed (use Cons.prems in auto)
  moreover have "(\<lambda>j. if j \<in> set is then 0 else db_buckets ?s1 j) = (\<lambda>j. if j \<in> set (i # is) then 0 else db_buckets s j)"
    by auto
  moreover have "(\<lambda>l. if \<exists>j \<in> set is. l \<in> set ((ch(i := [])) j) then None else db_heap ?s1 l) =
      (\<lambda>l. if \<exists>j \<in> set (i # is). l \<in> set (ch j) then None else db_heap s l)"
    using Cons.prems(4) by (auto simp: fun_eq_iff)
  ultimately show ?case using f by simp
qed simp

section \<open>Properties\<close>

text \<open>Memory never runs out: the store is in memory and \<open>malloc\<close> succeeds on every finite heap.\<close>

definition plenty :: "db_env \<Rightarrow> db \<Rightarrow> bool" where
  "plenty env s \<longleftrightarrow> \<not> db_file s \<and> finite (dom (db_heap s)) \<and> (\<forall>h n. finite (dom h) \<longrightarrow> malloc env h n \<noteq> 0)"

lemma plenty_simps [simp]:
  "plenty env (s\<lparr> db_buckets := b \<rparr>) = plenty env s"
  "plenty env s \<Longrightarrow> plenty env (s\<lparr> db_heap := (db_heap s)(l := x) \<rparr>)"
  by (auto simp: plenty_def dom_fun_upd)

lemma plenty_lptr_set: "plenty env s \<Longrightarrow> plenty env (lptr_set s pp v)"
  by (cases pp) (simp_all add: lptr_set_def)

lemma plenty_del_rec: "plenty env s \<Longrightarrow> plenty env (del_rec s l)"
  using plenty_simps(2) [of env s l None] by (simp add: del_rec_def plenty_def)

lemma plenty_create:
  assumes "plenty env s" "create_rec env s key val = (n, s')"
  shows "n \<noteq> 0 \<and> plenty env s'"
proof -
  let ?k = "sz_add (sz_add rec_hdr_size (length key)) (length val)"
  have "\<not> db_file s" "malloc env (db_heap s) ?k \<noteq> 0" using assms(1) by (auto simp: plenty_def)
  then show ?thesis using assms by (auto simp: create_rec_def Let_def)
qed

lemma db_set_plenty:
  assumes "plenty env s" "db_set env s key val = Some (rc, s')"
  shows "rc = 0 \<and> plenty env s'"
proof -
  obtain n s1 where c: "create_rec env s key val = (n, s1)" by fastforce
  note p = plenty_create [OF assms(1) c]
  have n: "plenty env (lptr_set (set_next s1 n x) pp y)" for x pp y
    using p by (simp add: set_next_def plenty_lptr_set)
  show ?thesis using assms(2) c p n
    by (auto simp: db_set_def hash_put_def bind_eq_Some_conv plenty_del_rec split: if_splits option.splits)
qed

lemma db_del_plenty: "plenty env s \<Longrightarrow> db_del env s key = Some (rc, s') \<Longrightarrow> plenty env s'"
  by (auto simp: db_del_def hash_del_def bind_eq_Some_conv plenty_del_rec plenty_lptr_set split: if_splits option.splits)

lemma set_bool_Some: "set_bool env s k v = Some (b, s') \<longleftrightarrow> (\<exists>rc. db_set env s k v = Some (rc, s') \<and> b = (rc = 0))"
  by (auto simp: set_bool_def bind_eq_Some_conv)

lemma ddel_bool_Some: "ddel_bool env s k = Some (b, s') \<longleftrightarrow> (\<exists>rc. db_del env s k = Some (rc, s') \<and> b = (rc = 0))"
  by (auto simp: ddel_bool_def bind_eq_Some_conv)

lemma run_plenty:
  assumes "plenty env s" "run_map (set_bool env) (ddel_bool env) (db_get env) s xs = Some (outs, s')"
  shows "OPut False \<notin> set outs"
  using assms
proof (induction xs arbitrary: s outs)
  case (Cons x xs)
  show ?case
  proof (cases x)
    case (MPut k v)
    then obtain rc s1 outs1 where r: "db_set env s k v = Some (rc, s1)" "outs = OPut (rc = 0) # outs1"
      "run_map (set_bool env) (ddel_bool env) (db_get env) s1 xs = Some (outs1, s')"
      using Cons.prems(2) by (auto simp: set_bool_Some bind_eq_Some_conv)
    then show ?thesis using db_set_plenty [OF Cons.prems(1) r(1)] Cons.IH [of s1 outs1] by auto
  next
    case (MDel k)
    then obtain rc s1 outs1 where r: "db_del env s k = Some (rc, s1)" "outs = ODel (rc = 0) # outs1"
      "run_map (set_bool env) (ddel_bool env) (db_get env) s1 xs = Some (outs1, s')"
      using Cons.prems(2) by (auto simp: ddel_bool_Some bind_eq_Some_conv)
    then show ?thesis using db_del_plenty [OF Cons.prems(1) r(1)] Cons.IH [of s1 outs1] by auto
  next
    case (MGet k)
    then show ?thesis using Cons by (auto simp: bind_eq_Some_conv)
  qed
qed simp

text \<open>
  C1. The database refines a finite map: for a set of keys of which, within one bucket, none begins
  with another, and with any number of them in a bucket, every sequence of sets, gets and deletes on
  a database in memory or in a file returns with a result for each operation that agrees with the
  finite map, and the database stands for the resulting map.  A set that is refused changes
  nothing, and with memory that does not run out none is refused.  Without the condition on the
  keys the statement is false.
\<close>

theorem db_refines_map:
  assumes "malloc_fresh env" "told_apart K" "dom a \<subseteq> K" "db_rel s a"
    and "\<forall>x \<in> set xs. op_key x \<in> K \<and> op_size x < 2 ^ 62"
  shows "\<exists>outs s' a'. run_map (set_bool env) (ddel_bool env) (db_get env) s xs = Some (outs, s') \<and>
    db_rel s' a' \<and> spec_run a xs outs a' \<and> (plenty env s \<longrightarrow> OPut False \<notin> set outs)"
  using store.run_refines [of env K a s xs] run_plenty [of env s xs] assms by blast

text \<open>A heap that gives out two places.\<close>

definition bump_env :: db_env where
  "bump_env = \<lparr> malloc = (\<lambda>h n. if h 8 = None then 8 else if h 16 = None then 16 else 0), after_rec = (\<lambda>_ _. 0) \<rparr>"

lemma bump_fresh: "malloc_fresh bump_env"
  by (simp add: malloc_fresh_def bump_env_def)

text \<open>A heap that gives out the first free place, and two keys of one bucket.\<close>

definition first_env :: db_env where
  "first_env = \<lparr> malloc = (\<lambda>h n. if finite (dom h) then LEAST l. 0 < l \<and> h l = None else 0), after_rec = (\<lambda>_ _. 0) \<rparr>"

lemma first_place:
  assumes "finite (dom h)"
  shows "0 < malloc first_env h n \<and> h (malloc first_env h n) = None"
proof -
  have "\<exists>l. l \<notin> insert 0 (dom h)" using assms by (intro ex_new_if_finite) auto
  then have "\<exists>l. 0 < l \<and> h l = None" by auto
  from LeastI_ex [OF this] show ?thesis using assms by (simp add: first_env_def)
qed

lemma first_fresh: "malloc_fresh first_env"
  unfolding malloc_fresh_def
proof (intro allI impI)
  fix h n assume "malloc first_env h n \<noteq> 0"
  then have "finite (dom h)" by (simp add: first_env_def split: if_splits)
  then show "h (malloc first_env h n) = None" using first_place by blast
qed

lemma same_bucket: "calc_hash (ascii ''idu'') = calc_hash (ascii ''sbv'')"
  by (simp add: calc_hash_def dbj2a_hash_def DB_NUM_BUCKETS_def)

definition two_keys :: "(bytes, bytes) map_op list" where
  "two_keys = [MPut (ascii ''idu'') (ascii ''1''), MPut (ascii ''sbv'') (ascii ''2''), MGet (ascii ''idu''),
    MDel (ascii ''sbv''), MGet (ascii ''idu''), MGet (ascii ''sbv'')]"

theorem db_refines_map_witness:
  "calc_hash (ascii ''idu'') = calc_hash (ascii ''sbv'') \<and>
   (\<exists>s'. run_map (set_bool first_env) (ddel_bool first_env) (db_get first_env) (snd (hash_init True empty_db)) two_keys =
      Some ([OPut True, OPut True, OGet (Some (ascii ''1'')), ODel True, OGet (Some (ascii ''1'')), OGet None], s'))"
proof -
  let ?s = "snd (hash_init True empty_db)" and ?K = "{ascii ''idu'', ascii ''sbv''}"
  have "told_apart ?K" by (rule told_apart_length [of _ 3]) simp
  moreover have "db_rel ?s Map.empty"
    by (rule db_rel_fresh) (simp_all add: hash_init_def empty_db_def)
  moreover have "\<forall>x \<in> set two_keys. op_key x \<in> ?K \<and> op_size x < 2 ^ 62" by (simp add: two_keys_def op_size_def)
  ultimately obtain outs s' a' where r: "run_map (set_bool first_env) (ddel_bool first_env) (db_get first_env) ?s two_keys = Some (outs, s')"
    "spec_run Map.empty two_keys outs a'" "plenty first_env ?s \<longrightarrow> OPut False \<notin> set outs"
    using db_refines_map [OF first_fresh, of ?K Map.empty ?s two_keys] by auto
  have "plenty first_env ?s" using first_place by (auto simp: plenty_def hash_init_def empty_db_def)
  then have "outs = [OPut True, OPut True, OGet (Some (ascii ''1'')), ODel True, OGet (Some (ascii ''1'')), OGet None]"
    using r(2,3) by (auto simp: two_keys_def neq_Nil_conv elim!: spec_run.elims)
  then show ?thesis using r(1) same_bucket by auto
qed

text \<open>
  One operation under the weakest condition: when no other record in the key's bucket is taken for
  the key, \<open>db_get\<close> returns exactly what the chains hold for it, and \<open>db_set\<close> stores the value
  unless no record can be created.
\<close>

theorem db_get_set_one:
  assumes "db_inv s ch" "no_clash env s ch key" "malloc_fresh env" "length key + length val < 2 ^ 62"
  shows "db_get env s key = Some (db_map s ch key) \<and>
    (\<exists>rc s'. db_set env s key val = Some (rc, s') \<and>
      (if create_fails env s key val then rc = DB_FAIL \<and> s' = s
       else rc = 0 \<and> (\<exists>ch'. db_inv s' ch' \<and> db_map s' ch' = (db_map s ch)(key \<mapsto> val))))"
  using db_get_refines [OF assms(1,2)] db_set_refines [OF assms] by blast

theorem db_get_set_one_witness:
  "\<exists>rc s'. db_set bump_env (snd (hash_init True empty_db)) (ascii ''k'') (ascii ''v'') = Some (rc, s') \<and> rc = 0"
proof -
  let ?s = "snd (hash_init True empty_db)"
  have "db_inv ?s (\<lambda>_. [])" by (rule db_invI) (simp_all add: hash_init_def empty_db_def)
  moreover note bump_fresh
  moreover have "\<not> create_fails bump_env ?s (ascii ''k'') (ascii ''v'')"
    by (simp add: create_fails_def bump_env_def hash_init_def empty_db_def)
  ultimately show ?thesis
    using db_get_set_one [of ?s "\<lambda>_. []" bump_env "ascii ''k''" "ascii ''v''"] by (auto simp: no_clash_def)
qed

text \<open>
  C32. Keys are compared with a prefix of the record's data, which is the key followed by the value.  In
  a database whose only entry is \<open>key\<close> with \<open>val\<close>, looking up the longer key \<open>key @ val\<close> returns
  \<open>val\<close> although it was never stored, whenever the two keys share a bucket.
\<close>

theorem db_get_confuses_keys:
  assumes "malloc env Map.empty (rec_size key val) \<noteq> 0" "calc_hash (key @ val) = calc_hash key"
    and "length key + length val < 2 ^ 62" "db_set env (snd (hash_init True empty_db)) key val = Some (rc, s)"
  shows "db_get env s (key @ val) = Some (Some val)"
proof -
  let ?s0 = "snd (hash_init True empty_db)" and ?i = "calc_hash key"
  let ?n = "malloc env Map.empty (rec_size key val)"
  let ?r = "(new_rec key val)\<lparr> r_next := 0 \<rparr>"
  have rs: "sz_add (sz_add rec_hdr_size (length key)) (length val) = rec_size key val"
    using assms(3) by (simp add: sz_add_nowrap rec_size_def rec_hdr_size_def)
  have "walk env ?s0 key (Bucket ?i) = Some None"
    by (subst walk.simps) (simp add: hash_init_def empty_db_def lptr_get_def)
  then have s: "db_ready s" "db_buckets s = (\<lambda>_. 0)(?i := ?n)" "db_heap s = [?n \<mapsto> ?r]"
    using assms(1,4) rs
    by (auto simp: db_set_def hash_put_def create_rec_def hash_init_def empty_db_def Let_def set_next_def
        lptr_set_def new_rec_def)
  have "rec_mem env ?n ?r (length (key @ val)) = key @ val" by (simp add: rec_mem_def new_rec_def)
  then have "key_matches env (key @ val) ?n ?r" unfolding key_matches_iff by simp
  then have "hash_find env s (key @ val) = Some ?n"
    using assms(1,2) s unfolding hash_find_def hash_search_def by (subst search.simps) simp
  then show ?thesis using assms(1) s(3) by (simp add: db_get_def new_rec_def)
qed

theorem db_get_confuses_keys_witness:
  "\<exists>rc s. db_set bump_env (snd (hash_init True empty_db)) (ascii ''a'') (ascii ''ji'') = Some (rc, s) \<and>
    db_get bump_env s (ascii ''aji'') = Some (Some (ascii ''ji''))"
proof -
  let ?s0 = "snd (hash_init True empty_db)"
  have h: "calc_hash (ascii ''a'' @ ascii ''ji'') = calc_hash (ascii ''a'')"
    by (simp add: calc_hash_def dbj2a_hash_def DB_NUM_BUCKETS_def)
  have inv: "db_inv ?s0 (\<lambda>_. [])" by (rule db_invI) (simp_all add: hash_init_def empty_db_def)
  obtain rc s where s: "db_set bump_env ?s0 (ascii ''a'') (ascii ''ji'') = Some (rc, s)"
    using db_set_rel [OF inv, of bump_env "ascii ''a''" "ascii ''ji''"]
    by (auto simp: no_clash_def bump_fresh)
  have "malloc bump_env Map.empty (rec_size (ascii ''a'') (ascii ''ji'')) \<noteq> 0" by (simp add: bump_env_def)
  from db_get_confuses_keys [OF this h _ s] s show ?thesis by auto
qed

text \<open>
  C31. \<open>file_check\<close> accepts a chain only if it ends and every record in it lies within the mapped file
  (as far as the sums, computed modulo \<open>2 ^ 64\<close>, tell); a chain with a cycle is never accepted, but
  neither is it rejected with an error unless a record is out of range.
\<close>

theorem file_check_chain:
  "(check_chain s l = Some 0 \<longrightarrow> (\<exists>ls. seg (db_heap s) l ls 0 \<and> (\<forall>x \<in> set ls. rec_in_range s x))) \<and>
   (seg (db_heap s) l ls l \<and> ls \<noteq> [] \<longrightarrow> check_chain s l \<noteq> Some 0)"
  using check_chain_accepts check_chain_cycle by blast

theorem file_check_chain_witness:
  "check_chain (empty_db\<lparr> db_file := True, db_size := 100,
      db_heap := [40 \<mapsto> \<lparr> r_next = 40, r_flags = 0, r_key_len = 1, r_val_len = 1, r_data = [1, 2] \<rparr>] \<rparr>) 40 \<noteq> Some 0"
  using file_check_chain [of "empty_db\<lparr> db_file := True, db_size := 100,
      db_heap := [40 \<mapsto> \<lparr> r_next = 40, r_flags = 0, r_key_len = 1, r_val_len = 1, r_data = [1, 2] \<rparr>] \<rparr>" 40 "[40]"]
  by simp

text \<open>
  C30. Shutting down a database in memory frees every record of every chain and nothing else, and leaves
  the table unallocated; but \<open>init_done\<close> stays set, so a later \<open>db_init\<close> is refused.
\<close>

theorem db_deinit_frees:
  assumes "db_inv s ch" "\<not> db_file s" "init_done s"
  shows "\<exists>s'. db_deinit s = Some s' \<and> \<not> db_ready s' \<and>
    db_heap s' = (\<lambda>l. if \<exists>i < DB_NUM_BUCKETS. l \<in> set (ch i) then None else db_heap s l) \<and>
    db_init True file w s' = Some (DB_REINIT, s', w)"
proof -
  note d = db_invD [OF assms(1)]
  have "free_buckets s [0 ..< DB_NUM_BUCKETS] = Some (s\<lparr>
      db_buckets := (\<lambda>i. if i \<in> set [0 ..< DB_NUM_BUCKETS] then 0 else db_buckets s i),
      db_heap := (\<lambda>l. if \<exists>i \<in> set [0 ..< DB_NUM_BUCKETS]. l \<in> set (ch i) then None else db_heap s l) \<rparr>)"
    using assms(2) d(2-4) by (intro free_buckets_frees) auto
  then show ?thesis
    using assms(2,3) d(1) by (simp add: db_deinit_def hash_deinit_def db_init_def Bex_def)
qed

theorem db_deinit_frees_witness:
  "\<exists>s'. db_deinit ((snd (hash_init True empty_db))\<lparr> init_done := True \<rparr>) = Some s' \<and> \<not> db_ready s' \<and>
    db_init True None () s' = Some (DB_REINIT, s', ())"
proof -
  let ?s = "(snd (hash_init True empty_db))\<lparr> init_done := True \<rparr>"
  have "db_inv ?s (\<lambda>_. [])" by (rule db_invI) (simp_all add: hash_init_def empty_db_def)
  then show ?thesis
    using db_deinit_frees [of ?s "\<lambda>_. []" None "()"] by (auto simp: hash_init_def empty_db_def)
qed

end
