(* ===== verification/Util.thy ===== *)
theory Util
  imports Strings "HOL-Library.Signed_Division"
begin

text \<open>
  The number printers and the command-line iterator of \<open>src/src/util.c\<close>, and the two numeric
  appends of \<open>src/src/str_util.h\<close> that use them.  The printers fill a buffer from its end
  backwards and return a pointer into it; the static array of buffers is one block of 160 bytes,
  addressed by index, and \<open>None\<close> stands for a store outside that block.
\<close>

section \<open>Model\<close>

text \<open>The C string that starts at an index of a memory block.\<close>

definition cstr :: "bytes \<Rightarrow> nat \<Rightarrow> bytes" where
  "cstr mem p = takeWhile (\<lambda>c. c \<noteq> 0) (drop p mem)"

text \<open>\<open>*--str = c\<close>\<close>

definition push_down :: "u8 \<Rightarrow> bytes \<Rightarrow> nat \<Rightarrow> (bytes \<times> nat) option" where
  "push_down c mem p = (if p = 0 \<or> p > length mem then None else Some (mem[p - 1 := c], p - 1))"

function itoa_loop :: "int \<Rightarrow> bytes \<Rightarrow> nat \<Rightarrow> (bytes \<times> nat) option" where
  "itoa_loop val mem p =
    (if val = 0 then Some (mem, p)
     else do {
       (mem', p') \<leftarrow> push_down (of_int (val smod 10 + 48)) mem p;
       itoa_loop (val sdiv 10) mem' p'
     })"
  by pat_completeness auto
termination
  by (relation "measure (\<lambda>(val, _). nat \<bar>val\<bar>)") (auto simp: signed_divide_int_def abs_mult)

definition itoa :: "int \<Rightarrow> bytes \<Rightarrow> nat option \<Rightarrow> nat \<Rightarrow> (bytes \<times> nat option) option" where
  "itoa val mem buf len =
    (case buf of
       None \<Rightarrow> Some (mem, None)
     | Some b \<Rightarrow>
       if len = 0 then Some (mem, Some b)
       else do {
         let mem = mem[b + len - 1 := 0];
         (mem, p) \<leftarrow> (if val = 0 then push_down 48 mem (b + len - 1) else Some (mem, b + len - 1));
         (mem, p) \<leftarrow> itoa_loop val mem p;
         Some (mem, Some p)
       })"

function u32toa_loop :: "u32 \<Rightarrow> bytes \<Rightarrow> nat \<Rightarrow> (bytes \<times> nat) option" where
  "u32toa_loop val mem p =
    (if val = 0 then Some (mem, p)
     else do {
       (mem', p') \<leftarrow> push_down (ucast (val mod 10) + 48) mem p;
       u32toa_loop (val div 10) mem' p'
     })"
  by pat_completeness auto
termination
proof (relation "measure (\<lambda>(val, _). unat val)", goal_cases)
  case (2 val mem p x y)
  then have "0 < unat val" by (simp add: unat_gt_0)
  then show ?case by (simp add: unat_div)
qed simp

definition u32toa :: "u32 \<Rightarrow> bytes \<Rightarrow> nat option \<Rightarrow> nat \<Rightarrow> (bytes \<times> nat option) option" where
  "u32toa val mem buf len =
    (case buf of
       None \<Rightarrow> Some (mem, None)
     | Some b \<Rightarrow>
       if len = 0 then Some (mem, Some b)
       else do {
         let mem = mem[b + len - 1 := 0];
         (mem, p) \<leftarrow> (if val = 0 then push_down 48 mem (b + len - 1) else Some (mem, b + len - 1));
         (mem, p) \<leftarrow> u32toa_loop val mem p;
         Some (mem, Some p)
       })"

text \<open>The static buffers \<open>bufs[16][10]\<close> and the index of the next one.\<close>

record tostr_bufs =
  tb_mem :: bytes
  tb_idx :: nat

definition tostr_bufs_init :: tostr_bufs where
  "tostr_bufs_init = \<lparr> tb_mem = replicate 160 0, tb_idx = 0 \<rparr>"

definition int_tostr :: "int \<Rightarrow> tostr_bufs \<Rightarrow> (tostr_bufs \<times> nat option) option" where
  "int_tostr val s = do {
    (mem, p) \<leftarrow> itoa val (tb_mem s) (Some (tb_idx s * 10)) 10;
    Some (\<lparr> tb_mem = mem, tb_idx = (tb_idx s + 1) mod 16 \<rparr>, p)
  }"

text \<open>\<open>sizeof(bufs[0][0])\<close> is 1.\<close>

definition u32_tostr :: "u32 \<Rightarrow> tostr_bufs \<Rightarrow> (tostr_bufs \<times> nat option) option" where
  "u32_tostr val s = do {
    (mem, p) \<leftarrow> u32toa val (tb_mem s) (Some (tb_idx s * 10)) 1;
    Some (\<lparr> tb_mem = mem, tb_idx = (tb_idx s + 1) mod 16 \<rparr>, p)
  }"

definition sbuf_putn :: "sbuf \<Rightarrow> u32 \<Rightarrow> tostr_bufs \<Rightarrow> ((nat \<times> sbuf) \<times> tostr_bufs) option" where
  "sbuf_putn buf num s = do {
    (s', p) \<leftarrow> u32_tostr num s;
    Some (sbuf_puts buf (map_option (cstr (tb_mem s')) p), s')
  }"

definition sbuf_putcn :: "sbuf \<Rightarrow> u8 \<Rightarrow> u32 \<Rightarrow> tostr_bufs \<Rightarrow> ((nat \<times> sbuf) \<times> tostr_bufs) option" where
  "sbuf_putcn buf ch num s =
    (case sbuf_mksp buf 1 of
       (None, buf') \<Rightarrow> Some ((0, buf'), s)
     | (Some wptr, buf') \<Rightarrow> do {
         ((n, buf''), s') \<leftarrow> sbuf_putn (sbuf_store buf' wptr [ch]) num s;
         Some ((1 + n, buf''), s')
       })"

subsection \<open>Setters\<close>

text \<open>
  The number that \<open>strtol\<close> and \<open>strtoul\<close> read with base 0: white space, a sign, the prefix \<open>0x\<close> of
  hexadecimal or \<open>0\<close> of octal digits, and digits.
\<close>

definition digit_of :: "nat \<Rightarrow> u8 \<Rightarrow> nat option" where
  "digit_of base c =
    (let n = unat c;
         d = (if 48 \<le> n \<and> n \<le> 57 then n - 48 else if 97 \<le> n \<and> n \<le> 122 then n - 87
           else if 65 \<le> n \<and> n \<le> 90 then n - 55 else base)
     in if d < base then Some d else None)"

fun digits_of :: "nat \<Rightarrow> nat \<Rightarrow> bytes \<Rightarrow> nat" where
  "digits_of base acc [] = acc"
| "digits_of base acc (c # cs) = (case digit_of base c of None \<Rightarrow> acc | Some d \<Rightarrow> digits_of base (acc * base + d) cs)"

definition number_of_text :: "bytes \<Rightarrow> nat" where
  "number_of_text s =
    (case s of
       a # b # c # cs \<Rightarrow>
         if a = 48 \<and> (b = 120 \<or> b = 88) \<and> digit_of 16 c \<noteq> None then digits_of 16 0 (c # cs)
         else digits_of (if a = 48 then 8 else 10) 0 s
     | a # _ \<Rightarrow> digits_of (if a = 48 then 8 else 10) 0 s
     | [] \<Rightarrow> 0)"

definition signed_text :: "bytes \<Rightarrow> bool \<times> nat" where
  "signed_text s =
    (case dropWhile (\<lambda>c. c = 32 \<or> 9 \<le> c \<and> c \<le> 13) s of
       [] \<Rightarrow> (False, 0)
     | c # cs \<Rightarrow> if c = 45 then (True, number_of_text cs) else if c = 43 then (False, number_of_text cs)
         else (False, number_of_text (c # cs)))"

definition strtol :: "bytes \<Rightarrow> int" where
  "strtol s = (case signed_text s of (neg, n) \<Rightarrow> if neg then max (- (2 ^ 63)) (- int n) else min (2 ^ 63 - 1) (int n))"

definition strtoul :: "bytes \<Rightarrow> u64" where
  "strtoul s = (case signed_text s of (neg, n) \<Rightarrow> if n \<ge> 2 ^ 64 then - 1 else if neg then - of_nat n else of_nat n)"

text \<open>The memory of the string is available or not; the first result is the code.\<close>

definition str_setval :: "bool \<Rightarrow> bytes \<Rightarrow> int \<times> bytes option" where
  "str_setval strdup_ok val_str = (if strdup_ok then (0, Some val_str) else (-1, None))"

definition int_setval :: "int \<Rightarrow> bytes \<Rightarrow> int \<times> int" where
  "int_setval ival val_str = (let val = c_int (strtol val_str) in if val < 0 then (-1, ival) else (0, val))"

definition uint_setval :: "bytes \<Rightarrow> int \<times> u32" where
  "uint_setval val_str = (0, ucast (strtoul val_str))"

subsection \<open>Command-line iterator\<close>

definition OPT_EOF :: int where "OPT_EOF = -2"
definition OPT_UNSUPP :: int where "OPT_UNSUPP = -3"
definition OPT_MISSVAL :: int where "OPT_MISSVAL = -4"

record cmd_opt =
  opt_name :: bytes
  has_arg :: int
  opt_code :: int

record cmd_argv =
  argv :: "bytes list"
  opts :: "cmd_opt list"
  argv_idx :: nat
  opt_idx :: int
  arg_name :: "bytes option"
  arg_value :: "bytes option"

text \<open>The option table ends with an entry without a name; \<open>opts\<close> lists the entries before it.\<close>

fun find_opt_from :: "nat \<Rightarrow> bytes \<Rightarrow> cmd_opt list \<Rightarrow> int" where
  "find_opt_from i name [] = -1"
| "find_opt_from i name (opt # os) =
    (if name = opt_name opt then int i else find_opt_from (Suc i) name os)"

definition find_opt :: "bytes \<Rightarrow> cmd_opt list \<Rightarrow> int" where
  "find_opt name os = find_opt_from 0 name os"

definition cmd_argv_next :: "cmd_argv \<Rightarrow> int \<times> cmd_argv" where
  "cmd_argv_next parse =
    (let parse = (if argv_idx parse = 0 then parse\<lparr> argv_idx := 1 \<rparr> else parse)
     in if argv_idx parse \<ge> length (argv parse) then (OPT_EOF, parse)
     else
       let name = argv parse ! argv_idx parse;
           oi = find_opt name (opts parse);
           parse = parse\<lparr> arg_name := Some name, argv_idx := argv_idx parse + 1, opt_idx := oi \<rparr>
       in if oi = -1 then (OPT_UNSUPP, parse)
       else
         let opt = opts parse ! nat oi;
             rc = (if opt_code opt \<noteq> 0 then opt_code opt else oi);
             parse = parse\<lparr> arg_value := None \<rparr>
         in if has_arg opt \<noteq> 0 then
              if argv_idx parse \<ge> length (argv parse) then (OPT_MISSVAL, parse)
              else
                let val = argv parse ! argv_idx parse
                in if val \<noteq> [] \<and> hd val = of_char CHR ''-'' then (OPT_MISSVAL, parse)
                   else (rc, parse\<lparr> arg_value := Some val, argv_idx := argv_idx parse + 1 \<rparr>)
            else (rc, parse))"

text \<open>The value of an option without argument is a null pointer, which these follow.\<close>

definition opt_setstr :: "bool \<Rightarrow> cmd_argv \<Rightarrow> (int \<times> bytes option) option" where
  "opt_setstr strdup_ok parse = map_option (str_setval strdup_ok) (arg_value parse)"

definition opt_setint :: "int \<Rightarrow> cmd_argv \<Rightarrow> (int \<times> int) option" where
  "opt_setint ival parse = map_option (int_setval ival) (arg_value parse)"

definition opt_setuint :: "cmd_argv \<Rightarrow> (int \<times> u32) option" where
  "opt_setuint parse = map_option uint_setval (arg_value parse)"

section \<open>Printing\<close>

declare itoa_loop.simps [simp del] u32toa_loop.simps [simp del]

lemma itoa_loop_digits:
  assumes "0 < n" "length (dec_digits n) \<le> p" "p \<le> length mem"
  shows "itoa_loop (int n) mem p =
    Some (write_at mem (p - length (dec_digits n)) (dec_digits n), p - length (dec_digits n))"
  using assms
proof (induction n arbitrary: mem p rule: less_induct)
  case (less n)
  have p: "0 < p" using less.prems by (subst (asm) dec_digits.simps) (auto split: if_splits)
  have md: "int n smod 10 = int (n mod 10)" "int n sdiv 10 = int (n div 10)"
    using less.prems(1)
    by (simp_all add: signed_divide_int_def signed_modulo_int_def zdiv_int zmod_int
        minus_div_mult_eq_mod [symmetric] mult.commute)
  have c: "of_int (int (n mod 10) + 48) = (of_nat (n mod 10) + 48 :: u8)" by simp
  have step: "itoa_loop (int n) mem p =
      itoa_loop (int (n div 10)) (mem[p - 1 := of_nat (n mod 10) + 48]) (p - 1)"
    using p less.prems
    by (subst itoa_loop.simps) (simp add: push_down_def md c del: of_int_add)
  show ?case
  proof (cases "n < 10")
    case True
    then show ?thesis using step p less.prems
      by (simp add: dec_digits_lt10 itoa_loop.simps [of 0] write_at_def upd_conv_take_nth_drop)
  next
    case False
    let ?m = "mem[p - 1 := of_nat (n mod 10) + 48 :: u8]" and ?d = "dec_digits (n div 10)"
    have len: "length ?d \<le> p - 1" using less.prems False by (simp add: dec_digits_step)
    have "itoa_loop (int (n div 10)) ?m (p - 1) =
        Some (write_at ?m (p - 1 - length ?d) ?d, p - 1 - length ?d)"
      by (rule less.IH) (use False less.prems len in auto)
    moreover have "write_at ?m (p - 1 - length ?d) ?d = write_at mem (p - 1 - length ?d) (dec_digits n)"
    proof -
      have "drop (p - 1) ?m = (of_nat (n mod 10) + 48) # drop p mem"
        using p less.prems by (simp add: upd_conv_take_nth_drop)
      then show ?thesis
        using len p False by (simp add: write_at_def dec_digits_step)
    qed
    ultimately show ?thesis using step False len p by (simp add: dec_digits_step)
  qed
qed

lemma length_dec_digits: "n < 10 ^ Suc k \<Longrightarrow> length (dec_digits n) \<le> Suc k"
proof (induction k arbitrary: n)
  case (Suc k)
  show ?case
  proof (cases "n < 10")
    case False
    then show ?thesis using Suc.IH [of "n div 10"] Suc.prems by (simp add: dec_digits_step)
  qed (simp add: dec_digits_lt10)
qed (simp add: dec_digits_lt10)

lemma dec_digits_nonzero: "0 \<notin> set (dec_digits n)"
proof (induction n rule: less_induct)
  case (less n)
  have z: "(of_nat m + 48 :: u8) \<noteq> 0" if "m < 10" for m
  proof
    assume "(of_nat m + 48 :: u8) = 0"
    then have "unat (of_nat (m + 48) :: u8) = 0" by simp
    then show False using unat_of_nat_u8 [of "m + 48"] that by simp
  qed
  show ?case
  proof (cases "n < 10")
    case True
    then show ?thesis using z [THEN not_sym, of n] by (simp add: dec_digits_lt10)
  next
    case False
    then show ?thesis using z [THEN not_sym, of "n mod 10"] less.IH [of "n div 10"]
      by (simp add: dec_digits_step)
  qed
qed

lemma takeWhile_nonzero: "0 \<notin> set s \<Longrightarrow> takeWhile (\<lambda>c. c \<noteq> (0 :: u8)) (s @ 0 # r) = s"
  by (induction s) auto

lemma int_tostr_digits:
  assumes "length (tb_mem s) = 160" "tb_idx s < 16" "n < 10 ^ 9"
  obtains p where
    "int_tostr (int n) s =
      Some (\<lparr> tb_mem = write_at (tb_mem s) p (dec_digits n @ [0]), tb_idx = (tb_idx s + 1) mod 16 \<rparr>, Some p)"
    "tb_idx s * 10 \<le> p" "p + length (dec_digits n) = tb_idx s * 10 + 9"
proof -
  let ?d = "dec_digits n" and ?q = "tb_idx s * 10 + 9" and ?m = "(tb_mem s)[tb_idx s * 10 + 9 := 0]"
  have len: "length ?d \<le> 9" using length_dec_digits [of n 8] assms(3) by simp
  have q: "?q < 160" using assms(2) by simp
  have "int_tostr (int n) s =
      Some (\<lparr> tb_mem = write_at ?m (?q - length ?d) ?d, tb_idx = (tb_idx s + 1) mod 16 \<rparr>,
        Some (?q - length ?d))"
  proof (cases "n = 0")
    case True
    then show ?thesis using q assms(1)
      by (simp add: int_tostr_def itoa_def push_down_def itoa_loop.simps [of 0] dec_digits_lt10
          write_at_def upd_conv_take_nth_drop)
  next
    case False
    then have "itoa_loop (int n) ?m ?q = Some (write_at ?m (?q - length ?d) ?d, ?q - length ?d)"
      by (intro itoa_loop_digits) (use len q assms(1) in auto)
    then show ?thesis using False by (simp add: int_tostr_def itoa_def add.commute)
  qed
  moreover have "write_at ?m (?q - length ?d) ?d = write_at (tb_mem s) (?q - length ?d) (?d @ [0])"
    using len q assms(1) by (simp add: write_at_def upd_conv_take_nth_drop)
  ultimately show ?thesis using that [of "?q - length ?d"] len by simp
qed

text \<open>
  \<open>int_tostr\<close> returns a pointer to the decimal digits of its argument, for every argument from 0
  up to 999999999, whatever the rotating index is; the sixteen buffers keep their size and every
  byte outside the buffer in use keeps its value.
\<close>

theorem int_tostr_prints:
  assumes "length (tb_mem s) = 160" "tb_idx s < 16" "n < 10 ^ 9"
  shows "\<exists>s' p. int_tostr (int n) s = Some (s', Some p) \<and> cstr (tb_mem s') p = dec_digits n \<and>
    length (tb_mem s') = 160 \<and> tb_idx s' < 16 \<and>
    (\<forall>i. i < tb_idx s * 10 \<or> tb_idx s * 10 + 10 \<le> i \<longrightarrow> tb_mem s' ! i = tb_mem s ! i)"
proof -
  let ?d = "dec_digits n"
  obtain p where p: "int_tostr (int n) s =
      Some (\<lparr> tb_mem = write_at (tb_mem s) p (?d @ [0]), tb_idx = (tb_idx s + 1) mod 16 \<rparr>, Some p)"
    "tb_idx s * 10 \<le> p" "p + length ?d = tb_idx s * 10 + 9"
    using int_tostr_digits [OF assms] by blast
  let ?m = "write_at (tb_mem s) p (?d @ [0])"
  have b: "p + length (?d @ [0]) \<le> length (tb_mem s)" using p(3) assms by simp
  have "drop p ?m = ?d @ 0 # drop (p + length ?d + 1) (tb_mem s)"
    using b by (simp add: write_at_def)
  moreover have "takeWhile (\<lambda>c. c \<noteq> 0) (?d @ 0 # r) = ?d" for r
    by (rule takeWhile_nonzero [OF dec_digits_nonzero])
  ultimately have "cstr ?m p = ?d" by (simp only: cstr_def)
  moreover have "length ?m = 160" using b assms(1) by simp
  moreover have "?m ! i = tb_mem s ! i" if "i < tb_idx s * 10 \<or> tb_idx s * 10 + 10 \<le> i" for i
    using that
  proof
    assume "i < tb_idx s * 10"
    then show ?thesis using p(2) b by (intro nth_write_at_before) auto
  next
    assume "tb_idx s * 10 + 10 \<le> i"
    then show ?thesis using b p(3) by (auto simp: write_at_def nth_append)
  qed
  ultimately show ?thesis using p(1) by auto
qed

theorem int_tostr_prints_witness:
  "\<exists>s' p. int_tostr (int 65535) tostr_bufs_init = Some (s', Some p) \<and>
    cstr (tb_mem s') p = dec_digits 65535"
  using int_tostr_prints [of tostr_bufs_init 65535] by (auto simp: tostr_bufs_init_def)

text \<open>
  \<open>u32_tostr\<close> passes the size of one character where \<open>u32toa\<close> expects the size of the buffer: the
  first digit is stored in front of the buffer.  While the rotating index is 0, as at the first
  call, that store is outside the static array for every number, so \<open>sbuf_putn\<close> has no
  defined result either.
\<close>

theorem u32_tostr_first_buffer_underflows:
  assumes "tb_idx s = 0"
  shows "u32_tostr val s = None \<and> sbuf_putn buf val s = None"
proof -
  have "u32_tostr val s = None"
    using assms
    by (cases "val = 0") (simp_all add: u32_tostr_def u32toa_def push_down_def u32toa_loop.simps [of val])
  then show ?thesis by (simp add: sbuf_putn_def)
qed

theorem u32_tostr_first_buffer_underflows_witness:
  "u32_tostr 7 tostr_bufs_init = None"
  using u32_tostr_first_buffer_underflows [of tostr_bufs_init 7] by (simp add: tostr_bufs_init_def)

section \<open>The command line\<close>

lemma find_opt_from_distinct:
  assumes "distinct (map opt_name os)" "k < length os"
  shows "find_opt_from i (opt_name (os ! k)) os = int (i + k)"
  using assms
proof (induction os arbitrary: i k)
  case (Cons opt os)
  show ?case
  proof (cases k)
    case (Suc j)
    then have "opt_name (os ! j) \<noteq> opt_name opt"
      using Cons.prems by (metis distinct.simps(2) length_Cons list.simps(9) length_map nth_map nth_mem Suc_less_eq)
    then show ?thesis using Suc Cons by simp
  qed simp
qed simp

lemma find_opt_nth:
  "distinct (map opt_name os) \<Longrightarrow> k < length os \<Longrightarrow> find_opt (opt_name (os ! k)) os = int k"
  by (simp add: find_opt_def find_opt_from_distinct)

lemma cmd_argv_next_progress:
  assumes "cmd_argv_next parse = (rc, parse')" "0 \<le> rc"
  shows "argv parse' = argv parse \<and> opts parse' = opts parse \<and> argv_idx parse < argv_idx parse' \<and>
    argv_idx parse' \<le> length (argv parse')"
  using assms
  by (auto simp: cmd_argv_next_def Let_def OPT_EOF_def OPT_UNSUPP_def OPT_MISSVAL_def split: if_splits)

text \<open>
  The loop \<open>while ((rc = cmd_argv_next(&parser)) >= 0)\<close> over the options in \<open>main\<close>, with the codes and the
  values that its body sees, and the code it ends with.
\<close>

function cmd_argv_all :: "cmd_argv \<Rightarrow> (int \<times> bytes option) list \<times> int" where
  "cmd_argv_all parse =
    (case cmd_argv_next parse of (rc, parse') \<Rightarrow>
       if rc < 0 then ([], rc)
       else case cmd_argv_all parse' of (l, e) \<Rightarrow> ((rc, arg_value parse') # l, e))"
  by pat_completeness auto
termination
proof (relation "measure (\<lambda>p. length (argv p) - argv_idx p)", goal_cases)
  case (2 parse rc parse')
  then show ?case using cmd_argv_next_progress [of parse rc parse'] by auto
qed simp

declare cmd_argv_all.simps [simp del]

text \<open>An option of the table with its value, as the user types it.\<close>

fun typed :: "cmd_opt list \<Rightarrow> nat \<times> bytes option \<Rightarrow> bytes list" where
  "typed os (k, v) = opt_name (os ! k) # (case v of None \<Rightarrow> [] | Some x \<Rightarrow> [x])"

fun typed_ok :: "cmd_opt list \<Rightarrow> nat \<times> bytes option \<Rightarrow> bool" where
  "typed_ok os (k, v) \<longleftrightarrow> k < length os \<and> 0 \<le> opt_code (os ! k) \<and>
    (has_arg (os ! k) = 0 \<longleftrightarrow> v = None) \<and>
    (case v of None \<Rightarrow> True | Some x \<Rightarrow> x = [] \<or> hd x \<noteq> of_char CHR ''-'')"

fun typed_code :: "cmd_opt list \<Rightarrow> nat \<times> bytes option \<Rightarrow> int \<times> bytes option" where
  "typed_code os (k, v) = (if opt_code (os ! k) \<noteq> 0 then opt_code (os ! k) else int k, v)"

lemma cmd_argv_all_typed:
  assumes "distinct (map opt_name (opts parse))" "\<forall>u \<in> set us. typed_ok (opts parse) u"
    and "drop (argv_idx parse) (argv parse) = concat (map (typed (opts parse)) us)" "argv_idx parse \<noteq> 0"
  shows "cmd_argv_all parse = (map (typed_code (opts parse)) us, OPT_EOF)"
  using assms
proof (induction us arbitrary: parse)
  case Nil
  then show ?case by (subst cmd_argv_all.simps) (simp add: cmd_argv_next_def OPT_EOF_def)
next
  case (Cons u us)
  obtain k v where u: "u = (k, v)" by fastforce
  let ?i = "argv_idx parse" and ?os = "opts parse"
  have k: "k < length ?os" "0 \<le> opt_code (?os ! k)" using Cons.prems(2) u by auto
  have d: "drop ?i (argv parse) =
      opt_name (?os ! k) # (case v of None \<Rightarrow> [] | Some x \<Rightarrow> [x]) @ concat (map (typed ?os) us)"
    using Cons.prems(3) u by simp
  then have i: "?i < length (argv parse)" "argv parse ! ?i = opt_name (?os ! k)"
    by (metis drop_all list.distinct(1) not_le, metis d hd_drop_conv_nth list.sel(1) drop_all list.distinct(1) not_le)
  have d1: "drop (Suc ?i) (argv parse) =
      (case v of None \<Rightarrow> [] | Some x \<Rightarrow> [x]) @ concat (map (typed ?os) us)"
    using d by (metis drop_Suc list.sel(3) tl_drop)
  have f: "find_opt (argv parse ! ?i) ?os = int k" using find_opt_nth k Cons.prems(1) i by simp
  obtain parse' where n: "cmd_argv_next parse = (fst (typed_code ?os u), parse')"
    "opts parse' = ?os" "arg_value parse' = v" "argv_idx parse' \<noteq> 0"
    "drop (argv_idx parse') (argv parse') = concat (map (typed ?os) us)"
  proof (cases v)
    case None
    then show ?thesis using that i f k Cons.prems u d1
      by (simp add: cmd_argv_next_def Let_def)
  next
    case (Some x)
    then have x: "Suc ?i < length (argv parse)" "argv parse ! Suc ?i = x"
      using d1 by (metis append_Cons drop_all list.distinct(1) not_le option.simps(5),
        metis append_Cons d1 hd_drop_conv_nth list.sel(1) drop_all list.distinct(1) not_le option.simps(5))
    have d2: "drop (Suc (Suc ?i)) (argv parse) = concat (map (typed ?os) us)"
      using d1 Some by (metis append_Cons append_Nil drop_Suc list.sel(3) option.simps(5) tl_drop)
    show ?thesis using that i f k Cons.prems u x d2 Some
      by (auto simp: cmd_argv_next_def Let_def)
  qed
  have "cmd_argv_all parse' = (map (typed_code ?os) us, OPT_EOF)"
    using Cons.IH [of parse'] n Cons.prems by simp
  then show ?case using n k u
    by (subst cmd_argv_all.simps) (auto simp: split: if_splits)
qed

text \<open>
  C28. Reading a command line with \<open>cmd_argv_next\<close> gives back the options it was typed with: for a
  table of options with distinct names and codes that are not negative, an argument vector that
  consists of the program name and any sequence of options, each followed by its value when the
  table says it has one, yields the codes (the index in the table when the code is 0) and the
  values in order, and ends with \<open>OPT_EOF\<close>.
\<close>

theorem cmd_argv_reads_typed:
  assumes "distinct (map opt_name os)" "\<forall>u \<in> set us. typed_ok os u"
  shows "cmd_argv_all \<lparr> argv = prog # concat (map (typed os) us), opts = os, argv_idx = 0,
      opt_idx = 0, arg_name = None, arg_value = None \<rparr> = (map (typed_code os) us, OPT_EOF)"
    (is "cmd_argv_all ?p = _")
proof -
  have "cmd_argv_next ?p = cmd_argv_next (?p\<lparr> argv_idx := 1 \<rparr>)"
    by (simp add: cmd_argv_next_def)
  then have "cmd_argv_all ?p = cmd_argv_all (?p\<lparr> argv_idx := 1 \<rparr>)"
    by (simp only: cmd_argv_all.simps [of ?p] cmd_argv_all.simps [of "?p\<lparr> argv_idx := 1 \<rparr>"])
  also have "\<dots> = (map (typed_code os) us, OPT_EOF)"
    using cmd_argv_all_typed [of "?p\<lparr> argv_idx := 1 \<rparr>" us] assms by simp
  finally show ?thesis .
qed

theorem cmd_argv_reads_typed_witness:
  "cmd_argv_all \<lparr> argv = [ascii ''server'', ascii ''--port'', ascii ''80'', ascii ''--v''],
      opts = [\<lparr> opt_name = ascii ''--v'', has_arg = 0, opt_code = 0 \<rparr>,
        \<lparr> opt_name = ascii ''--port'', has_arg = 1, opt_code = 112 \<rparr>],
      argv_idx = 0, opt_idx = 0, arg_name = None, arg_value = None \<rparr> =
    ([(112, Some (ascii ''80'')), (0, None)], OPT_EOF)"
  using cmd_argv_reads_typed [of "[\<lparr> opt_name = ascii ''--v'', has_arg = 0, opt_code = 0 \<rparr>,
      \<lparr> opt_name = ascii ''--port'', has_arg = 1, opt_code = 112 \<rparr>]"
      "[(1, Some (ascii ''80'')), (0, None)]" "ascii ''server''"]
  by simp

end
