(* ===== verification/Inet.thy ===== *)
theory Inet
  imports Strings
begin

text \<open>
  The address conversions of \<open>src/src/str_util.c\<close>: decoding and printing of IPv4 and IPv6
  addresses.  A decoder works on the bytes of the string and on the memory block its result
  goes to; \<open>None\<close> stands for a store outside that block or a read outside the string.  The lemmas
  show for which strings the decoders make such an access, that the printed form of an address
  reads back as the address, and where the embedded IPv4 notation goes wrong.
\<close>

section \<open>Model\<close>

text \<open>A store of some bytes at an index of the destination.\<close>

definition store :: "bytes \<Rightarrow> nat \<Rightarrow> bytes \<Rightarrow> bytes option" where
  "store dst i bs = (if i + length bs \<le> length dst then Some (write_at dst i bs) else None)"

abbreviation dot :: u8 where "dot \<equiv> 46"
abbreviation colon :: u8 where "colon \<equiv> 58"

subsection \<open>IPv4\<close>

definition ip4_end :: "nat \<Rightarrow> bytes \<Rightarrow> nat \<Rightarrow> nat \<Rightarrow> nat \<Rightarrow> nat \<Rightarrow> (nat \<times> bytes) option" where
  "ip4_end pos dst dp num_digit num_dot acc =
    (if num_dot \<noteq> 3 \<or> num_digit = 0 then Some (0, dst)
     else do { dst \<leftarrow> store dst dp [of_nat acc]; Some (pos, dst) })"

text \<open>
  \<open>pos\<close> is \<open>str_ptr - str\<close>; the accumulator stays below 2560, so that a natural number stands for
  the \<open>uint32_t\<close>.  The result \<open>-1\<close> is the largest \<open>size_t\<close>.
\<close>

fun ip4_loop :: "bytes \<Rightarrow> nat \<Rightarrow> bytes \<Rightarrow> nat \<Rightarrow> nat \<Rightarrow> nat \<Rightarrow> nat \<Rightarrow> (nat \<times> bytes) option" where
  "ip4_loop [] pos dst dp num_digit num_dot acc = ip4_end pos dst dp num_digit num_dot acc"
| "ip4_loop (ch # str) pos dst dp num_digit num_dot acc =
    (if is_numeral ch then
       if num_digit + 1 > 3 then Some (2 ^ 64 - 1, dst)
       else
         let acc = acc * 8 + acc * 2 + (unat ch - 48)
         in if acc > 255 then Some (0, dst)
            else ip4_loop str (pos + 1) dst dp (num_digit + 1) num_dot acc
     else if ch = dot then
       if num_digit = 0 \<or> num_dot \<ge> 3 then Some (0, dst)
       else do {
         dst \<leftarrow> store dst dp [of_nat acc];
         ip4_loop str (pos + 1) dst (dp + 1) 0 (num_dot + 1) 0
       }
     else ip4_end (pos + 1) dst dp num_digit num_dot acc)"

definition ip4_str_decode :: "bytes \<Rightarrow> bytes \<Rightarrow> nat \<Rightarrow> (nat \<times> bytes) option" where
  "ip4_str_decode str dst dp = ip4_loop str 0 dst dp 0 0 0"

definition IP4_ADDR_STRLEN :: nat where "IP4_ADDR_STRLEN = 16"
definition IP6_ADDR_STRLEN :: nat where "IP6_ADDR_STRLEN = 46"

text \<open>The string is stored from index \<open>wptr\<close> of \<open>str\<close> on; \<open>len\<close> is the room there.\<close>

definition ip4_str_encode :: "bytes \<Rightarrow> bytes \<Rightarrow> nat \<Rightarrow> nat \<Rightarrow> nat \<times> bytes" where
  "ip4_str_encode addr str wptr len =
    (if len < IP4_ADDR_STRLEN then (0, str)
     else
       let text = uint8_toa (addr ! 0) @ [dot] @ uint8_toa (addr ! 1) @ [dot] @
           uint8_toa (addr ! 2) @ [dot] @ uint8_toa (addr ! 3)
       in (length text, write_at str wptr (text @ [0])))"

subsection \<open>IPv6\<close>

definition is_hex :: "u8 \<Rightarrow> bool" where
  "is_hex ch \<longleftrightarrow> is_numeral ch \<or> (65 \<le> ch \<and> ch \<le> 70) \<or> (97 \<le> ch \<and> ch \<le> 102)"

text \<open>The code after the loop: the last segment and the gap that \<open>::\<close> stands for.\<close>

definition ip6_end :: "nat \<Rightarrow> bytes \<Rightarrow> nat \<Rightarrow> nat option \<Rightarrow> nat \<Rightarrow> nat \<Rightarrow> u32 \<Rightarrow> (nat \<times> bytes) option" where
  "ip6_end pos dst dp zero_ptr num_hex num_seg acc = do {
    (dst, dp, num_seg) \<leftarrow>
      (if num_hex \<noteq> 0 then do {
         dst \<leftarrow> store dst dp (enc_u16 (ucast acc));
         Some (dst, dp + 2, num_seg + 1)
       }
       else Some (dst, dp, num_seg));
    (dst, num_seg) \<leftarrow>
      (case zero_ptr of
         None \<Rightarrow> Some (dst, num_seg)
       | Some zp \<Rightarrow> do {
           let zero_move = dp - zp;
           let zero_size = sz_sub 16 dp;
           dst \<leftarrow> store dst (sz_sub 16 zero_move) (segment dst zp (zp + zero_move));
           dst \<leftarrow> store dst zp (replicate zero_size 0);
           Some (dst, 8)
         });
    Some (if num_seg \<noteq> 8 then 0 else pos, dst)
  }"

text \<open>
  \<open>str\<close> is the rest of the string at \<open>str_ptr\<close> and \<open>pos\<close> the offset of \<open>str_ptr\<close>; \<open>seg\<close> and
  \<open>seg_pos\<close> are the same for \<open>seg_ptr\<close>.  After an embedded IPv4 address the loop is to end because
  \<open>str_end\<close> is set to \<open>str\<close>; but when \<open>ip4_str_decode\<close> returns -1 at the start of the string, \<open>str_ptr\<close>
  is one byte before \<open>str\<close>, the loop goes on and that byte is read.
\<close>

fun ip6_loop :: "bytes \<Rightarrow> nat \<Rightarrow> bytes \<Rightarrow> nat \<Rightarrow> bytes \<Rightarrow> nat \<Rightarrow> nat option \<Rightarrow> nat \<Rightarrow> nat \<Rightarrow> u32 \<Rightarrow>
    (nat \<times> bytes) option" where
  "ip6_loop [] pos seg seg_pos dst dp zero_ptr num_hex num_seg acc =
    ip6_end pos dst dp zero_ptr num_hex num_seg acc"
| "ip6_loop (ch # str) pos seg seg_pos dst dp zero_ptr num_hex num_seg acc =
    (if is_hex ch then
       if num_hex + 1 > 4 then Some (0, dst)
       else ip6_loop str (pos + 1) seg seg_pos dst dp zero_ptr (num_hex + 1) num_seg
         (push_bit 4 acc OR ucast (hex_to_nibble ch))
     else if ch = colon then
       if num_hex \<noteq> 0 \<and> num_seg \<ge> 7 then Some (0, dst)
       else do {
         (dst, dp) \<leftarrow>
           (if num_hex \<noteq> 0 then do { dst \<leftarrow> store dst dp (enc_u16 (ucast acc)); Some (dst, dp + 2) }
            else Some (dst, dp));
         (case str of
            c # str' \<Rightarrow>
              if c = colon then
                if zero_ptr \<noteq> None then Some (0, dst)
                else ip6_loop str' (pos + 2) (drop 1 str') (pos + 3) dst dp (Some dp) 0 (num_seg + 1) 0
              else ip6_loop str (pos + 1) (drop 1 str) (pos + 2) dst dp zero_ptr 0 (num_seg + 1) 0
          | [] \<Rightarrow> ip6_loop str (pos + 1) (drop 1 str) (pos + 2) dst dp zero_ptr 0 (num_seg + 1) 0)
       }
     else if ch = dot then
       if num_seg > 6 then Some (0, dst)
       else do {
         (n, dst) \<leftarrow> ip4_str_decode seg dst dp;
         if n = 0 then Some (0, dst)
         else if n = 2 ^ 64 - 1 \<and> seg_pos = 0 then None
         else ip6_end (sz_add seg_pos n) dst (dp + 4) zero_ptr 0 (num_seg + 2) acc
       }
     else ip6_end (pos + 1) dst dp zero_ptr num_hex num_seg acc)"

definition ip6_str_decode :: "bytes \<Rightarrow> bytes \<Rightarrow> (nat \<times> bytes) option" where
  "ip6_str_decode str dst = ip6_loop str 0 str 0 dst 0 None 0 0 0"

text \<open>
  The longest run of zero groups: \<open>zero_pos\<close>/\<open>zero_len\<close> the best so far, \<open>cur_pos\<close>/\<open>cur_len\<close> the
  run that ends here, \<open>None\<close> for the position \<open>-1\<close>.
\<close>

function zero_run :: "bytes \<Rightarrow> nat \<Rightarrow> nat option \<Rightarrow> nat \<Rightarrow> nat option \<Rightarrow> nat \<Rightarrow> nat option \<times> nat" where
  "zero_run addr i zero_pos zero_len cur_pos cur_len =
    (if i \<ge> 16 then (if cur_len > zero_len then (cur_pos, cur_len) else (zero_pos, zero_len))
     else if dec_u16 addr i = 0 then
       zero_run addr (i + 2) zero_pos zero_len (if cur_pos = None then Some i else cur_pos) (cur_len + 2)
     else if cur_len > zero_len then zero_run addr (i + 2) cur_pos cur_len None 0
     else zero_run addr (i + 2) zero_pos zero_len None 0)"
  by pat_completeness auto
termination by (relation "measure (\<lambda>(_, i, _). 16 - i)") auto

function ip6_groups :: "bytes \<Rightarrow> nat option \<Rightarrow> nat \<Rightarrow> nat \<Rightarrow> nat \<Rightarrow> bytes" where
  "ip6_groups addr zero_pos zero_len addr_len i =
    (if i \<ge> addr_len then []
     else if zero_pos = Some i then
       [colon, colon] @
       (if i + zero_len \<ge> 16 then []
        else uint16_toax (dec_u16 addr (i + zero_len)) @
          ip6_groups addr zero_pos zero_len addr_len (i + zero_len + 2))
     else
       (if i \<noteq> 0 then [colon] else []) @ uint16_toax (dec_u16 addr i) @
       ip6_groups addr zero_pos zero_len addr_len (i + 2))"
  by pat_completeness auto
termination by (relation "measure (\<lambda>(_, _, _, addr_len, i). addr_len - i)") auto

definition ip6_str_encode :: "bytes \<Rightarrow> nat \<Rightarrow> bytes \<Rightarrow> nat \<Rightarrow> nat \<times> bytes" where
  "ip6_str_encode addr flags str len =
    (let need_len = (if bit flags 0 then IP6_ADDR_STRLEN + 2 else IP6_ADDR_STRLEN)
     in if len < need_len then (0, str)
     else
       let (zero_pos, zero_len) = zero_run addr 0 None 0 None 0;
           zero_pos = (if zero_len \<le> 2 then None else zero_pos);
           is_ip4 = (\<not> bit flags 1 \<and> zero_pos = Some 0 \<and>
             (zero_len = 10 \<and> addr ! 10 = 0xff \<and> addr ! 11 = 0xff \<or> zero_len = 12))
       in if is_ip4 \<and> bit flags 2 then ip4_str_encode (drop 12 addr) str 0 len
       else
         let addr_len = (if is_ip4 then 12 else 16);
             text = (if bit flags 0 then [91] else []) @ ip6_groups addr zero_pos zero_len addr_len 0 @
               (if addr_len = 12 \<and> zero_len = 10 then [colon] else []);
             str = write_at str 0 text;
             (n, str) = (if addr_len = 12 then ip4_str_encode (drop 12 addr) str (length text) (len - length text)
               else (0, str));
             wptr = length text + n;
             str = (if bit flags 0 then write_at str wptr [93] else str);
             wptr = (if bit flags 0 then wptr + 1 else wptr)
         in (wptr, write_at str wptr [0]))"

section \<open>IPv4: the printed address reads back\<close>

lemma store_append:
  "length xs = i \<Longrightarrow> length bs \<le> length ys \<Longrightarrow> store (xs @ ys) i bs = Some (xs @ bs @ drop (length bs) ys)"
  by (simp add: store_def write_at_def)

lemma unat_digit: "d < 10 \<Longrightarrow> unat (of_nat d + 48 :: u8) - 48 = d"
  using less_16_cases [of d] by auto

lemma ip4_loop_digit:
  "d < 10 \<Longrightarrow> num_digit < 3 \<Longrightarrow> acc * 10 + d \<le> 255 \<Longrightarrow>
   ip4_loop ((of_nat d + 48) # str) pos dst dp num_digit num_dot acc =
   ip4_loop str (pos + 1) dst dp (num_digit + 1) num_dot (acc * 10 + d)"
  by (simp add: is_numeral_digit unat_digit Let_def algebra_simps)

lemma length_dec_digits_byte: "n < 256 \<Longrightarrow> length (dec_digits n) \<le> 3"
  by (subst dec_digits.simps, subst dec_digits.simps, subst dec_digits.simps) auto

lemma ip4_loop_number:
  assumes "n \<le> 255"
  shows "ip4_loop (dec_digits n @ str) pos dst dp 0 num_dot 0 =
    ip4_loop str (pos + length (dec_digits n)) dst dp (length (dec_digits n)) num_dot n"
  using assms
proof (induction n arbitrary: str rule: less_induct)
  case (less n)
  show ?case
  proof (cases "n < 10")
    case True
    then show ?thesis
      using ip4_loop_digit [of n 0 0] by (simp add: dec_digits_lt10 del: ip4_loop.simps)
  next
    case False
    have len: "length (dec_digits (n div 10)) < 3"
      using length_dec_digits_byte [of n] less.prems False by (simp add: dec_digits_step)
    show ?thesis
      using less.IH [of "n div 10"] ip4_loop_digit [of "n mod 10" _ "n div 10"] len less.prems False
      by (simp add: dec_digits_step del: ip4_loop.simps)
  qed
qed

lemma store_one: "i < length dst \<Longrightarrow> store dst i [b] = Some (dst[i := b])"
  by (simp add: store_def write_at_def upd_conv_take_nth_drop)

lemma ip4_loop_dot:
  "num_digit \<noteq> 0 \<Longrightarrow> num_dot < 3 \<Longrightarrow> dp < length dst \<Longrightarrow>
   ip4_loop (dot # str) pos dst dp num_digit num_dot acc =
   ip4_loop str (pos + 1) (dst[dp := of_nat acc]) (dp + 1) 0 (num_dot + 1) 0"
  by (simp add: is_numeral_def store_one)

definition ip4_text :: "bytes \<Rightarrow> bytes" where
  "ip4_text addr = uint8_toa (addr ! 0) @ [dot] @ uint8_toa (addr ! 1) @ [dot] @
    uint8_toa (addr ! 2) @ [dot] @ uint8_toa (addr ! 3)"

lemma list4: "length addr = 4 \<Longrightarrow> [addr ! 0, addr ! 1, addr ! 2, addr ! 3] = addr"
  by (auto simp: numeral_eq_Suc length_Suc_conv)

lemma ip4_str_decode_text:
  assumes "length addr = 4" "length xs = dp" "length ys \<ge> 4"
  shows "ip4_str_decode (ip4_text addr) (xs @ ys) dp = Some (length (ip4_text addr), xs @ addr @ drop 4 ys)"
proof -
  obtain a b c d zs where y: "ys = a # b # c # d # zs"
    using assms(3) by (metis Suc_le_length_iff numeral_eq_Suc pred_numeral_simps(3) eval_nat_numeral(2)
        semiring_norm(26,27))
  have n: "unat (addr ! i) \<le> 255" for i
  proof -
    have "unat (addr ! i) < 2 ^ LENGTH(8)" by (rule unsigned_less)
    then show ?thesis by simp
  qed
  have "ip4_str_decode (ip4_text addr) (xs @ ys) dp =
      Some (length (ip4_text addr), xs @ [addr ! 0, addr ! 1, addr ! 2, addr ! 3] @ drop 4 ys)"
    using assms(2)
    by (simp add: ip4_str_decode_def ip4_text_def uint8_toa_eq ip4_loop_number ip4_loop_number [where str = "[]", simplified] n ip4_loop_dot y
        ip4_end_def store_one list_update_append del: ip4_loop.simps(2))
  then show ?thesis by (simp only: list4 [OF assms(1)])
qed

lemma length_ip4_text: "length (ip4_text addr) \<le> 15"
proof -
  have "length (uint8_toa b) \<le> 3" for b
    by (simp add: uint8_toa_def Let_def)
  from this [of "addr ! 0"] this [of "addr ! 1"] this [of "addr ! 2"] this [of "addr ! 3"]
  show ?thesis by (simp add: ip4_text_def)
qed

lemma ip4_str_encode_eq:
  "IP4_ADDR_STRLEN \<le> len \<Longrightarrow>
   ip4_str_encode addr str wptr len = (length (ip4_text addr), write_at str wptr (ip4_text addr @ [0]))"
  by (simp add: ip4_str_encode_def ip4_text_def Let_def)

text \<open>
  C26. An IPv4 address printed by \<open>ip4_str_encode\<close> into any buffer of at least \<open>IP4_ADDR_STRLEN\<close>
  bytes fits with its terminator, and \<open>ip4_str_decode\<close> of the printed characters consumes all of
  them and yields the four bytes of the address.
\<close>

theorem ip4_print_read:
  assumes "length addr = 4" "length dst = 4" "IP4_ADDR_STRLEN \<le> length str"
    and "ip4_str_encode addr str 0 (length str) = (n, str')"
  shows "n < IP4_ADDR_STRLEN \<and> length str' = length str \<and> str' ! n = 0 \<and>
    ip4_str_decode (take n str') dst 0 = Some (n, addr)"
proof -
  let ?t = "ip4_text addr"
  have e: "n = length ?t" "str' = write_at str 0 (?t @ [0])"
    using assms(3,4) by (simp_all add: ip4_str_encode_eq)
  have l: "length ?t < IP4_ADDR_STRLEN" using length_ip4_text [of addr] by (simp add: IP4_ADDR_STRLEN_def)
  have "take n str' = ?t" "str' ! n = 0" using e by (simp_all add: write_at_def nth_append)
  moreover have "length str' = length str" using e l assms(3) by (simp add: write_at_def)
  moreover have "ip4_str_decode ?t dst 0 = Some (length ?t, addr)"
    using ip4_str_decode_text [of addr "[]" 0 dst] assms(1,2) by simp
  ultimately show ?thesis using e l by simp
qed

theorem ip4_print_read_witness:
  "ip4_str_decode (ascii ''10.0.0.255'') [7, 7, 7, 7] 0 = Some (10, [10, 0, 0, 255])"
proof -
  let ?z = "[0,0,0,0,0,0,0,0,0,0,0,0,0,0,0,0]"
  have e: "ip4_str_encode [10, 0, 0, 255] ?z 0 (length ?z) =
      (10, ascii ''10.0.0.255'' @ [0,0,0,0,0,0])"
    by (simp add: ip4_str_encode_def IP4_ADDR_STRLEN_def uint8_toa_eq dec_digits.simps write_at_def)
  then show ?thesis
    using ip4_print_read [of "[10, 0, 0, 255]" "[7, 7, 7, 7]" ?z 10
        "ascii ''10.0.0.255'' @ [0,0,0,0,0,0]"]
    by (simp add: IP4_ADDR_STRLEN_def)
qed

section \<open>The decoders stay inside their destination\<close>

lemma store_length: "store dst i bs = Some dst' \<Longrightarrow> length dst' = length dst"
  by (auto simp: store_def split: if_splits)

lemma store_None: "store dst i bs = None \<longleftrightarrow> length dst < i + length bs"
  by (auto simp: store_def)

lemma ip4_loop_safe:
  assumes "num_dot \<le> 3" "dp + 4 - num_dot \<le> length dst" "num_dot \<le> dp"
  shows "\<exists>n dst'. ip4_loop str pos dst dp num_digit num_dot acc = Some (n, dst') \<and>
    length dst' = length dst \<and> (n \<le> pos + length str \<or> n = 2 ^ 64 - 1)"
  using assms
proof (induction str pos dst dp num_digit num_dot acc rule: ip4_loop.induct)
  case (1 pos dst dp num_digit num_dot acc)
  then show ?case by (auto simp: ip4_end_def store_one)
next
  case (2 ch str pos dst dp num_digit num_dot acc)
  let ?acc = "acc * 8 + acc * 2 + (unat ch - 48)"
  consider (digit) "is_numeral ch" "num_digit < 3" "?acc \<le> 255"
    | (dot) "\<not> is_numeral ch" "ch = dot" "num_digit \<noteq> 0" "num_dot < 3"
    | (stop) "\<not> is_numeral ch" "ch \<noteq> dot"
    | (refused) "is_numeral ch \<and> (num_digit \<ge> 3 \<or> ?acc > 255) \<or>
        \<not> is_numeral ch \<and> ch = dot \<and> (num_digit = 0 \<or> num_dot \<ge> 3)"
    by linarith
  then show ?case
  proof cases
    case digit
    then have "\<exists>n dst'. ip4_loop str (pos + 1) dst dp (num_digit + 1) num_dot ?acc = Some (n, dst') \<and>
        length dst' = length dst \<and> (n \<le> pos + 1 + length str \<or> n = 2 ^ 64 - 1)"
      by (intro "2.IH"(1)) (use "2.prems" in auto)
    then show ?thesis using digit by (auto simp: Let_def)
  next
    case dot
    then have "dp < length dst" using "2.prems" by simp
    then have st: "store dst dp [of_nat acc] = Some (dst[dp := of_nat acc])" by (rule store_one)
    have "\<exists>n dst'. ip4_loop str (pos + 1) (dst[dp := of_nat acc]) (dp + 1) 0 (num_dot + 1) 0 = Some (n, dst') \<and>
        length dst' = length (dst[dp := of_nat acc]) \<and> (n \<le> pos + 1 + length str \<or> n = 2 ^ 64 - 1)"
      by (intro "2.IH"(2)) (use dot st "2.prems" in auto)
    then show ?thesis using dot st by (auto simp: Let_def)
  next
    case stop
    then show ?thesis using "2.prems" by (auto simp: ip4_end_def store_one)
  next
    case refused
    then show ?thesis by (auto simp: Let_def)
  qed
qed

lemma ip4_str_decode_safe:
  "dp + 4 \<le> length dst \<Longrightarrow>
   \<exists>n dst'. ip4_str_decode str dst dp = Some (n, dst') \<and> length dst' = length dst \<and>
     (n \<le> length str \<or> n = 2 ^ 64 - 1)"
  unfolding ip4_str_decode_def using ip4_loop_safe [of 0 dp dst str 0 0 0] by simp

text \<open>The value that is returned does not depend on where the address goes.\<close>

lemma ip4_loop_value:
  assumes "num_dot \<le> 3" "dp + 4 - num_dot \<le> length dst" "num_dot \<le> dp" "dp' + 4 - num_dot \<le> length dst'" "num_dot \<le> dp'"
  shows "map_option fst (ip4_loop str pos dst dp num_digit num_dot acc) = map_option fst (ip4_loop str pos dst' dp' num_digit num_dot acc)"
  using assms
proof (induction str arbitrary: pos dst dp dst' dp' num_digit num_dot acc)
  case Nil
  then show ?case by (simp add: ip4_end_def store_one)
next
  case (Cons ch str)
  have st: "store dst dp [v] = Some (dst[dp := v])" "store dst' dp' [v] = Some (dst'[dp' := v])" if "num_dot < 3" for v
    using Cons.prems that by (simp_all add: store_one)
  consider (digit) "is_numeral ch" | (dot) "\<not> is_numeral ch" "ch = dot" | (stop) "\<not> is_numeral ch" "ch \<noteq> dot" by blast
  then show ?case
  proof cases
    case digit
    then show ?thesis using Cons.IH [OF Cons.prems] by (simp add: Let_def)
  next
    case dot
    have "map_option fst (ip4_loop str (pos + 1) (dst[dp := v]) (dp + 1) 0 (num_dot + 1) 0) =
        map_option fst (ip4_loop str (pos + 1) (dst'[dp' := v]) (dp' + 1) 0 (num_dot + 1) 0)" if "num_dot < 3" for v
      by (rule Cons.IH) (use Cons.prems that in simp_all)
    then show ?thesis using dot st by (cases "num_digit = 0 \<or> num_dot \<ge> 3") simp_all
  next
    case stop
    then show ?thesis using Cons.prems by (simp add: ip4_end_def store_one)
  qed
qed

text \<open>\<open>ip4_str_decode\<close> refuses the string with -1, for a number of more than three digits.\<close>

definition overlong :: "bytes \<Rightarrow> bool" where
  "overlong str \<longleftrightarrow> map_option fst (ip4_str_decode str (replicate 4 0) 0) = Some (2 ^ 64 - 1)"

lemma overlong_iff:
  assumes "dp + 4 \<le> length dst" "ip4_str_decode str dst dp = Some (n, dst')"
  shows "overlong str \<longleftrightarrow> n = 2 ^ 64 - 1"
proof -
  have "map_option fst (ip4_str_decode str (replicate 4 0) 0) = map_option fst (ip4_str_decode str dst dp)"
    unfolding ip4_str_decode_def by (rule ip4_loop_value) (use assms(1) in simp_all)
  then show ?thesis unfolding overlong_def assms(2) by (simp only: option.map fst_conv option.inject)
qed

text \<open>A dot follows at most \<open>n\<close> hexadecimal digits.\<close>

fun hex_then_dot :: "nat \<Rightarrow> bytes \<Rightarrow> bool" where
  "hex_then_dot n [] \<longleftrightarrow> False"
| "hex_then_dot n (c # str) \<longleftrightarrow> c = dot \<or> n > 0 \<and> is_hex c \<and> hex_then_dot (n - 1) str"

lemma ip6_end_safe:
  assumes "length dst = 16" "dp \<le> 16" "num_hex \<noteq> 0 \<longrightarrow> dp \<le> 14"
    and "\<And>zp. zero_ptr = Some zp \<Longrightarrow> zp \<le> dp"
  shows "\<exists>n dst'. ip6_end pos dst dp zero_ptr num_hex num_seg acc = Some (n, dst') \<and> length dst' = 16"
proof -
  obtain dst1 dp1 seg1 where 1: "(if num_hex \<noteq> 0 then do {
         dst \<leftarrow> store dst dp (enc_u16 (ucast acc)); Some (dst, dp + 2, num_seg + 1) }
       else Some (dst, dp, num_seg)) = Some (dst1, dp1, seg1)" "length dst1 = 16" "dp1 \<le> 16" "dp \<le> dp1"
  proof (cases "num_hex = 0")
    case False
    then obtain d where "store dst dp (enc_u16 (ucast acc)) = Some d"
      using assms by (cases "store dst dp (enc_u16 (ucast acc))") (auto simp: store_None)
    then show ?thesis using that [of d "dp + 2" "num_seg + 1"] False assms store_length by simp
  qed (use that assms in simp)
  show ?thesis
  proof (cases zero_ptr)
    case None
    then show ?thesis using 1 by (simp add: ip6_end_def)
  next
    case (Some zp)
    have z: "zp \<le> dp1" using assms(4) Some 1 by fastforce
    have s: "sz_sub 16 (dp1 - zp) = 16 - (dp1 - zp)" "sz_sub 16 dp1 = 16 - dp1"
      using 1 by (simp_all add: sz_sub_nowrap)
    obtain dst2 where 2: "store dst1 (16 - (dp1 - zp)) (segment dst1 zp (zp + (dp1 - zp))) = Some dst2"
      using 1 z by (cases "store dst1 (16 - (dp1 - zp)) (segment dst1 zp (zp + (dp1 - zp)))")
        (auto simp: store_None)
    obtain dst3 where 3: "store dst2 zp (replicate (16 - dp1) 0) = Some dst3"
      using 1 z store_length [OF 2]
      by (cases "store dst2 zp (replicate (16 - dp1) 0)") (auto simp: store_None)
    show ?thesis
      using 1 2 3 s Some store_length [OF 2] store_length [OF 3] by (simp add: ip6_end_def Let_def)
  qed
qed

lemma is_hex_not_colon: "is_hex ch \<Longrightarrow> ch \<noteq> colon \<and> ch \<noteq> dot"
  by (auto simp: is_hex_def is_numeral_def)

lemma ip6_loop_safe:
  assumes "length dst = 16" "dp \<le> 2 * num_seg" "dp \<le> 14"
    and "\<And>zp. zero_ptr = Some zp \<Longrightarrow> zp \<le> dp"
    and "seg_pos = 0 \<longrightarrow> \<not> (overlong seg \<and> hex_then_dot (4 - num_hex) str)"
  shows "\<exists>n dst'. ip6_loop str pos seg seg_pos dst dp zero_ptr num_hex num_seg acc = Some (n, dst') \<and>
    length dst' = 16"
  using assms
proof (induction "length str" arbitrary: str pos seg seg_pos dst dp zero_ptr num_hex num_seg acc
    rule: less_induct)
  case less
  note zp = less.prems(4)
  show ?case
  proof (cases str)
    case Nil
    then show ?thesis using ip6_end_safe [of dst dp num_hex zero_ptr] less.prems by simp
  next
    case (Cons ch cs)
    consider (hex) "is_hex ch" | (colon) "ch = colon" | (dot) "ch = dot"
      | (stop) "\<not> is_hex ch" "ch \<noteq> colon" "ch \<noteq> dot" by blast
    then show ?thesis
    proof cases
      case hex
      show ?thesis
      proof (cases "num_hex < 4")
        case True
        have "\<exists>n dst'. ip6_loop cs (pos + 1) seg seg_pos dst dp zero_ptr (num_hex + 1) num_seg
            (push_bit 4 acc OR ucast (hex_to_nibble ch)) = Some (n, dst') \<and> length dst' = 16"
          by (rule less.hyps) (use Cons less.prems True hex in auto)
        then show ?thesis using True hex Cons by simp
      qed (use hex Cons less.prems in simp)
    next
      case colon
      then have nh: "\<not> is_hex ch" using is_hex_not_colon by blast
      show ?thesis
      proof (cases "num_hex \<noteq> 0 \<and> num_seg \<ge> 7")
        case True
        then show ?thesis using Cons colon nh less.prems by simp
      next
        case seg_ok: False
        obtain dst1 dp1 where 1: "(if num_hex \<noteq> 0
            then do { dst \<leftarrow> store dst dp (enc_u16 (ucast acc)); Some (dst, dp + 2) }
            else Some (dst, dp)) = Some (dst1, dp1)"
          "length dst1 = 16" "dp1 \<le> 2 * (num_seg + 1)" "dp1 \<le> 14" "dp \<le> dp1"
        proof (cases "num_hex = 0")
          case False
          then obtain d where "store dst dp (enc_u16 (ucast acc)) = Some d"
            using less.prems by (cases "store dst dp (enc_u16 (ucast acc))") (auto simp: store_None)
          then show ?thesis
            using that [of d "dp + 2"] False seg_ok less.prems store_length by simp
        qed (use that less.prems in simp)
        have one: "\<exists>n dst'. ip6_loop cs (pos + 1) (drop 1 cs) (pos + 2) dst1 dp1 zero_ptr 0 (num_seg + 1) 0 =
            Some (n, dst') \<and> length dst' = 16"
          by (rule less.hyps) (use Cons 1 zp in \<open>auto intro: le_trans\<close>)
        have two: "\<exists>n dst'. ip6_loop cs' (pos + 2) (drop 1 cs') (pos + 3) dst1 dp1 (Some dp1) 0 (num_seg + 1) 0 =
            Some (n, dst') \<and> length dst' = 16" if "cs = c # cs'" for c cs'
          by (rule less.hyps) (use Cons 1 that in auto)
        show ?thesis
          using Cons colon nh seg_ok 1(1,2) one two by (cases cs) (auto simp del: if_split_eq1)
      qed
    next
      case dot
      show ?thesis
      proof (cases "num_seg > 6")
        case False
        then obtain n dst1 where 1: "ip4_str_decode seg dst dp = Some (n, dst1)" "length dst1 = 16"
          using ip4_str_decode_safe [of dp dst seg] less.prems by auto
        have "seg_pos = 0 \<longrightarrow> n \<noteq> 2 ^ 64 - 1"
          using overlong_iff [OF _ 1(1)] less.prems False Cons dot by auto
        then show ?thesis
          using ip6_end_safe [of dst1 "dp + 4" 0 zero_ptr "sz_add seg_pos n" "num_seg + 2" acc]
            1 Cons dot False less.prems le_trans [OF zp]
          by (auto simp: is_hex_def is_numeral_def)
      qed (use dot Cons less.prems in \<open>simp add: is_hex_def is_numeral_def\<close>)
    next
      case stop
      then show ?thesis
        using ip6_end_safe [of dst dp num_hex zero_ptr "pos + 1"] Cons less.prems by simp
    qed
  qed
qed

lemma ip6_loop_before:
  assumes "overlong seg" "hex_then_dot (4 - num_hex) str" "num_hex \<le> 4" "num_seg \<le> 6" "dp + 4 \<le> length dst"
  shows "ip6_loop str pos seg 0 dst dp zero_ptr num_hex num_seg acc = None"
  using assms(2,3)
proof (induction str arbitrary: pos num_hex acc)
  case (Cons ch str)
  show ?case
  proof (cases "ch = dot")
    case True
    obtain n d where d: "ip4_str_decode seg dst dp = Some (n, d)" using ip4_str_decode_safe [OF assms(5)] by blast
    then have "n = 2 ^ 64 - 1" using overlong_iff [OF assms(5)] assms(1) by blast
    then show ?thesis using True d assms(4) by (simp add: is_hex_def is_numeral_def)
  next
    case False
    then have h: "is_hex ch" "hex_then_dot (4 - (num_hex + 1)) str" "num_hex + 1 \<le> 4" using Cons.prems by auto
    then show ?thesis using Cons.IH [OF h(2,3)] by simp
  qed
qed simp

text \<open>
  C27. Where the address readers access memory.  \<open>ip4_str_decode\<close> returns for every string, well-formed
  or not, and stores within the 4 bytes of its destination.  \<open>ip6_str_decode\<close> returns and stores within
  its 16 bytes for every string but those in which a dot follows at most four hexadecimal digits at
  the start and on which \<open>ip4_str_decode\<close> returns -1, as for \<open>1111.\<close>; on each of these it reads the byte
  before the string.
\<close>

theorem ip_str_decode_in_bounds:
  assumes "length dst6 = 16" "length dst4 = 4"
  shows "\<exists>n d4. ip4_str_decode str dst4 0 = Some (n, d4) \<and> length d4 = 4 \<and>
    (if n = 2 ^ 64 - 1 \<and> hex_then_dot 4 str then ip6_str_decode str dst6 = None
     else \<exists>m d6. ip6_str_decode str dst6 = Some (m, d6) \<and> length d6 = 16)"
proof -
  obtain n d4 where d: "ip4_str_decode str dst4 0 = Some (n, d4)" "length d4 = 4"
    using ip4_str_decode_safe [of 0 dst4 str] assms by auto
  have o: "overlong str \<longleftrightarrow> n = 2 ^ 64 - 1" using overlong_iff [OF _ d(1)] assms by simp
  show ?thesis
  proof (cases "overlong str \<and> hex_then_dot 4 str")
    case True
    then have "ip6_str_decode str dst6 = None"
      using ip6_loop_before [of str 0 str 0 0 dst6 0 None 0] assms by (simp add: ip6_str_decode_def)
    then show ?thesis using d o True by simp
  next
    case False
    then show ?thesis
      using ip6_loop_safe [of dst6 0 0 None 0 str 0 str 0 0] assms d o by (simp add: ip6_str_decode_def) blast
  qed
qed

theorem ip_str_decode_in_bounds_witness:
  "ip6_str_decode (ascii ''1111.'') (replicate 16 0) = None \<and>
   (\<exists>n dst'. ip6_str_decode (ascii ''1:2:3:4:5:6:7:8:9'') (replicate 16 0) = Some (n, dst') \<and> length dst' = 16)"
  using ip_str_decode_in_bounds [of "replicate 16 0" "replicate 4 0" "ascii ''1111.''"]
    ip_str_decode_in_bounds [of "replicate 16 0" "replicate 4 0" "ascii ''1:2:3:4:5:6:7:8:9''"]
  by (simp add: ip4_str_decode_def is_numeral_def is_hex_def ip4_end_def)

section \<open>IPv6: the printed address reads back\<close>

declare ip6_groups.simps [simp del] zero_run.simps [simp del]

lemma is_hex_table: "d < 16 \<Longrightarrow> is_hex (hex_table ! d)"
  by (drule less_16_cases) (auto simp: is_hex_def is_numeral_def hex_table_def)

lemma push_nibble:
  assumes "d < 16"
  shows "push_bit 4 (of_nat a :: u32) OR ucast (of_nat d :: u8) = of_nat (a * 16 + d)"
proof -
  have u: "ucast (of_nat d :: u8) = (of_nat d :: u32)" using less_16_cases [OF assms] by auto
  have t: "(of_nat d :: u32) = take_bit 4 (of_nat d)"
  proof -
    have "take_bit 4 d = d" using assms by (simp add: take_bit_eq_mod)
    then show ?thesis by (simp only: take_bit_of_nat)
  qed
  have "push_bit 4 (of_nat a :: u32) AND of_nat d = 0"
    by (subst t, rule bit_word_eqI) (auto simp: bit_simps)
  then have "push_bit 4 (of_nat a :: u32) OR of_nat d = push_bit 4 (of_nat a) + of_nat d"
    by (rule disjunctive_add_eq_or [symmetric])
  then show ?thesis unfolding u by (simp add: push_bit_eq_mult mult.commute)
qed

lemma length_hex_digits: "n < 65536 \<Longrightarrow> length (hex_digits n) \<le> 4"
  by (subst hex_digits.simps, subst hex_digits.simps, subst hex_digits.simps, subst hex_digits.simps) auto

lemma hex_digits_nonempty [simp]: "hex_digits n \<noteq> []"
  by (subst hex_digits.simps) simp

lemma ip6_loop_number:
  assumes "n < 65536"
  shows "ip6_loop (hex_digits n @ str) pos seg seg_pos dst dp zero_ptr 0 num_seg 0 =
    ip6_loop str (pos + length (hex_digits n)) seg seg_pos dst dp zero_ptr (length (hex_digits n)) num_seg (of_nat n)"
  using assms
proof (induction n arbitrary: str rule: less_induct)
  case (less n)
  show ?case
  proof (cases "n < 16")
    case True
    then show ?thesis
      using push_nibble [of n 0] by (simp add: hex_digits_lt16 is_hex_table hex_to_nibble_lower)
  next
    case False
    have len: "length (hex_digits (n div 16)) < 4"
      using length_hex_digits [of n] less.prems False by (simp add: hex_digits_step)
    have "n = n div 16 * 16 + n mod 16" by simp
    then have "push_bit 4 (of_nat (n div 16) :: u32) OR ucast (of_nat (n mod 16) :: u8) = of_nat n"
      using push_nibble [of "n mod 16" "n div 16"] by simp
    then show ?thesis
      using less.IH [of "n div 16"] len less.prems False
      by (simp add: hex_digits_step is_hex_table hex_to_nibble_lower)
  qed
qed

lemma ip6_loop_group:
  "ip6_loop (uint16_toax g @ str) pos seg seg_pos dst dp zero_ptr 0 num_seg 0 =
   ip6_loop str (pos + length (uint16_toax g)) seg seg_pos dst dp zero_ptr (length (uint16_toax g)) num_seg (ucast g)"
proof -
  have "unat g < 2 ^ LENGTH(16)" by (rule unsigned_less)
  then show ?thesis using ip6_loop_number [of "unat g"] by (simp add: uint16_toax_eq)
qed

lemma uint16_toax_Cons: obtains c cs where "uint16_toax g = c # cs" "is_hex c"
proof -
  have "is_hex (hd (hex_digits n))" for n
  proof (induction n rule: less_induct)
    case (less n)
    then show ?case by (cases "n < 16") (auto simp: hex_digits_lt16 hex_digits_step is_hex_table)
  qed
  then show ?thesis using that [of "hd (hex_digits (unat g))" "tl (hex_digits (unat g))"]
    by (simp add: uint16_toax_eq)
qed

lemma ucast_u16_u32_u16 [simp]: "(ucast (ucast (g :: u16) :: u32) :: u16) = g"
  by (rule bit_word_eqI) (auto simp: bit_simps)

text \<open>A colon that ends a group and is followed by another group.\<close>

lemma ip6_loop_next_group:
  assumes "num_hex \<noteq> 0" "num_seg < 7" "length xs = dp" "2 \<le> length ys"
  shows "ip6_loop (colon # uint16_toax g @ str) pos seg seg_pos (xs @ ys) dp zero_ptr num_hex num_seg (ucast h) =
    ip6_loop str (pos + 1 + length (uint16_toax g)) (drop 1 (uint16_toax g @ str)) (pos + 2)
      ((xs @ enc_u16 h) @ drop 2 ys) (dp + 2) zero_ptr (length (uint16_toax g)) (num_seg + 1) (ucast g)"
proof -
  obtain c cs where c: "uint16_toax g = c # cs" "is_hex c" by (rule uint16_toax_Cons)
  have "ip6_loop (colon # uint16_toax g @ str) pos seg seg_pos (xs @ ys) dp zero_ptr num_hex num_seg (ucast h) =
      ip6_loop (uint16_toax g @ str) (pos + 1) (drop 1 (uint16_toax g @ str)) (pos + 2)
        (xs @ enc_u16 h @ drop 2 ys) (dp + 2) zero_ptr 0 (num_seg + 1) 0"
    using assms c is_hex_not_colon [OF c(2)] store_append [of xs dp "enc_u16 h" ys]
    by (simp add: is_hex_def is_numeral_def)
  then show ?thesis by (simp add: ip6_loop_group)
qed

lemma drop_group:
  assumes "even i" "i < length addr" "length addr = 16"
  shows "drop i addr = enc_u16 (dec_u16 addr i) @ drop (i + 2) addr"
proof -
  have i: "i + 2 \<le> length addr" using assms by presburger
  then show ?thesis
    using enc_dec_u16 [OF i] segment_split [of i "i + 2" 16 addr] assms by (simp add: segment_def)
qed

lemma take_group:
  assumes "even i" "i < length addr" "length addr = 16"
  shows "take i addr @ enc_u16 (dec_u16 addr i) = take (i + 2) addr"
  using drop_group [OF assms] append_take_drop_id [of i addr] append_take_drop_id [of "i + 2" addr]
  by (metis append_assoc append_same_eq)

text \<open>The groups behind the gap, or all of them if there is none.\<close>

lemma ip6_loop_tail:
  assumes "even i" "0 < i" "i \<le> 16" "length addr = 16" "\<And>j. i \<le> j \<Longrightarrow> zero_pos \<noteq> Some j"
    and "num_hex \<noteq> 0" "length xs = dp" "length ys = 16 - dp" "dp + 18 - i \<le> 16" "num_seg + (16 - i) div 2 \<le> 7"
  shows "ip6_loop (ip6_groups addr zero_pos zero_len 16 i) pos seg seg_pos (xs @ ys) dp zero_ptr num_hex num_seg (ucast g) =
    ip6_end (pos + length (ip6_groups addr zero_pos zero_len 16 i))
      (xs @ enc_u16 g @ drop i addr @ drop (18 - i) ys) (dp + 18 - i) zero_ptr 0 (num_seg + 1 + (16 - i) div 2) 0"
  using assms
proof (induction "16 - i" arbitrary: i pos seg seg_pos xs ys dp num_hex num_seg g rule: less_induct)
  case less
  show ?case
  proof (cases "i = 16")
    case True
    then show ?thesis
      using less.prems store_append [of xs dp "enc_u16 g" ys]
      by (simp add: ip6_groups.simps ip6_end_def)
  next
    case False
    then have i: "i < 16" "i + 2 \<le> 16" using less.prems by (auto elim!: evenE)
    let ?h = "dec_u16 addr i" and ?r = "ip6_groups addr zero_pos zero_len 16 (i + 2)"
    have t: "ip6_groups addr zero_pos zero_len 16 i = colon # uint16_toax ?h @ ?r"
      using i less.prems by (subst ip6_groups.simps) simp
    have "ip6_loop (ip6_groups addr zero_pos zero_len 16 i) pos seg seg_pos (xs @ ys) dp zero_ptr num_hex num_seg (ucast g) =
        ip6_loop ?r (pos + 1 + length (uint16_toax ?h)) (drop 1 (uint16_toax ?h @ ?r)) (pos + 2)
        ((xs @ enc_u16 g) @ drop 2 ys) (dp + 2) zero_ptr (length (uint16_toax ?h)) (num_seg + 1) (ucast ?h)"
      unfolding t by (rule ip6_loop_next_group) (use less.prems i in auto)
    also have "\<dots> = ip6_end (pos + 1 + length (uint16_toax ?h) + length ?r)
        ((xs @ enc_u16 g) @ enc_u16 ?h @ drop (i + 2) addr @ drop (18 - (i + 2)) (drop 2 ys))
        (dp + 2 + 18 - (i + 2)) zero_ptr 0 (num_seg + 1 + 1 + (16 - (i + 2)) div 2) 0"
      by (rule less.hyps) (use less.prems i in \<open>auto simp: uint16_toax_eq\<close>)
    also have "pos + 1 + length (uint16_toax ?h) + length ?r = pos + length (ip6_groups addr zero_pos zero_len 16 i)"
      unfolding t by simp
    also have "num_seg + 1 + 1 + (16 - (i + 2)) div 2 = num_seg + 1 + (16 - i) div 2"
      using i by simp
    also have "dp + 2 + 18 - (i + 2) = dp + 18 - i" using i by simp
    also have "(xs @ enc_u16 g) @ enc_u16 ?h @ drop (i + 2) addr @ drop (18 - (i + 2)) (drop 2 ys) =
        xs @ enc_u16 g @ drop i addr @ drop (18 - i) ys"
    proof -
      have "drop i addr = enc_u16 ?h @ drop (i + 2) addr" by (rule drop_group) (use less.prems i in auto)
      moreover have "18 - (i + 2) + 2 = 18 - i" using i by simp
      then have "drop (18 - (i + 2)) (drop 2 ys) = drop (18 - i) ys" by (simp only: drop_drop)
      ultimately show ?thesis by (simp only: append_assoc)
    qed
    finally show ?thesis .
  qed
qed

lemma segment_middle: "length xs = i \<Longrightarrow> length ys = k \<Longrightarrow> segment (xs @ ys @ zs) i (i + k) = ys"
  by (simp add: segment_def)

text \<open>The fill of the gap: the groups read behind it move to the end.\<close>

lemma ip6_end_gap:
  assumes "length addr = 16" "z + zl \<le> 16" "\<And>k. z \<le> k \<Longrightarrow> k < z + zl \<Longrightarrow> addr ! k = 0" "length zs = zl"
  shows "ip6_end pos (take z addr @ drop (z + zl) addr @ zs) (16 - zl) (Some z) 0 num_seg acc = Some (pos, addr)"
proof -
  let ?p = "take z addr" and ?t = "drop (z + zl) addr"
  have l: "length ?p = z" "length ?t = 16 - zl - z" using assms by simp_all
  have d: "16 - zl - z = 16 - (z + zl)" "16 - (16 - zl - z) = z + zl" "16 - (16 - zl) = zl"
    using assms(2) by simp_all
  have s: "sz_sub 16 (16 - zl - z) = z + zl" "sz_sub 16 (16 - zl) = zl"
    using assms(2) by (simp_all add: sz_sub_nowrap d)
  have "segment (?p @ ?t @ zs) z (z + (16 - zl - z)) = ?t" by (rule segment_middle [OF l])
  moreover have "store (?p @ ?t @ zs) (z + zl) ?t = Some (take (z + zl) (?p @ ?t @ zs) @ ?t)"
    using l assms by (simp add: store_def write_at_def)
  moreover have "store (take (z + zl) (?p @ ?t @ zs) @ ?t) z (replicate zl 0) = Some (?p @ replicate zl 0 @ ?t)"
  proof -
    define w where "w = take (z + zl) (?p @ ?t @ zs)"
    have "length (?p @ ?t @ zs) = 16" using l assms by simp
    then have "length w = z + zl" using assms(2) by (simp only: w_def length_take)
    moreover have "take z w = ?p" using l by (simp add: w_def)
    ultimately have "store (w @ ?t) z (replicate zl 0) = Some (?p @ replicate zl 0 @ ?t)"
      by (simp add: store_def write_at_def)
    then show ?thesis unfolding w_def .
  qed
  moreover have "?p @ replicate zl 0 @ ?t = addr"
  proof (rule nth_equalityI)
    fix k assume "k < length (?p @ replicate zl 0 @ ?t)"
    then show "(?p @ replicate zl 0 @ ?t) ! k = addr ! k"
      using assms by (auto simp: nth_append)
  qed (use assms in simp)
  ultimately show ?thesis using s by (simp add: ip6_end_def Let_def)
qed

text \<open>The text from the gap on, with the groups before it already stored.\<close>

lemma ip6_loop_gap:
  assumes "length addr = 16" "even z" "even zl" "z + zl \<le> 16" "0 < zl"
    and zero: "\<And>k. z \<le> k \<Longrightarrow> k < z + zl \<Longrightarrow> addr ! k = 0"
    and "length ys = 16 - z" "2 * num_seg \<le> z + 2"
    and r: "r = (if z + zl \<ge> 16 then [] else uint16_toax (dec_u16 addr (z + zl)) @
      ip6_groups addr (Some z) zl 16 (z + zl + 2))"
  shows "ip6_loop r pos seg seg_pos (take z addr @ ys) z (Some z) 0 num_seg 0 = Some (pos + length r, addr)"
proof (cases "z + zl = 16")
  case True
  then have "16 - zl = z" "length ys = zl" using assms by simp_all
  then show ?thesis
    using ip6_end_gap [of addr z zl ys pos num_seg 0] assms True by (simp add: r)
next
  case False
  let ?i = "z + zl" and ?g = "dec_u16 addr (z + zl)" and ?n = "length (uint16_toax (dec_u16 addr (z + zl)))"
  have e: "even ?i" using assms by simp
  then have i: "?i + 2 \<le> 16" using False assms(4) by presburger
  have "ip6_loop r pos seg seg_pos (take z addr @ ys) z (Some z) 0 num_seg 0 =
      ip6_loop (ip6_groups addr (Some z) zl 16 (?i + 2)) (pos + ?n) seg seg_pos (take z addr @ ys) z (Some z) ?n num_seg (ucast ?g)"
    using False assms(4) by (simp add: r ip6_loop_group)
  also have "\<dots> = ip6_end (pos + ?n + length (ip6_groups addr (Some z) zl 16 (?i + 2)))
      (take z addr @ enc_u16 ?g @ drop (?i + 2) addr @ drop (18 - (?i + 2)) ys) (z + 18 - (?i + 2)) (Some z) 0
      (num_seg + 1 + (16 - (?i + 2)) div 2) 0"
    by (rule ip6_loop_tail) (use i e assms in \<open>auto simp: uint16_toax_eq\<close>)
  also have "enc_u16 ?g @ drop (?i + 2) addr @ drop (18 - (?i + 2)) ys = drop ?i addr @ drop (16 - ?i) ys"
    using drop_group [of ?i addr] i e assms by simp
  also have "z + 18 - (?i + 2) = 16 - zl" using i by simp
  also have "ip6_end (pos + ?n + length (ip6_groups addr (Some z) zl 16 (?i + 2)))
      (take z addr @ drop ?i addr @ drop (16 - ?i) ys) (16 - zl) (Some z) 0
      (num_seg + 1 + (16 - (?i + 2)) div 2) 0 = Some (pos + ?n + length (ip6_groups addr (Some z) zl 16 (?i + 2)), addr)"
    by (rule ip6_end_gap) (use assms i in auto)
  finally show ?thesis using False assms(4) by (simp add: r)
qed

lemma ip6_loop_colons:
  assumes "num_hex \<noteq> 0" "num_seg < 7" "length xs = dp" "2 \<le> length ys"
  shows "ip6_loop (colon # colon # r) pos seg seg_pos (xs @ ys) dp None num_hex num_seg (ucast h) =
    ip6_loop r (pos + 2) (drop 1 r) (pos + 3) ((xs @ enc_u16 h) @ drop 2 ys) (dp + 2) (Some (dp + 2)) 0 (num_seg + 1) 0"
  using assms store_append [of xs dp "enc_u16 h" ys] by (simp add: is_hex_def is_numeral_def)

lemma ip6_loop_first_colons:
  "ip6_loop (colon # colon # r) pos seg seg_pos dst 0 None 0 0 0 =
   ip6_loop r (pos + 2) (drop 1 r) (pos + 3) dst 0 (Some 0) 0 1 0"
  by (simp add: is_hex_def is_numeral_def)

text \<open>The groups before the gap.\<close>

lemma ip6_loop_head:
  assumes "length addr = 16" "even z" "even zl" "z + zl \<le> 16" "0 < zl"
    and zero: "\<And>k. z \<le> k \<Longrightarrow> k < z + zl \<Longrightarrow> addr ! k = 0"
    and "even i" "2 \<le> i" "i \<le> z" "num_hex \<noteq> 0" "length ys = 18 - i" "2 * num_seg = i - 2"
  shows "ip6_loop (ip6_groups addr (Some z) zl 16 i) pos seg seg_pos (take (i - 2) addr @ ys) (i - 2) None num_hex num_seg
      (ucast (dec_u16 addr (i - 2))) =
    Some (pos + length (ip6_groups addr (Some z) zl 16 i), addr)"
  using assms(7-12)
proof (induction "z - i" arbitrary: i pos seg seg_pos ys num_hex num_seg rule: less_induct)
  case less
  have d2: "i - 2 + 2 = i" using less.prems by simp
  have g: "take (i - 2) addr @ enc_u16 (dec_u16 addr (i - 2)) = take i addr"
    using take_group [of "i - 2" addr, unfolded d2] less.prems assms(1,4,5) by simp
  show ?case
  proof (cases "i = z")
    case True
    let ?r = "if z + zl \<ge> 16 then [] else uint16_toax (dec_u16 addr (z + zl)) @ ip6_groups addr (Some z) zl 16 (z + zl + 2)"
    have t: "ip6_groups addr (Some z) zl 16 i = colon # colon # ?r"
      using True assms(4,5) by (subst ip6_groups.simps) simp
    have "ip6_loop (ip6_groups addr (Some z) zl 16 i) pos seg seg_pos (take (i - 2) addr @ ys) (i - 2) None num_hex num_seg
        (ucast (dec_u16 addr (i - 2))) =
        ip6_loop ?r (pos + 2) (drop 1 ?r) (pos + 3) (take i addr @ drop 2 ys) i (Some i) 0 (num_seg + 1) 0"
      unfolding t using less.prems assms(1,4,5)
      by (intro ip6_loop_colons [of num_hex num_seg "take (i - 2) addr" "i - 2" ys ?r pos seg seg_pos
          "dec_u16 addr (i - 2)", unfolded d2 g]) simp_all
    also have "\<dots> = Some (pos + 2 + length ?r, addr)"
      unfolding True by (rule ip6_loop_gap [OF assms(1-5) zero]) (use less.prems True in auto)
    finally show ?thesis unfolding t by simp
  next
    case False
    then have i: "i < z" "i + 2 \<le> z" using less.prems assms(2) by presburger+
    let ?h = "dec_u16 addr i" and ?r = "ip6_groups addr (Some z) zl 16 (i + 2)"
    have t: "ip6_groups addr (Some z) zl 16 i = colon # uint16_toax ?h @ ?r"
      using i less.prems assms(4,5) by (subst ip6_groups.simps) simp
    have "ip6_loop (ip6_groups addr (Some z) zl 16 i) pos seg seg_pos (take (i - 2) addr @ ys) (i - 2) None num_hex num_seg
        (ucast (dec_u16 addr (i - 2))) =
        ip6_loop ?r (pos + 1 + length (uint16_toax ?h)) (drop 1 (uint16_toax ?h @ ?r)) (pos + 2) (take i addr @ drop 2 ys) i None
        (length (uint16_toax ?h)) (num_seg + 1) (ucast ?h)"
      unfolding t using less.prems assms(1,4,5) i
      by (intro ip6_loop_next_group [of num_hex num_seg "take (i - 2) addr" "i - 2" ys ?h ?r pos seg seg_pos
          None "dec_u16 addr (i - 2)", unfolded d2 g]) simp_all
    also have "\<dots> = Some (pos + 1 + length (uint16_toax ?h) + length ?r, addr)"
      using less.hyps [of "i + 2" "length (uint16_toax ?h)" "drop 2 ys" "num_seg + 1"] less.prems i
      by (simp add: uint16_toax_eq)
    finally show ?thesis unfolding t by simp
  qed
qed

text \<open>What the search for zeros returns: a run of zero groups.\<close>

definition zeros :: "bytes \<Rightarrow> nat option \<Rightarrow> nat \<Rightarrow> nat \<Rightarrow> bool" where
  "zeros addr p l e \<longleftrightarrow> l = 0 \<or>
    (\<exists>z. p = Some z \<and> even z \<and> even l \<and> z + l \<le> e \<and>
      (\<forall>i. even i \<and> z \<le> i \<and> i < z + l \<longrightarrow> dec_u16 addr i = 0))"

lemma zero_run_zeros:
  assumes "even i" "i \<le> 16" "zeros addr zero_pos zero_len i" "zeros addr cur_pos cur_len i"
    and "\<And>z. cur_pos = Some z \<Longrightarrow> z + cur_len = i \<and> 0 < cur_len" "cur_pos = None \<Longrightarrow> cur_len = 0"
  shows "case zero_run addr i zero_pos zero_len cur_pos cur_len of (p, l) \<Rightarrow> zeros addr p l 16"
  using assms
proof (induction addr i zero_pos zero_len cur_pos cur_len rule: zero_run.induct)
  case (1 addr i zero_pos zero_len cur_pos cur_len)
  have mono: "zeros addr p l i \<Longrightarrow> zeros addr p l (i + 2)" for p l by (auto simp: zeros_def)
  show ?case
  proof (cases "i \<ge> 16")
    case True
    then show ?thesis using "1.prems" by (simp add: zero_run.simps)
  next
    case False
    then have i: "i + 2 \<le> 16" using "1.prems"(1) by presburger
    show ?thesis
    proof (cases "dec_u16 addr i = 0")
      case zero: True
      have "zeros addr (if cur_pos = None then Some i else cur_pos) (cur_len + 2) (i + 2)"
      proof (cases cur_pos)
        case None
        have "even j \<and> i \<le> j \<and> j < i + 2 \<Longrightarrow> j = i" for j using "1.prems"(1) by presburger
        then show ?thesis using None "1.prems" zero by (auto simp: zeros_def)
      next
        case (Some z)
        then have z: "z + cur_len = i" "0 < cur_len" "even z" "even cur_len"
          "\<And>j. even j \<Longrightarrow> z \<le> j \<Longrightarrow> j < i \<Longrightarrow> dec_u16 addr j = 0"
          using "1.prems" by (auto simp: zeros_def)
        have "dec_u16 addr j = 0" if "even j" "z \<le> j" "j < i + 2" for j
        proof (cases "j < i")
          case False
          then have "j = i" using that "1.prems"(1) by presburger
          then show ?thesis using zero by simp
        qed (use z that in simp)
        then show ?thesis using Some z by (auto simp: zeros_def)
      qed
      then show ?thesis
        using "1.IH"(1) [OF False zero] "1.prems" i False zero mono
        by (subst zero_run.simps) (auto split: if_splits)
    next
      case nonzero: False
      have "case zero_run addr (i + 2) cur_pos cur_len None 0 of (p, l) \<Rightarrow> zeros addr p l 16" if "cur_len > zero_len"
        by (rule "1.IH"(2) [OF False nonzero that]) (use "1.prems" i mono in \<open>auto simp: zeros_def\<close>)
      moreover have "case zero_run addr (i + 2) zero_pos zero_len None 0 of (p, l) \<Rightarrow> zeros addr p l 16"
        if "\<not> cur_len > zero_len"
        by (rule "1.IH"(3) [OF False nonzero that]) (use "1.prems" i mono in \<open>auto simp: zeros_def\<close>)
      ultimately show ?thesis using False nonzero by (subst zero_run.simps) auto
    qed
  qed
qed

lemma dec_u16_zero:
  assumes "i + 2 \<le> length addr" "dec_u16 addr i = 0"
  shows "addr ! i = 0 \<and> addr ! Suc i = 0"
proof -
  have "segment addr i (i + 2) = [0, 0]"
    using enc_dec_u16 [OF assms(1)] assms(2) by (simp add: enc_u16_def)
  then show ?thesis
    using nth_segment [of i "i + 2" addr 0] nth_segment [of i "i + 2" addr 1] assms(1) by simp
qed

lemma zeros_bytes:
  assumes "zeros addr (Some z) zl 16" "0 < zl" "length addr = 16" "z \<le> k" "k < z + zl"
  shows "addr ! k = 0"
proof -
  let ?i = "k - k mod 2"
  have z: "even z" "even zl" "z + zl \<le> 16" "\<And>i. even i \<Longrightarrow> z \<le> i \<Longrightarrow> i < z + zl \<Longrightarrow> dec_u16 addr i = 0"
    using assms by (auto simp: zeros_def)
  have i: "even ?i" "z \<le> ?i" "?i < z + zl" "?i + 2 \<le> 16" using z assms(4,5) by presburger+
  have "addr ! ?i = 0 \<and> addr ! Suc ?i = 0"
    using dec_u16_zero [of ?i addr] z(4) [OF i(1-3)] i(4) assms(3) by simp
  moreover have "k = ?i \<or> k = Suc ?i" by presburger
  ultimately show ?thesis by metis
qed

lemma ip6_str_decode_groups:
  assumes "length addr = 16" "length dst = 16" "zero_run addr 0 None 0 None 0 = (zp0, zl)"
    and "zp = (if zl \<le> 2 then None else zp0)"
  shows "ip6_str_decode (ip6_groups addr zp zl 16 0) dst = Some (length (ip6_groups addr zp zl 16 0), addr)"
proof (cases zp)
  case None
  let ?g = "dec_u16 addr 0" and ?r = "ip6_groups addr zp zl 16 2"
  have t: "ip6_groups addr zp zl 16 0 = uint16_toax ?g @ ?r"
    using None by (subst ip6_groups.simps) (simp add: numeral_2_eq_2)
  have "ip6_loop ?r (0 + length (uint16_toax ?g)) (uint16_toax ?g @ ?r) 0 ([] @ dst) 0 None (length (uint16_toax ?g)) 0 (ucast ?g) =
      ip6_end (0 + length (uint16_toax ?g) + length ?r) ([] @ enc_u16 ?g @ drop 2 addr @ drop (18 - 2) dst) (0 + 18 - 2) None 0 (0 + 1 + (16 - 2) div 2) 0"
    by (rule ip6_loop_tail) (use assms None in \<open>auto simp: uint16_toax_eq\<close>)
  moreover have "enc_u16 ?g @ drop 2 addr = addr" using drop_group [of 0 addr] assms(1) by (simp add: numeral_2_eq_2)
  ultimately show ?thesis
    using assms(2) unfolding t ip6_str_decode_def ip6_loop_group by (simp add: ip6_end_def)
next
  case (Some z)
  have "zeros addr zp0 zl 16" using zero_run_zeros [of 0 addr None 0 None 0] assms(3) by (simp add: zeros_def)
  then have zs: "zeros addr (Some z) zl 16" "0 < zl" using Some assms(4) by (auto split: if_splits)
  then have z: "even z" "even zl" "z + zl \<le> 16" by (auto simp: zeros_def)
  have zb: "\<And>k. z \<le> k \<Longrightarrow> k < z + zl \<Longrightarrow> addr ! k = 0" using zeros_bytes [OF zs assms(1)] by blast
  show ?thesis
  proof (cases "z = 0")
    case True
    let ?r = "if 0 + zl \<ge> 16 then [] else uint16_toax (dec_u16 addr (0 + zl)) @ ip6_groups addr (Some 0) zl 16 (0 + zl + 2)"
    have t: "ip6_groups addr zp zl 16 0 = colon # colon # ?r"
      using Some True by (subst ip6_groups.simps) simp
    have "ip6_loop ?r (0 + 2) (drop 1 ?r) (0 + 3) (take 0 addr @ dst) 0 (Some 0) 0 1 0 = Some (0 + 2 + length ?r, addr)"
      by (rule ip6_loop_gap) (use assms z zs zb True in auto)
    moreover have "take 0 addr @ dst = dst" "0 + 2 + length ?r = length (colon # colon # ?r)" by simp_all
    ultimately show ?thesis
      unfolding t ip6_str_decode_def ip6_loop_first_colons by (simp only:)
  next
    case False
    then have z2: "2 \<le> z" using z by presburger
    let ?g = "dec_u16 addr 0" and ?r = "ip6_groups addr (Some z) zl 16 2"
    have t: "ip6_groups addr zp zl 16 0 = uint16_toax ?g @ ?r"
      using Some False by (subst ip6_groups.simps) (simp add: numeral_2_eq_2)
    have "ip6_loop ?r (0 + length (uint16_toax ?g)) (uint16_toax ?g @ ?r) 0 (take (2 - 2) addr @ dst) (2 - 2) None (length (uint16_toax ?g)) 0 (ucast (dec_u16 addr (2 - 2))) =
      Some (0 + length (uint16_toax ?g) + length ?r, addr)"
      by (rule ip6_loop_head [OF assms(1) z zs(2) zb]) (use assms z2 in \<open>auto simp: uint16_toax_eq\<close>)
    then show ?thesis unfolding t ip6_str_decode_def ip6_loop_group by simp
  qed
qed

lemma length_ip6_groups:
  assumes "even i" "\<And>z. zp = Some z \<Longrightarrow> 2 \<le> zl \<and> even zl"
  shows "2 * length (ip6_groups addr zp zl 16 i) \<le> (16 - i) * 5 + 4"
  using assms
proof (induction "16 - i" arbitrary: i rule: less_induct)
  case less
  have g: "length (uint16_toax g) \<le> 4" for g
    by (simp add: uint16_toax_def)
  show ?case
  proof (cases "i \<ge> 16")
    case True
    then show ?thesis by (simp add: ip6_groups.simps)
  next
    case False
    then have i: "i + 2 \<le> 16" using less.prems(1) by presburger
    have 1: "2 * length (ip6_groups addr zp zl 16 (i + 2)) \<le> (16 - (i + 2)) * 5 + 4"
      by (rule less.hyps) (use i less.prems in auto)
    have 2: "2 * length (ip6_groups addr zp zl 16 (i + zl + 2)) \<le> (16 - (i + zl + 2)) * 5 + 4" if "zp = Some i"
      by (rule less.hyps) (use i less.prems that in auto)
    show ?thesis
    proof (cases "zp = Some i")
      case True
      then show ?thesis
        using 2 less.prems(2) [of i] i g [of "dec_u16 addr (i + zl)"] False
        by (subst ip6_groups.simps) auto
    next
      case n: False
      then show ?thesis
        using 1 i g [of "dec_u16 addr i"] False by (subst ip6_groups.simps) auto
    qed
  qed
qed

text \<open>
  C25. An IPv6 address printed by \<open>ip6_str_encode\<close> without brackets and without the IPv4 notation
  (\<open>IP6_STR_NOIPV4\<close>) fits in a buffer of \<open>IP6_ADDR_STRLEN\<close> bytes with its terminator, and
  \<open>ip6_str_decode\<close> of the printed characters consumes all of them and yields the sixteen bytes of the
  address, wherever its longest run of zero groups lies.
\<close>

theorem ip6_print_read:
  assumes "length addr = 16" "length dst = 16" "IP6_ADDR_STRLEN \<le> length str"
    and "bit flags 1" "\<not> bit flags 0"
    and "ip6_str_encode addr flags str (length str) = (n, str')"
  shows "n < IP6_ADDR_STRLEN \<and> length str' = length str \<and> str' ! n = 0 \<and>
    ip6_str_decode (take n str') dst = Some (n, addr)"
proof -
  obtain zp0 zl where zr: "zero_run addr 0 None 0 None 0 = (zp0, zl)" by fastforce
  define zp where "zp = (if zl \<le> 2 then None else zp0)"
  let ?t = "ip6_groups addr zp zl 16 0"
  have e: "n = length ?t" "str' = write_at (write_at str 0 ?t) (length ?t) [0]"
    using assms(3-6) zr by (auto simp: ip6_str_encode_def Let_def zp_def)
  have "zeros addr zp0 zl 16" using zero_run_zeros [of 0 addr None 0 None 0] zr by (simp add: zeros_def)
  then have "\<And>z. zp = Some z \<Longrightarrow> 2 \<le> zl \<and> even zl" by (auto simp: zeros_def zp_def split: if_splits)
  then have l: "n < IP6_ADDR_STRLEN"
    using length_ip6_groups [of 0 zp zl addr] e by (simp add: IP6_ADDR_STRLEN_def)
  have "str' = ?t @ 0 # drop (length ?t + 1) str" using e by (simp add: write_at_def)
  then have "take n str' = ?t" "str' ! n = 0" "length str' = length str"
    using e(1) l assms(3) by (simp_all add: nth_append)
  moreover have "ip6_str_decode ?t dst = Some (length ?t, addr)"
    by (rule ip6_str_decode_groups [OF assms(1,2) zr]) (simp add: zp_def)
  ultimately show ?thesis using e l by simp
qed

theorem ip6_print_read_witness:
  "case ip6_str_encode [0xfe, 0x80, 0,0,0,0,0,0,0,0,0,0, 0, 1, 0, 2] 2 (replicate 46 0) 46 of (n, str') \<Rightarrow>
    n < 46 \<and> ip6_str_decode (take n str') (replicate 16 7) = Some (n, [0xfe, 0x80, 0,0,0,0,0,0,0,0,0,0, 0, 1, 0, 2])"
proof -
  let ?a = "[0xfe, 0x80, 0,0,0,0,0,0,0,0,0,0, 0, 1, 0, 2] :: bytes"
  obtain n str' where e: "ip6_str_encode ?a 2 (replicate 46 0) 46 = (n, str')" by fastforce
  show ?thesis
    using ip6_print_read [of ?a "replicate 16 7" "replicate 46 0" 2 n str'] unfolding e
    by (simp add: IP6_ADDR_STRLEN_def e bit_0)
qed

text \<open>
  The embedded IPv4 notation is misread: after a colon the decoder remembers the position behind
  the first character of the next segment, so the first digit of the dotted part is skipped.
  The mapped address of 10.0.0.1 is printed as \<open>::ffff:10.0.0.1\<close>, which reads back as the mapped
  address of 0.0.0.1; the mapped address of 1.2.3.4 is refused.
\<close>

theorem ip6_mapped_misread:
  "ip6_str_decode (ascii ''::ffff:10.0.0.1'') [0,0,0,0,0,0,0,0,0,0,0,0,0,0,0,0] =
     Some (15, [0,0,0,0,0,0,0,0,0,0,0xff,0xff,0,0,0,1]) \<and>
   fst (the (ip6_str_decode (ascii ''::ffff:1.2.3.4'') [0,0,0,0,0,0,0,0,0,0,0,0,0,0,0,0])) = 0"
  by (simp add: ip6_str_decode_def is_hex_def is_numeral_def hex_to_nibble_def ip4_str_decode_def ip4_end_def
      ip6_end_def store_def write_at_def enc_u16_def segment_def Let_def sz_sub_nowrap sz_add_nowrap)
    (simp add: numeral_eq_Suc)

end
