(* ===== verification/Dns_Name.thy ===== *)
theory Dns_Name
  imports Util
begin

text \<open>
  Domain names on the wire (\<open>src/src/dns_proto.c\<close>): \<open>decode_name\<close> with its compression pointers and
  \<open>encode_name\<close> with its table of suffixes.  \<open>None\<close> stands for a read outside the packet or a write
  outside the output buffer.  The relation \<open>name_at\<close> is the wire format of RFC 1035; the decoder is
  shown to accept exactly the names it describes within its limits, and the encoder to produce them.
\<close>

section \<open>Model\<close>

definition DNS_COMP_PTR :: u8 where "DNS_COMP_PTR = 0xC0"
definition DNS_MAX_JMP :: nat where "DNS_MAX_JMP = 16"
definition DNS_MAX_SUFFIX :: nat where "DNS_MAX_SUFFIX = 32"
definition DNS_LABEL_MAXSTR :: nat where "DNS_LABEL_MAXSTR = 63"
definition DNS_NAME_MAXLEN :: nat where "DNS_NAME_MAXLEN = 255"

text \<open>The values of \<open>enum dns_dec_error\<close>.\<close>

definition DNS_EHDRLEN :: int where "DNS_EHDRLEN = 1"
definition DNS_EBADJMP :: int where "DNS_EBADJMP = 2"
definition DNS_EMAXJMP :: int where "DNS_EMAXJMP = 3"
definition DNS_ENAMELEN :: int where "DNS_ENAMELEN = 4"
definition DNS_EOUTLEN :: int where "DNS_EOUTLEN = 5"
definition DNS_ENONULL :: int where "DNS_ENONULL = 6"
definition DNS_ETRUNC :: int where "DNS_ETRUNC = 7"
definition DNS_ERDATALEN :: int where "DNS_ERDATALEN = 8"
definition DNS_EMSGFMT :: int where "DNS_EMSGFMT = 9"
definition DNS_EOPCODE :: int where "DNS_EOPCODE = 11"
definition DNS_ERCODE :: int where "DNS_ERCODE = 12"

text \<open>Checked accesses to the packet, and a checked append to an output of \<open>room\<close> bytes.\<close>

definition rd8 :: "bytes \<Rightarrow> nat \<Rightarrow> u8 option" where
  "rd8 pkt i = (if i < length pkt then Some (pkt ! i) else None)"

definition rdmem :: "bytes \<Rightarrow> nat \<Rightarrow> nat \<Rightarrow> bytes option" where
  "rdmem pkt i len = (if i + len \<le> length pkt then Some (segment pkt i (i + len)) else None)"

definition rdu16 :: "bytes \<Rightarrow> nat \<Rightarrow> u16 option" where
  "rdu16 pkt i = map_option (\<lambda>bs. dec_u16 bs 0) (rdmem pkt i 2)"

definition emit :: "nat \<Rightarrow> bytes \<Rightarrow> bytes \<Rightarrow> bytes option" where
  "emit room out bs = (if length out + length bs \<le> room then Some (out @ bs) else None)"

text \<open>
  The loop of \<open>decode_name\<close>: \<open>off\<close> is \<open>dec->offset\<close>, \<open>out\<close> what is stored at \<open>name\<close> so far and
  \<open>room\<close> the true size of the memory there.  The loop leaves by its condition only after a
  label or a jump, with \<open>len\<close> not 0, or before the first byte, with \<open>len\<close> equal to -1.
\<close>

function name_loop :: "bytes \<Rightarrow> nat \<Rightarrow> nat \<Rightarrow> nat \<Rightarrow> nat \<Rightarrow> nat \<Rightarrow> bytes \<Rightarrow> (int \<times> nat \<times> bytes) option" where
  "name_loop pkt off idx out_len njmp room out =
    (if \<not> idx < length pkt then Some (- DNS_ENONULL, off, out)
     else do {
       b \<leftarrow> rd8 pkt idx;
       if b AND DNS_COMP_PTR = DNS_COMP_PTR then
         if idx + 1 = length pkt then Some (- DNS_EBADJMP, off, out)
         else if njmp > DNS_MAX_JMP then Some (- DNS_EMAXJMP, off, out)
         else do {
           let off = (if njmp = 0 then off + 2 else off);
           b' \<leftarrow> rd8 pkt (idx + 1);
           let len = unat (b AND 0x3F) * 256 + unat b';
           if len < 12 then Some (- DNS_EBADJMP, off, out)
           else if len > length pkt then Some (- DNS_EBADJMP, off, out)
           else name_loop pkt off len out_len (njmp + 1) room out
         }
       else
         let len = unat b in
         if len > length pkt - (idx + 1) then Some (- DNS_ENAMELEN, off, out)
         else if len > out_len then Some (- DNS_EOUTLEN, off, out)
         else
           let off = (if njmp = 0 then off + 1 + len else off) in
           if len = 0 then
             if out_len = 0 then Some (- DNS_EOUTLEN, off, out)
             else do {
               out \<leftarrow> emit room out [0];
               Some (int (length out), off, out)
             }
           else do {
             label \<leftarrow> rdmem pkt (idx + 1) len;
             out \<leftarrow> emit room out label;
             let out_len = out_len - len;
             if out_len = 0 then Some (- DNS_EOUTLEN, off, out)
             else if idx + 1 + len < length pkt \<and> rd8 pkt (idx + 1 + len) \<noteq> Some 0 then do {
               out \<leftarrow> emit room out [46];
               name_loop pkt off (idx + 1 + len) (out_len - 1) njmp room out
             }
             else name_loop pkt off (idx + 1 + len) out_len njmp room out
           }
     })"
  by pat_completeness auto
termination
  by (relation "measures [\<lambda>(pkt, off, idx, out_len, njmp, room, out). 18 - njmp,
      \<lambda>(pkt, off, idx, out_len, njmp, room, out). length pkt - idx]")
    (auto simp: DNS_MAX_JMP_def)

text \<open>
  The result is the return value (\<open>nlen - out_len\<close>, the number of bytes stored, or an error), the
  new \<open>dec->offset\<close> and the bytes stored at \<open>name\<close>.
\<close>

definition decode_name :: "bytes \<Rightarrow> nat \<Rightarrow> nat \<Rightarrow> nat \<Rightarrow> (int \<times> nat \<times> bytes) option" where
  "decode_name pkt off nlen room = name_loop pkt off off nlen 0 room []"

subsection \<open>Encoder\<close>

record dns_suffix =
  sfx_name :: bytes
  sfx_offset :: u16

record dns_enc =
  enc_buf :: bytes
  enc_len :: nat
  suffix :: "dns_suffix list"

text \<open>A store through \<open>wptr\<close>, checked against the packet buffer.\<close>

definition poke :: "dns_enc \<Rightarrow> nat \<Rightarrow> bytes \<Rightarrow> dns_enc option" where
  "poke enc wptr bs =
    (if wptr + length bs \<le> length (enc_buf enc) then Some (enc\<lparr> enc_buf := write_at (enc_buf enc) wptr bs \<rparr>)
     else None)"

text \<open>The scan for a suffix: \<open>strcasecmp\<close> is 0 when the strings agree after \<open>casefold\<close>.\<close>

definition find_suffix :: "dns_suffix list \<Rightarrow> nat \<Rightarrow> bytes \<Rightarrow> dns_suffix option" where
  "find_suffix sfx off name =
    find (\<lambda>s. unat (sfx_offset s) < off \<and> map casefold (sfx_name s) = map casefold name) sfx"

definition add_suffix :: "dns_enc \<Rightarrow> bytes \<Rightarrow> nat \<Rightarrow> dns_enc" where
  "add_suffix enc name wptr =
    (if length (suffix enc) < DNS_MAX_SUFFIX
     then enc\<lparr> suffix := suffix enc @ [\<lparr> sfx_name = name, sfx_offset = of_nat wptr \<rparr>] \<rparr>
     else enc)"

text \<open>
  The loop of \<open>encode_name\<close>; the inner result \<open>None\<close> is the \<open>NULL\<close> returned for a label that is too
  long.  \<open>len\<close> is a \<open>uint8_t\<close>.
\<close>

function encode_loop :: "dns_enc \<Rightarrow> nat \<Rightarrow> nat \<Rightarrow> bytes \<Rightarrow> (nat option \<times> dns_enc) option" where
  "encode_loop enc off wptr name =
    (if name = [] then do {
       enc \<leftarrow> poke enc wptr [0];
       Some (Some (wptr + 1), enc)
     }
     else
       case find_suffix (suffix enc) off name of
         Some s \<Rightarrow> do {
           enc \<leftarrow> poke enc wptr (enc_u16 (0xc000 OR sfx_offset s));
           Some (Some (wptr + 2), enc)
         }
       | None \<Rightarrow>
           let enc = add_suffix enc name wptr;
               dot_pos = memchr name 46;
               len = unat (of_nat (case dot_pos of Some d \<Rightarrow> d | None \<Rightarrow> length name) :: u8)
           in if len > DNS_LABEL_MAXSTR then Some (None, enc)
              else do {
                enc \<leftarrow> poke enc wptr (of_nat len # take len name);
                encode_loop enc off (wptr + 1 + len)
                  (case dot_pos of Some d \<Rightarrow> drop (d + 1) name | None \<Rightarrow> [])
              })"
  by pat_completeness auto
termination
  by (relation "measure (\<lambda>(enc, off, wptr, name). length name)") (auto split: option.splits)

definition encode_name :: "dns_enc \<Rightarrow> nat \<Rightarrow> bytes option \<Rightarrow> (nat option \<times> dns_enc) option" where
  "encode_name enc wptr name = encode_loop enc wptr wptr (case name of None \<Rightarrow> [] | Some s \<Rightarrow> s)"

section \<open>The wire format\<close>

text \<open>
  \<open>name_at pkt i nm w j\<close>: at index \<open>i\<close> of the packet stands an encoded name with the dotted form
  \<open>nm\<close>; its own encoding takes \<open>w\<close> bytes, and reading it follows \<open>j\<close> compression pointers.  A
  label is followed by a dot unless a zero byte follows it.

  This is the format as \<open>decode_name\<close> reads it, which is wider than the documented one in two ways.  Every
  length byte below 192 is the length of a label, although the comment at the check says 0-63,
  \<open>DNS_LABEL_MAXSTR\<close> is 63 and the encoder refuses longer labels: bytes from 64 to 191 are not rejected.
  And \<open>njmp++ > DNS_MAX_JMP\<close> is false up to \<open>njmp = 16\<close>, so that 17 jumps are followed, one more than
  the maximal number 16 that \<open>DNS_MAX_JMP\<close> documents.
\<close>

definition is_ptr :: "u8 \<Rightarrow> bool" where
  "is_ptr b \<longleftrightarrow> b AND DNS_COMP_PTR = DNS_COMP_PTR"

definition ptr_target :: "u8 \<Rightarrow> u8 \<Rightarrow> nat" where
  "ptr_target b b' = unat (b AND 0x3F) * 256 + unat b'"

inductive name_at :: "bytes \<Rightarrow> nat \<Rightarrow> bytes \<Rightarrow> nat \<Rightarrow> nat \<Rightarrow> bool" for pkt where
  zero: "rd8 pkt i = Some 0 \<Longrightarrow> name_at pkt i [] 1 0"
| label: "\<lbrakk>rd8 pkt i = Some b; \<not> is_ptr b; b \<noteq> 0; rdmem pkt (i + 1) (unat b) = Some l;
     rd8 pkt (i + 1 + unat b) = Some c; name_at pkt (i + 1 + unat b) nm w j\<rbrakk> \<Longrightarrow>
     name_at pkt i (l @ (if c \<noteq> 0 then [46] else []) @ nm) (1 + unat b + w) j"
| ptr: "\<lbrakk>rd8 pkt i = Some b; is_ptr b; rd8 pkt (i + 1) = Some b'; 12 \<le> ptr_target b b';
     name_at pkt (ptr_target b b') nm w j\<rbrakk> \<Longrightarrow>
     name_at pkt i nm 2 (Suc j)"

declare name_loop.simps [simp del]

lemma rd8_Some: "rd8 pkt i = Some b \<longleftrightarrow> i < length pkt \<and> pkt ! i = b"
  by (auto simp: rd8_def)

lemma rdmem_Some: "rdmem pkt i n = Some l \<longleftrightarrow> i + n \<le> length pkt \<and> l = segment pkt i (i + n)"
  by (auto simp: rdmem_def)

lemma rdu16_in: "rdu16 pkt i = (if i + 2 \<le> length pkt then Some (dec_u16 pkt i) else None)"
  by (simp add: rdu16_def rdmem_def dec_u16_def segment_def)

lemma rdmem_length: "rdmem pkt i n = Some l \<Longrightarrow> length l = n"
  by (auto simp: rdmem_def split: if_splits)

lemma name_at_bound: "name_at pkt i nm w j \<Longrightarrow> i < length pkt"
  by (induction rule: name_at.induct) (auto simp: rd8_Some)

lemma unat_0x3f: "unat (b AND 0x3F :: u8) = unat b mod 64"
proof -
  have "unat (b AND 0x3F) = unat (take_bit 6 b)" by (simp add: take_bit_eq_mask mask_eq_exp_minus_1)
  then show ?thesis by (simp only: unsigned_take_bit_eq) (simp add: take_bit_eq_mod)
qed

lemma is_ptr_iff: "is_ptr b \<longleftrightarrow> 192 \<le> unat b"
proof -
  have b: "unat b < 2 ^ LENGTH(8)" by (rule unsigned_less)
  have "b AND 0xC0 = push_bit 6 (drop_bit 6 b)"
  proof (rule bit_word_eqI)
    fix n assume n: "n < LENGTH(8)"
    have c: "(0xC0 :: u8) = push_bit 6 (mask 2)" by (simp add: mask_eq_exp_minus_1)
    show "bit (b AND 0xC0) n = bit (push_bit 6 (drop_bit 6 b)) n"
      unfolding c using n by (auto simp: bit_simps)
  qed
  then have u: "unat (b AND 0xC0) = 64 * (unat b div 64)"
  proof -
    have d: "unat (drop_bit 6 b) = unat b div 64"
      by (simp only: unat_drop_bit_eq) (simp add: drop_bit_eq_div)
    have "64 * (unat b div 64) < 256" using b by simp
    then show ?thesis
      unfolding \<open>b AND 0xC0 = _\<close>
      by (simp only: unsigned_push_bit_eq d) (simp add: take_bit_eq_mod push_bit_eq_mult mult.commute)
  qed
  have "is_ptr b \<longleftrightarrow> unat (b AND 0xC0) = 192"
    unfolding is_ptr_def DNS_COMP_PTR_def by (subst word_unat_eq_iff) simp
  moreover have "unat b div 64 = 3 \<longleftrightarrow> 192 \<le> unat b" using b by auto
  ultimately show ?thesis using u by simp
qed

text \<open>The decoder on a well-formed name, from any point of its loop.\<close>

lemma name_loop_accepts:
  assumes "name_at pkt i nm w j" "njmp + j \<le> DNS_MAX_JMP + 1" "length nm < out_len" "length out + out_len \<le> room"
  shows "name_loop pkt off i out_len njmp room out =
    Some (int (length (out @ nm @ [0])), if njmp = 0 then off + w else off, out @ nm @ [0])"
  using assms
proof (induction arbitrary: off out_len njmp out rule: name_at.induct)
  case (zero i)
  have "i < length pkt" using zero.hyps by (simp add: rd8_Some)
  with zero show ?case
    by (subst name_loop.simps) (simp add: emit_def DNS_COMP_PTR_def)
next
  case (label i b l c nm w j)
  have b: "i < length pkt" "rd8 pkt i = Some b" "\<not> b AND DNS_COMP_PTR = DNS_COMP_PTR" "unat b \<noteq> 0"
    using label.hyps by (auto simp: rd8_Some is_ptr_def unat_eq_0)
  have m: "length l = unat b" "i + 1 + unat b < length pkt" "\<not> length pkt - (i + 1) < unat b"
    using label.hyps by (auto simp: rdmem_Some rd8_Some rdmem_length)
  let ?d = "if c \<noteq> 0 then [46 :: u8] else []"
  have "name_loop pkt off i out_len njmp room out =
      name_loop pkt (if njmp = 0 then off + 1 + unat b else off) (i + 1 + unat b)
        (out_len - unat b - length ?d) njmp room (out @ l @ ?d)"
    using b m label.hyps(4,5) label.prems
    by (subst name_loop.simps) (simp add: Let_def emit_def)
  also have "\<dots> = Some (int (length ((out @ l @ ?d) @ nm @ [0])),
      if njmp = 0 then (if njmp = 0 then off + 1 + unat b else off) + w else (if njmp = 0 then off + 1 + unat b else off),
      (out @ l @ ?d) @ nm @ [0])"
    by (rule label.IH) (use label.prems m in auto)
  finally show ?case by simp
next
  case (ptr i b b' nm w j)
  have t: "ptr_target b b' < length pkt" using name_at_bound ptr.hyps by blast
  have bound: "i < length pkt" "i + 1 < length pkt" using ptr.hyps by (auto simp: rd8_Some)
  have "name_loop pkt off i out_len njmp room out =
      name_loop pkt (if njmp = 0 then off + 2 else off) (ptr_target b b') out_len (njmp + 1) room out"
    using ptr.hyps(1-4) ptr.prems t bound
    by (subst name_loop.simps) (simp add: is_ptr_def ptr_target_def Let_def DNS_MAX_JMP_def)
  also have "\<dots> = Some (int (length (out @ nm @ [0])),
      if njmp + 1 = 0 then (if njmp = 0 then off + 2 else off) + w else (if njmp = 0 then off + 2 else off), out @ nm @ [0])"
    by (rule ptr.IH) (use ptr.prems in auto)
  finally show ?case by simp
qed

text \<open>The possible iterations of the loop when the claimed room is there.\<close>

lemmas dns_ec_defs = DNS_EBADJMP_def DNS_EMAXJMP_def DNS_ENAMELEN_def DNS_EOUTLEN_def DNS_ENONULL_def

lemma name_loop_cases:
  assumes room: "length out + out_len \<le> room"
  obtains
    (error) rc off' where "name_loop pkt off i out_len njmp room out = Some (rc, off', out)" "rc < 0"
      "off' = off \<or> i < length pkt \<and> njmp = 0 \<and> off' = off + 2 \<and> i + 2 \<le> length pkt \<or>
        i < length pkt \<and> njmp = 0 \<and> off' = off + 1"
  | (too_long) b l where "rd8 pkt i = Some b" "\<not> is_ptr b" "rdmem pkt (i + 1) (unat b) = Some l"
      "name_loop pkt off i out_len njmp room out =
        Some (- DNS_EOUTLEN, if njmp = 0 then off + 1 + unat b else off, out @ l)" "out_len = unat b"
  | (finish) "rd8 pkt i = Some 0" "out_len \<noteq> 0"
      "name_loop pkt off i out_len njmp room out =
        Some (int (length out + 1), if njmp = 0 then off + 1 else off, out @ [0])"
  | (step) b l where "rd8 pkt i = Some b" "\<not> is_ptr b" "b \<noteq> 0" "rdmem pkt (i + 1) (unat b) = Some l" "unat b < out_len"
      "name_loop pkt off i out_len njmp room out =
        (let d = (if i + 1 + unat b < length pkt \<and> rd8 pkt (i + 1 + unat b) \<noteq> Some 0 then [46] else [])
         in name_loop pkt (if njmp = 0 then off + 1 + unat b else off) (i + 1 + unat b)
              (out_len - unat b - length d) njmp room (out @ l @ d))"
  | (jump) b b' where "rd8 pkt i = Some b" "is_ptr b" "rd8 pkt (i + 1) = Some b'" "njmp \<le> DNS_MAX_JMP"
      "12 \<le> ptr_target b b'" "ptr_target b b' \<le> length pkt"
      "name_loop pkt off i out_len njmp room out =
        name_loop pkt (if njmp = 0 then off + 2 else off) (ptr_target b b') out_len (njmp + 1) room out"
proof (cases "i < length pkt")
  case False
  then show ?thesis using error [of "- DNS_ENONULL" off] by (simp add: name_loop.simps dns_ec_defs)
next
  case i: True
  define b where "b = pkt ! i"
  have b: "rd8 pkt i = Some b" using i by (simp add: rd8_def b_def)
  show ?thesis
  proof (cases "is_ptr b")
    case True
    then have c: "b AND DNS_COMP_PTR = DNS_COMP_PTR" by (simp add: is_ptr_def)
    show ?thesis
    proof (cases "i + 1 = length pkt \<or> njmp > DNS_MAX_JMP")
      case True
      then have "name_loop pkt off i out_len njmp room out =
          Some (if i + 1 = length pkt then - DNS_EBADJMP else - DNS_EMAXJMP, off, out)"
        using i b c by (subst name_loop.simps) auto
      then show ?thesis by (rule error) (auto simp: dns_ec_defs)
    next
      case False
      define b' where "b' = pkt ! (i + 1)"
      have b': "rd8 pkt (i + 1) = Some b'" using i False by (simp add: rd8_def b'_def)
      let ?o = "if njmp = 0 then off + 2 else off"
      show ?thesis
      proof (cases "12 \<le> ptr_target b b' \<and> ptr_target b b' \<le> length pkt")
        case True
        then have "name_loop pkt off i out_len njmp room out =
            name_loop pkt ?o (ptr_target b b') out_len (njmp + 1) room out"
          using i b c b' False by (subst name_loop.simps) (simp add: Let_def ptr_target_def)
        then show ?thesis using jump [OF b \<open>is_ptr b\<close> b'] True False by simp
      next
        case n: False
        then have "name_loop pkt off i out_len njmp room out = Some (- DNS_EBADJMP, ?o, out)"
          using i b c b' False by (subst name_loop.simps) (auto simp: Let_def ptr_target_def)
        then show ?thesis using error [of "- DNS_EBADJMP" ?o] i False by (auto simp: dns_ec_defs split: if_splits)
      qed
    qed
  next
    case np: False
    then have c: "\<not> b AND DNS_COMP_PTR = DNS_COMP_PTR" by (simp add: is_ptr_def)
    show ?thesis
    proof (cases "unat b > length pkt - (i + 1) \<or> unat b > out_len")
      case True
      then have "name_loop pkt off i out_len njmp room out =
          Some (if unat b > length pkt - (i + 1) then - DNS_ENAMELEN else - DNS_EOUTLEN, off, out)"
        using i b c by (subst name_loop.simps) auto
      then show ?thesis by (rule error) (auto simp: dns_ec_defs)
    next
      case fits: False
      then have "i + 1 + unat b \<le> length pkt" using i by linarith
      then obtain l where l: "rdmem pkt (i + 1) (unat b) = Some l"
        by (simp add: rdmem_def)
      then have ll: "length l = unat b" by (rule rdmem_length)
      consider "b = 0" "out_len = 0" | "b = 0" "out_len \<noteq> 0" | "b \<noteq> 0" "out_len = unat b" | "b \<noteq> 0" "unat b < out_len"
        using fits by linarith
      then show ?thesis
      proof cases
        case 1
        then have "name_loop pkt off i out_len njmp room out =
            Some (- DNS_EOUTLEN, if njmp = 0 then off + 1 else off, out)"
          using i b c by (subst name_loop.simps) auto
        then show ?thesis by (rule error) (use i in \<open>auto simp: dns_ec_defs\<close>)
      next
        case 2
        then have "name_loop pkt off i out_len njmp room out =
            Some (int (length out + 1), if njmp = 0 then off + 1 else off, out @ [0])"
          using i b c room by (subst name_loop.simps) (simp add: emit_def)
        then show ?thesis using finish b 2 by simp
      next
        case 3
        then have u: "unat b \<noteq> 0" by (simp add: unat_eq_0)
        have "name_loop pkt off i out_len njmp room out =
            Some (- DNS_EOUTLEN, if njmp = 0 then off + 1 + unat b else off, out @ l)"
          using 3 i b c room fits l ll u by (subst name_loop.simps) (simp add: emit_def Let_def)
        then show ?thesis using too_long [OF b np l] 3 by simp
      next
        case 4
        then have u: "unat b \<noteq> 0" by (simp add: unat_eq_0)
        have "name_loop pkt off i out_len njmp room out =
          (let d = (if i + 1 + unat b < length pkt \<and> rd8 pkt (i + 1 + unat b) \<noteq> Some 0 then [46] else [])
           in name_loop pkt (if njmp = 0 then off + 1 + unat b else off) (i + 1 + unat b)
              (out_len - unat b - length d) njmp room (out @ l @ d))"
          using 4 i b c room fits l ll u by (subst name_loop.simps) (simp add: emit_def Let_def)
        then show ?thesis using step [OF b np 4(1) l 4(2)] by blast
      qed
    qed
  qed
qed

definition name_measure :: "bytes \<Rightarrow> nat \<Rightarrow> nat \<Rightarrow> nat" where
  "name_measure pkt i njmp = (18 - njmp) * (length pkt + 1) + (length pkt - i)"

lemma name_measure_jump: "njmp \<le> DNS_MAX_JMP \<Longrightarrow> name_measure pkt t (njmp + 1) < name_measure pkt i njmp"
proof -
  assume "njmp \<le> DNS_MAX_JMP"
  then have "18 - njmp = Suc (18 - (njmp + 1))" by (simp add: DNS_MAX_JMP_def)
  then show ?thesis by (simp add: name_measure_def)
qed

lemma name_measure_label: "i < length pkt \<Longrightarrow> i < i' \<Longrightarrow> name_measure pkt i' njmp < name_measure pkt i njmp"
  by (simp add: name_measure_def)

text \<open>The loop neither reads outside the packet nor writes outside its room, and keeps the offset in the packet.\<close>

lemma name_loop_safe:
  assumes "length out + out_len \<le> room" "njmp = 0 \<Longrightarrow> i = off"
  shows "\<exists>rc off' out'. name_loop pkt off i out_len njmp room out = Some (rc, off', out') \<and>
    length out' \<le> length out + out_len \<and> (0 < rc \<longrightarrow> rc = int (length out')) \<and> rc \<noteq> 0 \<and>
    off \<le> off' \<and> off' \<le> max off (length pkt)"
  using assms
proof (induction "name_measure pkt i njmp" arbitrary: i off out_len njmp out rule: less_induct)
  case less
  from less.prems(1) show ?case
  proof (cases rule: name_loop_cases [of out out_len room pkt off i njmp])
    case (error rc off')
    then show ?thesis using less.prems by auto
  next
    case (too_long b l)
    then show ?thesis using less.prems rdmem_length [OF too_long(3)]
      by (auto simp: rdmem_Some dns_ec_defs)
  next
    case finish
    then show ?thesis using less.prems by (auto simp: rd8_Some)
  next
    case (step b l)
    let ?d = "if i + 1 + unat b < length pkt \<and> rd8 pkt (i + 1 + unat b) \<noteq> Some 0 then [46 :: u8] else []"
    let ?o = "if njmp = 0 then off + 1 + unat b else off"
    have l: "length l = unat b" by (rule rdmem_length [OF step(4)])
    have "\<exists>rc off' out'. name_loop pkt ?o (i + 1 + unat b) (out_len - unat b - length ?d) njmp room (out @ l @ ?d) = Some (rc, off', out') \<and>
      length out' \<le> length (out @ l @ ?d) + (out_len - unat b - length ?d) \<and> (0 < rc \<longrightarrow> rc = int (length out')) \<and> rc \<noteq> 0 \<and>
      ?o \<le> off' \<and> off' \<le> max ?o (length pkt)"
    proof (rule less.hyps)
      show "name_measure pkt (i + 1 + unat b) njmp < name_measure pkt i njmp"
        using step(1) by (intro name_measure_label) (auto simp: rd8_Some)
    qed (use less.prems step l in auto)
    then show ?thesis using step l less.prems by (fastforce simp: Let_def rdmem_Some split: if_splits)
  next
    case (jump b b')
    let ?o = "if njmp = 0 then off + 2 else off"
    have "\<exists>rc off' out'. name_loop pkt ?o (ptr_target b b') out_len (njmp + 1) room out = Some (rc, off', out') \<and>
      length out' \<le> length out + out_len \<and> (0 < rc \<longrightarrow> rc = int (length out')) \<and> rc \<noteq> 0 \<and>
      ?o \<le> off' \<and> off' \<le> max ?o (length pkt)"
      by (rule less.hyps) (use less.prems jump name_measure_jump in auto)
    then show ?thesis using jump less.prems by (fastforce simp: rd8_Some split: if_splits)
  qed
qed

text \<open>What the decoder accepts is a name of the wire format.\<close>

lemma name_loop_sound:
  assumes "name_loop pkt off i out_len njmp room out = Some (rc, off', out')" "0 < rc"
    and "length out + out_len \<le> room" "njmp \<le> DNS_MAX_JMP + 1"
  shows "\<exists>nm w j. name_at pkt i nm w j \<and> njmp + j \<le> DNS_MAX_JMP + 1 \<and> length nm < out_len \<and> out' = out @ nm @ [0]"
  using assms
proof (induction "name_measure pkt i njmp" arbitrary: i off out_len njmp out rule: less_induct)
  case less
  note eq = less.prems(1)
  from less.prems(3) show ?case
  proof (cases rule: name_loop_cases [of out out_len room pkt off i njmp])
    case (error rc' o')
    then show ?thesis using less.prems by simp
  next
    case (too_long b l)
    then show ?thesis using less.prems by (simp add: dns_ec_defs)
  next
    case finish
    then show ?thesis using less.prems name_at.zero [of pkt i] by fastforce
  next
    case (step b l)
    let ?d = "if i + 1 + unat b < length pkt \<and> rd8 pkt (i + 1 + unat b) \<noteq> Some 0 then [46 :: u8] else []"
    let ?o = "if njmp = 0 then off + 1 + unat b else off"
    have l: "length l = unat b" by (rule rdmem_length [OF step(4)])
    have "\<exists>nm w j. name_at pkt (i + 1 + unat b) nm w j \<and> njmp + j \<le> DNS_MAX_JMP + 1 \<and>
        length nm < out_len - unat b - length ?d \<and> out' = (out @ l @ ?d) @ nm @ [0]"
    proof (rule less.hyps)
      show "name_measure pkt (i + 1 + unat b) njmp < name_measure pkt i njmp"
        using step(1) by (intro name_measure_label) (auto simp: rd8_Some)
      show "name_loop pkt ?o (i + 1 + unat b) (out_len - unat b - length ?d) njmp room (out @ l @ ?d) = Some (rc, off', out')"
        using eq step(6) by (simp add: Let_def)
    qed (use less.prems step l in auto)
    then obtain nm w j where n: "name_at pkt (i + 1 + unat b) nm w j" "njmp + j \<le> DNS_MAX_JMP + 1"
      "length nm < out_len - unat b - length ?d" "out' = (out @ l @ ?d) @ nm @ [0]" by blast
    have bound: "i + 1 + unat b < length pkt" using name_at_bound [OF n(1)] .
    then obtain c where c: "rd8 pkt (i + 1 + unat b) = Some c" by (simp add: rd8_def)
    have "name_at pkt i (l @ (if c \<noteq> 0 then [46] else []) @ nm) (1 + unat b + w) j"
      by (rule name_at.label [OF step(1-4) c n(1)])
    moreover have "?d = (if c \<noteq> 0 then [46] else [])" using bound c by simp
    ultimately show ?thesis using n(2-4) l by (intro exI conjI) (assumption | simp)+
  next
    case (jump b b')
    let ?o = "if njmp = 0 then off + 2 else off"
    have "\<exists>nm w j. name_at pkt (ptr_target b b') nm w j \<and> njmp + 1 + j \<le> DNS_MAX_JMP + 1 \<and>
        length nm < out_len \<and> out' = out @ nm @ [0]"
    proof (rule less.hyps)
      show "name_loop pkt ?o (ptr_target b b') out_len (njmp + 1) room out = Some (rc, off', out')"
        using eq jump(7) by simp
    qed (use less.prems jump name_measure_jump in auto)
    then obtain nm w j where n: "name_at pkt (ptr_target b b') nm w j" "njmp + 1 + j \<le> DNS_MAX_JMP + 1"
      "length nm < out_len" "out' = out @ nm @ [0]" by blast
    have "name_at pkt i nm 2 (Suc j)" by (rule name_at.ptr [OF jump(1-3,5) n(1)])
    then show ?thesis using n by (intro exI conjI) (assumption | simp)+
  qed
qed

text \<open>
  C13. The names that \<open>decode_name\<close> accepts, exactly: it returns a positive length if and only if a name
  of the format \<open>name_at\<close> stands at the offset, its dotted form and the terminator fit in the output, and
  reading it takes at most 17 jumps.  The stored bytes are then the dotted form with a terminator, the
  return value is their number, and the offset advances by the length of the encoding at the offset,
  whatever the pointers lead to.  The accepted labels have up to 191 bytes and the accepted jumps are
  up to 17, where the comments and constants of the source say 63 and 16.
\<close>

theorem decode_name_exact:
  assumes "nlen \<le> room"
  shows "decode_name pkt off nlen room = Some (rc, off', out) \<and> 0 < rc \<longleftrightarrow>
    (\<exists>nm w j. name_at pkt off nm w j \<and> j \<le> 17 \<and> length nm < nlen \<and>
      rc = int (length nm + 1) \<and> off' = off + w \<and> out = nm @ [0])" (is "?l \<longleftrightarrow> ?r")
proof
  have acc: "decode_name pkt off nlen room = Some (int (length nm + 1), off + w, nm @ [0])"
    if "name_at pkt off nm w j" "j \<le> 17" "length nm < nlen" for nm w j
    using name_loop_accepts [OF that(1), of 0 nlen "[]" room off] that assms
    by (simp add: decode_name_def DNS_MAX_JMP_def)
  {
    assume l: ?l
    then obtain nm w j where n: "name_at pkt off nm w j" "j \<le> 17" "length nm < nlen"
      using name_loop_sound [of pkt off off nlen 0 room "[]" rc off' out] assms
      by (auto simp: decode_name_def DNS_MAX_JMP_def)
    then show ?r using acc [OF n] l by auto
  }
  assume ?r
  then show ?l using acc by auto
qed

text \<open>A name with a pointer back to its second label: \<open>[1] 'b' [1] 'a' [0]\<close> at 12, \<open>[1] 'c' -> 14\<close> at 17.\<close>

definition sample_pkt :: bytes where
  "sample_pkt = replicate 12 0 @ [1, 98, 1, 97, 0, 1, 99, 0xC0, 14]"

theorem decode_name_exact_witness:
  "decode_name sample_pkt 17 64 64 = Some (4, 21, ascii ''c.a'' @ [0])"
proof -
  have nth: "sample_pkt ! 14 = 1" "sample_pkt ! 16 = 0" "sample_pkt ! 17 = 1" "sample_pkt ! 19 = 0xC0"
    "sample_pkt ! 20 = 14" "length sample_pkt = 21"
    by (simp_all add: sample_pkt_def nth_append)
  have seg: "segment sample_pkt 15 16 = [97]" "segment sample_pkt 18 19 = [99]"
    by (simp_all add: sample_pkt_def segment_def)
  have 16: "name_at sample_pkt 16 [] 1 0" by (rule name_at.zero) (simp add: rd8_def nth)
  have "name_at sample_pkt 14 ([97] @ (if (0 :: u8) \<noteq> 0 then [46] else []) @ []) (1 + unat (1 :: u8) + 1) 0"
    by (rule name_at.label) (use 16 in \<open>auto simp: rd8_def rdmem_def nth is_ptr_iff seg\<close>)
  then have "name_at sample_pkt (ptr_target 0xC0 14) [97] 3 0" by (simp add: ptr_target_def numeral_3_eq_3)
  then have "name_at sample_pkt 19 [97] 2 (Suc 0)"
    by (intro name_at.ptr [of _ _ "0xC0" 14]) (auto simp: rd8_def nth is_ptr_iff ptr_target_def)
  then have "name_at sample_pkt 17 ([99] @ (if (0xC0 :: u8) \<noteq> 0 then [46] else []) @ [97]) (1 + unat (1 :: u8) + 2) (Suc 0)"
    by (intro name_at.label) (auto simp: rd8_def rdmem_def nth is_ptr_iff seg)
  then have "name_at sample_pkt 17 (ascii ''c.a'') (Suc (Suc (Suc (Suc 0)))) 1" by simp
  moreover have four: "(4 :: nat) = Suc (Suc (Suc (Suc 0)))" by simp
  ultimately have n: "name_at sample_pkt 17 (ascii ''c.a'') 4 1" by (simp add: four)
  have "\<exists>nm w j. name_at sample_pkt 17 nm w j \<and> j \<le> 17 \<and> length nm < 64 \<and>
      4 = int (length nm + 1) \<and> 21 = 17 + w \<and> ascii ''c.a'' @ [0] = nm @ [0]"
    by (rule exI [of _ "ascii ''c.a''"], rule exI [of _ 4], rule exI [of _ 1]) (use n in simp)
  then show ?thesis
    using decode_name_exact [of 64 64 sample_pkt 17 4 21 "ascii ''c.a'' @ [0]"] by blast
qed

text \<open>Both departures from the documented format: a label of any length up to 191, and 17 jumps in a row.\<close>

lemma decode_name_long_label:
  assumes "0 < length l" "length l \<le> 191" "length l < nlen" "nlen \<le> room"
  shows "decode_name (pre @ of_nat (length l) # l @ [0]) (length pre) nlen room =
    Some (int (length l + 1), length pre + length l + 2, l @ [0])"
proof -
  let ?pkt = "pre @ of_nat (length l) # l @ [0]" and ?i = "length pre"
  have u: "unat (of_nat (length l) :: u8) = length l"
    using assms(2) by (simp add: unat_of_nat take_bit_eq_mod)
  have b: "\<not> is_ptr (of_nat (length l))" "(of_nat (length l) :: u8) \<noteq> 0"
    using u assms(1,2) by (auto simp: is_ptr_iff)
  have "name_at ?pkt (?i + 1 + length l) [] 1 0"
    by (rule name_at.zero) (simp add: rd8_def nth_append)
  then have "name_at ?pkt ?i (l @ (if (0 :: u8) \<noteq> 0 then [46] else []) @ []) (1 + unat (of_nat (length l) :: u8) + 1) 0"
    by (intro name_at.label [OF _ b]) (auto simp: rd8_def rdmem_def u segment_def nth_append)
  then have "name_at ?pkt ?i l (length l + 2) 0" by (simp add: u)
  then show ?thesis
    using name_loop_accepts [of ?pkt ?i l "length l + 2" 0 0 nlen "[]" room ?i] assms by (simp add: decode_name_def)
qed

definition jumps_pkt :: bytes where
  "jumps_pkt = [0, 0, 0, 0, 0, 0, 0, 0, 0, 0, 0, 0, 0xC0, 14, 0xC0, 16, 0xC0, 18, 0xC0, 20, 0xC0, 22, 0xC0, 24, 0xC0, 26, 0xC0, 28,
    0xC0, 30, 0xC0, 32, 0xC0, 34, 0xC0, 36, 0xC0, 38, 0xC0, 40, 0xC0, 42, 0xC0, 44, 0xC0, 46, 0]"

lemma decode_name_seventeen_jumps: "decode_name jumps_pkt 12 1 1 = Some (1, 14, [0])"
  by (simp add: decode_name_def jumps_pkt_def name_loop.simps rd8_def DNS_COMP_PTR_def DNS_MAX_JMP_def emit_def)

text \<open>
  C16. \<open>decode_name\<close> is safe on every packet, however malformed, pointer loops included: it terminates
  without a read outside the packet and without a write beyond the given output size, it never
  returns 0, and the offset it leaves lies between the old one and the end of the packet.
\<close>

theorem decode_name_safe:
  assumes "nlen \<le> room" "off \<le> length pkt"
  shows "\<exists>rc off' out. decode_name pkt off nlen room = Some (rc, off', out) \<and> length out \<le> nlen \<and>
    rc \<noteq> 0 \<and> rc \<le> int nlen \<and> off \<le> off' \<and> off' \<le> length pkt"
  using name_loop_safe [of "[]" nlen room 0 off off pkt] assms
  unfolding decode_name_def by fastforce

theorem decode_name_safe_witness:
  "\<exists>rc off' out. decode_name (replicate 12 0 @ [0xC0, 12]) 12 64 64 = Some (rc, off', out) \<and> length out \<le> 64"
  using decode_name_safe [of 64 64 12 "replicate 12 0 @ [0xC0, 12]"] by auto

section \<open>The encoder produces the wire format\<close>

declare encode_loop.simps [simp del]

lemma name_at_append: "name_at pkt i nm w j \<Longrightarrow> name_at (pkt @ q) i nm w j"
proof (induction rule: name_at.induct)
  case (zero i)
  then show ?case by (intro name_at.zero) (auto simp: rd8_Some nth_append)
next
  case (label i b l c nm w j)
  show ?case
    by (rule name_at.label [OF _ label.hyps(2,3) _ _ label.IH])
      (use label.hyps in \<open>auto simp: rd8_Some rdmem_Some nth_append segment_def\<close>)
next
  case (ptr i b b' nm w j)
  show ?case
    by (rule name_at.ptr [OF _ ptr.hyps(2) _ ptr.hyps(4) ptr.IH])
      (use ptr.hyps in \<open>auto simp: rd8_Some nth_append\<close>)
qed

lemma name_at_prefix:
  assumes "name_at (take k p) i nm w j" "take k p = take k p'" "k \<le> k'"
  shows "name_at (take k' p') i nm w j"
proof -
  have "take k' p' = take k p' @ drop k (take k' p')"
    using assms(3) append_take_drop_id [of k "take k' p'"] by (simp add: min_absorb1)
  then show ?thesis using name_at_append [of "take k p'" i nm w j] assms by metis
qed

fun dotted :: "bytes list \<Rightarrow> bytes" where
  "dotted [] = []"
| "dotted [l] = l"
| "dotted (l # ls) = l @ 46 # dotted ls"

definition good_label :: "bytes \<Rightarrow> bool" where
  "good_label l \<longleftrightarrow> l \<noteq> [] \<and> length l \<le> DNS_LABEL_MAXSTR \<and> 46 \<notin> set l"

lemma dotted_Cons: "dotted (l # ls) = l @ (if ls \<noteq> [] then 46 # dotted ls else [])"
  by (cases ls) auto

lemma dotted_eq_Nil: "\<forall>l \<in> set ls. good_label l \<Longrightarrow> dotted ls = [] \<longleftrightarrow> ls = []"
  by (cases ls) (auto simp: dotted_Cons good_label_def)

lemma memchr_dotted:
  assumes "good_label l"
  shows "memchr (dotted (l # ls)) 46 = (if ls = [] then None else Some (length l))"
proof -
  have n: "46 \<notin> set l" using assms by (simp add: good_label_def)
  have "46 \<notin> set l \<Longrightarrow> memchr (l @ 46 # r) 46 = Some (length l)" for r by (induction l) auto
  then show ?thesis using n by (cases ls) (auto simp: memchr_None)
qed

text \<open>A suffix of the table whose name stands in the packet, up to the case of letters.\<close>

definition sfx_ok :: "bytes \<Rightarrow> nat \<Rightarrow> dns_suffix \<Rightarrow> bool" where
  "sfx_ok pkt J s \<longleftrightarrow> 12 \<le> unat (sfx_offset s) \<and> unat (sfx_offset s) < 0x4000 \<and>
    (\<exists>nm w j. name_at pkt (unat (sfx_offset s)) nm w j \<and> j \<le> J \<and>
      map casefold nm = map casefold (sfx_name s))"

lemma comp_ptr_bytes:
  fixes o' :: u16 and b b' :: u8
  assumes "unat o' < 0x4000" "enc_u16 (0xc000 OR o') = [b, b']"
  shows "is_ptr b \<and> ptr_target b b' = unat o'"
proof -
  have c: "(0xc000 :: u16) = push_bit 14 (mask 2)" "(0xC0 :: u8) = push_bit 6 (mask 2)" "(0x3F :: u8) = mask 6"
    by (simp_all add: mask_eq_exp_minus_1)
  have t: "take_bit 14 o' = o'"
    by (rule word_unat_eq_iff [THEN iffD2], simp only: unsigned_take_bit_eq)
      (use assms(1) in \<open>simp add: take_bit_eq_mod\<close>)
  have lt: "bit o' n \<Longrightarrow> n < 14" for n by (subst (asm) t [symmetric]) (simp add: bit_take_bit_iff)
  have b: "b = ucast (drop_bit 8 (0xc000 OR o'))" "b' = ucast (0xc000 OR o')"
    using assms(2) by (simp_all add: enc_u16_def)
  have bb: "b = 0xC0 OR ucast (drop_bit 8 o')"
    unfolding b c by (rule bit_word_eqI) (auto simp: bit_simps)
  have b': "b' = ucast o'"
    unfolding b c by (rule bit_word_eqI) (auto simp: bit_simps)
  have "is_ptr b" unfolding is_ptr_def bb DNS_COMP_PTR_def by (rule bit_word_eqI) (auto simp: bit_simps)
  moreover have "b AND 0x3F = ucast (drop_bit 8 o')"
    unfolding bb c
  proof (rule bit_word_eqI)
    fix n assume "n < LENGTH(8)"
    then show "bit ((push_bit 6 (mask 2) OR ucast (drop_bit 8 o')) AND mask 6 :: u8) n =
        bit (ucast (drop_bit 8 o') :: u8) n"
      using lt [of "8 + n"] by (auto simp: bit_simps)
  qed
  moreover have "unat (ucast (drop_bit 8 o') :: u8) = unat o' div 256"
    by (simp only: unsigned_ucast_eq unat_drop_bit_eq)
      (use assms(1) in \<open>simp add: take_bit_eq_mod drop_bit_eq_div less_mult_imp_div_less\<close>)
  moreover have "unat (ucast o' :: u8) = unat o' mod 256"
    by (simp only: unsigned_ucast_eq) (simp add: take_bit_eq_mod)
  ultimately show ?thesis unfolding ptr_target_def b' by simp
qed

lemma poke_Some:
  "wptr + length bs \<le> length (enc_buf enc) \<Longrightarrow>
   poke enc wptr bs = Some (enc\<lparr> enc_buf := write_at (enc_buf enc) wptr bs \<rparr>)"
  by (simp add: poke_def)

lemma rd8_written:
  "wptr + length bs \<le> length buf \<Longrightarrow> wptr \<le> i \<Longrightarrow> i < wptr + length bs \<Longrightarrow> wptr + length bs \<le> k \<Longrightarrow>
   rd8 (take k (write_at buf wptr bs)) i = Some (bs ! (i - wptr))"
  by (simp add: rd8_def nth_write_at_inside)

lemma take_written: "off \<le> wptr \<Longrightarrow> wptr \<le> length buf \<Longrightarrow> take off (write_at buf wptr bs) = take off buf"
  by (rule take_write_at)

text \<open>What \<open>encode_loop\<close> leaves behind for a name of \<open>ls\<close> labels written at \<open>wptr\<close>.\<close>

definition encoded :: "dns_enc \<Rightarrow> nat \<Rightarrow> nat \<Rightarrow> bytes list \<Rightarrow> nat \<Rightarrow> nat \<Rightarrow> dns_enc \<Rightarrow> bool" where
  "encoded enc off J ls wptr wptr' enc' \<longleftrightarrow>
    wptr < wptr' \<and> wptr' \<le> wptr + length (dotted ls) + (if ls = [] then 1 else 2) \<and> length (enc_buf enc') = length (enc_buf enc) \<and>
    take wptr (enc_buf enc') = take wptr (enc_buf enc) \<and> enc_len enc' = enc_len enc \<and>
    (enc_buf enc' ! wptr = 0 \<longleftrightarrow> ls = []) \<and>
    (\<exists>nm j. name_at (take wptr' (enc_buf enc')) wptr nm (wptr' - wptr) j \<and> j \<le> Suc J \<and>
      map casefold nm = map casefold (dotted ls) \<and>
      ((\<forall>s \<in> set (suffix enc). off \<le> unat (sfx_offset s)) \<longrightarrow> nm = dotted ls \<and> j = 0)) \<and>
    (\<forall>s \<in> set (suffix enc'). s \<in> set (suffix enc) \<or> sfx_ok (take wptr' (enc_buf enc')) (Suc J) s)"

lemma encoded_root:
  assumes "wptr < length (enc_buf enc)"
  shows "encode_loop enc off wptr [] = Some (Some (wptr + 1), enc\<lparr> enc_buf := write_at (enc_buf enc) wptr [0] \<rparr>) \<and>
    encoded enc off J [] wptr (wptr + 1) (enc\<lparr> enc_buf := write_at (enc_buf enc) wptr [0] \<rparr>)"
proof -
  let ?b = "write_at (enc_buf enc) wptr [0]"
  have "name_at (take (wptr + 1) ?b) wptr [] 1 0"
    by (rule name_at.zero, rule trans [OF rd8_written]) (use assms in auto)
  then show ?thesis
    using assms by (auto simp: encode_loop.simps poke_Some encoded_def take_written nth_write_at_inside)
qed

lemma encoded_ptr:
  assumes s: "find_suffix (suffix enc) off (dotted ls) = Some s" and ls: "ls \<noteq> []" "\<forall>l \<in> set ls. good_label l"
    and ok: "\<And>s. s \<in> set (suffix enc) \<Longrightarrow> unat (sfx_offset s) < off \<Longrightarrow> sfx_ok (take off (enc_buf enc)) J s"
    and b: "off \<le> wptr" "wptr + 2 \<le> length (enc_buf enc)"
  shows "\<exists>enc'. encode_loop enc off wptr (dotted ls) = Some (Some (wptr + 2), enc') \<and>
    encoded enc off J ls wptr (wptr + 2) enc'"
proof -
  let ?o = "sfx_offset s"
  obtain b1 b2 where e: "enc_u16 (0xc000 OR ?o) = [b1, b2]" by (simp add: enc_u16_def)
  let ?buf = "write_at (enc_buf enc) wptr [b1, b2]"
  have f: "s \<in> set (suffix enc)" "unat ?o < off" "map casefold (sfx_name s) = map casefold (dotted ls)"
    using s unfolding find_suffix_def by (auto simp: find_Some_iff)
  obtain nm w j where n: "name_at (take off (enc_buf enc)) (unat ?o) nm w j" "j \<le> J"
    "map casefold nm = map casefold (sfx_name s)" and o: "12 \<le> unat ?o" "unat ?o < 0x4000"
    using ok [OF f(1,2)] by (auto simp: sfx_ok_def)
  have p: "is_ptr b1" "ptr_target b1 b2 = unat ?o" using comp_ptr_bytes [OF o(2) e] by simp_all
  have "name_at (take (wptr + 2) ?buf) (unat ?o) nm w j"
    by (rule name_at_prefix [OF n(1)]) (use b in \<open>auto simp: take_written\<close>)
  then have at: "name_at (take (wptr + 2) ?buf) wptr nm 2 (Suc j)"
    using p o b by (intro name_at.ptr [of _ wptr b1 b2 nm w j]) (auto simp: rd8_written)
  have "b1 \<noteq> 0" using p(1) by (auto simp: is_ptr_iff)
  moreover have "length (dotted ls) > 0" using dotted_eq_Nil [OF ls(2)] ls(1) by simp
  moreover have "encode_loop enc off wptr (dotted ls) = Some (Some (wptr + 2), enc\<lparr> enc_buf := ?buf \<rparr>)"
    using s dotted_eq_Nil [OF ls(2)] ls(1) b e by (subst encode_loop.simps) (simp add: poke_Some)
  moreover have "encoded enc off J ls wptr (wptr + 2) (enc\<lparr> enc_buf := ?buf \<rparr>)"
    unfolding encoded_def using at n f b ls \<open>b1 \<noteq> 0\<close>
    by (auto simp: take_written nth_write_at_inside intro!: exI [of _ nm] exI [of _ "Suc j"])
  ultimately show ?thesis by blast
qed

lemma encoded_label:
  assumes l: "good_label l" and wptr: "12 \<le> wptr" "wptr < 0x4000" "off \<le> wptr"
    and room: "wptr + 1 + length l \<le> length (enc_buf enc)"
    and enc1: "enc1 = (add_suffix enc (dotted (l # ls)) wptr)\<lparr> enc_buf := write_at (enc_buf enc) wptr (of_nat (length l) # l) \<rparr>"
    and enc2: "encoded enc1 off J ls (wptr + 1 + length l) wptr' enc2"
  shows "encoded enc off J (l # ls) wptr wptr' enc2"
proof -
  let ?n = "length l" and ?b = "of_nat (length l) :: u8" and ?buf = "take wptr' (enc_buf enc2)"
  have n: "0 < ?n" "?n \<le> 63" "unat ?b = ?n" "?b \<noteq> 0" "\<not> is_ptr ?b"
  proof -
    show "0 < ?n" "?n \<le> 63" using l by (auto simp: good_label_def DNS_LABEL_MAXSTR_def)
    then show u: "unat ?b = ?n" by (simp add: unat_of_nat)
    show "?b \<noteq> 0" using u \<open>0 < ?n\<close> by (metis less_irrefl unat_0)
    show "\<not> is_ptr ?b" unfolding is_ptr_iff u using \<open>?n \<le> 63\<close> by simp
  qed
  have e: "wptr + 1 + ?n < wptr'" "wptr' \<le> wptr + 1 + ?n + length (dotted ls) + (if ls = [] then 1 else 2)"
    "length (enc_buf enc2) = length (enc_buf enc)" "take (wptr + 1 + ?n) (enc_buf enc2) = take (wptr + 1 + ?n) (enc_buf enc1)"
    "enc_len enc2 = enc_len enc" "(enc_buf enc2 ! (wptr + 1 + ?n) = 0) = (ls = [])"
    using enc2 room by (auto simp: encoded_def enc1 add_suffix_def)
  obtain nm j where nm: "name_at ?buf (wptr + 1 + ?n) nm (wptr' - (wptr + 1 + ?n)) j" "j \<le> Suc J"
    "map casefold nm = map casefold (dotted ls)"
    "(\<forall>s \<in> set (suffix enc1). off \<le> unat (sfx_offset s)) \<longrightarrow> nm = dotted ls \<and> j = 0"
    using enc2 by (auto simp: encoded_def)
  have pre: "take (wptr + 1 + ?n) (enc_buf enc2) = take wptr (enc_buf enc) @ ?b # l"
    using e(4) take_write_at_exact [of wptr "enc_buf enc" "?b # l"] room by (simp add: enc1)
  have pw: "length (take wptr (enc_buf enc)) = wptr" using room by simp
  have at0: "enc_buf enc2 ! wptr = ?b" "segment (enc_buf enc2) (wptr + 1) (wptr + 1 + ?n) = l"
  proof -
    have "enc_buf enc2 ! wptr = take (wptr + 1 + ?n) (enc_buf enc2) ! wptr" by simp
    then show "enc_buf enc2 ! wptr = ?b" unfolding pre using pw by (simp add: nth_append)
    show "segment (enc_buf enc2) (wptr + 1) (wptr + 1 + ?n) = l"
      unfolding segment_def pre using pw by simp
  qed
  have bnd: "wptr + 1 + ?n < length ?buf" using name_at_bound [OF nm(1)] .
  let ?c = "enc_buf enc2 ! (wptr + 1 + ?n)"
  let ?nm = "l @ (if ?c \<noteq> 0 then [46] else []) @ nm"
  have at: "name_at ?buf wptr ?nm (wptr' - wptr) j"
  proof -
    have "name_at ?buf wptr ?nm (1 + unat ?b + (wptr' - (wptr + 1 + ?n))) j"
      using n bnd at0 nm(1) e(1) by (intro name_at.label) (auto simp: rd8_def rdmem_def segment_def min_absorb1 take_take)
    moreover have "1 + unat ?b + (wptr' - (wptr + 1 + ?n)) = wptr' - wptr" using e(1) n(3) by linarith
    ultimately show ?thesis by (simp only:)
  qed
  have cf: "map casefold ?nm = map casefold (dotted (l # ls))"
    using nm(3) e(6) by (auto simp: dotted_Cons)
  have sfx: "set (suffix enc1) \<subseteq> insert \<lparr> sfx_name = dotted (l # ls), sfx_offset = of_nat wptr \<rparr> (set (suffix enc))"
    by (auto simp: enc1 add_suffix_def)
  have w16: "unat (of_nat wptr :: u16) = wptr" using wptr by (simp add: unat_of_nat)
  have new: "sfx_ok ?buf (Suc J) \<lparr> sfx_name = dotted (l # ls), sfx_offset = of_nat wptr \<rparr>"
  proof -
    have "\<exists>nm w j. name_at ?buf wptr nm w j \<and> j \<le> Suc J \<and> map casefold nm = map casefold (dotted (l # ls))"
      using at nm(2) cf by blast
    then show ?thesis using wptr w16 by (simp add: sfx_ok_def)
  qed
  have exact: "?nm = dotted (l # ls) \<and> j = 0" if "\<forall>s \<in> set (suffix enc). off \<le> unat (sfx_offset s)"
  proof -
    have "\<forall>s \<in> set (suffix enc1). off \<le> unat (sfx_offset s)"
      using that sfx w16 wptr(3) by fastforce
    then show ?thesis using nm(4) e(6) by (simp add: dotted_Cons)
  qed
  have "s \<in> set (suffix enc) \<or> sfx_ok ?buf (Suc J) s" if "s \<in> set (suffix enc2)" for s
    using enc2 that sfx new by (auto simp: encoded_def)
  moreover have "take wptr (enc_buf enc2) = take wptr (enc_buf enc)"
  proof -
    have "take wptr (enc_buf enc2) = take wptr (take (wptr + 1 + ?n) (enc_buf enc2))" by (simp add: min_absorb1)
    then show ?thesis unfolding pre using pw by simp
  qed
  moreover have "wptr' \<le> wptr + length (dotted (l # ls)) + 2"
    using e(2) by (cases "ls = []") (auto simp: dotted_Cons)
  ultimately show ?thesis
    unfolding encoded_def using e at nm(2) cf exact at0 n(4) by (intro conjI exI [of _ ?nm] exI [of _ j]) auto
qed

lemma encode_loop_encodes:
  assumes "\<forall>l \<in> set ls. good_label l" "12 \<le> wptr" "off \<le> wptr"
    and "wptr + length (dotted ls) + (if ls = [] then 1 else 2) \<le> length (enc_buf enc)"
    and "wptr + length (dotted ls) + (if ls = [] then 1 else 2) \<le> 0x4000"
    and ok: "\<And>s. s \<in> set (suffix enc) \<Longrightarrow> unat (sfx_offset s) < off \<Longrightarrow> sfx_ok (take off (enc_buf enc)) J s"
  shows "\<exists>wptr' enc'. encode_loop enc off wptr (dotted ls) = Some (Some wptr', enc') \<and>
    encoded enc off J ls wptr wptr' enc'"
  using assms
proof (induction ls arbitrary: enc wptr)
  case Nil
  then show ?case using encoded_root [of wptr enc off J] by auto
next
  case (Cons l ls)
  have l: "good_label l" and ls: "\<forall>l \<in> set ls. good_label l" using Cons.prems by auto
  show ?case
  proof (cases "find_suffix (suffix enc) off (dotted (l # ls))")
    case (Some s)
    have "\<exists>enc'. encode_loop enc off wptr (dotted (l # ls)) = Some (Some (wptr + 2), enc') \<and>
      encoded enc off J (l # ls) wptr (wptr + 2) enc'"
      by (rule encoded_ptr [OF Some]) (use Cons.prems in auto)
    then show ?thesis by blast
  next
    case None
    define enc1 where
      "enc1 = (add_suffix enc (dotted (l # ls)) wptr)\<lparr> enc_buf := write_at (enc_buf enc) wptr (of_nat (length l) # l) \<rparr>"
    have n: "length l \<le> DNS_LABEL_MAXSTR" "unat (of_nat (length l) :: u8) = length l"
      using l by (auto simp: good_label_def DNS_LABEL_MAXSTR_def unat_of_nat)
    have room: "wptr + 1 + length l \<le> length (enc_buf enc)" using Cons.prems(4) by (simp add: dotted_Cons)
    have "encode_loop enc off wptr (dotted (l # ls)) = encode_loop enc1 off (wptr + 1 + length l) (dotted ls)"
      using None memchr_dotted [OF l, of ls] n room dotted_eq_Nil [OF Cons.prems(1)]
      by (subst encode_loop.simps)
        (simp add: Let_def poke_def add_suffix_def enc1_def dotted_Cons split: if_splits)
    moreover have "\<exists>wptr' enc'. encode_loop enc1 off (wptr + 1 + length l) (dotted ls) = Some (Some wptr', enc') \<and>
        encoded enc1 off J ls (wptr + 1 + length l) wptr' enc'"
    proof (rule Cons.IH [OF ls])
      fix s assume s: "s \<in> set (suffix enc1)" "unat (sfx_offset s) < off"
      have "unat (of_nat wptr :: u16) = wptr" using Cons.prems(5) by (simp add: unat_of_nat)
      then have "s \<in> set (suffix enc)"
        using s Cons.prems(3) by (auto simp: enc1_def add_suffix_def split: if_splits)
      then show "sfx_ok (take off (enc_buf enc1)) J s"
        using Cons.prems(6) s(2) Cons.prems(3) room by (simp add: enc1_def take_written)
    qed (use Cons.prems room in \<open>auto simp: enc1_def dotted_Cons split: if_splits\<close>)
    moreover have "encoded enc off J (l # ls) wptr wptr' enc'"
      if "encoded enc1 off J ls (wptr + 1 + length l) wptr' enc'" for wptr' enc'
      by (rule encoded_label [OF l _ _ _ room enc1_def that]) (use Cons.prems in auto)
    ultimately show ?thesis by auto
  qed
qed

text \<open>
  C15. A name that \<open>encode_name\<close> writes, compressed or not, is read back by \<open>decode_name\<close>: for a name of
  labels of 1 to 63 bytes, at an offset below 16384, when every suffix of the table stands in
  the packet before that offset and can be read with at most 16 jumps, the encoder returns the
  position behind the name, keeps the packet before it, and the decoder reads there the same name
  up to the case of letters (exactly the same when the table is empty) and stops at the
  position the encoder returned.  Every suffix of the new table stands in the new packet.
\<close>

theorem name_encode_decode:
  assumes "\<forall>l \<in> set ls. good_label l" "12 \<le> wptr" "wptr + length (dotted ls) + 2 \<le> 0x4000"
    and "wptr + length (dotted ls) + 2 \<le> length (enc_buf enc)"
    and "\<forall>s \<in> set (suffix enc). unat (sfx_offset s) < wptr \<and> sfx_ok (take wptr (enc_buf enc)) J s" "J \<le> 16"
    and "length (dotted ls) < nlen"
  shows "\<exists>wptr' enc' nm. encode_name enc wptr (Some (dotted ls)) = Some (Some wptr', enc') \<and>
    take wptr (enc_buf enc') = take wptr (enc_buf enc) \<and> length (enc_buf enc') = length (enc_buf enc) \<and>
    wptr' \<le> wptr + length (dotted ls) + 2 \<and>
    (\<forall>s \<in> set (suffix enc'). sfx_ok (take wptr' (enc_buf enc')) (Suc J) s) \<and>
    (\<forall>k \<ge> wptr'. decode_name (take k (enc_buf enc')) wptr nlen nlen = Some (int (length nm + 1), wptr', nm @ [0])) \<and>
    map casefold nm = map casefold (dotted ls) \<and> (suffix enc = [] \<longrightarrow> nm = dotted ls)"
proof -
  have "\<exists>wptr' enc'. encode_loop enc wptr wptr (dotted ls) = Some (Some wptr', enc') \<and>
      encoded enc wptr J ls wptr wptr' enc'"
    by (rule encode_loop_encodes) (use assms in auto)
  then obtain wptr' enc' where e: "encode_loop enc wptr wptr (dotted ls) = Some (Some wptr', enc')"
    "encoded enc wptr J ls wptr wptr' enc'" by blast
  have w: "wptr < wptr'" "wptr' \<le> wptr + length (dotted ls) + 2" "length (enc_buf enc') = length (enc_buf enc)"
    "take wptr (enc_buf enc') = take wptr (enc_buf enc)"
    "\<forall>s \<in> set (suffix enc'). s \<in> set (suffix enc) \<or> sfx_ok (take wptr' (enc_buf enc')) (Suc J) s"
    using e(2) by (auto simp: encoded_def split: if_splits)
  obtain nm j where nm: "name_at (take wptr' (enc_buf enc')) wptr nm (wptr' - wptr) j" "j \<le> Suc J"
    "map casefold nm = map casefold (dotted ls)"
    "(\<forall>s \<in> set (suffix enc). wptr \<le> unat (sfx_offset s)) \<longrightarrow> nm = dotted ls \<and> j = 0"
    using e(2) unfolding encoded_def by blast
  have len: "length nm = length (dotted ls)" using nm(3) map_eq_imp_length_eq by blast
  have "sfx_ok (take wptr' (enc_buf enc')) (Suc J) s" if "s \<in> set (suffix enc')" for s
  proof (cases "s \<in> set (suffix enc)")
    case True
    then have "sfx_ok (take wptr (enc_buf enc)) J s" using assms(5) by blast
    then show ?thesis
      using name_at_prefix [of wptr "enc_buf enc" _ _ _ _ "enc_buf enc'" wptr'] w(1,4)
      unfolding sfx_ok_def by (metis le_SucI less_imp_le)
  qed (use w(5) that in blast)
  moreover have "decode_name (take k (enc_buf enc')) wptr nlen nlen = Some (int (length nm + 1), wptr', nm @ [0])"
    if "k \<ge> wptr'" for k
  proof -
    have "name_at (take k (enc_buf enc')) wptr nm (wptr' - wptr) j"
      by (rule name_at_prefix [OF nm(1) refl that])
    then show ?thesis
      using name_loop_accepts [of "take k (enc_buf enc')" wptr nm "wptr' - wptr" j 0 nlen "[]" nlen wptr]
        nm(2) assms(6,7) len w(1) by (simp add: decode_name_def DNS_MAX_JMP_def)
  qed
  ultimately show ?thesis
    using e(1) w nm(3,4) by (intro exI [of _ wptr'] exI [of _ enc'] exI [of _ nm]) (auto simp: encode_name_def)
qed

theorem name_encode_decode_witness:
  "\<exists>wptr' enc'. encode_name \<lparr> enc_buf = replicate 64 0, enc_len = 12, suffix = [] \<rparr> 12 (Some (ascii ''a.bc'')) =
      Some (Some wptr', enc') \<and>
    decode_name (take 64 (enc_buf enc')) 12 256 256 = Some (5, wptr', ascii ''a.bc'' @ [0])"
proof -
  let ?ls = "[ascii ''a'', ascii ''bc'']"
  let ?e = "\<lparr> enc_buf = replicate 64 0, enc_len = 12, suffix = [] \<rparr>"
  have g: "\<forall>l \<in> set ?ls. good_label l" by (auto simp: good_label_def DNS_LABEL_MAXSTR_def)
  obtain wptr' enc' nm where r: "encode_name ?e 12 (Some (dotted ?ls)) = Some (Some wptr', enc')"
    "wptr' \<le> 12 + length (dotted ?ls) + 2"
    "\<forall>k \<ge> wptr'. decode_name (take k (enc_buf enc')) 12 256 256 = Some (int (length nm + 1), wptr', nm @ [0])"
    "suffix ?e = [] \<longrightarrow> nm = dotted ?ls"
    using name_encode_decode [of ?ls 12 ?e 0 256] g by auto
  have "wptr' \<le> 64" using r(2) by simp
  then show ?thesis using r by auto
qed

end
