(* ===== verification/Dns_Types.thy ===== *)
theory Dns_Types
  imports Dns_Name Inet
begin

text \<open>
  The data of \<open>src/src/dns_proto.h\<close>: header, question, resource record and message, the constants,
  the string tables of \<open>src/src/dns_proto.c\<close> and the name store of a message.  The type parameter
  of questions and records is the type of a string pointer: an index into the name store
  of the message for the records of a message, the string itself for a record given by a caller.
\<close>

section \<open>Constants\<close>

definition DNS_NAME_MAXSTR :: nat where "DNS_NAME_MAXSTR = 253"
definition DNS_HDR_LEN :: nat where "DNS_HDR_LEN = 12"
definition DNS_MAX_UDP :: nat where "DNS_MAX_UDP = 512"
definition DNS_MAX_PDUSIZE :: nat where "DNS_MAX_PDUSIZE = 2048"
definition DNS_MAX_QD :: nat where "DNS_MAX_QD = 1"
definition DNS_MAX_RR :: nat where "DNS_MAX_RR = 32"
definition DNS_MAX_TXT :: nat where "DNS_MAX_TXT = 32"
definition DNS_FAIL :: int where "DNS_FAIL = -1"

definition DNS_TYPE_A :: u16 where "DNS_TYPE_A = 1"
definition DNS_TYPE_NS :: u16 where "DNS_TYPE_NS = 2"
definition DNS_TYPE_CNAME :: u16 where "DNS_TYPE_CNAME = 5"
definition DNS_TYPE_SOA :: u16 where "DNS_TYPE_SOA = 6"
definition DNS_TYPE_PTR :: u16 where "DNS_TYPE_PTR = 12"
definition DNS_TYPE_HINFO :: u16 where "DNS_TYPE_HINFO = 13"
definition DNS_TYPE_MX :: u16 where "DNS_TYPE_MX = 15"
definition DNS_TYPE_TXT :: u16 where "DNS_TYPE_TXT = 16"
definition DNS_TYPE_AAAA :: u16 where "DNS_TYPE_AAAA = 28"
definition DNS_TYPE_SRV :: u16 where "DNS_TYPE_SRV = 33"
definition DNS_TYPE_OPT :: u16 where "DNS_TYPE_OPT = 41"
definition DNS_TYPE_ANY :: u16 where "DNS_TYPE_ANY = 255"

definition DNS_CLASS_IN :: u16 where "DNS_CLASS_IN = 1"
definition DNS_CLASS_CS :: u16 where "DNS_CLASS_CS = 2"
definition DNS_CLASS_CH :: u16 where "DNS_CLASS_CH = 3"
definition DNS_CLASS_HS :: u16 where "DNS_CLASS_HS = 4"
definition DNS_CLASS_ANY :: u16 where "DNS_CLASS_ANY = 255"

lemmas dns_type_defs = DNS_TYPE_A_def DNS_TYPE_NS_def DNS_TYPE_CNAME_def DNS_TYPE_SOA_def DNS_TYPE_PTR_def
  DNS_TYPE_HINFO_def DNS_TYPE_MX_def DNS_TYPE_TXT_def DNS_TYPE_AAAA_def DNS_TYPE_SRV_def DNS_TYPE_OPT_def
  DNS_TYPE_ANY_def

text \<open>The values of \<open>enum dns_location\<close>.\<close>

datatype dns_location =
  DNS_NONE | DNS_PDU | DNS_HDR | DNS_QD | DNS_AN | DNS_NS | DNS_AR | DNS_RR | DNS_RDATA | DNS_NAME
| DNS_A | DNS_TNS | DNS_CNAME | DNS_SOA | DNS_PTR | DNS_HINFO | DNS_MX | DNS_TXT | DNS_AAAA | DNS_SRV
| DNS_OPT | DNS_ANY

section \<open>Messages\<close>

record dns_hdr =
  hdr_id :: u16
  hdr_flags :: u16
  qd_count :: u16
  an_count :: u16
  ns_count :: u16
  ar_count :: u16

record 'p dns_qd =
  qname :: "'p option"
  qtype :: u16
  qclass :: u16

text \<open>
  The union \<open>rdata\<close>: the constructor is the member last written.  The strings of \<open>txt\<close> are a
  function of the index, of which the first \<open>num_str\<close> values count.
\<close>

datatype 'p dns_rdata =
  RD_raw
| RD_a bytes
| RD_ns "'p option"
| RD_cname "'p option"
| RD_soa "'p option" "'p option" u32 u32 u32 u32 u32
| RD_ptr "'p option"
| RD_hinfo "'p option" "'p option"
| RD_mx u16 "'p option"
| RD_txt nat "nat \<Rightarrow> 'p option"
| RD_aaaa bytes
| RD_srv u16 u16 u16 "'p option"
| RD_opt u16 u8 u8 bool u16

record 'p dns_rr =
  rr_name :: "'p option"
  rr_type :: u16
  rr_class :: u16
  rr_ttl :: u32
  rr_rdlen :: u16
  rr_rdata :: "'p dns_rdata"

text \<open>The arrays of a message have all their slots; the first \<open>an_len\<close>, ... of them are in use.\<close>

record dns_msg =
  msg_hdr :: dns_hdr
  names :: bytes
  names_len :: nat
  qd_len :: nat
  an_len :: nat
  ns_len :: nat
  ar_len :: nat
  msg_qd :: "nat dns_qd list"
  msg_an :: "nat dns_rr list"
  msg_ns :: "nat dns_rr list"
  msg_ar :: "nat dns_rr list"

definition dns_hdr_reset :: dns_hdr where
  "dns_hdr_reset = \<lparr> hdr_id = 0, hdr_flags = 0, qd_count = 0, an_count = 0, ns_count = 0, ar_count = 0 \<rparr>"

definition dns_hdr_init :: "dns_hdr \<Rightarrow> u16 \<Rightarrow> u16 \<Rightarrow> dns_hdr" where
  "dns_hdr_init hdr i flags = hdr\<lparr> hdr_id := i, hdr_flags := flags \<rparr>"

definition dns_msg_reset :: "dns_msg \<Rightarrow> dns_msg" where
  "dns_msg_reset msg = msg\<lparr> msg_hdr := dns_hdr_reset, names_len := 0, qd_len := 0, an_len := 0, ns_len := 0, ar_len := 0 \<rparr>"

definition dns_msg_init :: "dns_msg \<Rightarrow> u16 \<Rightarrow> u16 \<Rightarrow> dns_msg" where
  "dns_msg_init msg i flags = msg\<lparr> msg_hdr := dns_hdr_init (msg_hdr msg) i flags \<rparr>"

definition dns_cnt_rr :: "dns_msg \<Rightarrow> nat" where
  "dns_cnt_rr msg = an_len msg + ns_len msg + ar_len msg"

definition dns_get_rr :: "dns_msg \<Rightarrow> nat dns_rr option" where
  "dns_get_rr msg =
    (if an_len msg \<noteq> 0 then Some (msg_an msg ! 0)
     else if ns_len msg \<noteq> 0 then Some (msg_ns msg ! 0)
     else if ar_len msg \<noteq> 0 then Some (msg_ar msg ! 0)
     else None)"

subsection \<open>The name store\<close>

text \<open>\<open>len\<close> bytes of \<open>str\<close> are copied into the store; the result is the index of the copy or \<open>NULL\<close>.\<close>

definition msg_store_str :: "dns_msg \<Rightarrow> bytes \<Rightarrow> nat option \<times> dns_msg" where
  "msg_store_str msg str =
    (if length str > DNS_NAME_MAXSTR then (None, msg)
     else if names_len msg + length str + 1 > DNS_MAX_PDUSIZE then (None, msg)
     else (Some (names_len msg),
       msg\<lparr> names := write_at (names msg) (names_len msg) (str @ [0]), names_len := names_len msg + length str + 1 \<rparr>))"

text \<open>\<open>strlen\<close> stops at the first zero byte of the memory at the pointer.\<close>

definition msg_store_name :: "dns_msg \<Rightarrow> bytes option \<Rightarrow> nat option \<times> dns_msg" where
  "msg_store_name msg name =
    msg_store_str msg (case name of None \<Rightarrow> [] | Some s \<Rightarrow> takeWhile (\<lambda>c. c \<noteq> 0) s)"

text \<open>The three record sections.\<close>

datatype dns_sect = Sect_an | Sect_ns | Sect_ar

fun sect_base :: "dns_msg \<Rightarrow> dns_sect \<Rightarrow> nat dns_rr list" where
  "sect_base msg Sect_an = msg_an msg"
| "sect_base msg Sect_ns = msg_ns msg"
| "sect_base msg Sect_ar = msg_ar msg"

fun sect_count :: "dns_msg \<Rightarrow> dns_sect \<Rightarrow> nat" where
  "sect_count msg Sect_an = an_len msg"
| "sect_count msg Sect_ns = ns_len msg"
| "sect_count msg Sect_ar = ar_len msg"

fun set_slot :: "dns_msg \<Rightarrow> dns_sect \<Rightarrow> nat \<Rightarrow> nat dns_rr \<Rightarrow> dns_msg" where
  "set_slot msg Sect_an i rr = msg\<lparr> msg_an := (msg_an msg)[i := rr] \<rparr>"
| "set_slot msg Sect_ns i rr = msg\<lparr> msg_ns := (msg_ns msg)[i := rr] \<rparr>"
| "set_slot msg Sect_ar i rr = msg\<lparr> msg_ar := (msg_ar msg)[i := rr] \<rparr>"

fun inc_count :: "dns_msg \<Rightarrow> dns_sect \<Rightarrow> dns_msg" where
  "inc_count msg Sect_an = msg\<lparr> an_len := an_len msg + 1 \<rparr>"
| "inc_count msg Sect_ns = msg\<lparr> ns_len := ns_len msg + 1 \<rparr>"
| "inc_count msg Sect_ar = msg\<lparr> ar_len := ar_len msg + 1 \<rparr>"

fun sect_code :: "dns_sect \<Rightarrow> dns_location" where
  "sect_code Sect_an = DNS_AN"
| "sect_code Sect_ns = DNS_NS"
| "sect_code Sect_ar = DNS_AR"

section \<open>Names of codes\<close>

text \<open>
  The decimal text that \<open>int_tostr\<close> returns for a code without a name: codes are at most 16 bits,
  where \<open>int_tostr\<close> prints the digits.
\<close>

definition code_text :: "nat \<Rightarrow> bytes" where
  "code_text n = dec_digits n"

definition dns_class_tostr :: "u16 \<Rightarrow> bytes" where
  "dns_class_tostr code =
    (if code = 1 then ascii ''IN'' else if code = 3 then ascii ''CH'' else if code = 4 then ascii ''HS''
     else if code = 254 then ascii ''NONE'' else if code = 255 then ascii ''*'' else code_text (unat code))"

definition dns_type_tostr :: "u16 \<Rightarrow> bytes" where
  "dns_type_tostr code =
    (if code = 1 then ascii ''A'' else if code = 2 then ascii ''NS'' else if code = 5 then ascii ''CNAME''
     else if code = 6 then ascii ''SOA'' else if code = 12 then ascii ''PTR'' else if code = 15 then ascii ''MX''
     else if code = 16 then ascii ''TXT'' else if code = 28 then ascii ''AAAA'' else if code = 33 then ascii ''SRV''
     else if code = 41 then ascii ''OPT'' else if code = 252 then ascii ''AXFR'' else if code = 255 then ascii ''ANY''
     else code_text (unat code))"

fun dec_code_tostr :: "dns_location \<Rightarrow> bytes" where
  "dec_code_tostr DNS_NONE = ascii ''NONE''"
| "dec_code_tostr DNS_PDU = ascii ''PDU''"
| "dec_code_tostr DNS_HDR = ascii ''HDR''"
| "dec_code_tostr DNS_QD = ascii ''Question''"
| "dec_code_tostr DNS_AN = ascii ''Answer''"
| "dec_code_tostr DNS_NS = ascii ''Authority''"
| "dec_code_tostr DNS_AR = ascii ''Additional''"
| "dec_code_tostr DNS_RR = ascii ''Record''"
| "dec_code_tostr DNS_RDATA = ascii ''RDATA''"
| "dec_code_tostr DNS_NAME = ascii ''Name''"
| "dec_code_tostr DNS_A = ascii ''A''"
| "dec_code_tostr DNS_TNS = ascii ''NS''"
| "dec_code_tostr DNS_CNAME = ascii ''CNAME''"
| "dec_code_tostr DNS_SOA = ascii ''SOA''"
| "dec_code_tostr DNS_PTR = ascii ''PTR''"
| "dec_code_tostr DNS_HINFO = ascii ''HINFO''"
| "dec_code_tostr DNS_MX = ascii ''MX''"
| "dec_code_tostr DNS_TXT = ascii ''TXT''"
| "dec_code_tostr DNS_AAAA = ascii ''AAAA''"
| "dec_code_tostr DNS_SRV = ascii ''SRV''"
| "dec_code_tostr DNS_OPT = ascii ''OPT''"
| "dec_code_tostr DNS_ANY = ascii ''ANY''"

definition dns_ec_strs :: "string list" where
  "dns_ec_strs = [''Okay'', ''header len'', ''Invalid compression pointer (outside range)'',
    ''Invalid compression pointer (loop detected)'', ''Name length bigger than pkt size'',
    ''Name bigger than buf size'', ''Name missing null char'', ''Truncated packet'', ''RDATA len mismatch'',
    ''field not allowed'', ''No space in buffer'', ''Invalid opcode'', ''Invalid rcode'']"

definition DNS_EC_ISROW :: int where "DNS_EC_ISROW = 10000"

definition dns_ec_tostr :: "int \<Rightarrow> bytes" where
  "dns_ec_tostr ec =
    (let ec = (if ec < 0 then - ec else ec)
     in if ec < int (length dns_ec_strs) then ascii (dns_ec_strs ! nat ec)
        else code_text (nat (if ec \<ge> DNS_EC_ISROW then ec - DNS_EC_ISROW + 1 else ec)))"

definition opcode_tostr :: "nat \<Rightarrow> bytes" where
  "opcode_tostr opcode =
    (if opcode = 0 then ascii ''QUERY'' else if opcode = 1 then ascii ''IQUERY'' else if opcode = 2 then ascii ''STATUS''
     else if opcode = 4 then ascii ''NOTIFY'' else if opcode = 5 then ascii ''UPDATE'' else code_text opcode)"

definition rcode_strs :: "string list" where
  "rcode_strs = [''NoError'', ''FormErr'', ''ServFail'', ''NXDomain'', ''NotImp'', ''Refused'', ''YXDomain'', ''YXRRSet'',
    ''NXRRSet'', ''NotAuth'', ''NotZone'']"

definition rcode_tostr :: "nat \<Rightarrow> bytes" where
  "rcode_tostr rcode =
    (if rcode < length rcode_strs then ascii (rcode_strs ! rcode)
     else if rcode \<ge> 16 \<and> rcode < 23 then
       ascii ([''BADSIG'', ''BADKEYA'', ''BADTIME'', ''BADMODE'', ''BADNAMEA'', ''BADALGA'', ''BADTRUC''] ! (rcode - 16))
     else code_text rcode)"

text \<open>The conversions from text, \<open>strcasecmp\<close> as equality after \<open>casefold\<close>.\<close>

definition same_case :: "bytes \<Rightarrow> string \<Rightarrow> bool" where
  "same_case str lit \<longleftrightarrow> map casefold str = map casefold (ascii lit)"

definition dns_get_type :: "bytes \<Rightarrow> u16" where
  "dns_get_type str =
    (if same_case str ''A'' then DNS_TYPE_A else if same_case str ''NS'' then DNS_TYPE_NS
     else if same_case str ''CNAME'' then DNS_TYPE_CNAME else if same_case str ''SOA'' then DNS_TYPE_SOA
     else if same_case str ''PTR'' then DNS_TYPE_PTR else if same_case str ''HINFO'' then DNS_TYPE_HINFO
     else if same_case str ''MX'' then DNS_TYPE_MX else if same_case str ''TXT'' then DNS_TYPE_TXT
     else if same_case str ''AAAA'' then DNS_TYPE_AAAA else if same_case str ''SRV'' then DNS_TYPE_SRV else 0)"

definition dns_get_class :: "bytes \<Rightarrow> u16" where
  "dns_get_class str =
    (if same_case str ''IN'' then DNS_CLASS_IN else if same_case str ''CS'' then DNS_CLASS_CS
     else if same_case str ''CH'' then DNS_CLASS_CH else if same_case str ''HS'' then DNS_CLASS_HS
     else if same_case str ''ANY'' then DNS_CLASS_ANY else 0)"

definition dns_get_flag :: "bytes \<Rightarrow> u16" where
  "dns_get_flag str =
    (if same_case str ''CD'' then 0x0800 else if same_case str ''RD'' then 0x0100
     else if same_case str ''AD'' then 0x0020 else 0)"

definition dns_sc_tostr :: "nat \<Rightarrow> bytes" where
  "dns_sc_tostr sc =
    (if sc = 1 then ascii ''Answer'' else if sc = 2 then ascii ''Authority'' else if sc = 3 then ascii ''Additional''
     else code_text sc)"

section \<open>The name store keeps what it holds\<close>

definition store_ok :: "dns_msg \<Rightarrow> bool" where
  "store_ok msg \<longleftrightarrow> length (names msg) = DNS_MAX_PDUSIZE \<and> names_len msg \<le> DNS_MAX_PDUSIZE"

lemma msg_store_str_ok:
  assumes "store_ok msg" "msg_store_str msg str = (p, msg')"
  shows "store_ok msg'" "names_len msg \<le> names_len msg'"
    "take (names_len msg) (names msg') = take (names_len msg) (names msg)"
  using assms by (auto simp: msg_store_str_def store_ok_def take_write_at split: if_splits)

lemma msg_store_name_ok:
  assumes "store_ok msg" "msg_store_name msg name = (p, msg')"
  shows "store_ok msg'" "names_len msg \<le> names_len msg'"
    "take (names_len msg) (names msg') = take (names_len msg) (names msg)"
  using msg_store_str_ok [OF assms(1)] assms(2) unfolding msg_store_name_def by blast+

text \<open>A string that was stored reads back, and stays in place when more is stored behind it.\<close>

lemma msg_store_str_reads:
  assumes "store_ok msg" "msg_store_str msg str = (Some p, msg')" "0 \<notin> set str"
    and "take (names_len msg') mem = take (names_len msg') (names msg')"
  shows "cstr mem p = str"
proof -
  have p: "p = names_len msg" "names_len msg' = p + length str + 1" "p + length str + 1 \<le> DNS_MAX_PDUSIZE"
    "names msg' = write_at (names msg) p (str @ [0])"
    using assms(2) by (auto simp: msg_store_str_def split: if_splits)
  have l: "length (names msg) = DNS_MAX_PDUSIZE" using assms(1) by (simp add: store_ok_def)
  let ?k = "p + length str + 1"
  have t: "take ?k mem = take p (names msg) @ str @ [0]"
    using assms(4) p l take_write_at_exact [of p "names msg" "str @ [0]"] by simp
  have "drop p mem = drop p (take ?k mem @ drop ?k mem)" by (simp only: append_take_drop_id)
  also have "\<dots> = str @ 0 # drop ?k mem" unfolding t using p l by simp
  finally have "drop p mem = str @ 0 # drop ?k mem" .
  then show ?thesis using takeWhile_nonzero [OF assms(3)] by (simp add: cstr_def)
qed

end
