(* ===== verification/Dns_Decode.thy ===== *)
theory Dns_Decode
  imports Dns_Types
begin

text \<open>
  The message decoder of \<open>src/src/dns_proto.c\<close>: \<open>dns_rr_decode\<close> with one definition for each
  record type, the question and section loops, \<open>decode_msg\<close> and its two callers, \<open>dns_msg_decode\<close>
  (\<open>load_msg\<close>) and \<open>dns_validate\<close> (\<open>need_emsg\<close>).  The code of a record is written as a sequence of
  steps over the decoder, the message, the record slot and the scratch buffer \<open>dec->msg\<close>; a step
  ends with a value, with an early return of the whole function, or with \<open>None\<close>, an access
  outside the packet or outside the scratch buffer.
\<close>

section \<open>Decoder state\<close>

definition DEC_ERR :: int where "DEC_ERR = -1"
definition DNS_MAX_EMSG :: nat where "DNS_MAX_EMSG = 10"
definition DNS_MSG_SIZE :: nat where "DNS_MSG_SIZE = 4 * 256 + 100"

record dns_err =
  err_group :: dns_location
  err_field :: dns_location
  err_ec :: int

record dns_dec =
  pkt_buf :: bytes
  dec_off :: nat
  errs :: "dns_err list"
  need_emsg :: bool
  load_msg :: bool
  got_edns :: bool
  dnssec_ok :: bool
  udp_size :: nat
  ext_rcode :: u8
  edns_ver :: u8
  emsg :: sbuf
  dec_hdr :: dns_hdr

text \<open>The text is the output of the format; \<open>vsnprintf\<close> stores what fits, with a terminator.\<close>

definition dns_wmsg :: "dns_dec \<Rightarrow> bytes \<Rightarrow> int \<times> dns_dec" where
  "dns_wmsg dec t =
    (let buf = emsg dec;
         avail = sbuf_rem buf;
         buf = (if avail = 0 then buf else buf\<lparr> sb_mem := write_at (sb_mem buf) (sb_ptr buf) (take (avail - 1) t @ [0]) \<rparr>)
     in if length t \<ge> avail then (DNS_FAIL, dec\<lparr> emsg := buf \<rparr>)
        else (0, dec\<lparr> emsg := buf\<lparr> sb_ptr := sb_ptr buf + length t \<rparr> \<rparr>))"

definition dns_dec_err :: "dns_dec \<Rightarrow> dns_location \<Rightarrow> dns_location \<Rightarrow> int \<Rightarrow> int \<times> dns_dec" where
  "dns_dec_err dec grp fld ec =
    (if length (errs dec) \<ge> DNS_MAX_EMSG then (DEC_ERR, dec)
     else (0, dec\<lparr> errs := errs dec @ [\<lparr> err_group = grp, err_field = fld, err_ec = ec \<rparr>] \<rparr>))"

definition dns_err_tostr :: "dns_err \<Rightarrow> bytes" where
  "dns_err_tostr err =
    dec_code_tostr (err_group err) @ ascii '' '' @ dec_code_tostr (err_field err) @ ascii '' '' @ dns_ec_tostr (err_ec err)"

text \<open>\<open>%04x\<close>\<close>

definition hex4 :: "u16 \<Rightarrow> bytes" where
  "hex4 w = replicate (4 - length (hex_digits (unat w))) 48 @ hex_digits (unat w)"

definition dns_dec_genmsg :: "dns_dec \<Rightarrow> int \<times> dns_dec" where
  "dns_dec_genmsg dec =
    (if errs dec = [] then
       if sbuf_rem (emsg dec) = 0 then (0, snd (dns_wmsg dec (ascii ''[ERROR] Missing PDU desc'')))
       else (0, dec)
     else
       let dec = snd (dns_wmsg dec (ascii ''[ERROR] ''));
           dec = (if length (pkt_buf dec) \<ge> DNS_HDR_LEN
             then snd (dns_wmsg dec (ascii ''ID 0x'' @ hex4 (hdr_id (dec_hdr dec)) @ ascii '' '')) else dec);
           dec = foldl (\<lambda>dec err. snd (dns_wmsg dec (ascii ''/ '' @ dns_err_tostr err))) dec (rev (errs dec));
           dec = snd (dns_wmsg dec [10])
       in (DEC_ERR, dec))"

definition dns_hdr_decode :: "dns_hdr \<Rightarrow> bytes \<Rightarrow> (int \<times> dns_hdr) option" where
  "dns_hdr_decode hdr buf =
    (if length buf < DNS_HDR_LEN then Some (DNS_EHDRLEN, hdr)
     else do {
       i \<leftarrow> rdu16 buf 0;
       flags \<leftarrow> rdu16 buf 2;
       qd \<leftarrow> rdu16 buf 4;
       an \<leftarrow> rdu16 buf 6;
       ns \<leftarrow> rdu16 buf 8;
       ar \<leftarrow> rdu16 buf 10;
       Some (0, \<lparr> hdr_id = i, hdr_flags = flags, qd_count = qd, an_count = an, ns_count = ns, ar_count = ar \<rparr>)
     })"

section \<open>Steps of a record\<close>

text \<open>
  \<open>scr\<close> is what has been stored in \<open>dec->msg\<close> before \<open>wptr\<close>, without cutting what \<open>snprintf\<close> cuts,
  so that \<open>wptr\<close> is \<open>length scr\<close>; \<open>desc\<close> is the text of \<open>rdata_desc\<close>.
\<close>

record rr_state =
  st_dec :: dns_dec
  st_msg :: dns_msg
  st_rr :: "nat dns_rr"
  scr :: bytes
  desc :: bytes

type_synonym 'a step = "rr_state \<Rightarrow> ((int + 'a) \<times> rr_state) option"

definition ret :: "'a \<Rightarrow> 'a step" where
  "ret x = (\<lambda>s. Some (Inr x, s))"

definition andthen :: "'a step \<Rightarrow> ('a \<Rightarrow> 'b step) \<Rightarrow> 'b step" where
  "andthen m f = (\<lambda>s. case m s of None \<Rightarrow> None | Some (Inl rc, s') \<Rightarrow> Some (Inl rc, s') | Some (Inr x, s') \<Rightarrow> f x s')"

definition seq :: "'a step \<Rightarrow> 'b step \<Rightarrow> 'b step" where
  "seq m n = andthen m (\<lambda>_. n)"

definition leave :: "int \<Rightarrow> 'a step" where
  "leave rc = (\<lambda>s. Some (Inl rc, s))"

definition leave_err :: "dns_location \<Rightarrow> dns_location \<Rightarrow> int \<Rightarrow> 'a step" where
  "leave_err grp fld ec = (\<lambda>s. case dns_dec_err (st_dec s) grp fld ec of (rc, d) \<Rightarrow> Some (Inl rc, s\<lparr> st_dec := d \<rparr>))"

definition guard :: "bool \<Rightarrow> int step \<Rightarrow> unit step" where
  "guard c m = (if c then (\<lambda>s. map_option (\<lambda>(r, s'). (Inl (case r of Inl rc \<Rightarrow> rc | Inr rc \<Rightarrow> rc), s')) (m s)) else ret ())"

definition skip :: "nat \<Rightarrow> unit step" where
  "skip n = (\<lambda>s. Some (Inr (), s\<lparr> st_dec := (st_dec s)\<lparr> dec_off := dec_off (st_dec s) + n \<rparr> \<rparr>))"

text \<open>Reads of the packet at \<open>dec->offset + k\<close>.\<close>

definition rd_mem :: "nat \<Rightarrow> nat \<Rightarrow> bytes step" where
  "rd_mem k n = (\<lambda>s. map_option (\<lambda>bs. (Inr bs, s)) (rdmem (pkt_buf (st_dec s)) (dec_off (st_dec s) + k) n))"

definition rd_u16 :: "nat \<Rightarrow> u16 step" where
  "rd_u16 k = andthen (rd_mem k 2) (\<lambda>bs. ret (dec_u16 bs 0))"

definition rd_u32 :: "nat \<Rightarrow> u32 step" where
  "rd_u32 k = andthen (rd_mem k 4) (\<lambda>bs. ret (dec_u32 bs 0))"

definition rd_len :: "nat step" where
  "rd_len = andthen (rd_mem 0 1) (\<lambda>bs. seq (skip 1) (ret (unat (bs ! 0))))"

definition offset :: "nat step" where
  "offset = (\<lambda>s. Some (Inr (dec_off (st_dec s)), s))"

definition describing :: "unit step \<Rightarrow> unit step" where
  "describing m = (\<lambda>s. if need_emsg (st_dec s) then m s else Some (Inr (), s))"

definition loading :: "unit step \<Rightarrow> unit step" where
  "loading m = (\<lambda>s. if load_msg (st_dec s) then m s else Some (Inr (), s))"

text \<open>
  \<open>snprintf(wptr, wend - wptr, ...)\<close> and \<open>wptr += rc\<close>: with \<open>wptr\<close> behind \<open>wend\<close> the size wraps to
  a huge one and the store is outside the buffer.
\<close>

definition sn :: "bytes \<Rightarrow> unit step" where
  "sn t = (\<lambda>s. if length (scr s) > DNS_MSG_SIZE then None else Some (Inr (), s\<lparr> scr := scr s @ t \<rparr>))"

text \<open>
  \<open>dns_add_str\<close>, \<open>fix_label\<close> and the call of \<open>decode_name\<close> at \<open>wptr\<close>: the result is the length and
  the bytes stored there, without the terminator.
\<close>

definition dns_add_str :: "nat \<Rightarrow> bytes \<Rightarrow> int" where
  "dns_add_str len str = (if length str + 1 > len then DNS_FAIL else int (length str))"

definition fix_label :: "int \<Rightarrow> nat \<Rightarrow> bytes \<Rightarrow> int \<times> bytes" where
  "fix_label rc room out =
    (if rc \<noteq> 1 then (if rc > 0 then rc - 1 else rc, butlast out)
     else (dns_add_str room [46], [46]))"

definition rr_decode_name :: "dns_location \<Rightarrow> (int \<times> bytes) step" where
  "rr_decode_name fld = (\<lambda>s.
    let w = length (scr s); nlen = sz_sub DNS_MSG_SIZE w
    in case decode_name (pkt_buf (st_dec s)) (dec_off (st_dec s)) nlen (DNS_MSG_SIZE - w) of
         None \<Rightarrow> None
       | Some (rc, off, out) \<Rightarrow>
           let s = s\<lparr> st_dec := (st_dec s)\<lparr> dec_off := off \<rparr> \<rparr>
           in if rc < 0 then leave_err DNS_RR fld (- rc) s
              else case fix_label rc nlen out of (rc, name) \<Rightarrow>
                if rc < 0 then leave rc s else ret (rc, name) s)"

text \<open>Copying a string into the message and a field of the record; a full store ends the function.\<close>

definition store_rd :: "bytes \<Rightarrow> (nat option \<Rightarrow> nat dns_rdata) \<Rightarrow> unit step" where
  "store_rd str mk = loading (\<lambda>s.
    case msg_store_str (st_msg s) str of (p, m) \<Rightarrow>
      let s = s\<lparr> st_msg := m, st_rr := (st_rr s)\<lparr> rr_rdata := mk p \<rparr> \<rparr>
      in if p = None then leave DNS_FAIL s else ret () s)"

definition store_rdname :: "bytes \<Rightarrow> (nat option \<Rightarrow> nat dns_rdata) \<Rightarrow> unit step" where
  "store_rdname name mk = store_rd (takeWhile (\<lambda>c. c \<noteq> 0) name) mk"

definition store_rrname :: "bytes \<Rightarrow> unit step" where
  "store_rrname name = loading (\<lambda>s.
    case msg_store_name (st_msg s) (Some name) of (p, m) \<Rightarrow>
      let s = s\<lparr> st_msg := m, st_rr := (st_rr s)\<lparr> rr_name := p \<rparr> \<rparr>
      in if p = None then leave DNS_FAIL s else ret () s)"

definition set_rd :: "(nat dns_rdata \<Rightarrow> nat dns_rdata) \<Rightarrow> unit step" where
  "set_rd f = loading (\<lambda>s. ret () (s\<lparr> st_rr := (st_rr s)\<lparr> rr_rdata := f (rr_rdata (st_rr s)) \<rparr> \<rparr>))"

definition add_scr :: "bytes \<Rightarrow> unit step" where
  "add_scr t = (\<lambda>s. ret () (s\<lparr> scr := scr s @ t \<rparr>))"

text \<open>\<open>rdata_desc = rdata_str\<close>, the string from index \<open>p0\<close> of the scratch buffer on.\<close>

definition set_desc :: "nat \<Rightarrow> unit step" where
  "set_desc p0 = (\<lambda>s. ret () (s\<lparr> desc := takeWhile (\<lambda>c. c \<noteq> 0) (drop p0 (take (DNS_MSG_SIZE - 1) (scr s))) \<rparr>))"

section \<open>Record data\<close>

text \<open>\<open>p0\<close> is the position of \<open>rdata_str\<close>; each definition ends with the value of \<open>rc\<close>.\<close>

definition describe_ip4 :: "unit step" where
  "describe_ip4 = describing (andthen (rd_mem 0 4) (\<lambda>addr s.
    case ip4_str_encode addr (replicate 16 0) 0 (sz_sub DNS_MSG_SIZE (length (scr s))) of (n, t) \<Rightarrow>
      ret () (s\<lparr> desc := (if n = 0 then ascii ''???'' else take n t) \<rparr>)))"

definition rd_A :: "int \<Rightarrow> nat \<Rightarrow> int step" where
  "rd_A rc rdlen =
    seq (guard (rdlen \<noteq> 4) (leave_err DNS_RR DNS_A DNS_ERDATALEN))
    (seq (loading (andthen (rd_mem 0 4) (\<lambda>bs. set_rd (\<lambda>_. RD_a bs))))
    (seq describe_ip4
    (seq (skip 4) (ret rc))))"

definition rd_name1 :: "dns_location \<Rightarrow> nat \<Rightarrow> (nat option \<Rightarrow> nat dns_rdata) \<Rightarrow> int step" where
  "rd_name1 fld p0 mk =
    andthen (rr_decode_name fld) (\<lambda>(rc, name).
    seq (store_rdname name mk)
    (seq (add_scr name)
    (seq (set_desc p0) (ret rc))))"

definition rd_NS :: "nat \<Rightarrow> int step" where
  "rd_NS p0 = rd_name1 DNS_TNS p0 RD_ns"

definition rd_CNAME :: "nat \<Rightarrow> int step" where
  "rd_CNAME p0 = rd_name1 DNS_CNAME p0 RD_cname"

definition rd_PTR :: "nat \<Rightarrow> int step" where
  "rd_PTR p0 = rd_name1 DNS_CNAME p0 RD_ptr"

definition soa_rname :: "nat option \<Rightarrow> nat dns_rdata \<Rightarrow> nat dns_rdata" where
  "soa_rname p r = (case r of RD_soa m _ a b c d e \<Rightarrow> RD_soa m p a b c d e | _ \<Rightarrow> RD_soa None p 0 0 0 0 0)"

definition soa_vals :: "u32 list \<Rightarrow> nat dns_rdata \<Rightarrow> nat dns_rdata" where
  "soa_vals v r = (case r of RD_soa m p _ _ _ _ _ \<Rightarrow> RD_soa m p (v ! 0) (v ! 1) (v ! 2) (v ! 3) (v ! 4) | _ \<Rightarrow> r)"

text \<open>A full store is noticed for \<open>MNAME\<close> only: the check after \<open>RNAME\<close> tests \<open>mname\<close> again.\<close>

definition store_rname :: "bytes \<Rightarrow> unit step" where
  "store_rname name = loading (\<lambda>s.
    case msg_store_name (st_msg s) (Some name) of (p, m) \<Rightarrow>
      ret () (s\<lparr> st_msg := m, st_rr := (st_rr s)\<lparr> rr_rdata := soa_rname p (rr_rdata (st_rr s)) \<rparr> \<rparr>))"

definition soa_text :: "u32 list \<Rightarrow> bytes" where
  "soa_text v = concat (map2 (\<lambda>n x. ascii '' '' @ ascii n @ ascii ''='' @ dec_digits (unat x))
    [''serial'', ''refresh'', ''retry'', ''expire'', ''min_ttl''] v)"

definition rd_SOA :: "nat \<Rightarrow> nat \<Rightarrow> int step" where
  "rd_SOA p0 rd_end =
    seq (describing (sn (ascii ''MNAME='')))
    (andthen (rr_decode_name DNS_SOA) (\<lambda>(_, mname).
    seq (store_rdname mname (\<lambda>p. RD_soa p None 0 0 0 0 0))
    (seq (add_scr mname)
    (seq (describing (sn (ascii '' RNAME='')))
    (andthen (rr_decode_name DNS_SOA) (\<lambda>(rc, rname).
    seq (store_rname rname)
    (seq (add_scr rname)
    (andthen offset (\<lambda>off.
    seq (guard (off + 20 > rd_end) (leave_err DNS_RR DNS_SOA DNS_ERDATALEN))
    (andthen (rd_mem 0 20) (\<lambda>bs.
    let v = map (\<lambda>i. dec_u32 bs (4 * i)) [0, 1, 2, 3, 4] in
    seq (skip 20)
    (seq (describing (sn (soa_text v)))
    (seq (set_rd (soa_vals v))
    (seq (set_desc p0) (ret rc)))))))))))))))"

definition quoted :: "bytes \<Rightarrow> bytes" where
  "quoted str = takeWhile (\<lambda>c. c \<noteq> 0) str"

definition hinfo_os :: "nat option \<Rightarrow> nat dns_rdata \<Rightarrow> nat dns_rdata" where
  "hinfo_os p r = (case r of RD_hinfo c _ \<Rightarrow> RD_hinfo c p | _ \<Rightarrow> RD_hinfo None p)"

definition store_os :: "bytes \<Rightarrow> unit step" where
  "store_os str = loading (\<lambda>s.
    case msg_store_str (st_msg s) str of (p, m) \<Rightarrow>
      let s = s\<lparr> st_msg := m, st_rr := (st_rr s)\<lparr> rr_rdata := hinfo_os p (rr_rdata (st_rr s)) \<rparr> \<rparr>
      in if p = None then leave DNS_FAIL s else ret () s)"

definition rd_HINFO :: "int \<Rightarrow> nat \<Rightarrow> nat \<Rightarrow> nat \<Rightarrow> int step" where
  "rd_HINFO rc p0 rdlen rd_end =
    seq (guard (rdlen < 2) (leave_err DNS_RR DNS_HINFO DNS_ERDATALEN))
    (andthen rd_len (\<lambda>len. andthen offset (\<lambda>off.
    seq (guard (off + len > rd_end) (leave_err DNS_RR DNS_HINFO DNS_ERDATALEN))
    (andthen (rd_mem 0 len) (\<lambda>cpu.
    seq (describing (sn (ascii '' cpu='' @ quoted cpu)))
    (seq (store_rd cpu (\<lambda>p. RD_hinfo p None))
    (seq (skip len)
    (andthen offset (\<lambda>off.
    seq (guard (off \<ge> rd_end) (leave_err DNS_RR DNS_HINFO DNS_ERDATALEN))
    (andthen rd_len (\<lambda>len. andthen offset (\<lambda>off.
    seq (guard (off + len > rd_end) (leave_err DNS_RR DNS_HINFO DNS_ERDATALEN))
    (andthen (rd_mem 0 len) (\<lambda>os.
    seq (describing (sn (ascii '' os-str='' @ quoted os)))
    (seq (store_os os)
    (seq (skip len)
    (seq (set_desc p0) (ret rc))))))))))))))))))"

definition rd_MX :: "nat \<Rightarrow> nat \<Rightarrow> int step" where
  "rd_MX p0 rdlen =
    seq (guard (rdlen < 3) (leave_err DNS_RR DNS_MX DNS_ERDATALEN))
    (andthen (rd_u16 0) (\<lambda>pref.
    seq (skip 2)
    (seq (describing (sn (ascii ''pref '' @ dec_digits (unat pref) @ ascii '' '')))
    (rd_name1 DNS_MX p0 (RD_mx pref)))))"

text \<open>
  \<open>num_str\<close> is not reset: for a slot whose union was last written through another member, \<open>un\<close>
  gives the number that its memory reads as.
\<close>

definition txt_view :: "(nat dns_rdata \<Rightarrow> nat) \<Rightarrow> nat dns_rdata \<Rightarrow> nat \<times> (nat \<Rightarrow> nat option)" where
  "txt_view un r = (case r of RD_txt n f \<Rightarrow> (n, f) | _ \<Rightarrow> (un r, \<lambda>_. None))"

definition store_txt :: "(nat dns_rdata \<Rightarrow> nat) \<Rightarrow> bytes \<Rightarrow> unit step" where
  "store_txt un str = loading (\<lambda>s.
    case txt_view un (rr_rdata (st_rr s)) of (n, f) \<Rightarrow>
      if n \<ge> DNS_MAX_TXT then leave DNS_FAIL s
      else case msg_store_str (st_msg s) str of (p, m) \<Rightarrow>
        if p = None then leave DNS_FAIL (s\<lparr> st_msg := m, st_rr := (st_rr s)\<lparr> rr_rdata := RD_txt n (f(n := p)) \<rparr> \<rparr>)
        else ret () (s\<lparr> st_msg := m, st_rr := (st_rr s)\<lparr> rr_rdata := RD_txt (n + 1) (f(n := p)) \<rparr> \<rparr>))"

definition txt_item :: "(nat dns_rdata \<Rightarrow> nat) \<Rightarrow> nat \<Rightarrow> unit step" where
  "txt_item un rd_end =
    andthen rd_len (\<lambda>len. andthen offset (\<lambda>off.
    seq (guard (off + len > rd_end) (leave_err DNS_RR DNS_TXT DNS_ERDATALEN))
    (andthen (rd_mem 0 len) (\<lambda>str.
    seq (describing (sn (ascii '' txt='' @ quoted str)))
    (seq (store_txt un str)
    (skip len))))))"

text \<open>Every item consumes its length byte, so the loop over the strings ends.\<close>

lemma rd_len_off: "rd_len s = Some (Inr n, s') \<Longrightarrow> dec_off (st_dec s') = dec_off (st_dec s) + 1"
  by (auto simp: rd_len_def rd_mem_def andthen_def seq_def skip_def ret_def split: option.splits)

lemma txt_item_off:
  assumes "txt_item un rd_end s = Some (Inr (), s')"
  shows "dec_off (st_dec s) < dec_off (st_dec s')"
proof -
  obtain n s1 where 1: "rd_len s = Some (Inr n, s1)"
    using assms by (auto simp: txt_item_def andthen_def split: option.splits prod.splits sum.splits)
  have desc: "dec_off (st_dec t') = dec_off (st_dec t)" if "describing (sn x) t = Some (Inr (), t')" for x t t'
    using that by (auto simp: describing_def sn_def split: if_splits)
  have stor: "dec_off (st_dec t') = dec_off (st_dec t)" if "store_txt un x t = Some (Inr (), t')" for x t t'
    using that by (auto simp: store_txt_def loading_def leave_def ret_def split: if_splits prod.splits)
  show ?thesis
    using assms rd_len_off [OF 1] 1
    by (auto simp: txt_item_def andthen_def seq_def offset_def guard_def ret_def rd_mem_def leave_err_def skip_def
        split: option.splits prod.splits sum.splits if_splits dest!: desc stor)
qed

function txt_loop :: "(nat dns_rdata \<Rightarrow> nat) \<Rightarrow> nat \<Rightarrow> unit step" where
  "txt_loop un rd_end s =
    (if dec_off (st_dec s) < rd_end then
       case txt_item un rd_end s of
         None \<Rightarrow> None
       | Some (Inl rc, s') \<Rightarrow> Some (Inl rc, s')
       | Some (Inr _, s') \<Rightarrow> txt_loop un rd_end s'
     else Some (Inr (), s))"
  by pat_completeness auto
termination
proof (relation "measure (\<lambda>(un, rd_end, s). rd_end - dec_off (st_dec s))", goal_cases)
  case (2 un rd_end s)
  then show ?case using txt_item_off [of un rd_end s] by (auto intro: diff_less_mono2)
qed simp

declare txt_loop.simps [simp del]

definition rd_TXT :: "(nat dns_rdata \<Rightarrow> nat) \<Rightarrow> int \<Rightarrow> nat \<Rightarrow> nat \<Rightarrow> int step" where
  "rd_TXT un rc p0 rd_end = seq (txt_loop un rd_end) (seq (set_desc p0) (ret rc))"

definition rd_AAAA :: "int \<Rightarrow> nat \<Rightarrow> int step" where
  "rd_AAAA rc rdlen =
    seq (guard (rdlen \<noteq> 16) (leave_err DNS_RR DNS_AAAA DNS_ERDATALEN))
    (seq (loading (andthen (rd_mem 0 16) (\<lambda>bs. set_rd (\<lambda>_. RD_aaaa bs))))
    (seq describe_ip4
    (seq (skip 16) (ret rc))))"

definition rd_SRV :: "nat \<Rightarrow> nat \<Rightarrow> int step" where
  "rd_SRV p0 rdlen =
    seq (guard (rdlen < 7) (leave_err DNS_RR DNS_SRV DNS_ERDATALEN))
    (andthen (rd_u16 0) (\<lambda>prior. andthen (rd_u16 2) (\<lambda>weight. andthen (rd_u16 4) (\<lambda>port.
    seq (skip 6)
    (seq (describing (sn (ascii ''Priority '' @ dec_digits (unat prior) @ ascii '' Weight '' @ dec_digits (unat weight) @
      ascii '' port '' @ dec_digits (unat port) @ ascii '' '')))
    (rd_name1 DNS_SRV p0 (RD_srv prior weight port)))))))"

definition opt_text :: "u16 \<Rightarrow> u8 \<Rightarrow> u8 \<Rightarrow> bool \<Rightarrow> bytes" where
  "opt_text sz rcode ver dobit = ascii ''UDP-size:'' @ dec_digits (unat sz) @ ascii '' Ext-RCODE:'' @ dec_digits (unat rcode) @
    ascii '' EDNS0:'' @ dec_digits (unat ver) @ ascii '' DNSEC-OK:'' @ (if dobit then [49] else [48])"

text \<open>The result is the length that \<open>snprintf\<close> returns.\<close>

definition rd_OPT :: "dns_sect \<Rightarrow> nat \<Rightarrow> nat \<Rightarrow> bytes \<Rightarrow> u16 \<Rightarrow> u32 \<Rightarrow> int step" where
  "rd_OPT sect p0 rd_end name cls ttl =
    seq (guard (sect_code sect \<noteq> DNS_AR) (leave_err DNS_RR DNS_OPT DNS_EMSGFMT))
    (let rcode = ucast (drop_bit 24 ttl AND 0xff); ver = ucast (drop_bit 16 ttl AND 0xff);
         dobit = (ttl AND 0x8000 \<noteq> 0); zbits = ucast (ttl AND 0x7fff); t = opt_text cls rcode ver dobit
     in
    seq (set_rd (\<lambda>_. RD_opt cls rcode ver dobit zbits))
    (seq (loading (\<lambda>s. ret () (s\<lparr> st_rr := (st_rr s)\<lparr> rr_class := 0 \<rparr> \<rparr>)))
    (seq (store_rrname name)
    (seq (sn t)
    (seq (\<lambda>s. ret () (s\<lparr> st_dec := (st_dec s)\<lparr> got_edns := True, udp_size := unat cls, ext_rcode := rcode,
      edns_ver := ver, dnssec_ok := dobit, dec_off := rd_end \<rparr> \<rparr>))
    (seq (set_desc p0) (ret (int (length t)))))))))"

definition rd_data :: "(nat dns_rdata \<Rightarrow> nat) \<Rightarrow> dns_sect \<Rightarrow> int \<Rightarrow> nat \<Rightarrow> nat \<Rightarrow> nat \<Rightarrow> bytes \<Rightarrow> u16 \<Rightarrow> u16 \<Rightarrow> u32 \<Rightarrow> int step" where
  "rd_data un sect rc p0 rdlen rd_end name type cls ttl =
    (if type = DNS_TYPE_A then rd_A rc rdlen
     else if type = DNS_TYPE_NS then rd_NS p0
     else if type = DNS_TYPE_CNAME then rd_CNAME p0
     else if type = DNS_TYPE_SOA then rd_SOA p0 rd_end
     else if type = DNS_TYPE_PTR then rd_PTR p0
     else if type = DNS_TYPE_HINFO then rd_HINFO rc p0 rdlen rd_end
     else if type = DNS_TYPE_MX then rd_MX p0 rdlen
     else if type = DNS_TYPE_TXT then rd_TXT un rc p0 rd_end
     else if type = DNS_TYPE_AAAA then rd_AAAA rc rdlen
     else if type = DNS_TYPE_SRV then rd_SRV p0 rdlen
     else if type = DNS_TYPE_OPT then rd_OPT sect p0 rd_end name cls ttl
     else seq (skip rdlen) (ret rc))"

section \<open>Records, questions and sections\<close>

definition str_def :: "bytes \<Rightarrow> bytes \<Rightarrow> bytes" where
  "str_def str dflt = (if str \<noteq> [] then str else dflt)"

text \<open>The line that describes a record; \<open>rc\<close> becomes the result of \<open>dns_wmsg\<close>.\<close>

definition describe_rr :: "dns_sect \<Rightarrow> bytes \<Rightarrow> u16 \<Rightarrow> u16 \<Rightarrow> u32 \<Rightarrow> int \<Rightarrow> int step" where
  "describe_rr sect name type cls ttl rc = (\<lambda>s.
    if need_emsg (st_dec s) then
      let nm = str_def (if type = DNS_TYPE_OPT \<and> take 1 name = [46] then ascii ''<Root>'' else name) (ascii ''<null>'');
          t = ascii ''  '' @ dec_code_tostr (sect_code sect) @ ascii '': '' @ nm @ ascii '' '' @
            (if type = DNS_TYPE_OPT then [] else dec_digits (unat ttl) @ ascii '' '' @ dns_class_tostr cls @ ascii '' '') @
            dns_type_tostr type @ ascii '' '' @ desc s @ [10];
          (rc, d) = dns_wmsg (st_dec s) t
      in ret rc (s\<lparr> st_dec := d \<rparr>)
    else ret rc s)"

definition rr_body :: "(nat dns_rdata \<Rightarrow> nat) \<Rightarrow> dns_sect \<Rightarrow> int step" where
  "rr_body un sect =
    andthen (rr_decode_name DNS_NAME) (\<lambda>(rc, name).
    seq (add_scr (name @ [0]))
    (let cname = takeWhile (\<lambda>c. c \<noteq> 0) name; p0 = length name + 1 in
    seq (store_rrname name)
    (andthen offset (\<lambda>off. \<lambda>s0.
      (seq (guard (off + 10 > length (pkt_buf (st_dec s0))) (leave_err DNS_RR DNS_HDR DNS_ETRUNC))
      (andthen (rd_u16 0) (\<lambda>type. andthen (rd_u16 2) (\<lambda>cls. andthen (rd_u32 4) (\<lambda>ttl. andthen (rd_u16 8) (\<lambda>rdlen.
      seq (skip 10)
      (seq (loading (\<lambda>s. ret () (s\<lparr> st_rr := (st_rr s)\<lparr> rr_type := type, rr_class := cls, rr_ttl := ttl, rr_rdlen := rdlen \<rparr> \<rparr>)))
      (let rd_end = (off + 10 + unat rdlen) mod 65536 in
      seq (guard (rd_end > length (pkt_buf (st_dec s0))) (leave_err DNS_RR DNS_RDATA DNS_ETRUNC))
      (andthen (rd_data un sect rc p0 (unat rdlen) rd_end cname type cls ttl) (\<lambda>rc.
      andthen offset (\<lambda>off'.
      seq (guard (off' \<noteq> rd_end) (leave_err DNS_RR DNS_RDATA DNS_ERDATALEN))
      (describe_rr sect cname type cls ttl rc)))))))))))) s0))))"

definition dns_rr_decode :: "(nat dns_rdata \<Rightarrow> nat) \<Rightarrow> dns_sect \<Rightarrow> dns_dec \<Rightarrow> dns_msg \<Rightarrow> (int \<times> dns_dec \<times> dns_msg) option" where
  "dns_rr_decode un sect dec msg =
    (let i = sect_count msg sect
     in if load_msg dec \<and> i \<ge> DNS_MAX_RR then Some (DNS_FAIL, dec, msg)
     else if load_msg dec \<and> i \<ge> length (sect_base msg sect) then None
     else
       case rr_body un sect \<lparr> st_dec = dec, st_msg = msg, st_rr = sect_base msg sect ! i, scr = [], desc = [] \<rparr> of
         None \<Rightarrow> None
       | Some (r, s) \<Rightarrow>
           let msg = (if load_msg dec then set_slot (st_msg s) sect i (st_rr s) else st_msg s)
           in case r of
                Inl rc \<Rightarrow> Some (rc, st_dec s, msg)
              | Inr rc \<Rightarrow> Some (rc, st_dec s, if load_msg dec then inc_count msg sect else msg))"

text \<open>Here \<open>wptr_end - wptr\<close> is the size of the whole scratch buffer.\<close>

definition dns_qd_decode :: "dns_dec \<Rightarrow> dns_msg \<Rightarrow> (int \<times> dns_dec \<times> dns_msg) option" where
  "dns_qd_decode dec msg =
    (if load_msg dec \<and> qd_len msg \<ge> DNS_MAX_QD then Some (DNS_FAIL, dec, msg)
     else if load_msg dec \<and> qd_len msg \<ge> length (msg_qd msg) then None
     else do {
       (ec, off, out) \<leftarrow> decode_name (pkt_buf dec) (dec_off dec) DNS_MSG_SIZE DNS_MSG_SIZE;
       let dec = dec\<lparr> dec_off := off \<rparr>;
       if ec < 0 then (case dns_dec_err dec DNS_QD DNS_NAME ec of (rc, d) \<Rightarrow> Some (rc, d, msg))
       else if off + 4 > length (pkt_buf dec) then
         (case dns_dec_err dec DNS_QD DNS_HDR DNS_ETRUNC of (rc, d) \<Rightarrow> Some (rc, d, msg))
       else do {
         type \<leftarrow> rdu16 (pkt_buf dec) off;
         cls \<leftarrow> rdu16 (pkt_buf dec) (off + 2);
         let dec = dec\<lparr> dec_off := off + 4 \<rparr>;
         let (stored, msg) =
           (if load_msg dec then
              case msg_store_name msg (Some out) of (p, m) \<Rightarrow>
                let i = qd_len msg; old = msg_qd m ! i
                in if p = None then (False, m\<lparr> msg_qd := (msg_qd m)[i := old\<lparr> qname := None \<rparr>] \<rparr>)
                   else (True, m\<lparr> msg_qd := (msg_qd m)[i := \<lparr> qname = p, qtype = type, qclass = cls \<rparr>], qd_len := i + 1 \<rparr>)
            else (True, msg));
         if \<not> stored then Some (DNS_FAIL, dec, msg)
         else if need_emsg dec then
           case dns_wmsg dec (ascii ''  Question: '' @ str_def (takeWhile (\<lambda>c. c \<noteq> 0) out) (ascii ''<null>'') @ ascii '' '' @
             dns_class_tostr cls @ ascii '' '' @ dns_type_tostr type @ [10]) of (rc, d) \<Rightarrow> Some (rc, d, msg)
         else Some (ec, dec, msg)
       }
     })"

fun dns_sect_decode :: "(nat dns_rdata \<Rightarrow> nat) \<Rightarrow> nat \<Rightarrow> nat \<Rightarrow> dns_sect \<Rightarrow> dns_dec \<Rightarrow> dns_msg \<Rightarrow> (int \<times> dns_dec \<times> dns_msg) option" where
  "dns_sect_decode un 0 i sect dec msg = Some (0, dec, msg)"
| "dns_sect_decode un (Suc n) i sect dec msg = do {
    (rc, dec, msg) \<leftarrow> dns_rr_decode un sect dec msg;
    if rc \<noteq> 0 then (case dns_dec_err dec DNS_PDU (sect_code sect) (int i + DNS_EC_ISROW) of (rc, d) \<Rightarrow> Some (rc, d, msg))
    else dns_sect_decode un n (i + 1) sect dec msg
  }"

fun qd_loop :: "nat \<Rightarrow> nat \<Rightarrow> dns_dec \<Rightarrow> dns_msg \<Rightarrow> (int \<times> dns_dec \<times> dns_msg) option" where
  "qd_loop 0 i dec msg = Some (0, dec, msg)"
| "qd_loop (Suc n) i dec msg = do {
    (rc, dec, msg) \<leftarrow> dns_qd_decode dec msg;
    if rc \<noteq> 0 then (case dns_dec_err dec DNS_PDU DNS_QD (int i + DNS_EC_ISROW) of (rc, d) \<Rightarrow> Some (rc, d, msg))
    else qd_loop n (i + 1) dec msg
  }"

section \<open>Messages\<close>

definition add_flag :: "u16 \<Rightarrow> u16 \<Rightarrow> string \<Rightarrow> sbuf \<Rightarrow> sbuf" where
  "add_flag flags msk t buf = (if flags AND msk \<noteq> 0 then snd (sbuf_puticm buf 32 (ascii t)) else buf)"

definition hdr_opcode :: "u16 \<Rightarrow> nat" where
  "hdr_opcode flags = unat (drop_bit 11 (flags AND 0x7800))"

definition hdr_rcode :: "u16 \<Rightarrow> nat" where
  "hdr_rcode flags = unat (flags AND 0x000F)"

definition hdr_flags_text :: "u16 \<Rightarrow> sbuf" where
  "hdr_flags_text flags =
    (let buf = sbuf_init (Some (replicate 100 0));
         bad = (hdr_opcode flags = 3 \<or> hdr_opcode flags > 5)
     in if flags AND 0x8000 \<noteq> 0 then
          let buf = add_flag flags 0x0400 ''AS:1'' buf;
              buf = add_flag flags 0x0200 ''TC:1'' buf;
              buf = add_flag flags 0x0100 ''RD:1'' buf;
              buf = add_flag flags 0x0080 ''RA:1'' buf;
              buf = snd (sbuf_puticm buf 32 (ascii ''RCODE:''));
              buf = snd (sbuf_puts buf (Some (rcode_tostr (hdr_rcode flags))));
              buf = (if bad then snd (sbuf_puticm buf 32 (ascii ''bad-opcode'')) else buf)
          in if hdr_rcode flags > 10 then snd (sbuf_puticm buf 32 (ascii ''bad-rcode'')) else buf
        else
          let buf = add_flag flags 0x0200 ''TC:1'' buf;
              buf = add_flag flags 0x0100 ''RD:1'' buf;
              buf = add_flag flags 0x0800 ''CD:1'' buf;
              buf = add_flag flags 0x0020 ''AD:1'' buf
          in if bad then snd (sbuf_puticm buf 32 (ascii ''bad-opcode'')) else buf)"

definition decode_hdr :: "dns_dec \<Rightarrow> dns_msg \<Rightarrow> (int \<times> dns_dec \<times> dns_msg) option" where
  "decode_hdr dec msg =
    map_option (\<lambda>(rc, hdr).
       let msg = msg\<lparr> msg_hdr := hdr \<rparr>
       in if rc \<noteq> 0 then (case dns_dec_err dec DNS_PDU DNS_HDR rc of (rc, d) \<Rightarrow> (rc, d, msg))
       else
         let dec = dec\<lparr> dec_off := dec_off dec + DNS_HDR_LEN \<rparr>
         in if \<not> need_emsg dec then (0, dec, msg)
         else
           let dec = dec\<lparr> dec_hdr := hdr \<rparr>;
               flags = hdr_flags hdr;
               qr = (flags AND 0x8000 \<noteq> 0);
               opcode = hdr_opcode flags;
               buf = hdr_flags_text flags;
               dec = (if qr then (if hdr_rcode flags > 10 then snd (dns_dec_err dec DNS_PDU DNS_HDR DNS_ERCODE) else dec)
                 else (if opcode = 3 \<or> opcode > 5 then snd (dns_dec_err dec DNS_PDU DNS_HDR DNS_EOPCODE) else dec));
               t = ascii ''['' @ (if qr then ascii ''RESPONSE'' else ascii ''QUERY'') @ ascii ''] ID 0x'' @ hex4 (hdr_id hdr) @
                 ascii '' QR:'' @ (if qr then [49] else [48]) @ ascii '' OPCODE:'' @ opcode_tostr opcode @ ascii '' '' @
                 sbuf_text buf @ [10]
           in case dns_wmsg dec t of (rc, d) \<Rightarrow> (rc, d, msg))
      (dns_hdr_decode (msg_hdr msg) (pkt_buf dec))"

definition decode_qd :: "dns_dec \<Rightarrow> dns_msg \<Rightarrow> (int \<times> dns_dec \<times> dns_msg) option" where
  "decode_qd dec msg = qd_loop (unat (qd_count (msg_hdr msg))) 0 dec msg"

definition decode_an :: "(nat dns_rdata \<Rightarrow> nat) \<Rightarrow> dns_dec \<Rightarrow> dns_msg \<Rightarrow> (int \<times> dns_dec \<times> dns_msg) option" where
  "decode_an un dec msg = dns_sect_decode un (unat (an_count (msg_hdr msg))) 0 Sect_an dec msg"

definition decode_ns :: "(nat dns_rdata \<Rightarrow> nat) \<Rightarrow> dns_dec \<Rightarrow> dns_msg \<Rightarrow> (int \<times> dns_dec \<times> dns_msg) option" where
  "decode_ns un dec msg = dns_sect_decode un (unat (ns_count (msg_hdr msg))) 0 Sect_ns dec msg"

definition decode_ar :: "(nat dns_rdata \<Rightarrow> nat) \<Rightarrow> dns_dec \<Rightarrow> dns_msg \<Rightarrow> (int \<times> dns_dec \<times> dns_msg) option" where
  "decode_ar un dec msg = dns_sect_decode un (unat (ar_count (msg_hdr msg))) 0 Sect_ar dec msg"

text \<open>\<open>if ((rc = f(dec, msg))) return rc;\<close>\<close>

definition chain :: "(int \<times> dns_dec \<times> dns_msg) option \<Rightarrow> (dns_dec \<Rightarrow> dns_msg \<Rightarrow> (int \<times> dns_dec \<times> dns_msg) option) \<Rightarrow>
    (int \<times> dns_dec \<times> dns_msg) option" where
  "chain r f = (case r of None \<Rightarrow> None | Some (rc, dec, msg) \<Rightarrow> if rc \<noteq> 0 then Some (rc, dec, msg) else f dec msg)"

definition check_size :: "dns_dec \<Rightarrow> dns_msg \<Rightarrow> (int \<times> dns_dec \<times> dns_msg) option" where
  "check_size dec msg =
    (if need_emsg dec \<and> length (pkt_buf dec) > udp_size dec then
       case dns_wmsg dec (ascii ''UDP message: packet-length '' @ dec_digits (length (pkt_buf dec)) @ ascii '' > max size '' @
         dec_digits (udp_size dec) @ [10]) of (rc, d) \<Rightarrow> Some (rc, d, msg)
     else Some (0, dec, msg))"

definition decode_msg :: "(nat dns_rdata \<Rightarrow> nat) \<Rightarrow> dns_dec \<Rightarrow> dns_msg \<Rightarrow> (int \<times> dns_dec \<times> dns_msg) option" where
  "decode_msg un dec msg =
    chain (chain (chain (chain (chain (decode_hdr dec (dns_msg_reset msg)) decode_qd) (decode_an un)) (decode_ns un))
      (decode_ar un)) check_size"

definition dec_init :: "bytes \<Rightarrow> bool \<Rightarrow> sbuf \<Rightarrow> dns_dec" where
  "dec_init buf emsg_mode out = \<lparr> pkt_buf = buf, dec_off = 0, errs = [], need_emsg = emsg_mode, load_msg = \<not> emsg_mode,
    got_edns = False, dnssec_ok = False, udp_size = DNS_MAX_UDP, ext_rcode = 0, edns_ver = 0, emsg = out,
    dec_hdr = dns_hdr_reset \<rparr>"

definition rr_zero :: "'p dns_rr" where
  "rr_zero = \<lparr> rr_name = None, rr_type = 0, rr_class = 0, rr_ttl = 0, rr_rdlen = 0, rr_rdata = RD_raw \<rparr>"

definition msg_zero :: dns_msg where
  "msg_zero = \<lparr> msg_hdr = dns_hdr_reset, names = replicate DNS_MAX_PDUSIZE 0, names_len = 0, qd_len = 0, an_len = 0,
    ns_len = 0, ar_len = 0, msg_qd = replicate DNS_MAX_QD \<lparr> qname = None, qtype = 0, qclass = 0 \<rparr>,
    msg_an = replicate DNS_MAX_RR rr_zero, msg_ns = replicate DNS_MAX_RR rr_zero, msg_ar = replicate DNS_MAX_RR rr_zero \<rparr>"

text \<open>The result of \<open>dns_validate\<close> is its return value and the text in \<open>emsg\<close>.\<close>

definition dns_validate :: "bytes \<Rightarrow> bytes option \<Rightarrow> (int \<times> sbuf) option" where
  "dns_validate buf mem = do {
    let out = sbuf_init (map_option (\<lambda>m. m[0 := 0]) mem);
    (rc, dec, _) \<leftarrow> decode_msg (\<lambda>_. 0) (dec_init buf True out) msg_zero;
    let (ec, dec) = dns_dec_genmsg dec;
    Some (if ec \<noteq> 0 \<and> rc = 0 then ec else rc, emsg dec)
  }"

definition dns_msg_decode :: "(nat dns_rdata \<Rightarrow> nat) \<Rightarrow> dns_msg \<Rightarrow> bytes \<Rightarrow> (int \<times> dns_msg) option" where
  "dns_msg_decode un msg buf = do {
    (rc, _, msg) \<leftarrow> decode_msg un (dec_init buf False (sbuf_init None)) msg;
    Some (rc, msg)
  }"

end
