(* ===== verification/Dns_Safety.thy ===== *)
theory Dns_Safety
  imports Dns_Decode
begin

text \<open>
  What the message decoder guarantees: a small calculus of triples for the steps of a record, with
  which the memory safety of \<open>dns_rr_decode\<close>, its effect on the message and its return values are
  proved once for all record types; then the consequences for whole messages.
\<close>

section \<open>Triples\<close>

text \<open>
  From a state of \<open>P\<close> the step ends with a value and \<open>Q\<close>, or leaves the function and \<open>E\<close> holds;
  with \<open>ok\<close> it also makes no access out of bounds.
\<close>

definition trip :: "bool \<Rightarrow> (rr_state \<Rightarrow> bool) \<Rightarrow> 'a step \<Rightarrow> ('a \<Rightarrow> rr_state \<Rightarrow> bool) \<Rightarrow> (int \<Rightarrow> rr_state \<Rightarrow> bool) \<Rightarrow> bool" where
  "trip ok P m Q E \<longleftrightarrow> (\<forall>s. P s \<longrightarrow>
    (case m s of None \<Rightarrow> \<not> ok | Some (Inr x, s') \<Rightarrow> Q x s' | Some (Inl rc, s') \<Rightarrow> E rc s'))"

lemma trip_ret: "(\<And>s. P s \<Longrightarrow> Q x s) \<Longrightarrow> trip ok P (ret x) Q E"
  by (simp add: trip_def ret_def)

lemma trip_andthen:
  assumes "trip ok P m R E" "\<And>x. trip ok (R x) (f x) Q E"
  shows "trip ok P (andthen m f) Q E"
  unfolding trip_def
proof (intro allI impI)
  fix s assume "P s"
  then have 1: "case m s of None \<Rightarrow> \<not> ok | Some (Inr x, s') \<Rightarrow> R x s' | Some (Inl rc, s') \<Rightarrow> E rc s'"
    using assms(1) by (simp add: trip_def)
  have 2: "R x t \<Longrightarrow> case f x t of None \<Rightarrow> \<not> ok | Some (Inr y, s') \<Rightarrow> Q y s' | Some (Inl rc, s') \<Rightarrow> E rc s'" for x t
    using assms(2) by (simp add: trip_def)
  show "case andthen m f s of None \<Rightarrow> \<not> ok | Some (Inr x, s') \<Rightarrow> Q x s' | Some (Inl rc, s') \<Rightarrow> E rc s'"
  proof (cases "m s")
    case (Some p)
    obtain r t where p: "p = (r, t)" by fastforce
    then show ?thesis using 1 2 Some by (cases r) (simp_all add: andthen_def)
  qed (use 1 in \<open>simp add: andthen_def\<close>)
qed

lemma trip_seq: "trip ok P m (\<lambda>_. R) E \<Longrightarrow> trip ok R n Q E \<Longrightarrow> trip ok P (seq m n) Q E"
  unfolding seq_def by (rule trip_andthen)

lemma trip_pure: "(c \<Longrightarrow> trip ok P m Q E) \<Longrightarrow> trip ok (\<lambda>s. c \<and> P s) m Q E"
  by (auto simp: trip_def)

lemma trip_ex: "(\<And>x. trip ok (P x) m Q E) \<Longrightarrow> trip ok (\<lambda>s. \<exists>x. P x s) m Q E"
  by (auto simp: trip_def)

lemma trip_post: "trip ok P m Q E \<Longrightarrow> (\<And>x s. Q x s \<Longrightarrow> Q' x s) \<Longrightarrow> trip ok P m Q' E"
  by (fastforce simp: trip_def split: option.splits prod.splits sum.splits)

section \<open>The steps while a message is loaded\<close>

text \<open>
  The state of the loading mode: only the name store of the message grows, and what it held stays.
\<close>

definition base :: "bytes \<Rightarrow> dns_msg \<Rightarrow> rr_state \<Rightarrow> bool" where
  "base pkt msg s \<longleftrightarrow> pkt_buf (st_dec s) = pkt \<and> \<not> need_emsg (st_dec s) \<and> load_msg (st_dec s) \<and>
    length (errs (st_dec s)) \<le> DNS_MAX_EMSG \<and> store_ok (st_msg s) \<and>
    st_msg s = msg\<lparr> names := names (st_msg s), names_len := names_len (st_msg s) \<rparr> \<and>
    names_len msg \<le> names_len (st_msg s) \<and> take (names_len msg) (names (st_msg s)) = take (names_len msg) (names msg)"

definition at :: "bytes \<Rightarrow> dns_msg \<Rightarrow> nat \<Rightarrow> nat \<Rightarrow> rr_state \<Rightarrow> bool" where
  "at pkt msg off w s \<longleftrightarrow> base pkt msg s \<and> dec_off (st_dec s) = off \<and> length (scr s) = w"

definition left :: "bytes \<Rightarrow> dns_msg \<Rightarrow> int \<Rightarrow> rr_state \<Rightarrow> bool" where
  "left pkt msg rc s \<longleftrightarrow> base pkt msg s \<and> (rc = 0 \<or> rc = DNS_FAIL)"

lemma base_store:
  assumes "base pkt msg s" "msg_store_str (st_msg s) str = (p, m)"
  shows "base pkt msg (s\<lparr> st_msg := m \<rparr>)"
proof -
  have ok: "store_ok (st_msg s)" using assms(1) by (simp add: base_def)
  have m: "m = (st_msg s)\<lparr> names := names m, names_len := names_len m \<rparr>"
    using assms(2) by (auto simp: msg_store_str_def split: if_splits)
  note st = msg_store_str_ok [OF ok assms(2)]
  have "take (names_len msg) (names m) = take (names_len msg) (take (names_len (st_msg s)) (names m))"
    using assms(1) by (simp add: base_def min_absorb1)
  also have "\<dots> = take (names_len msg) (names (st_msg s))"
    unfolding st(3) using assms(1) by (simp add: base_def min_absorb1)
  finally have t: "take (names_len msg) (names m) = take (names_len msg) (names msg)"
    using assms(1) by (simp add: base_def)
  have s: "st_msg s = msg\<lparr> names := names (st_msg s), names_len := names_len (st_msg s) \<rparr>"
    using assms(1) by (simp add: base_def)
  have "m = msg\<lparr> names := names m, names_len := names_len m \<rparr>"
    by (subst m, subst s) simp
  then show ?thesis using assms(1) st t by (auto simp: base_def)
qed

lemma base_rr [simp]: "base pkt msg (s\<lparr> st_rr := r \<rparr>) = base pkt msg s"
  "base pkt msg (s\<lparr> scr := t \<rparr>) = base pkt msg s" "base pkt msg (s\<lparr> desc := t \<rparr>) = base pkt msg s"
  by (simp_all add: base_def)

lemma base_off [simp]: "base pkt msg (s\<lparr> st_dec := (st_dec s)\<lparr> dec_off := off \<rparr> \<rparr>) = base pkt msg s"
  by (simp add: base_def)

lemma trip_skip: "trip ok (at pkt msg off w) (skip n) (\<lambda>_. at pkt msg (off + n) w) E"
  by (simp add: trip_def skip_def at_def)

lemma trip_rd_mem:
  "(ok \<Longrightarrow> off + k + n \<le> length pkt) \<Longrightarrow>
   trip ok (at pkt msg off w) (rd_mem k n) (\<lambda>bs s. length bs = n \<and> at pkt msg off w s) E"
  by (auto simp: trip_def rd_mem_def at_def base_def rdmem_def)

lemma trip_rd_u16: "(ok \<Longrightarrow> off + k + 2 \<le> length pkt) \<Longrightarrow>
   trip ok (at pkt msg off w) (rd_u16 k) (\<lambda>x s. (off + k + 2 \<le> length pkt \<longrightarrow> x = dec_u16 pkt (off + k)) \<and> at pkt msg off w s) E"
  by (auto simp: trip_def rd_u16_def andthen_def ret_def rd_mem_def at_def base_def rdmem_def dec_u16_def segment_def)

lemma trip_rd_u32: "(ok \<Longrightarrow> off + k + 4 \<le> length pkt) \<Longrightarrow>
   trip ok (at pkt msg off w) (rd_u32 k) (\<lambda>_. at pkt msg off w) E"
  by (auto simp: trip_def rd_u32_def andthen_def ret_def rd_mem_def at_def base_def rdmem_def)

lemma trip_rd_len: "(ok \<Longrightarrow> off + 1 \<le> length pkt) \<Longrightarrow>
   trip ok (at pkt msg off w) rd_len (\<lambda>n. at pkt msg (off + 1) w) E"
  by (auto simp: trip_def rd_len_def andthen_def seq_def ret_def skip_def rd_mem_def at_def rdmem_def base_def)

lemma trip_offset: "trip ok (at pkt msg off w) offset (\<lambda>x s. x = off \<and> at pkt msg off w s) E"
  by (simp add: trip_def offset_def at_def)

lemma trip_leave_err: "trip ok (at pkt msg off w) (leave_err g f ec) Q (left pkt msg)"
  by (auto simp: trip_def leave_err_def dns_dec_err_def at_def left_def base_def DEC_ERR_def DNS_FAIL_def DNS_MAX_EMSG_def)

lemma trip_guard:
  "trip ok (at pkt msg off w) (guard c (leave_err g f ec)) (\<lambda>_ s. \<not> c \<and> at pkt msg off w s) (left pkt msg)"
  by (auto simp: trip_def guard_def ret_def leave_err_def dns_dec_err_def at_def left_def base_def DEC_ERR_def
      DNS_FAIL_def DNS_MAX_EMSG_def)

lemma trip_describing: "trip ok (at pkt msg off w) (describing m) (\<lambda>_. at pkt msg off w) E"
  by (simp add: trip_def describing_def at_def base_def)

lemma trip_loading: "trip ok (at pkt msg off w) m (\<lambda>_. at pkt msg off w) E \<Longrightarrow>
   trip ok (at pkt msg off w) (loading m) (\<lambda>_. at pkt msg off w) E"
  by (simp add: trip_def loading_def at_def base_def)

lemma trip_set_rd: "trip ok (at pkt msg off w) (set_rd f) (\<lambda>_. at pkt msg off w) E"
  by (simp add: trip_def set_rd_def loading_def ret_def at_def)

lemma trip_add_scr: "trip ok (at pkt msg off w) (add_scr t) (\<lambda>_. at pkt msg off (w + length t)) E"
  by (simp add: trip_def add_scr_def ret_def at_def)

lemma trip_set_desc: "trip ok (at pkt msg off w) (set_desc p) (\<lambda>_. at pkt msg off w) E"
  by (simp add: trip_def set_desc_def ret_def at_def)

lemma trip_sn: "(ok \<Longrightarrow> w \<le> DNS_MSG_SIZE) \<Longrightarrow>
   trip ok (at pkt msg off w) (sn t) (\<lambda>_. at pkt msg off (w + length t)) E"
  by (auto simp: trip_def sn_def at_def)

lemma trip_store_rd: "trip ok (at pkt msg off w) (store_rd str mk) (\<lambda>_. at pkt msg off w) (left pkt msg)"
  by (auto simp: trip_def store_rd_def loading_def leave_def ret_def at_def left_def Let_def
      split: prod.splits dest: base_store)

lemma trip_store_rdname: "trip ok (at pkt msg off w) (store_rdname str mk) (\<lambda>_. at pkt msg off w) (left pkt msg)"
  unfolding store_rdname_def by (rule trip_store_rd)

lemma trip_store_rrname: "trip ok (at pkt msg off w) (store_rrname str) (\<lambda>_. at pkt msg off w) (left pkt msg)"
  by (auto simp: trip_def store_rrname_def msg_store_name_def loading_def leave_def ret_def at_def left_def Let_def
      split: prod.splits dest: base_store)

lemma trip_store_rname: "trip ok (at pkt msg off w) (store_rname str) (\<lambda>_. at pkt msg off w) (left pkt msg)"
  by (auto simp: trip_def store_rname_def msg_store_name_def loading_def leave_def ret_def at_def left_def Let_def
      split: prod.splits dest: base_store)

lemma trip_store_os: "trip ok (at pkt msg off w) (store_os str) (\<lambda>_. at pkt msg off w) (left pkt msg)"
  by (auto simp: trip_def store_os_def loading_def leave_def ret_def at_def left_def Let_def
      split: prod.splits dest: base_store)

lemma trip_store_txt: "trip ok (at pkt msg off w) (store_txt un str) (\<lambda>_. at pkt msg off w) (left pkt msg)"
  by (auto simp: trip_def store_txt_def loading_def leave_def ret_def at_def left_def Let_def
      split: prod.splits dest: base_store)

text \<open>A decoded name has at least one byte (the root is written as a dot) and leaves room for its terminator.\<close>

lemma trip_decode_name:
  assumes "w \<le> DNS_MSG_SIZE"
  shows "trip ok (at pkt msg off w) (rr_decode_name fld)
    (\<lambda>(rc, name) s. (0 < rc \<and> w + length name + 1 \<le> DNS_MSG_SIZE) \<and>
      (\<exists>off'. (\<exists>out. decode_name pkt off (DNS_MSG_SIZE - w) (DNS_MSG_SIZE - w) = Some (int (length out), off', out)) \<and>
        at pkt msg off' w s))
    (left pkt msg)"
  unfolding trip_def
proof (intro allI impI)
  fix s assume s: "at pkt msg off w s"
  let ?n = "DNS_MSG_SIZE - w"
  have n: "sz_sub DNS_MSG_SIZE w = ?n" using assms by (simp add: sz_sub_nowrap DNS_MSG_SIZE_def)
  obtain rc off' out where d: "decode_name pkt off ?n ?n = Some (rc, off', out)" "length out \<le> ?n"
    "0 < rc \<longrightarrow> rc = int (length out)" "rc \<noteq> 0"
    using name_loop_safe [of "[]" ?n ?n 0 off off pkt] by (auto simp: decode_name_def)
  let ?s = "s\<lparr> st_dec := (st_dec s)\<lparr> dec_off := off' \<rparr> \<rparr>"
  have at': "at pkt msg off' w ?s" using s by (simp add: at_def)
  show "case rr_decode_name fld s of None \<Rightarrow> \<not> ok
    | Some (Inr x, s') \<Rightarrow> (case x of (rc, name) \<Rightarrow> \<lambda>s. (0 < rc \<and> w + length name + 1 \<le> DNS_MSG_SIZE) \<and>
      (\<exists>off'. (\<exists>out. decode_name pkt off ?n ?n = Some (int (length out), off', out)) \<and> at pkt msg off' w s)) s'
    | Some (Inl rc, s') \<Rightarrow> left pkt msg rc s'"
  proof (cases "rc < 0")
    case True
    then have e: "rr_decode_name fld s = leave_err DNS_RR fld (- rc) ?s"
      using s d(1) n by (simp add: rr_decode_name_def at_def base_def Let_def)
    then show ?thesis
      using trip_leave_err [of ok pkt msg off' w DNS_RR fld "- rc"] at' unfolding trip_def e by fastforce
  next
    case False
    then have rc: "rc = int (length out)" "0 < rc" using d by simp_all
    obtain rc2 name where f: "fix_label rc ?n out = (rc2, name)" by fastforce
    have e: "rr_decode_name fld s = (if rc2 < 0 then leave rc2 ?s else ret (rc2, name) ?s)"
      using s d(1) n False f by (simp add: rr_decode_name_def at_def base_def Let_def)
    show ?thesis
    proof (cases "rc = 1")
      case True
      then show ?thesis using f e at' d rc
        by (auto simp: fix_label_def dns_add_str_def leave_def ret_def left_def at_def DNS_FAIL_def split: if_splits)
    next
      case n1: False
      then have "1 < length out" using rc by linarith
      moreover have "rc2 = rc - 1" "name = butlast out" using n1 f rc by (auto simp: fix_label_def)
      moreover from calculation have "w + length name + 1 \<le> DNS_MSG_SIZE" using d(2) assms by simp
      ultimately show ?thesis using e at' d rc by (auto simp: ret_def)
    qed
  qed
qed

lemma trip_name1:
  assumes "w \<le> DNS_MSG_SIZE"
  shows "trip ok (at pkt msg off w) (rd_name1 fld p0 mk) (\<lambda>rc s. 0 < rc \<and> (\<exists>off w. at pkt msg off w s)) (left pkt msg)"
  unfolding rd_name1_def
proof (rule trip_andthen [OF trip_decode_name [OF assms]], clarify, rule trip_pure, rule trip_ex, rule trip_pure)
  fix rc :: int and name :: bytes and off'
  assume "0 < rc \<and> w + length name + 1 \<le> DNS_MSG_SIZE"
  then show "trip ok (at pkt msg off' w) (seq (store_rdname name mk) (seq (add_scr name) (seq (set_desc p0) (ret rc))))
      (\<lambda>rc s. 0 < rc \<and> (\<exists>off w. at pkt msg off w s)) (left pkt msg)"
    by (intro trip_seq [OF trip_store_rdname] trip_seq [OF trip_add_scr] trip_seq [OF trip_set_desc] trip_ret) auto
qed

definition got :: "bytes \<Rightarrow> dns_msg \<Rightarrow> int \<Rightarrow> rr_state \<Rightarrow> bool" where
  "got pkt msg rc s \<longleftrightarrow> 0 < rc \<and> base pkt msg s"

lemma trip_got: "0 < rc \<Longrightarrow> trip ok (at pkt msg off w) (ret rc) (got pkt msg) E"
  by (rule trip_ret) (simp add: got_def at_def)

lemma trip_name1_got:
  "w \<le> DNS_MSG_SIZE \<Longrightarrow> trip ok (at pkt msg off w) (rd_name1 fld p0 mk) (got pkt msg) (left pkt msg)"
  by (rule trip_post [OF trip_name1]) (auto simp: got_def at_def)

lemma trip_rd_bytes:
  "(ok \<Longrightarrow> off + n \<le> length pkt) \<Longrightarrow>
   trip ok (at pkt msg off w) (loading (andthen (rd_mem 0 n) (\<lambda>bs. set_rd (mk bs)))) (\<lambda>_. at pkt msg off w) E"
  by (rule trip_loading, rule trip_andthen, rule trip_rd_mem, simp, rule trip_pure, rule trip_set_rd)

lemma trip_describe_ip4: "trip ok (at pkt msg off w) describe_ip4 (\<lambda>_. at pkt msg off w) E"
  unfolding describe_ip4_def by (rule trip_describing)

lemma trip_rd_A:
  assumes "0 < rc" "ok \<Longrightarrow> rdlen = 4 \<Longrightarrow> off + 4 \<le> length pkt"
  shows "trip ok (at pkt msg off w) (rd_A rc rdlen) (got pkt msg) (left pkt msg)"
  unfolding rd_A_def
proof (rule trip_seq [OF trip_guard], rule trip_pure)
  assume "\<not> rdlen \<noteq> 4"
  then show "trip ok (at pkt msg off w) (seq (loading (andthen (rd_mem 0 4) (\<lambda>bs. set_rd (\<lambda>_. RD_a bs))))
      (seq describe_ip4 (seq (skip 4) (ret rc)))) (got pkt msg) (left pkt msg)"
    using assms
    by (intro trip_seq [OF trip_rd_bytes] trip_seq [OF trip_describe_ip4] trip_seq [OF trip_skip] trip_got) auto
qed

lemma trip_rd_AAAA:
  assumes "0 < rc" "ok \<Longrightarrow> rdlen = 16 \<Longrightarrow> off + 16 \<le> length pkt"
  shows "trip ok (at pkt msg off w) (rd_AAAA rc rdlen) (got pkt msg) (left pkt msg)"
  unfolding rd_AAAA_def
proof (rule trip_seq [OF trip_guard], rule trip_pure)
  assume "\<not> rdlen \<noteq> 16"
  then show "trip ok (at pkt msg off w) (seq (loading (andthen (rd_mem 0 16) (\<lambda>bs. set_rd (\<lambda>_. RD_aaaa bs))))
      (seq describe_ip4 (seq (skip 16) (ret rc)))) (got pkt msg) (left pkt msg)"
    using assms
    by (intro trip_seq [OF trip_rd_bytes] trip_seq [OF trip_describe_ip4] trip_seq [OF trip_skip] trip_got) auto
qed

lemma trip_rd_MX:
  assumes "w \<le> DNS_MSG_SIZE" "ok \<Longrightarrow> off + rdlen \<le> length pkt"
  shows "trip ok (at pkt msg off w) (rd_MX p0 rdlen) (got pkt msg) (left pkt msg)"
  unfolding rd_MX_def
proof (rule trip_seq [OF trip_guard], rule trip_pure, rule trip_andthen [OF trip_rd_u16], goal_cases)
  case 1
  then show ?case using assms by simp
next
  case (2 pref)
  then show ?case using assms
    by (intro trip_pure trip_seq [OF trip_skip] trip_seq [OF trip_describing] trip_name1_got)
qed

lemma trip_rd_SRV:
  assumes "w \<le> DNS_MSG_SIZE" "ok \<Longrightarrow> off + rdlen \<le> length pkt"
  shows "trip ok (at pkt msg off w) (rd_SRV p0 rdlen) (got pkt msg) (left pkt msg)"
  unfolding rd_SRV_def
  apply (rule trip_seq [OF trip_guard], rule trip_pure)
  apply (rule trip_andthen [OF trip_rd_u16], use assms in simp, rule trip_pure)
  apply (rule trip_andthen [OF trip_rd_u16], use assms in simp, rule trip_pure)
  apply (rule trip_andthen [OF trip_rd_u16], use assms in simp, rule trip_pure)
  using assms by (intro trip_seq [OF trip_skip] trip_seq [OF trip_describing] trip_name1_got)

lemma trip_rd_HINFO:
  assumes "0 < rc" "ok \<Longrightarrow> off + rdlen \<le> length pkt" "rd_end \<le> length pkt"
  shows "trip ok (at pkt msg off w) (rd_HINFO rc p0 rdlen rd_end) (got pkt msg) (left pkt msg)"
  unfolding rd_HINFO_def
  apply (rule trip_seq [OF trip_guard], rule trip_pure)
  apply (rule trip_andthen [OF trip_rd_len], use assms in simp)
  apply (rule trip_andthen [OF trip_offset], rule trip_pure)
  apply (rule trip_seq [OF trip_guard], rule trip_pure)
  apply (rule trip_andthen [OF trip_rd_mem], use assms in simp, rule trip_pure)
  apply (rule trip_seq [OF trip_describing], rule trip_seq [OF trip_store_rd], rule trip_seq [OF trip_skip])
  apply (rule trip_andthen [OF trip_offset], rule trip_pure)
  apply (rule trip_seq [OF trip_guard], rule trip_pure)
  apply (rule trip_andthen [OF trip_rd_len], use assms in simp)
  apply (rule trip_andthen [OF trip_offset], rule trip_pure)
  apply (rule trip_seq [OF trip_guard], rule trip_pure)
  apply (rule trip_andthen [OF trip_rd_mem], use assms in simp, rule trip_pure)
  apply (rule trip_seq [OF trip_describing], rule trip_seq [OF trip_store_os], rule trip_seq [OF trip_skip])
  by (intro trip_seq [OF trip_set_desc] trip_got assms)

lemma trip_rd_SOA:
  assumes "w \<le> DNS_MSG_SIZE" "rd_end \<le> length pkt"
  shows "trip ok (at pkt msg off w) (rd_SOA p0 rd_end) (got pkt msg) (left pkt msg)"
  unfolding rd_SOA_def
  apply (rule trip_seq [OF trip_describing])
  apply (rule trip_andthen [OF trip_decode_name [OF assms(1)]], clarify, rule trip_pure, rule trip_ex, rule trip_pure)
  apply (rule trip_seq [OF trip_store_rdname], rule trip_seq [OF trip_add_scr], rule trip_seq [OF trip_describing])
  apply (rule trip_andthen [OF trip_decode_name], simp, clarify, rule trip_pure, rule trip_ex, rule trip_pure)
  apply (rule trip_seq [OF trip_store_rname], rule trip_seq [OF trip_add_scr])
  apply (rule trip_andthen [OF trip_offset], rule trip_pure)
  apply (rule trip_seq [OF trip_guard], rule trip_pure)
  apply (rule trip_andthen [OF trip_rd_mem], use assms in simp, rule trip_pure)
  unfolding Let_def
  apply (rule trip_seq [OF trip_skip], rule trip_seq [OF trip_describing], rule trip_seq [OF trip_set_rd])
  by (intro trip_seq [OF trip_set_desc] trip_got) blast

lemma trip_txt_item:
  assumes "ok \<Longrightarrow> off + 1 \<le> length pkt" "rd_end \<le> length pkt"
  shows "trip ok (at pkt msg off w) (txt_item un rd_end) (\<lambda>_ s. \<exists>off'. at pkt msg off' w s) (left pkt msg)"
  unfolding txt_item_def
  apply (rule trip_andthen [OF trip_rd_len], use assms in simp)
  apply (rule trip_andthen [OF trip_offset], rule trip_pure)
  apply (rule trip_seq [OF trip_guard], rule trip_pure)
  apply (rule trip_andthen [OF trip_rd_mem], use assms in simp, rule trip_pure)
  apply (rule trip_seq [OF trip_describing], rule trip_seq [OF trip_store_txt])
  by (rule trip_post [OF trip_skip]) blast

lemma txt_loop_trip:
  assumes "rd_end \<le> length pkt" "at pkt msg off w s"
  shows "case txt_loop un rd_end s of None \<Rightarrow> \<not> ok
    | Some (Inr _, s') \<Rightarrow> \<exists>off'. at pkt msg off' w s' | Some (Inl rc, s') \<Rightarrow> left pkt msg rc s'"
  using assms
proof (induction un rd_end s arbitrary: off rule: txt_loop.induct)
  case (1 un rd_end s)
  show ?case
  proof (cases "dec_off (st_dec s) < rd_end")
    case True
    have off: "dec_off (st_dec s) = off" using "1.prems" by (simp add: at_def)
    have "trip ok (at pkt msg off w) (txt_item un rd_end) (\<lambda>_ s. \<exists>off'. at pkt msg off' w s) (left pkt msg)"
      by (rule trip_txt_item) (use True off "1.prems" in auto)
    then have t: "case txt_item un rd_end s of None \<Rightarrow> \<not> ok
      | Some (Inr _, s') \<Rightarrow> \<exists>off'. at pkt msg off' w s' | Some (Inl rc, s') \<Rightarrow> left pkt msg rc s'"
      using "1.prems" by (simp add: trip_def)
    show ?thesis
    proof (cases "txt_item un rd_end s")
      case None
      then show ?thesis using t True by (simp add: txt_loop.simps [of un rd_end s])
    next
      case (Some p)
      then obtain r s' where p: "txt_item un rd_end s = Some (r, s')" by (cases p) simp
      show ?thesis
      proof (cases r)
        case (Inl rc)
        then show ?thesis using t True p by (simp add: txt_loop.simps [of un rd_end s])
      next
        case (Inr x)
        then obtain off' where "at pkt msg off' w s'" using t p by auto
        then have "case txt_loop un rd_end s' of None \<Rightarrow> \<not> ok
            | Some (Inr _, s') \<Rightarrow> \<exists>off'. at pkt msg off' w s' | Some (Inl rc, s') \<Rightarrow> left pkt msg rc s'"
          using "1.IH" [OF True p refl Inr "1.prems"(1)] by blast
        then show ?thesis using True p Inr by (simp add: txt_loop.simps [of un rd_end s])
      qed
    qed
  qed (use "1.prems" in \<open>auto simp: txt_loop.simps\<close>)
qed

lemma trip_rd_TXT:
  assumes "0 < rc" "rd_end \<le> length pkt"
  shows "trip ok (at pkt msg off w) (rd_TXT un rc p0 rd_end) (got pkt msg) (left pkt msg)"
proof -
  have "trip ok (at pkt msg off w) (txt_loop un rd_end) (\<lambda>_ s. \<exists>off'. at pkt msg off' w s) (left pkt msg)"
    unfolding trip_def using txt_loop_trip [OF assms(2)] by blast
  then show ?thesis
    unfolding rd_TXT_def
    by (rule trip_seq, intro trip_ex) (intro trip_seq [OF trip_set_desc] trip_got assms)
qed

lemma trip_rd_OPT:
  assumes "w \<le> DNS_MSG_SIZE"
  shows "trip ok (at pkt msg off w) (rd_OPT sect p0 rd_end name cls ttl) (got pkt msg) (left pkt msg)"
  unfolding rd_OPT_def Let_def
  apply (rule trip_seq [OF trip_guard], rule trip_pure)
  apply (rule trip_seq [OF trip_set_rd])
  apply (rule trip_seq [where R = "at pkt msg off w"])
   apply (simp add: trip_def loading_def ret_def at_def)
  apply (rule trip_seq [OF trip_store_rrname])
  apply (rule trip_seq [OF trip_sn], use assms in simp)
  apply (rule trip_seq [where R = "base pkt msg"])
   apply (simp add: trip_def ret_def at_def base_def)
  apply (rule trip_seq [where R = "base pkt msg"])
   apply (simp add: trip_def ret_def set_desc_def)
  by (rule trip_ret) (simp add: got_def opt_text_def)

lemma trip_rd_data:
  assumes "0 < rc" "w \<le> DNS_MSG_SIZE" "rd_end \<le> length pkt"
    and "ok \<Longrightarrow> rdlen \<le> 16 \<or> type \<in> {DNS_TYPE_HINFO, DNS_TYPE_MX, DNS_TYPE_SRV} \<Longrightarrow> off + rdlen \<le> length pkt"
  shows "trip ok (at pkt msg off w) (rd_data un sect rc p0 rdlen rd_end name type cls ttl) (got pkt msg) (left pkt msg)"
proof -
  have small: "off + rdlen \<le> length pkt" if ok "rdlen \<le> 16" using assms(4) that by blast
  have big: "off + rdlen \<le> length pkt" if ok "type = DNS_TYPE_HINFO \<or> type = DNS_TYPE_MX \<or> type = DNS_TYPE_SRV"
    using assms(4) that by blast
  have "trip ok (at pkt msg off w) (rd_A rc rdlen) (got pkt msg) (left pkt msg)"
    by (rule trip_rd_A [OF assms(1)]) (use small in simp)
  moreover have "trip ok (at pkt msg off w) (rd_AAAA rc rdlen) (got pkt msg) (left pkt msg)"
    by (rule trip_rd_AAAA [OF assms(1)]) (use small in simp)
  moreover have "trip ok (at pkt msg off w) (rd_HINFO rc p0 rdlen rd_end) (got pkt msg) (left pkt msg)"
    if "type = DNS_TYPE_HINFO" by (rule trip_rd_HINFO [OF assms(1) _ assms(3)]) (use big that in simp)
  moreover have "trip ok (at pkt msg off w) (rd_MX p0 rdlen) (got pkt msg) (left pkt msg)"
    if "type = DNS_TYPE_MX" by (rule trip_rd_MX [OF assms(2)]) (use big that in simp)
  moreover have "trip ok (at pkt msg off w) (rd_SRV p0 rdlen) (got pkt msg) (left pkt msg)"
    if "type = DNS_TYPE_SRV" by (rule trip_rd_SRV [OF assms(2)]) (use big that in simp)
  moreover have "trip ok (at pkt msg off w) (seq (skip rdlen) (ret rc)) (got pkt msg) (left pkt msg)"
    by (intro trip_seq [OF trip_skip] trip_got assms)
  ultimately show ?thesis
    unfolding rd_data_def rd_NS_def rd_CNAME_def rd_PTR_def
    using trip_rd_SOA [OF assms(2,3)] trip_rd_TXT [OF assms(1,3)] trip_rd_OPT [OF assms(2)] trip_name1_got [OF assms(2)]
    by (simp split: if_split)
qed

section \<open>Records\<close>

lemma trip_cong: "(\<And>s. P s \<Longrightarrow> m s = m' s) \<Longrightarrow> trip ok P m' Q E \<Longrightarrow> trip ok P m Q E"
  by (simp add: trip_def)

text \<open>
  The record at \<open>off\<close> has a type whose fields are read before the end of its data is compared, and a
  length with which the 16-bit \<open>rd_end\<close> wraps around.
\<close>

definition rr_wraps :: "bytes \<Rightarrow> nat \<Rightarrow> bool" where
  "rr_wraps pkt off \<longleftrightarrow> (\<exists>out o1. decode_name pkt off DNS_MSG_SIZE DNS_MSG_SIZE = Some (int (length out), o1, out) \<and>
    o1 + 10 \<le> length pkt \<and> 65536 \<le> o1 + 10 + unat (dec_u16 pkt (o1 + 8)) \<and>
    dec_u16 pkt o1 \<in> {DNS_TYPE_HINFO, DNS_TYPE_MX, DNS_TYPE_SRV})"

lemma trip_describe_rr: "trip ok (got pkt msg rc) (describe_rr sect name type cls ttl rc) (got pkt msg) E"
  by (auto simp: trip_def describe_rr_def got_def base_def ret_def)

lemma trip_offset_got:
  "trip ok (got pkt msg rc) offset (\<lambda>_. got pkt msg rc) E"
  by (simp add: trip_def offset_def)

lemma trip_guard_got:
  "trip ok (got pkt msg rc) (guard c (leave_err g f ec)) (\<lambda>_. got pkt msg rc) (left pkt msg)"
  by (auto simp: trip_def guard_def ret_def leave_err_def dns_dec_err_def got_def left_def base_def DEC_ERR_def
      DNS_FAIL_def DNS_MAX_EMSG_def)

lemma trip_rr_body:
  assumes "ok \<Longrightarrow> length pkt \<le> 65519 \<and> \<not> rr_wraps pkt off"
  shows "trip ok (at pkt msg off 0) (rr_body un sect) (got pkt msg) (left pkt msg)"
  unfolding rr_body_def
proof (rule trip_andthen [OF trip_decode_name], simp, clarify, rule trip_pure, rule trip_ex, rule trip_pure, goal_cases)
  case (1 rc name o1)
  then have rc: "0 < rc" "length name + 1 \<le> DNS_MSG_SIZE"
    and dn: "\<exists>out. decode_name pkt off DNS_MSG_SIZE DNS_MSG_SIZE = Some (int (length out), o1, out)" by auto
  let ?L = "length pkt"
  have data: "trip ok (at pkt msg (o1 + 10) (length name + 1))
      (rd_data un sect rc (length name + 1) (unat rdlen) ((o1 + 10 + unat rdlen) mod 65536) cname type cls ttl)
      (got pkt msg) (left pkt msg)"
    if "o1 + 10 \<le> ?L" "type = dec_u16 pkt o1" "rdlen = dec_u16 pkt (o1 + 8)" "(o1 + 10 + unat rdlen) mod 65536 \<le> ?L"
    for rdlen type cls ttl cname
  proof (rule trip_rd_data [OF rc that(4)])
    assume h: ok "unat rdlen \<le> 16 \<or> type \<in> {DNS_TYPE_HINFO, DNS_TYPE_MX, DNS_TYPE_SRV}"
    have "o1 + 10 + unat rdlen < 65536"
    proof (rule ccontr)
      assume n: "\<not> ?thesis"
      show False
      proof (cases "unat rdlen \<le> 16")
        case True
        then show False using n that(1) assms h(1) by simp
      next
        case False
        then have "rr_wraps pkt off" unfolding rr_wraps_def using dn that(1-3) n h(2) by force
        then show False using assms h(1) by blast
      qed
    qed
    then show "o1 + 10 + unat rdlen \<le> ?L" using that(4) by simp
  qed
  show ?case
    unfolding Let_def
    apply (rule trip_seq [OF trip_add_scr], rule trip_seq [OF trip_store_rrname])
    apply (rule trip_andthen [OF trip_offset], rule trip_pure)
    apply (rule trip_cong [where m' = "seq (guard (o1 + 10 > ?L) (leave_err DNS_RR DNS_HDR DNS_ETRUNC))
      (andthen (rd_u16 0) (\<lambda>type. andthen (rd_u16 2) (\<lambda>cls. andthen (rd_u32 4) (\<lambda>ttl. andthen (rd_u16 8) (\<lambda>rdlen.
      seq (skip 10)
      (seq (loading (\<lambda>s. ret () (s\<lparr> st_rr := (st_rr s)\<lparr> rr_type := type, rr_class := cls, rr_ttl := ttl, rr_rdlen := rdlen \<rparr> \<rparr>)))
      (seq (guard ((o1 + 10 + unat rdlen) mod 65536 > ?L) (leave_err DNS_RR DNS_RDATA DNS_ETRUNC))
      (andthen (rd_data un sect rc (length name + 1) (unat rdlen) ((o1 + 10 + unat rdlen) mod 65536)
        (takeWhile (\<lambda>c. c \<noteq> 0) name) type cls ttl) (\<lambda>rc.
      andthen offset (\<lambda>off'.
      seq (guard (off' \<noteq> (o1 + 10 + unat rdlen) mod 65536) (leave_err DNS_RR DNS_RDATA DNS_ERDATALEN))
      (describe_rr sect (takeWhile (\<lambda>c. c \<noteq> 0) name) type cls ttl rc)))))))))))"])
     apply (simp add: at_def base_def)
    apply (rule trip_seq [OF trip_guard], rule trip_pure)
    apply (rule trip_andthen [OF trip_rd_u16], simp, rule trip_pure)
    apply (rule trip_andthen [OF trip_rd_u16], simp, rule trip_pure)
    apply (rule trip_andthen [OF trip_rd_u32], simp)
    apply (rule trip_andthen [OF trip_rd_u16], simp, rule trip_pure)
    apply (rule trip_seq [OF trip_skip])
    apply (rule trip_seq [OF trip_loading])
     apply (simp add: trip_def ret_def at_def)
    apply (rule trip_seq [OF trip_guard], rule trip_pure)
    apply (rule trip_andthen [where R = "got pkt msg"])
     apply (simp, rule data [simplified], simp, simp, simp, simp)
    apply (rule trip_andthen [OF trip_offset_got], rule trip_seq [OF trip_guard_got], rule trip_describe_rr)
    done
qed

text \<open>The decoder and the message while a message is loaded.\<close>

definition dec_ok :: "bytes \<Rightarrow> dns_dec \<Rightarrow> bool" where
  "dec_ok pkt dec \<longleftrightarrow> pkt_buf dec = pkt \<and> \<not> need_emsg dec \<and> load_msg dec \<and> length (errs dec) \<le> DNS_MAX_EMSG"

definition msg_ok :: "dns_msg \<Rightarrow> bool" where
  "msg_ok msg \<longleftrightarrow> store_ok msg \<and> qd_len msg \<le> DNS_MAX_QD \<and> an_len msg \<le> DNS_MAX_RR \<and> ns_len msg \<le> DNS_MAX_RR \<and>
    ar_len msg \<le> DNS_MAX_RR \<and> length (msg_qd msg) = DNS_MAX_QD \<and> length (msg_an msg) = DNS_MAX_RR \<and>
    length (msg_ns msg) = DNS_MAX_RR \<and> length (msg_ar msg) = DNS_MAX_RR"

text \<open>Only the section \<open>sect\<close> gains records, at most one, and the stored names stay.\<close>

definition grows :: "dns_sect \<Rightarrow> dns_msg \<Rightarrow> dns_msg \<Rightarrow> bool" where
  "grows sect msg msg' \<longleftrightarrow> msg_ok msg' \<and> msg_hdr msg' = msg_hdr msg \<and> qd_len msg' = qd_len msg \<and> msg_qd msg' = msg_qd msg \<and>
    (\<forall>t. sect_count msg' t = sect_count msg t \<or> t = sect \<and> sect_count msg' t = sect_count msg t + 1) \<and>
    names_len msg \<le> names_len msg' \<and> take (names_len msg) (names msg') = take (names_len msg) (names msg)"

lemma sect_count_inc: "sect_count (inc_count msg sect) t = (if t = sect then sect_count msg t + 1 else sect_count msg t)"
  by (cases sect; cases t) auto

lemma sect_count_slot [simp]: "sect_count (set_slot msg sect i rr) t = sect_count msg t"
  by (cases sect; cases t) auto

lemma sect_count_lt: "msg_ok msg \<Longrightarrow> sect_count msg sect \<le> DNS_MAX_RR"
  by (cases sect) (auto simp: msg_ok_def)

lemma base_msg:
  assumes "base pkt msg s" "msg_ok msg" "i = sect_count msg sect"
  shows "grows sect msg (set_slot (st_msg s) sect i rr)"
    and "i < DNS_MAX_RR \<Longrightarrow> grows sect msg (inc_count (set_slot (st_msg s) sect i rr) sect)"
    and "sect_count (set_slot (st_msg s) sect i rr) t = sect_count msg t"
proof -
  obtain n l where m: "st_msg s = msg\<lparr> names := n, names_len := l \<rparr>" and ok: "store_ok (st_msg s)"
    and st: "names_len msg \<le> l" "take (names_len msg) n = take (names_len msg) (names msg)"
    using assms(1) unfolding base_def by (metis dns_msg.select_convs(2,3) dns_msg.simps)
  have ok': "length n = DNS_MAX_PDUSIZE" "l \<le> DNS_MAX_PDUSIZE" using ok m by (simp_all add: store_ok_def)
  have c: "sect_count (set_slot (st_msg s) sect i rr) t = sect_count msg t" for t
    unfolding m sect_count_slot by (cases t) auto
  then show "sect_count (set_slot (st_msg s) sect i rr) t = sect_count msg t" .
  let ?m = "set_slot (st_msg s) sect i rr"
  have f: "msg_ok ?m" "msg_hdr ?m = msg_hdr msg" "qd_len ?m = qd_len msg" "msg_qd ?m = msg_qd msg"
    "names_len ?m = l" "names ?m = n"
    unfolding m using assms(2) ok' by (cases sect; simp add: msg_ok_def store_ok_def)+
  then show "grows sect msg ?m" unfolding grows_def using c st by simp
  assume i: "i < DNS_MAX_RR"
  have "msg_ok (inc_count ?m sect)" "msg_hdr (inc_count ?m sect) = msg_hdr ?m" "qd_len (inc_count ?m sect) = qd_len ?m"
    "msg_qd (inc_count ?m sect) = msg_qd ?m" "names_len (inc_count ?m sect) = names_len ?m" "names (inc_count ?m sect) = names ?m"
    using f(1) i assms(3) c [of sect] by (cases sect; simp add: msg_ok_def store_ok_def)+
  then show "grows sect msg (inc_count ?m sect)"
    unfolding grows_def sect_count_inc using c st f by auto
qed

text \<open>One record: either nothing is added and the result is 0 or \<open>DNS_FAIL\<close>, or one is and the result is positive.\<close>

lemma dns_rr_decode_load:
  assumes "dec_ok pkt dec" "msg_ok msg"
  shows "ok \<Longrightarrow> length pkt \<le> 65519 \<and> \<not> rr_wraps pkt (dec_off dec) \<Longrightarrow> dns_rr_decode un sect dec msg \<noteq> None"
    and "dns_rr_decode un sect dec msg = Some (rc, dec', msg') \<Longrightarrow>
      dec_ok pkt dec' \<and> grows sect msg msg' \<and>
      (0 < rc \<or> (rc = 0 \<or> rc = DNS_FAIL) \<and> (\<forall>t. sect_count msg' t = sect_count msg t))"
proof -
  let ?i = "sect_count msg sect"
  let ?s = "\<lparr> st_dec = dec, st_msg = msg, st_rr = sect_base msg sect ! ?i, scr = [], desc = [] \<rparr>"
  have in_base: "length (sect_base msg sect) = DNS_MAX_RR" using assms(2) by (cases sect) (simp_all add: msg_ok_def)
  have b: "at pkt msg (dec_off dec) 0 ?s"
    using assms by (simp add: at_def base_def dec_ok_def msg_ok_def)
  have t: "case rr_body un sect ?s of None \<Rightarrow> \<not> ok
      | Some (Inr x, s') \<Rightarrow> got pkt msg x s' | Some (Inl rc, s') \<Rightarrow> left pkt msg rc s'"
    if "ok \<Longrightarrow> length pkt \<le> 65519 \<and> \<not> rr_wraps pkt (dec_off dec)" for ok
    using trip_rr_body [of ok pkt "dec_off dec" msg un sect, OF that] b unfolding trip_def by blast
  show "dns_rr_decode un sect dec msg \<noteq> None" if ok "length pkt \<le> 65519 \<and> \<not> rr_wraps pkt (dec_off dec)"
    using t [of True] that(2) in_base by (auto simp: dns_rr_decode_def Let_def split: option.splits sum.splits)
  assume r: "dns_rr_decode un sect dec msg = Some (rc, dec', msg')"
  have load: "load_msg dec" using assms(1) by (simp add: dec_ok_def)
  show "dec_ok pkt dec' \<and> grows sect msg msg' \<and>
      (0 < rc \<or> (rc = 0 \<or> rc = DNS_FAIL) \<and> (\<forall>t. sect_count msg' t = sect_count msg t))"
  proof (cases "?i \<ge> DNS_MAX_RR")
    case True
    then show ?thesis using r load assms by (simp add: dns_rr_decode_def grows_def)
  next
    case False
    obtain q s where q: "rr_body un sect ?s = Some (q, s)"
      using r False by (auto simp: dns_rr_decode_def Let_def split: option.splits)
    show ?thesis
    proof (cases q)
      case (Inl c)
      then have l: "left pkt msg c s" using t [of False] q by simp
      then show ?thesis
        using r q Inl False load in_base base_msg [of pkt msg s ?i sect "st_rr s"] assms(2)
        by (auto simp: dns_rr_decode_def Let_def left_def dec_ok_def base_def)
    next
      case (Inr c)
      then have l: "got pkt msg c s" using t [of False] q by simp
      then show ?thesis
        using r q Inr False load in_base base_msg(2) [of pkt msg s ?i sect "st_rr s"] assms(2)
        by (auto simp: dns_rr_decode_def Let_def got_def dec_ok_def base_def)
    qed
  qed
qed

lemma dec_err_ok:
  "dec_ok pkt dec \<Longrightarrow> dns_dec_err dec g f ec = (rc, d) \<Longrightarrow> dec_ok pkt d \<and> (rc = 0 \<or> rc = DNS_FAIL)"
  by (auto simp: dns_dec_err_def dec_ok_def DEC_ERR_def DNS_FAIL_def DNS_MAX_EMSG_def split: if_splits)

lemma grows_refl: "msg_ok msg \<Longrightarrow> grows sect msg msg"
  by (simp add: grows_def)

lemma grows_msg_ok: "grows sect msg msg' \<Longrightarrow> msg_ok msg'"
  by (simp add: grows_def)

lemma grows_trans:
  assumes "grows sect a b" "grows sect b c" "\<forall>t. sect_count b t = sect_count a t"
  shows "grows sect a c"
proof -
  have "take (names_len a) (names c) = take (names_len a) (take (names_len b) (names c))"
    using assms(1) by (simp add: grows_def min_absorb1)
  also have "take (names_len b) (names c) = take (names_len b) (names b)" using assms(2) by (simp add: grows_def)
  also have "take (names_len a) (take (names_len b) (names b)) = take (names_len a) (names a)"
    using assms(1) by (simp add: grows_def min_absorb1)
  finally show ?thesis using assms by (auto simp: grows_def)
qed

lemma dns_sect_decode_load:
  assumes "dec_ok pkt dec" "msg_ok msg" "dns_sect_decode un n i sect dec msg = Some (rc, dec', msg')"
  shows "dec_ok pkt dec' \<and> grows sect msg msg' \<and> (rc = 0 \<or> rc = DNS_FAIL)"
  using assms
proof (induction n arbitrary: i dec msg)
  case 0
  then show ?case by (simp add: grows_refl)
next
  case (Suc n)
  obtain rc1 dec1 msg1 where 1: "dns_rr_decode un sect dec msg = Some (rc1, dec1, msg1)"
    using Suc.prems(3) by (auto split: Option.bind_split_asm)
  note l = dns_rr_decode_load(2) [OF Suc.prems(1,2) 1]
  show ?case
  proof (cases "rc1 = 0")
    case True
    then have "dns_sect_decode un n (i + 1) sect dec1 msg1 = Some (rc, dec', msg')" using Suc.prems(3) 1 by simp
    then have "dec_ok pkt dec' \<and> grows sect msg1 msg' \<and> (rc = 0 \<or> rc = DNS_FAIL)"
      using Suc.IH l grows_msg_ok by blast
    then show ?thesis using grows_trans [of sect msg msg1 msg'] l True by auto
  next
    case False
    then show ?thesis
      using Suc.prems(3) 1 l dec_err_ok [of pkt dec1 DNS_PDU "sect_code sect" "int i + DNS_EC_ISROW"]
      by (auto split: prod.splits)
  qed
qed

section \<open>Questions and messages\<close>

text \<open>The message after the question section: records and header are as before.\<close>

definition asked :: "dns_msg \<Rightarrow> dns_msg \<Rightarrow> bool" where
  "asked msg msg' \<longleftrightarrow> msg_ok msg' \<and> msg_hdr msg' = msg_hdr msg \<and> (\<forall>t. sect_count msg' t = sect_count msg t)"

lemma asked_store:
  assumes "msg_ok msg" "msg_store_name msg name = (p, m)"
  shows "asked msg m" "msg_qd m = msg_qd msg" "qd_len m = qd_len msg"
proof -
  have m: "m = msg\<lparr> names := names m, names_len := names_len m \<rparr>"
    using assms(2) by (auto simp: msg_store_name_def msg_store_str_def split: if_splits)
  have st: "store_ok m" using msg_store_name_ok [of msg name p m] assms by (simp add: msg_ok_def)
  have c: "sect_count m t = sect_count msg t" for t by (subst m) (cases t; simp)
  have f: "qd_len m = qd_len msg" "msg_qd m = msg_qd msg" "msg_an m = msg_an msg" "msg_ns m = msg_ns msg"
    "msg_ar m = msg_ar msg" "msg_hdr m = msg_hdr msg"
    by (subst m, simp)+
  have "an_len m = an_len msg" "ns_len m = ns_len msg" "ar_len m = ar_len msg"
    using c [of Sect_an] c [of Sect_ns] c [of Sect_ar] by simp_all
  then show "asked msg m" using st assms(1) f c by (simp add: asked_def msg_ok_def)
  show "msg_qd m = msg_qd msg" "qd_len m = qd_len msg" using f by simp_all
qed

lemma asked_upd:
  assumes "asked msg m" "length q = DNS_MAX_QD" "l \<le> DNS_MAX_QD"
  shows "asked msg (m\<lparr> msg_qd := q, qd_len := l \<rparr>)" "asked msg (m\<lparr> msg_qd := q \<rparr>)"
proof -
  have "sect_count (m\<lparr> msg_qd := q, qd_len := l \<rparr>) t = sect_count m t" "sect_count (m\<lparr> msg_qd := q \<rparr>) t = sect_count m t" for t
    by (cases t; simp)+
  then show "asked msg (m\<lparr> msg_qd := q, qd_len := l \<rparr>)" "asked msg (m\<lparr> msg_qd := q \<rparr>)"
    using assms by (auto simp: asked_def msg_ok_def store_ok_def)
qed

lemma dns_qd_decode_load:
  assumes "dec_ok pkt dec" "msg_ok msg"
  shows "\<exists>rc dec' msg'. dns_qd_decode dec msg = Some (rc, dec', msg') \<and> dec_ok pkt dec' \<and> asked msg msg'"
proof (cases "qd_len msg \<ge> DNS_MAX_QD")
  case True
  then show ?thesis using assms by (simp add: dns_qd_decode_def dec_ok_def asked_def)
next
  case False
  have d: "pkt_buf dec = pkt" "load_msg dec" "\<not> need_emsg dec" using assms(1) by (auto simp: dec_ok_def)
  obtain ec off out where n: "decode_name pkt (dec_off dec) DNS_MSG_SIZE DNS_MSG_SIZE = Some (ec, off, out)"
    using name_loop_safe [of "[]" DNS_MSG_SIZE DNS_MSG_SIZE 0 "dec_off dec" "dec_off dec" pkt] by (auto simp: decode_name_def)
  have d1: "dec_ok pkt (dec\<lparr> dec_off := k \<rparr>)" for k using assms(1) by (simp add: dec_ok_def)
  have refl: "asked msg msg" using assms(2) by (simp add: asked_def)
  show ?thesis
  proof (cases "ec < 0 \<or> off + 4 > length pkt")
    case True
    let ?d = "dec\<lparr> dec_off := off \<rparr>"
    obtain rc e where e: "(if ec < 0 then dns_dec_err ?d DNS_QD DNS_NAME ec else dns_dec_err ?d DNS_QD DNS_HDR DNS_ETRUNC) = (rc, e)"
      by fastforce
    have "dns_qd_decode dec msg = Some (rc, e, msg)"
      using True False d n e assms(2) [unfolded msg_ok_def] by (auto simp: dns_qd_decode_def Let_def split: if_splits)
    moreover have "dec_ok pkt e" using dec_err_ok [OF d1 [of off]] e by (auto split: if_splits)
    ultimately show ?thesis using refl by blast
  next
    case ok: False
    obtain p m where m: "msg_store_name msg (Some out) = (p, m)" by fastforce
    note a = asked_store [OF assms(2) m]
    have l: "length (msg_qd msg) = DNS_MAX_QD" "length (msg_qd m) = DNS_MAX_QD" "Suc (qd_len msg) \<le> DNS_MAX_QD" "qd_len m = qd_len msg"
      using assms(2) a False by (auto simp: msg_ok_def)
    have e: "\<exists>rc msg'. dns_qd_decode dec msg = Some (rc, dec\<lparr> dec_off := off + 4 \<rparr>, msg') \<and> asked msg msg'"
      using False d n ok m asked_upd [OF a(1)] l by (cases p) (simp_all add: dns_qd_decode_def Let_def rdu16_in)
    then show ?thesis using d1 [of "off + 4"] by blast
  qed
qed

lemma asked_trans: "asked a b \<Longrightarrow> asked b c \<Longrightarrow> asked a c"
  by (simp add: asked_def)

lemma qd_loop_load:
  assumes "dec_ok pkt dec" "msg_ok msg"
  shows "\<exists>rc dec' msg'. qd_loop n i dec msg = Some (rc, dec', msg') \<and> dec_ok pkt dec' \<and> asked msg msg' \<and> (rc = 0 \<or> rc = DNS_FAIL)"
  using assms
proof (induction n arbitrary: i dec msg)
  case 0
  then show ?case by (simp add: asked_def)
next
  case (Suc n)
  obtain rc1 dec1 msg1 where 1: "dns_qd_decode dec msg = Some (rc1, dec1, msg1)" "dec_ok pkt dec1" "asked msg msg1"
    using dns_qd_decode_load [OF Suc.prems] by blast
  have ok1: "msg_ok msg1" using 1(3) by (simp add: asked_def)
  show ?case
  proof (cases "rc1 = 0")
    case True
    then show ?thesis using Suc.IH [OF 1(2) ok1, of "i + 1"] 1 asked_trans by (auto intro: asked_trans)
  next
    case False
    then show ?thesis using 1 dec_err_ok [OF 1(2)] by (auto split: prod.splits)
  qed
qed

lemma chain_Some:
  "chain (Some (rc, dec, msg)) f = (if rc \<noteq> 0 then Some (rc, dec, msg) else f dec msg)"
  by (simp add: chain_def)

lemma chain_cases:
  assumes "chain r f = Some x"
  obtains "r = Some x" "fst x \<noteq> 0" | dec msg where "r = Some (0, dec, msg)" "f dec msg = Some x"
  using assms by (auto simp: chain_def split: option.splits prod.splits if_splits)

text \<open>The state between two sections: counts of the sections still to come are 0.\<close>

definition upto :: "bytes \<Rightarrow> dns_sect set \<Rightarrow> int \<times> dns_dec \<times> dns_msg \<Rightarrow> bool" where
  "upto pkt S r \<longleftrightarrow> (case r of (rc, dec, msg) \<Rightarrow> dec_ok pkt dec \<and> msg_ok msg \<and> (rc = 0 \<or> rc = DNS_FAIL) \<and>
    (\<forall>t. sect_count msg t \<le> (if t \<in> S then 1 else 0)))"

lemma upto_sect:
  assumes "\<And>q. r = Some q \<Longrightarrow> upto pkt S q"
    and "chain r (\<lambda>dec msg. dns_sect_decode un (n msg) 0 sect dec msg) = Some x" "sect \<notin> S"
  shows "upto pkt (insert sect S) x"
  using assms(2)
proof (cases rule: chain_cases)
  case 1
  then show ?thesis using assms(1) [of x] by (auto simp: upto_def split: prod.splits if_splits)
next
  case (2 dec msg)
  obtain rc dec' msg' where x: "x = (rc, dec', msg')" by (metis prod_cases3)
  have u: "dec_ok pkt dec" "msg_ok msg" "\<forall>t. sect_count msg t \<le> (if t \<in> S then 1 else 0)"
    using assms(1) [OF 2(1)] by (auto simp: upto_def)
  have d: "dec_ok pkt dec'" "grows sect msg msg'" "rc = 0 \<or> rc = DNS_FAIL"
    using dns_sect_decode_load [OF u(1,2)] 2(2) x by blast+
  have "sect_count msg' t \<le> (if t \<in> insert sect S then 1 else 0)" for t
  proof -
    have "sect_count msg' t = sect_count msg t \<or> t = sect \<and> sect_count msg' t = sect_count msg t + 1"
      using d(2) by (simp add: grows_def)
    moreover have "sect_count msg t \<le> (if t \<in> S then 1 else 0)" using u(3) by blast
    ultimately show ?thesis using assms(3) by (auto split: if_splits)
  qed
  then show ?thesis using d grows_msg_ok x by (simp add: upto_def)
qed

lemma sect_count_reset [simp]: "sect_count (dns_msg_reset msg) t = 0"
  by (cases t) (simp_all add: dns_msg_reset_def)

lemma msg_ok_reset: "msg_ok msg \<Longrightarrow> msg_ok (dns_msg_reset msg)"
  by (simp add: msg_ok_def dns_msg_reset_def store_ok_def)

lemma dns_hdr_decode_total: "\<exists>rc h. dns_hdr_decode hdr buf = Some (rc, h)"
  by (simp add: dns_hdr_decode_def DNS_HDR_LEN_def rdu16_in)

lemma upto_hdr:
  assumes "dec_ok pkt dec" "msg_ok msg"
  shows "\<exists>q. decode_hdr dec (dns_msg_reset msg) = Some q \<and> upto pkt {} q"
proof -
  have c: "sect_count (m\<lparr> msg_hdr := h \<rparr>) t = sect_count m t" for m h t by (cases t) simp_all
  have m: "msg_ok (dns_msg_reset msg\<lparr> msg_hdr := h \<rparr>)" for h
    using msg_ok_reset [OF assms(2)] by (simp add: msg_ok_def store_ok_def)
  obtain rc h where h: "dns_hdr_decode (msg_hdr (dns_msg_reset msg)) (pkt_buf dec) = Some (rc, h)"
    using dns_hdr_decode_total by blast
  then show ?thesis
    using assms(1) m dec_err_ok [OF assms(1)]
    by (auto simp: decode_hdr_def upto_def Let_def c dec_ok_def split: prod.splits)
qed

lemma upto_qd:
  assumes "upto pkt {} q" "chain (Some q) decode_qd = Some x"
  shows "upto pkt {} x"
  using assms(2)
proof (cases rule: chain_cases)
  case 1
  then show ?thesis using assms(1) by simp
next
  case (2 dec msg)
  have u: "dec_ok pkt dec" "msg_ok msg" "\<forall>t. sect_count msg t = 0" using assms(1) 2(1) by (auto simp: upto_def)
  then show ?thesis
    using qd_loop_load [OF u(1,2), of "unat (qd_count (msg_hdr msg))" 0] 2(2)
    by (auto simp: decode_qd_def upto_def asked_def)
qed

text \<open>The state of the decoder after the questions and after each section.\<close>

abbreviation "after_qd dec msg \<equiv> chain (decode_hdr dec (dns_msg_reset msg)) decode_qd"
abbreviation "after_an un dec msg \<equiv> chain (after_qd dec msg) (decode_an un)"
abbreviation "after_ns un dec msg \<equiv> chain (after_an un dec msg) (decode_ns un)"
abbreviation "after_ar un dec msg \<equiv> chain (after_ns un dec msg) (decode_ar un)"

lemma upto_sections:
  assumes "dec_ok pkt dec" "msg_ok msg"
  shows "after_qd dec msg = Some x \<Longrightarrow> upto pkt {} x"
    and "after_an un dec msg = Some x \<Longrightarrow> upto pkt {Sect_an} x"
    and "after_ns un dec msg = Some x \<Longrightarrow> upto pkt {Sect_ns, Sect_an} x"
    and "after_ar un dec msg = Some x \<Longrightarrow> upto pkt {Sect_ar, Sect_ns, Sect_an} x"
proof -
  have q: "after_qd dec msg = Some x \<Longrightarrow> upto pkt {} x" for x using upto_hdr [OF assms] upto_qd by metis
  have an: "after_an un dec msg = Some x \<Longrightarrow> upto pkt {Sect_an} x" for x
    using upto_sect [where r = "after_qd dec msg" and x = x, OF q] by (simp add: decode_an_def [abs_def])
  have ns: "after_ns un dec msg = Some x \<Longrightarrow> upto pkt {Sect_ns, Sect_an} x" for x
    using upto_sect [where r = "after_an un dec msg" and x = x, OF an] by (simp add: decode_ns_def [abs_def])
  have ar: "after_ar un dec msg = Some x \<Longrightarrow> upto pkt {Sect_ar, Sect_ns, Sect_an} x" for x
    using upto_sect [where r = "after_ns un dec msg" and x = x, OF ns] by (simp add: decode_ar_def [abs_def])
  show "after_qd dec msg = Some x \<Longrightarrow> upto pkt {} x" by (rule q)
  show "after_an un dec msg = Some x \<Longrightarrow> upto pkt {Sect_an} x" by (rule an)
  show "after_ns un dec msg = Some x \<Longrightarrow> upto pkt {Sect_ns, Sect_an} x" by (rule ns)
  show "after_ar un dec msg = Some x \<Longrightarrow> upto pkt {Sect_ar, Sect_ns, Sect_an} x" by (rule ar)
qed

lemma decode_msg_load:
  assumes "dec_ok pkt dec" "msg_ok msg" "decode_msg un dec msg = Some (rc, dec', msg')"
  shows "msg_ok msg' \<and> (rc = 0 \<or> rc = DNS_FAIL) \<and> (\<forall>t. sect_count msg' t \<le> 1)"
proof -
  obtain x where x: "after_ar un dec msg = Some x"
    using assms(3) by (cases "after_ar un dec msg") (auto simp: decode_msg_def chain_def)
  obtain rc1 dec1 msg1 where x1: "x = (rc1, dec1, msg1)" by (metis prod_cases3)
  have u: "dec_ok pkt dec1" "msg_ok msg1" "rc1 = 0 \<or> rc1 = DNS_FAIL"
    "\<And>t. sect_count msg1 t \<le> (if t \<in> {Sect_ar, Sect_ns, Sect_an} then 1 else 0)"
    using upto_sections(4) [OF assms(1,2) x] x1 by (auto simp: upto_def)
  have le: "sect_count msg1 t \<le> 1" for t using u(4) [of t] by (simp split: if_splits)
  have "(rc, dec', msg') = (rc1, dec1, msg1)"
    using assms(3) x x1 u(1) by (auto simp: decode_msg_def chain_Some check_size_def dec_ok_def split: if_splits)
  then show ?thesis using u le by simp
qed

lemma dec_ok_init: "dec_ok pkt (dec_init pkt False b)"
  by (simp add: dec_ok_def dec_init_def)

text \<open>
  C18. Loading a packet keeps the message well-formed: from a message whose arrays have their sizes,
  whatever the packet, \<open>dns_msg_decode\<close> (when it ends without an access out of bounds) returns 0 or
  \<open>DNS_FAIL\<close> and leaves a message with the counts of its sections within the arrays and the
  name store within its buffer.
\<close>

theorem dns_msg_decode_invariant:
  assumes "msg_ok msg" "dns_msg_decode un msg pkt = Some (rc, msg')"
  shows "msg_ok msg' \<and> (rc = 0 \<or> rc = DNS_FAIL)"
proof -
  obtain dec' where "decode_msg un (dec_init pkt False (sbuf_init None)) msg = Some (rc, dec', msg')"
    using assms(2) by (auto simp: dns_msg_decode_def split: Option.bind_split_asm)
  then show ?thesis using decode_msg_load [OF dec_ok_init assms(1)] by blast
qed

lemma msg_ok_zero: "msg_ok msg_zero"
  by (simp add: msg_ok_def msg_zero_def store_ok_def)

text \<open>
  C34. At most one record of each section is loaded: in the loading mode the return value of
  \<open>dns_rr_decode\<close> for a record it has stored is the length of a name, which \<open>dns_sect_decode\<close> takes for
  an error, so that whatever counts the header of the packet announces, no section of the loaded
  message has more than one record.
\<close>

theorem dns_msg_decode_one_record:
  assumes "msg_ok msg" "dns_msg_decode un msg pkt = Some (rc, msg')"
  shows "an_len msg' \<le> 1 \<and> ns_len msg' \<le> 1 \<and> ar_len msg' \<le> 1"
proof -
  obtain dec' where "decode_msg un (dec_init pkt False (sbuf_init None)) msg = Some (rc, dec', msg')"
    using assms(2) by (auto simp: dns_msg_decode_def split: Option.bind_split_asm)
  then have "\<forall>t. sect_count msg' t \<le> 1" using decode_msg_load [OF dec_ok_init assms(1)] by blast
  from spec [OF this, of Sect_an] spec [OF this, of Sect_ns] spec [OF this, of Sect_ar]
  show ?thesis by simp
qed

section \<open>No access out of bounds\<close>

text \<open>No place of the packet looks like a record whose length makes \<open>rd_end\<close> wrap around.\<close>

definition no_wrap :: "bytes \<Rightarrow> bool" where
  "no_wrap pkt \<longleftrightarrow> (\<forall>i. i + 10 \<le> length pkt \<and> dec_u16 pkt i \<in> {DNS_TYPE_HINFO, DNS_TYPE_MX, DNS_TYPE_SRV} \<longrightarrow>
    i + 10 + unat (dec_u16 pkt (i + 8)) < 65536)"

lemma no_wrap_rr: "no_wrap pkt \<Longrightarrow> \<not> rr_wraps pkt off"
  unfolding no_wrap_def rr_wraps_def by (meson leD)

lemma dns_sect_decode_total:
  assumes "dec_ok pkt dec" "msg_ok msg" "length pkt \<le> 65519" "no_wrap pkt"
  shows "dns_sect_decode un n i sect dec msg \<noteq> None"
  using assms(1,2)
proof (induction n arbitrary: i dec msg)
  case (Suc n)
  obtain rc1 dec1 msg1 where 1: "dns_rr_decode un sect dec msg = Some (rc1, dec1, msg1)"
    using dns_rr_decode_load(1) [OF Suc.prems, of True un sect] assms(3) no_wrap_rr [OF assms(4)] by fastforce
  then have "dec_ok pkt dec1" "msg_ok msg1"
    using dns_rr_decode_load(2) [OF Suc.prems 1] grows_msg_ok by blast+
  then show ?case using Suc.IH 1 by (simp split: prod.splits)
qed simp

lemma chain_total:
  assumes "r \<noteq> None" "\<And>q. r = Some q \<Longrightarrow> upto pkt S q"
    and "\<And>dec msg. dec_ok pkt dec \<Longrightarrow> msg_ok msg \<Longrightarrow> f dec msg \<noteq> None"
  shows "chain r f \<noteq> None"
proof -
  obtain rc dec msg where r: "r = Some (rc, dec, msg)" using assms(1) by (metis not_Some_eq prod_cases3)
  then have "f dec msg \<noteq> None" using assms(2,3) by (fastforce simp: upto_def)
  then show ?thesis using r by (simp add: chain_Some)
qed

lemma dns_msg_decode_total:
  assumes "msg_ok msg" "length pkt \<le> 65519" "no_wrap pkt"
  shows "\<exists>rc msg'. dns_msg_decode un msg pkt = Some (rc, msg')"
proof -
  let ?dec = "dec_init pkt False (sbuf_init None)"
  note u = upto_sections [OF dec_ok_init assms(1), of pkt "sbuf_init None"]
  have "after_qd ?dec msg \<noteq> None"
  proof (rule chain_total [of _ pkt "{}"])
    show "decode_hdr ?dec (dns_msg_reset msg) \<noteq> None"
      using upto_hdr [OF dec_ok_init assms(1), of pkt "sbuf_init None"] by auto
    show "upto pkt {} q" if "decode_hdr ?dec (dns_msg_reset msg) = Some q" for q
      using upto_hdr [OF dec_ok_init assms(1), of pkt "sbuf_init None"] that by auto
    show "decode_qd dec msg \<noteq> None" if "dec_ok pkt dec" "msg_ok msg" for dec msg
      using qd_loop_load [OF that] unfolding decode_qd_def by (metis option.distinct(1))
  qed
  then have "after_an un ?dec msg \<noteq> None"
    by (rule chain_total [OF _ u(1)]) (use dns_sect_decode_total assms in \<open>auto simp: decode_an_def\<close>)
  then have "after_ns un ?dec msg \<noteq> None"
    by (rule chain_total [OF _ u(2)]) (use dns_sect_decode_total assms in \<open>auto simp: decode_ns_def\<close>)
  then have "after_ar un ?dec msg \<noteq> None"
    by (rule chain_total [OF _ u(3)]) (use dns_sect_decode_total assms in \<open>auto simp: decode_ar_def\<close>)
  then have "decode_msg un ?dec msg \<noteq> None"
    unfolding decode_msg_def by (rule chain_total [OF _ u(4)]) (simp_all add: check_size_def dec_ok_def)
  then show ?thesis by (auto simp: dns_msg_decode_def)
qed

text \<open>
  C17. The loader makes no access out of bounds on a packet of at most 65519 bytes, unless some place
  of the packet reads as a HINFO, MX or SRV record whose length makes the 16-bit end of its data wrap
  around: then it returns, for every content of the message it is given.
\<close>

theorem dns_msg_decode_safe:
  assumes "msg_ok msg" "length pkt \<le> 65519" "no_wrap pkt"
  shows "\<exists>rc msg'. dns_msg_decode un msg pkt = Some (rc, msg')"
  by (rule dns_msg_decode_total [OF assms])

text \<open>A response that announces two answers, both A records of the root.\<close>

definition two_answers :: bytes where
  "two_answers = [0, 7, 0x80, 0, 0, 0, 0, 2, 0, 0, 0, 0] @
    [0, 0, 1, 0, 1, 0, 0, 0, 0, 0, 4, 1, 2, 3, 4] @ [0, 0, 1, 0, 1, 0, 0, 0, 0, 0, 4, 5, 6, 7, 8]"

lemma unat_byte_lt: "unat (b :: u8) < 256"
proof -
  have "unat b < 2 ^ LENGTH(8)" by (rule unsigned_less)
  then show ?thesis by simp
qed

lemma unat_dec_u16: "unat (dec_u16 buf i) = unat (buf ! i) * 256 + unat (buf ! (i + 1))"
proof -
  let ?a = "buf ! i" and ?b = "buf ! (i + 1)"
  have "push_bit 8 (ucast ?a :: u16) AND ucast ?b = 0" by (rule bit_word_eqI) (auto simp: bit_simps dest: bit_imp_le_length)
  then have "dec_u16 buf i = push_bit 8 (ucast ?a) + ucast ?b"
    unfolding dec_u16_def by (rule disjunctive_add_eq_or [symmetric])
  also have "\<dots> = of_nat (unat ?a * 256 + unat ?b)" by (simp add: push_bit_eq_mult mult.commute)
  finally have d: "dec_u16 buf i = of_nat (unat ?a * 256 + unat ?b)" .
  have "unat ?a * 256 + unat ?b < 65536" using unat_byte_lt [of ?a] unat_byte_lt [of ?b] by linarith
  then show ?thesis unfolding d by (simp only: unat_of_nat) (simp add: take_bit_eq_mod)
qed

lemma two_answers_no_wrap: "no_wrap two_answers"
proof -
  have b: "\<forall>b\<in>set two_answers. b \<le> 0x80" and l: "length two_answers = 42" by (simp_all add: two_answers_def)
  have "i + 10 + unat (dec_u16 two_answers (i + 8)) < 65536" if "i + 10 \<le> length two_answers" for i
  proof -
    have "two_answers ! (i + 8) \<in> set two_answers" using that by (intro nth_mem) simp
    then have "two_answers ! (i + 8) \<le> 0x80" using b by blast
    then have "unat (two_answers ! (i + 8)) \<le> 128" by (simp add: word_le_nat_alt)
    then have "unat (dec_u16 two_answers (i + 8)) < 33024"
      using unat_dec_u16 [of two_answers "i + 8"] unat_byte_lt [of "two_answers ! (i + 8 + 1)"] by simp
    then show ?thesis using that l by simp
  qed
  then show ?thesis by (simp add: no_wrap_def)
qed

lemma two_answers_loads: "\<exists>rc msg'. dns_msg_decode un msg_zero two_answers = Some (rc, msg')"
  by (rule dns_msg_decode_total [OF msg_ok_zero _ two_answers_no_wrap]) (simp add: two_answers_def)

theorem dns_msg_decode_safe_witness:
  "msg_ok msg_zero \<and> length two_answers \<le> 65519 \<and> no_wrap two_answers \<and>
   (\<exists>rc msg'. dns_msg_decode (\<lambda>_. 0) msg_zero two_answers = Some (rc, msg'))"
proof -
  have "length two_answers \<le> 65519" by (simp add: two_answers_def)
  then show ?thesis using dns_msg_decode_safe [OF msg_ok_zero _ two_answers_no_wrap] msg_ok_zero two_answers_no_wrap by simp
qed

theorem dns_msg_decode_invariant_witness:
  "\<exists>rc msg'. dns_msg_decode (\<lambda>_. 0) msg_zero two_answers = Some (rc, msg') \<and> msg_ok msg' \<and> (rc = 0 \<or> rc = DNS_FAIL)"
  using two_answers_loads [of "\<lambda>_. 0"] dns_msg_decode_invariant [OF msg_ok_zero] by metis

theorem dns_msg_decode_one_record_witness:
  "\<exists>rc msg'. dns_msg_decode (\<lambda>_. 0) msg_zero two_answers = Some (rc, msg') \<and>
     an_len msg' \<le> 1 \<and> ns_len msg' \<le> 1 \<and> ar_len msg' \<le> 1"
  using two_answers_loads [of "\<lambda>_. 0"] dns_msg_decode_one_record [OF msg_ok_zero] by metis

section \<open>Errors\<close>

text \<open>
  C40. A packet shorter than a header is accepted: \<open>dns_dec_err\<close> notes the error and returns 0, which
  \<open>decode_hdr\<close> passes on, so that the loader returns 0, and the message is the empty one.
\<close>

theorem dns_msg_decode_short_packet:
  assumes "length pkt < DNS_HDR_LEN"
  shows "dns_msg_decode un msg pkt = Some (0, dns_msg_reset msg)"
  using assms
  by (simp add: dns_msg_decode_def decode_msg_def decode_hdr_def dec_init_def dns_hdr_decode_def dns_dec_err_def chain_def
      decode_qd_def decode_an_def decode_ns_def decode_ar_def check_size_def dns_msg_reset_def dns_hdr_reset_def
      DNS_MAX_EMSG_def DNS_EHDRLEN_def)

theorem dns_msg_decode_short_packet_witness:
  "length ([0, 7] :: bytes) < DNS_HDR_LEN \<and> dns_msg_decode (\<lambda>_. 0) msg_zero [0, 7] = Some (0, dns_msg_reset msg_zero)"
  using dns_msg_decode_short_packet [of "[0, 7]" "\<lambda>_. 0" msg_zero] by (simp add: DNS_HDR_LEN_def)

text \<open>
  The read of the record data at the end of the packet: a record of one of the three types whose
  data begin where the packet ends.
\<close>

lemma rd_data_behind:
  assumes "type \<in> {DNS_TYPE_HINFO, DNS_TYPE_MX, DNS_TYPE_SRV}" "7 \<le> rdlen" "length (pkt_buf (st_dec s)) \<le> dec_off (st_dec s)"
  shows "rd_data un sect rc p0 rdlen rd_end name type cls ttl s = None"
  using assms
  by (auto simp: rd_data_def rd_HINFO_def rd_MX_def rd_SRV_def andthen_def seq_def guard_def ret_def rd_len_def rd_u16_def
      rd_mem_def rdmem_def DNS_TYPE_A_def DNS_TYPE_NS_def DNS_TYPE_CNAME_def DNS_TYPE_SOA_def DNS_TYPE_PTR_def
      DNS_TYPE_HINFO_def DNS_TYPE_MX_def DNS_TYPE_TXT_def DNS_TYPE_AAAA_def DNS_TYPE_SRV_def DNS_TYPE_OPT_def)

lemma dec_u16_segment: "dec_u16 (segment pkt i (i + 2)) 0 = dec_u16 pkt i" if "i + 2 \<le> length pkt"
  using that by (simp add: dec_u16_def segment_def)

definition cut_record :: "bytes \<Rightarrow> nat \<Rightarrow> bool" where
  "cut_record pkt i \<longleftrightarrow> i + 10 = length pkt \<and> length pkt \<le> 65519 \<and>
    dec_u16 pkt i \<in> {DNS_TYPE_HINFO, DNS_TYPE_MX, DNS_TYPE_SRV} \<and> 65536 \<le> length pkt + unat (dec_u16 pkt (i + 8))"

lemma rr_name_accepted:
  assumes n: "name_at pkt (dec_off dec) nm n j" "j \<le> DNS_MAX_JMP + 1" "length nm \<le> DNS_NAME_MAXSTR"
    and d: "pkt_buf dec = pkt" and m: "names_len msg = 0"
  obtains x p m' where "rr_decode_name DNS_NAME \<lparr> st_dec = dec, st_msg = msg, st_rr = r, scr = [], desc = [] \<rparr> =
      Some (Inr (int (length x), x), \<lparr> st_dec = dec\<lparr> dec_off := dec_off dec + n \<rparr>, st_msg = msg, st_rr = r, scr = [], desc = [] \<rparr>)"
    and "msg_store_name msg (Some x) = (Some p, m')"
proof -
  let ?x = "if nm = [] then [46] else nm"
  have "decode_name pkt (dec_off dec) DNS_MSG_SIZE DNS_MSG_SIZE = Some (int (length nm) + 1, dec_off dec + n, nm @ [0])"
    using name_loop_accepts [OF n(1), of 0 DNS_MSG_SIZE "[]" DNS_MSG_SIZE "dec_off dec"] n(2,3)
    by (simp add: decode_name_def DNS_MSG_SIZE_def DNS_NAME_MAXSTR_def)
  then have nm: "rr_decode_name DNS_NAME \<lparr> st_dec = dec, st_msg = msg, st_rr = r, scr = [], desc = [] \<rparr> =
      Some (Inr (int (length ?x), ?x), \<lparr> st_dec = dec\<lparr> dec_off := dec_off dec + n \<rparr>, st_msg = msg, st_rr = r, scr = [], desc = [] \<rparr>)"
    by (simp add: rr_decode_name_def d sz_sub_def fix_label_def dns_add_str_def ret_def DNS_MSG_SIZE_def)
  have "length (takeWhile (\<lambda>c. c \<noteq> 0) ?x) \<le> DNS_NAME_MAXSTR"
    using n(3) le_trans [OF length_takeWhile_le] by (auto simp: DNS_NAME_MAXSTR_def)
  then obtain p m' where "msg_store_name msg (Some ?x) = (Some p, m')"
    using m by (auto simp: msg_store_name_def msg_store_str_def DNS_NAME_MAXSTR_def DNS_MAX_PDUSIZE_def)
  then show thesis by (rule that [OF nm])
qed

lemma rr_body_behind:
  assumes n: "name_at pkt (dec_off dec) nm n j" "j \<le> DNS_MAX_JMP + 1" "length nm \<le> DNS_NAME_MAXSTR"
    and c: "cut_record pkt (dec_off dec + n)" and d: "pkt_buf dec = pkt" "load_msg dec" and m: "names_len msg = 0"
  shows "rr_body un sect \<lparr> st_dec = dec, st_msg = msg, st_rr = r, scr = [], desc = [] \<rparr> = None"
proof -
  define i where "i = dec_off dec + n"
  define rdlen where "rdlen = unat (dec_u16 pkt (i + 8))"
  have len: "length pkt = i + 10" "length pkt \<le> 65519" "65536 \<le> length pkt + rdlen" "rdlen < 65536"
    and ty: "dec_u16 pkt i \<in> {DNS_TYPE_HINFO, DNS_TYPE_MX, DNS_TYPE_SRV}"
    using c unsigned_less [of "dec_u16 pkt (i + 8)"] by (simp_all add: cut_record_def i_def rdlen_def)
  obtain x p m' where nm: "rr_decode_name DNS_NAME \<lparr> st_dec = dec, st_msg = msg, st_rr = r, scr = [], desc = [] \<rparr> =
      Some (Inr (int (length x), x), \<lparr> st_dec = dec\<lparr> dec_off := i \<rparr>, st_msg = msg, st_rr = r, scr = [], desc = [] \<rparr>)"
    and st: "msg_store_name msg (Some x) = (Some p, m')"
    using rr_name_accepted [OF n d(1) m] unfolding i_def by blast
  have e: "\<not> i + 10 < (i + 10 + rdlen) mod 65536" using len by (simp add: mod_if) linarith
  have rd: "rdmem pkt (i + k) l = Some (segment pkt (i + k) (i + k + l))" if "k + l \<le> 10" for k l
    using that len(1) by (simp add: rdmem_def)
  note rds = rd [of 0 2, simplified] rd [of 2 2, simplified] rd [of 4 4, simplified] rd [of 8 2, simplified]
  have v: "dec_u16 (segment pkt i (Suc (Suc i))) 0 = dec_u16 pkt i" "unat (dec_u16 (segment pkt (i + 8) (10 + i)) 0) = rdlen"
    using len(1) dec_u16_segment [of i pkt] dec_u16_segment [of "i + 8" pkt] by (simp_all add: rdlen_def)
  have b: "rd_data un sect rc q rdlen rd_end cname (dec_u16 pkt i) cls ttl t = None"
    if "pkt_buf (st_dec t) = pkt" "dec_off (st_dec t) = i + 10" for rc q rd_end cname cls ttl t
    by (rule rd_data_behind [OF ty]) (use that len in simp_all)
  show ?thesis
    unfolding rr_body_def andthen_def [of "rr_decode_name DNS_NAME"] nm
    by (simp add: seq_def andthen_def add_scr_def ret_def store_rrname_def loading_def d st offset_def guard_def
        rd_u16_def rd_u32_def rd_mem_def skip_def Let_def rds v b e len(1))
qed

lemma dns_rr_decode_behind:
  assumes "name_at pkt (dec_off dec) nm n j" "j \<le> DNS_MAX_JMP + 1" "length nm \<le> DNS_NAME_MAXSTR"
    "cut_record pkt (dec_off dec + n)" "pkt_buf dec = pkt" "load_msg dec" "names_len msg = 0" "sect_count msg sect = 0"
  shows "dns_rr_decode un sect dec msg = None"
  using rr_body_behind [OF assms(1-7)] assms(8) by (simp add: dns_rr_decode_def DNS_MAX_RR_def)

text \<open>
  C35. The loader reads behind the end of a packet: \<open>rd_end\<close> is a \<open>uint16_t\<close>, so that a \<open>rdlen\<close> that takes
  it over 65535 passes the check of \<open>rd_end\<close> against the packet.  For every packet of at most 65519 bytes
  that has no question and announces an answer, whose first answer is a HINFO, MX or SRV record with any
  owner name, class and TTL, and which ends where the data of that record begin, such a \<open>rdlen\<close> makes the
  loader read the data behind the packet.
\<close>

theorem dns_msg_decode_out_of_bounds:
  assumes "dec_u16 pkt 4 = 0" "dec_u16 pkt 6 \<noteq> 0"
    and "name_at pkt DNS_HDR_LEN nm n j" "j \<le> DNS_MAX_JMP + 1" "length nm \<le> DNS_NAME_MAXSTR"
    and "cut_record pkt (DNS_HDR_LEN + n)"
  shows "dns_msg_decode un msg pkt = None"
proof -
  let ?dec = "(dec_init pkt False (sbuf_init None))\<lparr> dec_off := DNS_HDR_LEN \<rparr>"
  have l: "DNS_HDR_LEN + 10 \<le> length pkt" using assms(6) by (simp add: cut_record_def)
  obtain h where h: "decode_hdr (dec_init pkt False (sbuf_init None)) (dns_msg_reset msg) =
      Some (0, ?dec, (dns_msg_reset msg)\<lparr> msg_hdr := h \<rparr>)" "qd_count h = 0" "an_count h \<noteq> 0"
    using l assms(1,2) by (auto simp: decode_hdr_def dec_init_def dns_hdr_decode_def rdu16_in DNS_HDR_LEN_def)
  obtain k where k: "unat (an_count h) = Suc k" using h(3) not0_implies_Suc unat_eq_zero by metis
  have "dns_rr_decode un Sect_an ?dec ((dns_msg_reset msg)\<lparr> msg_hdr := h \<rparr>) = None"
    by (rule dns_rr_decode_behind [OF _ assms(4,5)]) (use assms(3,6) in \<open>simp_all add: dec_init_def dns_msg_reset_def\<close>)
  then show ?thesis
    by (simp add: dns_msg_decode_def decode_msg_def h chain_def decode_qd_def decode_an_def k)
qed

definition mx_wraps :: bytes where
  "mx_wraps = [0, 7, 0x80, 0, 0, 0, 0, 1, 0, 0, 0, 0] @ [1, 97, 0, 0, 15, 0, 1, 0, 0, 0, 0, 0xFF, 0xE7]"

theorem dns_msg_decode_out_of_bounds_witness:
  "name_at mx_wraps DNS_HDR_LEN [97] 3 0 \<and> cut_record mx_wraps (DNS_HDR_LEN + 3) \<and>
   dns_msg_decode (\<lambda>_. 0) msg_zero mx_wraps = None"
proof -
  have "name_at mx_wraps 14 [] 1 0" by (rule name_at.zero) (simp add: rd8_def mx_wraps_def)
  then have "name_at mx_wraps 12 ([97] @ (if (0 :: u8) \<noteq> 0 then [46] else []) @ []) (1 + unat (1 :: u8) + 1) 0"
    by (intro name_at.label) (auto simp: rd8_def rdmem_def mx_wraps_def is_ptr_iff segment_def)
  then have n: "name_at mx_wraps DNS_HDR_LEN [97] 3 0" by (simp add: DNS_HDR_LEN_def numeral_3_eq_3)
  have c: "cut_record mx_wraps (DNS_HDR_LEN + 3)"
    by (simp add: cut_record_def mx_wraps_def DNS_HDR_LEN_def dec_u16_def DNS_TYPE_MX_def)
  have "dec_u16 mx_wraps 4 = 0" "dec_u16 mx_wraps 6 \<noteq> 0" by (simp_all add: mx_wraps_def dec_u16_def)
  from dns_msg_decode_out_of_bounds [OF this n _ _ c] n c show ?thesis by (simp add: DNS_NAME_MAXSTR_def)
qed

end
