(* ===== verification/Dns_Encode.thy ===== *)
theory Dns_Encode
  imports Dns_Safety
begin

text \<open>
  The message builder and the encoder of \<open>src/src/dns_proto.c\<close>: \<open>dns_add_qd\<close> and \<open>dns_add_rr\<close>, which
  copy names into the message, and \<open>dns_msg_encode\<close>, which writes the message into a packet buffer
  through \<open>dns_enc_mkspace\<close> and \<open>encode_name\<close>.  It is shown that the encoder stays within its buffer
  for records other than SRV, that it does not for an SRV record, and that a query that is built,
  encoded and decoded comes back.
\<close>

section \<open>Building a message\<close>

text \<open>
  A source record has its strings in place of pointers.  The slot that is filled keeps what it held:
  \<open>un\<close> and \<open>uz\<close> give what \<open>txt.num_str\<close> and \<open>opt.z_bits\<close> read as in a slot whose union was last
  written through another member.  A result \<open>None\<close> is a source record whose union was not written
  through the member of its type.
\<close>

fun add_txt :: "dns_msg \<Rightarrow> nat \<Rightarrow> (nat \<Rightarrow> nat option) \<Rightarrow> bytes option list \<Rightarrow> int \<times> dns_msg \<times> nat dns_rdata" where
  "add_txt msg n f [] = (0, msg, RD_txt n f)"
| "add_txt msg n f (str # strs) =
    (if n \<ge> DNS_MAX_TXT then (-1, msg, RD_txt n f)
     else case msg_store_name msg str of (p, m) \<Rightarrow>
       if p = None then (-1, m, RD_txt n (f(n := p))) else add_txt m (n + 1) (f(n := p)) strs)"

definition add_name1 :: "dns_msg \<Rightarrow> bytes option \<Rightarrow> (nat option \<Rightarrow> nat dns_rdata) \<Rightarrow> int \<times> dns_msg \<times> nat dns_rdata" where
  "add_name1 msg name mk = (case msg_store_name msg name of (p, m) \<Rightarrow> (if p = None then -1 else 0, m, mk p))"

definition add_soa :: "dns_msg \<Rightarrow> nat dns_rdata \<Rightarrow> bytes option \<Rightarrow> bytes option \<Rightarrow> u32 list \<Rightarrow> int \<times> dns_msg \<times> nat dns_rdata" where
  "add_soa msg old mname rname v =
    (case msg_store_name msg mname of (p, m) \<Rightarrow>
       if p = None then (-1, m, case old of RD_soa _ r a b c d e \<Rightarrow> RD_soa None r a b c d e | _ \<Rightarrow> RD_soa None None 0 0 0 0 0)
       else case msg_store_name m rname of (r, m) \<Rightarrow> (0, m, RD_soa p r (v ! 0) (v ! 1) (v ! 2) (v ! 3) (v ! 4)))"

definition add_hinfo :: "dns_msg \<Rightarrow> bytes option \<Rightarrow> bytes option \<Rightarrow> int \<times> dns_msg \<times> nat dns_rdata" where
  "add_hinfo msg cpu os =
    (case msg_store_name msg cpu of (p, m) \<Rightarrow> case msg_store_name m os of (q, m) \<Rightarrow> (0, m, RD_hinfo p q))"

definition add_rdata :: "(nat dns_rdata \<Rightarrow> nat) \<Rightarrow> (nat dns_rdata \<Rightarrow> u16) \<Rightarrow> dns_msg \<Rightarrow> u16 \<Rightarrow> nat dns_rdata \<Rightarrow> bytes dns_rdata \<Rightarrow>
    (int \<times> dns_msg \<times> nat dns_rdata) option" where
  "add_rdata un uz msg type old src =
    (if type = DNS_TYPE_A then (case src of RD_a bs \<Rightarrow> Some (0, msg, RD_a bs) | _ \<Rightarrow> None)
     else if type = DNS_TYPE_NS then (case src of RD_ns n \<Rightarrow> Some (add_name1 msg n RD_ns) | _ \<Rightarrow> None)
     else if type = DNS_TYPE_CNAME then (case src of RD_cname n \<Rightarrow> Some (add_name1 msg n RD_cname) | _ \<Rightarrow> None)
     else if type = DNS_TYPE_SOA then
       (case src of RD_soa m r a b c d e \<Rightarrow> Some (add_soa msg old m r [a, b, c, d, e]) | _ \<Rightarrow> None)
     else if type = DNS_TYPE_PTR then (case src of RD_ptr n \<Rightarrow> Some (add_name1 msg n RD_ptr) | _ \<Rightarrow> None)
     else if type = DNS_TYPE_HINFO then (case src of RD_hinfo c s \<Rightarrow> Some (add_hinfo msg c s) | _ \<Rightarrow> None)
     else if type = DNS_TYPE_MX then (case src of RD_mx pref n \<Rightarrow> Some (add_name1 msg n (RD_mx pref)) | _ \<Rightarrow> None)
     else if type = DNS_TYPE_TXT then
       (case src of RD_txt k strs \<Rightarrow> (case txt_view un old of (n, f) \<Rightarrow>
          Some (add_txt msg n f (map strs [0..<k]))) | _ \<Rightarrow> None)
     else if type = DNS_TYPE_AAAA then (case src of RD_aaaa bs \<Rightarrow> Some (0, msg, RD_aaaa bs) | _ \<Rightarrow> None)
     else if type = DNS_TYPE_SRV then (case src of RD_srv a b c n \<Rightarrow> Some (add_name1 msg n (RD_srv a b c)) | _ \<Rightarrow> None)
     else if type = DNS_TYPE_OPT then
       (case src of RD_opt sz rcode ver dobit _ \<Rightarrow>
          Some (0, msg, RD_opt sz rcode ver dobit (case old of RD_opt _ _ _ _ z \<Rightarrow> z | _ \<Rightarrow> uz old)) | _ \<Rightarrow> None)
     else Some (0, msg, old))"

definition dns_sect_add_rr :: "(nat dns_rdata \<Rightarrow> nat) \<Rightarrow> (nat dns_rdata \<Rightarrow> u16) \<Rightarrow> dns_msg \<Rightarrow> dns_sect \<Rightarrow> bytes dns_rr option \<Rightarrow>
    (int \<times> dns_msg) option" where
  "dns_sect_add_rr un uz msg sect src =
    (case src of None \<Rightarrow> Some (0, msg) | Some src \<Rightarrow>
     let i = sect_count msg sect in
     if i \<ge> DNS_MAX_RR then Some (-1, msg)
     else
       case msg_store_name msg (rr_name src) of (p, m) \<Rightarrow>
       let rr = (sect_base msg sect ! i)\<lparr> rr_name := p \<rparr> in
       if p = None then Some (-1, set_slot m sect i rr)
       else
         let rr = rr\<lparr> rr_type := rr_type src, rr_class := rr_class src, rr_ttl := rr_ttl src \<rparr> in do {
         (rc, m, rd) \<leftarrow> add_rdata un uz m (rr_type rr) (rr_rdata rr) (rr_rdata src);
         let m = set_slot m sect i (rr\<lparr> rr_rdata := rd \<rparr>);
         if rc \<noteq> 0 then Some (rc, m) else Some (0, inc_count m sect)
       })"

definition dns_add_rr :: "(nat dns_rdata \<Rightarrow> nat) \<Rightarrow> (nat dns_rdata \<Rightarrow> u16) \<Rightarrow> dns_msg \<Rightarrow> int \<Rightarrow> bytes dns_rr option \<Rightarrow>
    (int \<times> dns_msg) option" where
  "dns_add_rr un uz msg sc rr =
    (if sc = 1 then dns_sect_add_rr un uz msg Sect_an rr
     else if sc = 2 then dns_sect_add_rr un uz msg Sect_ns rr
     else if sc = 3 then dns_sect_add_rr un uz msg Sect_ar rr
     else Some (-1, msg))"

text \<open>\<open>qname\<close> is the memory at the pointer, of which \<open>len\<close> bytes are copied.\<close>

definition dns_add_qdn :: "dns_msg \<Rightarrow> bytes \<Rightarrow> u16 \<Rightarrow> u16 \<Rightarrow> int \<times> dns_msg" where
  "dns_add_qdn msg name type cls =
    (if qd_len msg \<ge> DNS_MAX_QD then (-1, msg)
     else case msg_store_str msg name of (p, m) \<Rightarrow>
       let i = qd_len msg; old = msg_qd m ! i in
       if p = None then (-1, m\<lparr> msg_qd := (msg_qd m)[i := old\<lparr> qname := None \<rparr>] \<rparr>)
       else (0, m\<lparr> msg_qd := (msg_qd m)[i := \<lparr> qname = p, qtype = type, qclass = cls \<rparr>], qd_len := i + 1 \<rparr>))"

definition dns_add_qd :: "dns_msg \<Rightarrow> bytes option \<Rightarrow> u16 \<Rightarrow> u16 \<Rightarrow> int \<times> dns_msg" where
  "dns_add_qd msg name type cls =
    dns_add_qdn msg (case name of None \<Rightarrow> [] | Some s \<Rightarrow> takeWhile (\<lambda>c. c \<noteq> 0) s) type cls"

section \<open>Space in the packet\<close>

text \<open>The encoder writes into a buffer of \<open>pkt_max\<close> bytes, the length of \<open>enc_buf\<close>.\<close>

definition dns_enc_retspace :: "dns_enc \<Rightarrow> nat \<Rightarrow> int \<times> dns_enc" where
  "dns_enc_retspace enc len =
    (if len > enc_len enc then (-1, enc) else (0, enc\<lparr> enc_len := enc_len enc - len \<rparr>))"

definition dns_enc_mkspace :: "dns_enc \<Rightarrow> nat \<Rightarrow> nat option \<times> dns_enc" where
  "dns_enc_mkspace enc len =
    (if enc_len enc + len > length (enc_buf enc) then (None, enc)
     else (Some (enc_len enc), enc\<lparr> enc_len := enc_len enc + len \<rparr>))"

text \<open>
  A piece of the encoder changes the encoder and ends with a return value, or with \<open>None\<close>, a store
  outside the buffer.  \<open>enc_then\<close> is \<open>if (rc) return rc;\<close>, \<open>with_space\<close> is \<open>enc_fld_mkspace\<close> followed by
  \<open>if (!wbuf) return -1;\<close>.
\<close>

type_synonym enc_fun = "dns_enc \<Rightarrow> (int \<times> dns_enc) option"

definition enc_then :: "enc_fun \<Rightarrow> enc_fun \<Rightarrow> enc_fun" where
  "enc_then f g = (\<lambda>enc. case f enc of None \<Rightarrow> None | Some (rc, e) \<Rightarrow> if rc \<noteq> 0 then Some (rc, e) else g e)"

definition with_space :: "nat \<Rightarrow> (nat \<Rightarrow> enc_fun) \<Rightarrow> enc_fun" where
  "with_space len f = (\<lambda>enc. case dns_enc_mkspace enc len of (None, e) \<Rightarrow> Some (-1, e) | (Some w, e) \<Rightarrow> f w e)"

definition put :: "nat \<Rightarrow> bytes \<Rightarrow> enc_fun" where
  "put w bs = (\<lambda>enc. map_option (\<lambda>e. (0, e)) (poke enc w bs))"

definition name_str :: "dns_msg \<Rightarrow> nat option \<Rightarrow> bytes option" where
  "name_str msg p = map_option (cstr (names msg)) p"

text \<open>A name at \<open>w\<close> followed by \<open>post\<close>; the rest of the \<open>len\<close> reserved bytes is returned.\<close>

definition enc_name_then :: "dns_msg \<Rightarrow> nat option \<Rightarrow> bytes \<Rightarrow> nat \<Rightarrow> nat \<Rightarrow> enc_fun" where
  "enc_name_then msg name post len w = (\<lambda>enc. do {
    (r, enc) \<leftarrow> encode_name enc w (name_str msg name);
    case r of
      None \<Rightarrow> Some (-1, enc)
    | Some w' \<Rightarrow> do {
        enc \<leftarrow> poke enc w' post;
        Some (dns_enc_retspace enc (sz_sub len (w' + length post - w)))
      }
  })"

definition dns_enc_quest :: "dns_msg \<Rightarrow> nat dns_qd \<Rightarrow> enc_fun" where
  "dns_enc_quest msg quest = with_space (DNS_NAME_MAXLEN + 4) (\<lambda>w.
    enc_name_then msg (qname quest) (enc_u16 (qtype quest) @ enc_u16 (qclass quest)) (DNS_NAME_MAXLEN + 4) w)"

definition dns_enc_name :: "dns_msg \<Rightarrow> nat option \<Rightarrow> enc_fun" where
  "dns_enc_name msg name = with_space DNS_NAME_MAXLEN (\<lambda>w. enc_name_then msg name [] DNS_NAME_MAXLEN w)"

definition dns_enc_mem :: "bytes \<Rightarrow> enc_fun" where
  "dns_enc_mem mem = with_space (length mem) (\<lambda>w. put w mem)"

definition dns_enc_str :: "bytes \<Rightarrow> enc_fun" where
  "dns_enc_str str = with_space (length str + 1) (\<lambda>w. put w (of_nat (length str) # str))"

section \<open>Records\<close>

definition enc_soa :: "dns_msg \<Rightarrow> nat option \<Rightarrow> nat option \<Rightarrow> u32 list \<Rightarrow> enc_fun" where
  "enc_soa msg mname rname v =
    enc_then (dns_enc_name msg mname) (enc_then (dns_enc_name msg rname)
      (with_space 20 (\<lambda>w. put w (concat (map enc_u32 v)))))"

text \<open>\<open>wptr\<close> is not advanced behind the first string, so the second one overwrites it.\<close>

definition enc_hinfo :: "dns_msg \<Rightarrow> nat option \<Rightarrow> nat option \<Rightarrow> enc_fun" where
  "enc_hinfo msg cpu os =
    (let c = (case name_str msg cpu of None \<Rightarrow> [] | Some s \<Rightarrow> s); t = (case name_str msg os of None \<Rightarrow> [] | Some s \<Rightarrow> s)
     in with_space (2 + length c + length t) (\<lambda>w.
       enc_then (put w (of_nat (length c) # c)) (put (w + 1) (of_nat (length t) # t))))"

definition enc_mx :: "dns_msg \<Rightarrow> u16 \<Rightarrow> nat option \<Rightarrow> enc_fun" where
  "enc_mx msg pref name = enc_then (with_space 4 (\<lambda>w. put w (enc_u16 pref))) (dns_enc_name msg name)"

fun enc_txt :: "dns_msg \<Rightarrow> nat option list \<Rightarrow> enc_fun" where
  "enc_txt msg [] = (\<lambda>enc. Some (0, enc))"
| "enc_txt msg (p # ps) =
    enc_then (dns_enc_str (case name_str msg p of None \<Rightarrow> [] | Some s \<Rightarrow> s)) (enc_txt msg ps)"

text \<open>Two bytes are reserved, and six are written.\<close>

definition enc_srv :: "dns_msg \<Rightarrow> u16 \<Rightarrow> u16 \<Rightarrow> u16 \<Rightarrow> nat option \<Rightarrow> enc_fun" where
  "enc_srv msg prior weight port name =
    enc_then (with_space 2 (\<lambda>w. put w (enc_u16 prior @ enc_u16 weight @ enc_u16 port))) (dns_enc_name msg name)"

definition opt_ttl :: "u8 \<Rightarrow> u8 \<Rightarrow> bool \<Rightarrow> u16 \<Rightarrow> u32" where
  "opt_ttl rcode ver dobit z =
    push_bit 24 (ucast rcode) OR push_bit 16 (ucast ver) OR (if dobit then 0x8000 else 0) OR (ucast z AND 0x7fff)"

text \<open>The class and then, with \<open>enc_u16\<close>, the low half of the flags are written over the header.\<close>

definition enc_opt :: "nat \<Rightarrow> u16 \<Rightarrow> u8 \<Rightarrow> u8 \<Rightarrow> bool \<Rightarrow> u16 \<Rightarrow> enc_fun" where
  "enc_opt rdlen_ptr sz rcode ver dobit z =
    put (rdlen_ptr - 6) (enc_u16 sz @ enc_u16 (ucast (opt_ttl rcode ver dobit z)))"

definition enc_rdata :: "dns_msg \<Rightarrow> nat \<Rightarrow> u16 \<Rightarrow> nat dns_rdata \<Rightarrow> enc_fun" where
  "enc_rdata msg rdlen_ptr type rd =
    (if type = DNS_TYPE_A then (case rd of RD_a bs \<Rightarrow> dns_enc_mem bs | _ \<Rightarrow> (\<lambda>_. None))
     else if type = DNS_TYPE_NS then (case rd of RD_ns n \<Rightarrow> dns_enc_name msg n | _ \<Rightarrow> (\<lambda>_. None))
     else if type = DNS_TYPE_CNAME then (case rd of RD_cname n \<Rightarrow> dns_enc_name msg n | _ \<Rightarrow> (\<lambda>_. None))
     else if type = DNS_TYPE_SOA then
       (case rd of RD_soa m r a b c d e \<Rightarrow> enc_soa msg m r [a, b, c, d, e] | _ \<Rightarrow> (\<lambda>_. None))
     else if type = DNS_TYPE_PTR then (case rd of RD_ptr n \<Rightarrow> dns_enc_name msg n | _ \<Rightarrow> (\<lambda>_. None))
     else if type = DNS_TYPE_HINFO then (case rd of RD_hinfo c s \<Rightarrow> enc_hinfo msg c s | _ \<Rightarrow> (\<lambda>_. None))
     else if type = DNS_TYPE_MX then (case rd of RD_mx pref n \<Rightarrow> enc_mx msg pref n | _ \<Rightarrow> (\<lambda>_. None))
     else if type = DNS_TYPE_TXT then (case rd of RD_txt k f \<Rightarrow> enc_txt msg (map f [0..<k]) | _ \<Rightarrow> (\<lambda>_. None))
     else if type = DNS_TYPE_AAAA then (case rd of RD_aaaa bs \<Rightarrow> dns_enc_mem bs | _ \<Rightarrow> (\<lambda>_. None))
     else if type = DNS_TYPE_SRV then (case rd of RD_srv a b c n \<Rightarrow> enc_srv msg a b c n | _ \<Rightarrow> (\<lambda>_. None))
     else if type = DNS_TYPE_OPT then
       (case rd of RD_opt sz rcode ver dobit z \<Rightarrow> enc_opt rdlen_ptr sz rcode ver dobit z | _ \<Rightarrow> (\<lambda>_. None))
     else (\<lambda>enc. Some (0, enc)))"

text \<open>
  Behind the header \<open>pkt_len\<close> is where the data of the record start, and \<open>rdlen_ptr\<close> is two bytes
  before it; both \<open>pkt_len\<close> and \<open>rdlen\<close> have 16 bits.
\<close>

definition rr_hdr_len :: nat where
  "rr_hdr_len = DNS_NAME_MAXLEN + 2 + 2 + 4 + 2"

definition enc_rr_hdr :: "dns_msg \<Rightarrow> nat dns_rr \<Rightarrow> enc_fun" where
  "enc_rr_hdr msg rr = with_space rr_hdr_len (\<lambda>w.
    enc_name_then msg (rr_name rr)
      (enc_u16 (rr_type rr) @ enc_u16 (rr_class rr) @ enc_u32 (rr_ttl rr) @ enc_u16 0) rr_hdr_len w)"

definition enc_rr_data :: "dns_msg \<Rightarrow> nat dns_rr \<Rightarrow> enc_fun" where
  "enc_rr_data msg rr = (\<lambda>enc.
    let rdlen_ptr = enc_len enc - 2; pkt_len = of_nat (enc_len enc) :: u16
    in enc_then (enc_rdata msg rdlen_ptr (rr_type rr) (rr_rdata rr))
      (\<lambda>enc. put rdlen_ptr (enc_u16 (of_nat (enc_len enc) - pkt_len)) enc) enc)"

definition dns_rr_encode :: "dns_msg \<Rightarrow> nat dns_rr \<Rightarrow> enc_fun" where
  "dns_rr_encode msg rr = enc_then (enc_rr_hdr msg rr) (enc_rr_data msg rr)"

fun rrs_encode :: "dns_msg \<Rightarrow> nat dns_rr list \<Rightarrow> enc_fun" where
  "rrs_encode msg [] = (\<lambda>enc. Some (0, enc))"
| "rrs_encode msg (rr # rrs) = enc_then (dns_rr_encode msg rr) (rrs_encode msg rrs)"

definition dns_sect_enc :: "dns_msg \<Rightarrow> dns_sect \<Rightarrow> enc_fun" where
  "dns_sect_enc msg sect = rrs_encode msg (take (sect_count msg sect) (sect_base msg sect))"

section \<open>Messages\<close>

definition encode_ar :: "dns_msg \<Rightarrow> enc_fun" where
  "encode_ar msg = dns_sect_enc msg Sect_ar"

definition encode_ns :: "dns_msg \<Rightarrow> enc_fun" where
  "encode_ns msg = dns_sect_enc msg Sect_ns"

definition encode_an :: "dns_msg \<Rightarrow> enc_fun" where
  "encode_an msg = dns_sect_enc msg Sect_an"

fun qds_encode :: "dns_msg \<Rightarrow> nat dns_qd list \<Rightarrow> enc_fun" where
  "qds_encode msg [] = (\<lambda>enc. Some (0, enc))"
| "qds_encode msg (qd # qds) = enc_then (dns_enc_quest msg qd) (qds_encode msg qds)"

definition encode_qd :: "dns_msg \<Rightarrow> enc_fun" where
  "encode_qd msg = qds_encode msg (take (qd_len msg) (msg_qd msg))"

definition sync_hdr :: "dns_msg \<Rightarrow> dns_msg" where
  "sync_hdr msg = msg\<lparr> msg_hdr := (msg_hdr msg)\<lparr> qd_count := of_nat (qd_len msg), an_count := of_nat (an_len msg),
    ns_count := of_nat (ns_len msg), ar_count := of_nat (ar_len msg) \<rparr> \<rparr>"

definition hdr_bytes :: "dns_hdr \<Rightarrow> bytes" where
  "hdr_bytes h = enc_u16 (hdr_id h) @ enc_u16 (hdr_flags h) @ enc_u16 (qd_count h) @ enc_u16 (an_count h) @
    enc_u16 (ns_count h) @ enc_u16 (ar_count h)"

definition encode_hdr :: "dns_msg \<Rightarrow> enc_fun" where
  "encode_hdr msg = with_space DNS_HDR_LEN (\<lambda>w. put w (hdr_bytes (msg_hdr msg)))"

definition encode_msg :: "dns_msg \<Rightarrow> enc_fun" where
  "encode_msg msg = enc_then (encode_hdr msg) (enc_then (encode_qd msg) (enc_then (encode_an msg)
    (enc_then (encode_ns msg) (encode_ar msg))))"

text \<open>The result is the return value, the message with its header brought up to date, and the buffer.\<close>

definition dns_msg_encode :: "dns_msg \<Rightarrow> bytes \<Rightarrow> (int \<times> dns_msg \<times> bytes) option" where
  "dns_msg_encode msg buf =
    (let msg = sync_hdr msg in do {
      (rc, enc) \<leftarrow> encode_msg msg \<lparr> enc_buf = buf, enc_len = 0, suffix = [] \<rparr>;
      Some (if rc \<noteq> 0 then -1 else int (enc_len enc), msg, enc_buf enc)
    })"

section \<open>The encoder stays in its buffer\<close>

text \<open>Every name, whatever its labels, takes at most two bytes more than its text.\<close>

lemma encode_loop_bound:
  assumes "wptr + length name + (if name = [] then 1 else 2) \<le> length (enc_buf enc)" "length name < 256"
  shows "\<exists>r enc'. encode_loop enc off wptr name = Some (r, enc') \<and> length (enc_buf enc') = length (enc_buf enc) \<and>
    enc_len enc' = enc_len enc \<and> (\<forall>w. r = Some w \<longrightarrow> wptr < w \<and> w \<le> wptr + length name + (if name = [] then 1 else 2))"
  using assms
proof (induction name arbitrary: enc wptr rule: length_induct)
  case (1 name)
  show ?case
  proof (cases "name = [] \<or> find_suffix (suffix enc) off name \<noteq> None")
    case True
    then show ?thesis using 1(2) by (subst encode_loop.simps) (auto simp: poke_def Suc_le_eq)
  next
    case False
    define d where "d = (case memchr name 46 of Some d \<Rightarrow> d | None \<Rightarrow> length name)"
    define rest where "rest = (case memchr name 46 of Some d \<Rightarrow> drop (d + 1) name | None \<Rightarrow> [])"
    have d: "d \<le> length name" "length rest \<le> length name - d" "d + 1 + length rest + (if rest = [] then 1 else 2) \<le> length name + 2"
      using memchr_SomeD [of name 46] by (auto simp: d_def rest_def split: option.splits)
    have u: "unat (of_nat d :: u8) = d" using d(1) 1(3) by (simp add: unat_of_nat)
    define enc1 where "enc1 = (add_suffix enc name wptr)\<lparr> enc_buf := write_at (enc_buf enc) wptr (of_nat d # take d name) \<rparr>"
    have p: "poke (add_suffix enc name wptr) wptr (of_nat d # take d name) = Some enc1"
      using d 1(2) False by (auto simp: poke_def enc1_def add_suffix_def min_absorb2)
    have e: "length (enc_buf enc1) = length (enc_buf enc)" "enc_len enc1 = enc_len enc"
      using d 1(2) False by (auto simp: enc1_def add_suffix_def min_absorb2)
    have eq: "encode_loop enc off wptr name =
        (if d > DNS_LABEL_MAXSTR then Some (None, add_suffix enc name wptr) else encode_loop enc1 off (wptr + 1 + d) rest)"
      using False p u by (subst encode_loop.simps) (auto simp: d_def [symmetric] rest_def [symmetric] Let_def)
    show ?thesis
    proof (cases "d > DNS_LABEL_MAXSTR")
      case True
      then show ?thesis unfolding eq by (auto simp: add_suffix_def)
    next
      case small: False
      let ?k = "if rest = [] then 1 else 2 :: nat" and ?w = "wptr + 1 + d"
      have r: "length rest < length name" "?w + length rest + ?k \<le> wptr + length name + 2"
        using d False by (cases "rest = []", auto)
      have n: "length rest < 256" "?w + length rest + ?k \<le> length (enc_buf enc1)" using r 1(2,3) e False by auto
      obtain q enc' where "encode_loop enc1 off ?w rest = Some (q, enc')" "length (enc_buf enc') = length (enc_buf enc1)"
        "enc_len enc' = enc_len enc1" "\<forall>w. q = Some w \<longrightarrow> ?w < w \<and> w \<le> ?w + length rest + ?k"
        using 1(1) r(1) n by blast
      then show ?thesis unfolding eq using small r(2) e False by (intro exI [of _ q] exI [of _ enc']) auto
    qed
  qed
qed

text \<open>A piece of the encoder that keeps the fill level of the buffer between the header and its end.\<close>

definition enc_ok :: "nat \<Rightarrow> dns_enc \<Rightarrow> bool" where
  "enc_ok L enc \<longleftrightarrow> length (enc_buf enc) = L \<and> DNS_HDR_LEN \<le> enc_len enc \<and> enc_len enc \<le> L"

definition out_ok :: "nat \<Rightarrow> (int \<times> dns_enc) option \<Rightarrow> bool" where
  "out_ok L r \<longleftrightarrow> (\<exists>rc enc. r = Some (rc, enc) \<and> (rc = 0 \<or> rc = -1) \<and> enc_ok L enc)"

definition enc_keeps :: "nat \<Rightarrow> enc_fun \<Rightarrow> bool" where
  "enc_keeps L f \<longleftrightarrow> (\<forall>enc. enc_ok L enc \<longrightarrow> out_ok L (f enc))"

lemma keeps_skip [intro]: "enc_keeps L (\<lambda>enc. Some (0, enc))"
  by (simp add: enc_keeps_def out_ok_def)

lemma keeps_then [intro]: "enc_keeps L f \<Longrightarrow> enc_keeps L g \<Longrightarrow> enc_keeps L (enc_then f g)"
  unfolding enc_keeps_def enc_then_def out_ok_def by fastforce

lemma keeps_space:
  assumes "\<And>w enc. enc_ok L enc \<Longrightarrow> enc_len enc = w + len \<Longrightarrow> DNS_HDR_LEN \<le> w \<Longrightarrow> out_ok L (f w enc)"
  shows "enc_keeps L (with_space len f)"
  using assms by (auto simp: enc_keeps_def with_space_def dns_enc_mkspace_def enc_ok_def out_ok_def)

lemma enc_put_ok: "enc_ok L enc \<Longrightarrow> w + length bs \<le> L \<Longrightarrow> out_ok L (put w bs enc)"
  by (simp add: put_def poke_def enc_ok_def out_ok_def)

lemma keeps_put: "length bs \<le> len \<Longrightarrow> enc_keeps L (with_space len (\<lambda>w. put w bs))"
  by (rule keeps_space, rule enc_put_ok) (auto simp: enc_ok_def)

definition short :: "dns_msg \<Rightarrow> nat option \<Rightarrow> bool" where
  "short msg p \<longleftrightarrow> (\<forall>s. name_str msg p = Some s \<longrightarrow> length s \<le> DNS_NAME_MAXSTR)"

lemma enc_name_then_ok:
  assumes "short msg name" "enc_ok L enc" "enc_len enc = w + len" "DNS_HDR_LEN \<le> w" "len = DNS_NAME_MAXLEN + length post" "len < 1000"
  shows "out_ok L (enc_name_then msg name post len w enc)"
proof -
  let ?s = "case name_str msg name of None \<Rightarrow> [] | Some s \<Rightarrow> s"
  have s: "length ?s \<le> 253" using assms(1) by (auto simp: short_def DNS_NAME_MAXSTR_def split: option.splits)
  then have "w + length ?s + (if ?s = [] then 1 else 2) \<le> length (enc_buf enc)"
    using assms by (auto simp: enc_ok_def DNS_NAME_MAXLEN_def)
  then obtain r enc' where e: "encode_loop enc w w ?s = Some (r, enc')" "length (enc_buf enc') = L" "enc_len enc' = enc_len enc"
    and r: "\<forall>w'. r = Some w' \<longrightarrow> w < w' \<and> w' \<le> w + length ?s + (if ?s = [] then 1 else 2)"
    using encode_loop_bound [of w ?s enc w] s assms(2) by (auto simp: enc_ok_def)
  show ?thesis
  proof (cases r)
    case None
    then show ?thesis using e assms(2) by (simp add: enc_name_then_def encode_name_def out_ok_def enc_ok_def)
  next
    case (Some w')
    have w': "w < w'" "w' \<le> w + 255" using r Some s by (auto split: if_splits)
    have "w' + length post \<le> L" using w' assms by (simp add: enc_ok_def DNS_NAME_MAXLEN_def)
    moreover have "sz_sub len (w' + length post - w) = w + len - (w' + length post)"
      using w' assms(5,6) by (simp add: sz_sub_nowrap DNS_NAME_MAXLEN_def)
    moreover have "dns_enc_retspace e (w + len - (w' + length post)) = (0, e\<lparr> enc_len := w' + length post \<rparr>)"
      if "enc_len e = w + len" for e
      using that w' assms(5) by (simp add: dns_enc_retspace_def DNS_NAME_MAXLEN_def)
    ultimately show ?thesis
      using Some e w' assms(2-4) by (simp add: enc_name_then_def encode_name_def poke_def out_ok_def enc_ok_def)
  qed
qed

lemma keeps_quest: "short msg (qname q) \<Longrightarrow> enc_keeps L (dns_enc_quest msg q)"
  unfolding dns_enc_quest_def by (rule keeps_space, rule enc_name_then_ok) (auto simp: DNS_NAME_MAXLEN_def)

lemma keeps_name: "short msg p \<Longrightarrow> enc_keeps L (dns_enc_name msg p)"
  unfolding dns_enc_name_def by (rule keeps_space, rule enc_name_then_ok) (auto simp: DNS_NAME_MAXLEN_def)

text \<open>The types with data, the type that goes with a member of the union, and the strings it points to.\<close>

definition data_types :: "u16 set" where
  "data_types = {DNS_TYPE_A, DNS_TYPE_NS, DNS_TYPE_CNAME, DNS_TYPE_SOA, DNS_TYPE_PTR, DNS_TYPE_HINFO, DNS_TYPE_MX,
    DNS_TYPE_TXT, DNS_TYPE_AAAA, DNS_TYPE_SRV, DNS_TYPE_OPT}"

fun rd_type :: "'p dns_rdata \<Rightarrow> u16 option" where
  "rd_type RD_raw = None"
| "rd_type (RD_a _) = Some DNS_TYPE_A"
| "rd_type (RD_ns _) = Some DNS_TYPE_NS"
| "rd_type (RD_cname _) = Some DNS_TYPE_CNAME"
| "rd_type (RD_soa _ _ _ _ _ _ _) = Some DNS_TYPE_SOA"
| "rd_type (RD_ptr _) = Some DNS_TYPE_PTR"
| "rd_type (RD_hinfo _ _) = Some DNS_TYPE_HINFO"
| "rd_type (RD_mx _ _) = Some DNS_TYPE_MX"
| "rd_type (RD_txt _ _) = Some DNS_TYPE_TXT"
| "rd_type (RD_aaaa _) = Some DNS_TYPE_AAAA"
| "rd_type (RD_srv _ _ _ _) = Some DNS_TYPE_SRV"
| "rd_type (RD_opt _ _ _ _ _) = Some DNS_TYPE_OPT"

fun rd_ptrs :: "'p dns_rdata \<Rightarrow> 'p option set" where
  "rd_ptrs (RD_ns n) = {n}"
| "rd_ptrs (RD_cname n) = {n}"
| "rd_ptrs (RD_soa m r _ _ _ _ _) = {m, r}"
| "rd_ptrs (RD_ptr n) = {n}"
| "rd_ptrs (RD_hinfo c s) = {c, s}"
| "rd_ptrs (RD_mx _ n) = {n}"
| "rd_ptrs (RD_txt k f) = f ` {..<k}"
| "rd_ptrs (RD_srv _ _ _ n) = {n}"
| "rd_ptrs _ = {}"

lemma keeps_txt: "\<forall>p \<in> set ps. short msg p \<Longrightarrow> enc_keeps L (enc_txt msg ps)"
  by (induction ps) (auto simp: dns_enc_str_def intro!: keeps_put)

lemma keeps_hinfo: "enc_keeps L (enc_hinfo msg cpu os)"
proof -
  let ?c = "case name_str msg cpu of None \<Rightarrow> [] | Some s \<Rightarrow> s" and ?t = "case name_str msg os of None \<Rightarrow> [] | Some s \<Rightarrow> s"
  have "out_ok L (enc_then (put w (of_nat (length ?c) # ?c)) (put (w + 1) (of_nat (length ?t) # ?t)) enc)"
    if "enc_ok L enc" "enc_len enc = w + (2 + length ?c + length ?t)" for w enc
  proof -
    have l: "w + 2 + length ?c + length ?t \<le> L" using that by (simp add: enc_ok_def)
    then have "out_ok L (put w (of_nat (length ?c) # ?c) enc)" by (intro enc_put_ok that(1)) simp
    moreover have "out_ok L (put (w + 1) (of_nat (length ?t) # ?t) e)" if "enc_ok L e" for e
      by (rule enc_put_ok [OF that]) (use l in simp)
    ultimately show ?thesis unfolding enc_then_def out_ok_def by fastforce
  qed
  then show ?thesis unfolding enc_hinfo_def Let_def by (intro keeps_space) blast
qed

lemma keeps_soa: "short msg m \<Longrightarrow> short msg r \<Longrightarrow> enc_keeps L (enc_soa msg m r [a, b, c, d, e])"
  unfolding enc_soa_def by (intro keeps_then keeps_name keeps_put) simp_all

lemma keeps_mx: "short msg n \<Longrightarrow> enc_keeps L (enc_mx msg pref n)"
  unfolding enc_mx_def by (intro keeps_then keeps_name keeps_put) simp_all

lemma keeps_opt:
  assumes "enc_ok L enc" "w + 2 \<le> L" "DNS_HDR_LEN \<le> w + 2"
  shows "out_ok L (enc_opt w sz rcode ver dobit z enc)"
  unfolding enc_opt_def by (rule enc_put_ok [OF assms(1)]) (use assms in \<open>simp add: DNS_HDR_LEN_def\<close>)

text \<open>A record whose data were written through the member of its type, with all its strings \<open>P\<close>.\<close>

definition rr_with :: "('p option \<Rightarrow> bool) \<Rightarrow> 'p dns_rr \<Rightarrow> bool" where
  "rr_with P rr \<longleftrightarrow> P (rr_name rr) \<and>
    (rr_type rr \<in> data_types \<longrightarrow> rd_type (rr_rdata rr) = Some (rr_type rr) \<and> (\<forall>p \<in> rd_ptrs (rr_rdata rr). P p))"

lemma keeps_rdata:
  assumes "rr_with (short msg) rr" "rr_type rr \<noteq> DNS_TYPE_SRV" "enc_ok L enc" "w + 2 \<le> L" "DNS_HDR_LEN \<le> w + 2"
  shows "out_ok L (enc_rdata msg w (rr_type rr) (rr_rdata rr) enc)"
proof (cases "rr_type rr \<in> data_types")
  case True
  have k: "enc_keeps L f \<Longrightarrow> out_ok L (f enc)" for f using assms(3) by (simp add: enc_keeps_def)
  have m: "enc_keeps L (dns_enc_mem bs)" for bs unfolding dns_enc_mem_def by (rule keeps_put) simp
  define type rd where t: "type = rr_type rr" "rd = rr_rdata rr"
  have "rd_type rd = Some type" and "\<forall>p \<in> rd_ptrs rd. short msg p" "type \<noteq> DNS_TYPE_SRV"
    using True assms(1,2) by (auto simp: rr_with_def t)
  moreover then have "rd \<noteq> RD_raw" "type = the (rd_type rd)" by auto
  ultimately have "out_ok L (enc_rdata msg w type rd enc)"
    using assms(3-5)
    by (cases rd) (simp_all add: enc_rdata_def dns_type_defs k m keeps_name keeps_soa keeps_mx keeps_txt keeps_hinfo keeps_opt)
  then show ?thesis by (simp add: t)
next
  case False
  then show ?thesis using assms(3) by (simp add: enc_rdata_def data_types_def out_ok_def)
qed

lemma keeps_rr:
  assumes "rr_with (short msg) rr" "rr_type rr \<noteq> DNS_TYPE_SRV"
  shows "enc_keeps L (dns_rr_encode msg rr)"
proof -
  have "enc_keeps L (enc_rr_hdr msg rr)"
    unfolding enc_rr_hdr_def
    by (rule keeps_space, rule enc_name_then_ok) (use assms(1) in \<open>auto simp: rr_hdr_len_def DNS_NAME_MAXLEN_def rr_with_def\<close>)
  moreover have "enc_keeps L (enc_rr_data msg rr)"
    unfolding enc_keeps_def
  proof (intro allI impI)
    fix enc assume e: "enc_ok L enc"
    let ?w = "enc_len enc - 2"
    have w: "?w + 2 \<le> L" "DNS_HDR_LEN \<le> ?w + 2" using e by (auto simp: enc_ok_def DNS_HDR_LEN_def)
    have "out_ok L (enc_rdata msg ?w (rr_type rr) (rr_rdata rr) enc)" by (rule keeps_rdata [OF assms e w])
    moreover have "out_ok L (put ?w (enc_u16 v) e')" if "enc_ok L e'" for v e' by (rule enc_put_ok [OF that]) (use w in simp)
    ultimately show "out_ok L (enc_rr_data msg rr enc)" unfolding enc_rr_data_def Let_def enc_then_def out_ok_def by fastforce
  qed
  ultimately show ?thesis unfolding dns_rr_encode_def by (rule keeps_then)
qed

section \<open>Building keeps a message well-formed\<close>

text \<open>A pointer to a string that ends within the used part of the store.\<close>

definition ptr_ok :: "dns_msg \<Rightarrow> nat option \<Rightarrow> bool" where
  "ptr_ok msg p \<longleftrightarrow> (\<forall>q. p = Some q \<longrightarrow>
    q + length (cstr (names msg) q) < names_len msg \<and> length (cstr (names msg) q) \<le> DNS_NAME_MAXSTR)"

text \<open>Storing strings only appends to the store.\<close>

definition stores :: "dns_msg \<Rightarrow> dns_msg \<Rightarrow> bool" where
  "stores msg msg' \<longleftrightarrow> store_ok msg' \<and> names_len msg \<le> names_len msg' \<and>
    take (names_len msg) (names msg') = take (names_len msg) (names msg) \<and>
    msg' = msg\<lparr> names := names msg', names_len := names_len msg' \<rparr>"

lemma cstr_stable:
  assumes "q + length (cstr mem q) < n" "n \<le> length mem" "take n mem' = take n mem"
  shows "cstr mem' q = cstr mem q"
proof -
  let ?s = "cstr mem q" and ?P = "\<lambda>c :: u8. c \<noteq> 0"
  have l: "length ?s < length (drop q mem)" using assms by simp
  have "drop q mem ! length ?s = 0"
    using nth_length_takeWhile [of ?P "drop q mem"] l unfolding cstr_def by blast
  then have z: "mem ! (q + length ?s) = 0" using l by simp
  have t: "take (length ?s) (drop q mem) = ?s" unfolding cstr_def by (metis takeWhile_eq_take)
  have "take (q + length ?s) mem' = take (q + length ?s) mem" "mem' ! (q + length ?s) = mem ! (q + length ?s)"
    using assms by (metis min.absorb1 less_imp_le take_take, metis nth_take)
  then have t': "take (length ?s) (drop q mem') = ?s" and z': "mem' ! (q + length ?s) = 0"
    using t z by (simp_all add: take_drop add.commute)
  have l': "q + length ?s < length mem'" using assms by (metis length_take less_le_trans min.absorb2 min_less_iff_conj)
  have "drop q mem' = ?s @ 0 # drop (Suc (q + length ?s)) mem'"
    using append_take_drop_id [of "length ?s" "drop q mem'"] Cons_nth_drop_Suc [OF l'] t' z' by (simp add: add.commute)
  moreover have "\<forall>c \<in> set ?s. c \<noteq> 0" unfolding cstr_def by (auto dest: set_takeWhileD)
  ultimately show ?thesis using takeWhile_append2 [of ?s ?P] unfolding cstr_def [of mem'] by simp
qed

lemma stores_refl: "store_ok msg \<Longrightarrow> stores msg msg"
  by (simp add: stores_def)

lemma stores_trans:
  assumes "stores a b" "stores b c"
  shows "stores a c"
proof -
  have "c = b\<lparr> names := names c, names_len := names_len c \<rparr>" using assms(2) by (simp add: stores_def)
  also have "\<dots> = a\<lparr> names := names c, names_len := names_len c \<rparr>"
    using assms(1) unfolding stores_def by (cases a; cases b) simp
  finally have u: "c = a\<lparr> names := names c, names_len := names_len c \<rparr>" .
  have le: "names_len a \<le> names_len b" and eq: "take (names_len b) (names c) = take (names_len b) (names b)"
    using assms by (simp_all add: stores_def)
  have "take (names_len a) (names c) = take (names_len a) (take (names_len b) (names c))" by (simp only: take_take min_absorb1 [OF le])
  also have "\<dots> = take (names_len a) (names b)" unfolding eq by (simp only: take_take min_absorb1 [OF le])
  finally have "take (names_len a) (names c) = take (names_len a) (names a)" using assms(1) by (simp add: stores_def)
  then show ?thesis using assms u by (simp add: stores_def)
qed

lemma ptr_ok_stores: "store_ok msg \<Longrightarrow> stores msg msg' \<Longrightarrow> ptr_ok msg p \<Longrightarrow> ptr_ok msg' p"
  unfolding ptr_ok_def
proof (intro allI impI)
  fix q assume a: "store_ok msg" "stores msg msg'" "p = Some q"
    "\<forall>q. p = Some q \<longrightarrow> q + length (cstr (names msg) q) < names_len msg \<and> length (cstr (names msg) q) \<le> DNS_NAME_MAXSTR"
  have "cstr (names msg') q = cstr (names msg) q"
    by (rule cstr_stable [of q "names msg" "names_len msg"]) (use a in \<open>auto simp: stores_def store_ok_def\<close>)
  then show "q + length (cstr (names msg') q) < names_len msg' \<and> length (cstr (names msg') q) \<le> DNS_NAME_MAXSTR"
    using a by (auto simp: stores_def)
qed

lemma msg_store_str_stores:
  assumes "store_ok msg" "msg_store_str msg str = (p, msg')"
  shows "stores msg msg'" "ptr_ok msg' p"
proof -
  show "stores msg msg'"
    using assms by (auto simp: msg_store_str_def stores_def store_ok_def take_write_at split: if_splits)
  show "ptr_ok msg' p"
  proof (cases p)
    case (Some q)
    have q: "names msg' = write_at (names msg) q (str @ [0])" "names_len msg' = q + length str + 1"
      "length str \<le> DNS_NAME_MAXSTR" "q \<le> length (names msg)"
      using assms Some by (auto simp: msg_store_str_def store_ok_def split: if_splits)
    have "drop q (names msg') = (str @ [0]) @ drop (q + length str + 1) (names msg)"
      unfolding q(1) write_at_def using q(4) by simp
    then have "length (cstr (names msg') q) \<le> length str"
      unfolding cstr_def by (simp add: takeWhile_append length_takeWhile_le)
    then show ?thesis using q Some by (simp add: ptr_ok_def)
  qed (simp add: ptr_ok_def)
qed

lemma msg_store_name_stores:
  assumes "store_ok msg" "msg_store_name msg name = (p, msg')"
  shows "stores msg msg'" "ptr_ok msg' p"
  using msg_store_str_stores [OF assms(1)] assms(2) unfolding msg_store_name_def by blast+

lemma stores_ok: "stores msg msg' \<Longrightarrow> store_ok msg'"
  by (simp add: stores_def)

text \<open>What adding the data of a record leaves behind.\<close>

definition added :: "dns_msg \<Rightarrow> u16 \<Rightarrow> int \<times> dns_msg \<times> nat dns_rdata \<Rightarrow> bool" where
  "added msg type r \<longleftrightarrow> (case r of (rc, m, rd) \<Rightarrow> stores msg m \<and> (rc = 0 \<or> rc = -1) \<and>
    (rc = 0 \<longrightarrow> rd_type rd = Some type \<and> (\<forall>p \<in> rd_ptrs rd. ptr_ok m p)))"

lemma added_name1:
  assumes "store_ok msg" "\<And>p. rd_type (mk p) = Some type \<and> rd_ptrs (mk p) = {p}"
  shows "added msg type (add_name1 msg name mk)"
proof -
  obtain p m where s: "msg_store_name msg name = (p, m)" by (metis surj_pair)
  show ?thesis using msg_store_name_stores [OF assms(1) s] assms(2) by (simp add: add_name1_def added_def s)
qed

lemma added_two:
  assumes "store_ok msg" "msg_store_name msg a = (p, m)" "msg_store_name m b = (q, m')"
  shows "stores msg m'" "ptr_ok m' p" "ptr_ok m' q"
proof -
  note 1 = msg_store_name_stores [OF assms(1,2)]
  note 2 = msg_store_name_stores [OF stores_ok [OF 1(1)] assms(3)]
  show "stores msg m'" by (rule stores_trans [OF 1(1) 2(1)])
  show "ptr_ok m' p" by (rule ptr_ok_stores [OF stores_ok [OF 1(1)] 2(1) 1(2)])
  show "ptr_ok m' q" by (rule 2(2))
qed

lemma added_soa: "store_ok msg \<Longrightarrow> added msg DNS_TYPE_SOA (add_soa msg old mname rname v)"
  using msg_store_name_stores [of msg mname] added_two [of msg mname _ _ rname]
  by (simp add: add_soa_def added_def split: prod.splits)

lemma added_hinfo: "store_ok msg \<Longrightarrow> added msg DNS_TYPE_HINFO (add_hinfo msg cpu os)"
  using added_two [of msg cpu _ _ os] by (simp add: add_hinfo_def added_def split: prod.splits)

lemma added_txt:
  assumes "store_ok msg" "\<forall>i < n. ptr_ok msg (f i)"
  shows "added msg DNS_TYPE_TXT (add_txt msg n f strs)"
  using assms
proof (induction strs arbitrary: msg n f)
  case Nil
  then show ?case by (auto simp: added_def stores_refl)
next
  case (Cons str strs)
  obtain p m where s: "msg_store_name msg str = (p, m)" by (metis surj_pair)
  note 1 = msg_store_name_stores [OF Cons.prems(1) s]
  have "\<forall>i < n + 1. ptr_ok m ((f(n := p)) i)"
    using Cons.prems ptr_ok_stores [OF Cons.prems(1) 1(1)] 1(2) by (auto simp: less_Suc_eq)
  then have "added m DNS_TYPE_TXT (add_txt m (n + 1) (f(n := p)) strs)" by (rule Cons.IH [OF stores_ok [OF 1(1)]])
  then show ?case
    using s 1 stores_trans [OF 1(1)] stores_refl [OF Cons.prems(1)] by (auto simp: added_def)
qed

lemma added_rdata:
  assumes "store_ok msg" "type \<in> data_types" "rd_type src = Some type" "type = DNS_TYPE_TXT \<longrightarrow> fst (txt_view un old) = 0"
  shows "\<exists>r. add_rdata un uz msg type old src = Some r \<and> added msg type r"
proof -
  have t: "type = the (rd_type src)" "src \<noteq> RD_raw" using assms(3) by auto
  have a: "added msg type (0, msg, rd)" if "rd_type rd = Some type" "rd_ptrs rd = {}" for rd
    using that assms(1) by (simp add: added_def stores_refl)
  have x: "added msg DNS_TYPE_TXT (add_txt msg 0 f strs)" for f strs by (rule added_txt [OF assms(1)]) simp
  note n = added_name1 [OF assms(1)]
  show ?thesis
  proof (cases src)
    case (RD_txt k f)
    then show ?thesis using x [simplified dns_type_defs] assms(4) t by (cases "txt_view un old") (simp add: add_rdata_def dns_type_defs)
  qed (use t a in \<open>simp_all add: add_rdata_def dns_type_defs added_soa [OF assms(1), simplified dns_type_defs]
    added_hinfo [OF assms(1), simplified dns_type_defs] n\<close>)
qed

definition msg_built :: "dns_msg \<Rightarrow> bool" where
  "msg_built msg \<longleftrightarrow> msg_ok msg \<and> (\<forall>i < qd_len msg. ptr_ok msg (qname (msg_qd msg ! i))) \<and>
    (\<forall>t. \<forall>i < sect_count msg t. rr_with (ptr_ok msg) (sect_base msg t ! i))"

lemma rr_with_mono: "(\<And>p. P p \<Longrightarrow> Q p) \<Longrightarrow> rr_with P rr \<Longrightarrow> rr_with Q rr"
  by (auto simp: rr_with_def)

lemma stores_fields:
  assumes "stores msg m"
  shows "sect_count m = sect_count msg" "sect_base m = sect_base msg" "qd_len m = qd_len msg" "msg_qd m = msg_qd msg"
    "msg_ok msg \<Longrightarrow> msg_ok m"
proof -
  have m: "m = msg\<lparr> names := names m, names_len := names_len m \<rparr>" and ok: "store_ok m" using assms by (simp_all add: stores_def)
  have "sect_count m t = sect_count msg t" "sect_base m t = sect_base msg t" for t by (cases t; subst m; simp)+
  then show "sect_count m = sect_count msg" "sect_base m = sect_base msg" by auto
  show "qd_len m = qd_len msg" "msg_qd m = msg_qd msg" by (subst m, simp)+
  show "msg_ok m" if "msg_ok msg"
  proof -
    have "msg_ok (msg\<lparr> names := names m, names_len := names_len m \<rparr>)" using that ok by (simp add: msg_ok_def store_ok_def)
    then show ?thesis using m by simp
  qed
qed

lemma built_stores:
  assumes "msg_built msg" "stores msg m"
  shows "msg_built m"
proof -
  have "ptr_ok msg p \<Longrightarrow> ptr_ok m p" for p
    by (rule ptr_ok_stores [OF _ assms(2)]) (use assms(1) in \<open>simp_all add: msg_built_def msg_ok_def\<close>)
  then show ?thesis
    using assms(1) stores_fields [OF assms(2)] rr_with_mono [of "ptr_ok msg" "ptr_ok m"] by (auto simp: msg_built_def)
qed

lemma ptr_ok_slot [simp]: "ptr_ok (set_slot m t i rr) = ptr_ok m" "ptr_ok (inc_count m t) = ptr_ok m"
  by (cases t; simp add: ptr_ok_def fun_eq_iff)+

lemma sect_slot:
  "sect_base (set_slot m t i rr) u = (if u = t then (sect_base m t)[i := rr] else sect_base m u)"
  "sect_base (inc_count m t) u = sect_base m u" "sect_count (set_slot m t i rr) u = sect_count m u"
  "qd_len (set_slot m t i rr) = qd_len m" "msg_qd (set_slot m t i rr) = msg_qd m"
  "qd_len (inc_count m t) = qd_len m" "msg_qd (inc_count m t) = msg_qd m"
  by (cases t; cases u; simp)+

lemma msg_ok_slot: "msg_ok m \<Longrightarrow> msg_ok (set_slot m t i rr)"
  by (cases t) (simp_all add: msg_ok_def store_ok_def)

lemma msg_ok_inc: "msg_ok m \<Longrightarrow> sect_count m t < DNS_MAX_RR \<Longrightarrow> msg_ok (inc_count m t)"
  by (cases t) (simp_all add: msg_ok_def store_ok_def)

lemma sect_base_length: "msg_ok m \<Longrightarrow> length (sect_base m t) = DNS_MAX_RR"
  by (cases t) (simp_all add: msg_ok_def)

lemma built_slot: "msg_built m \<Longrightarrow> msg_built (set_slot m t (sect_count m t) rr)"
  by (auto simp: msg_built_def msg_ok_slot sect_slot)

lemma built_inc:
  assumes "msg_built m" "rr_with (ptr_ok m) rr" "sect_count m t < DNS_MAX_RR"
  shows "msg_built (inc_count (set_slot m t (sect_count m t) rr) t)"
  using assms msg_ok_inc [OF msg_ok_slot] sect_base_length
  by (auto simp: msg_built_def sect_slot sect_count_inc less_Suc_eq)

text \<open>
  The data of a source record match its type; the slot of a TXT record to be added has no
  strings yet.
\<close>

definition src_ok :: "(nat dns_rdata \<Rightarrow> nat) \<Rightarrow> dns_msg \<Rightarrow> dns_sect \<Rightarrow> bytes dns_rr \<Rightarrow> bool" where
  "src_ok un msg sect src \<longleftrightarrow> (rr_type src \<in> data_types \<longrightarrow> rd_type (rr_rdata src) = Some (rr_type src)) \<and>
    (rr_type src = DNS_TYPE_TXT \<longrightarrow> fst (txt_view un (rr_rdata (sect_base msg sect ! sect_count msg sect))) = 0)"

lemma dns_sect_add_rr_built:
  assumes "msg_built msg" "src_ok un msg sect src"
  shows "\<exists>rc msg'. dns_sect_add_rr un uz msg sect (Some src) = Some (rc, msg') \<and> msg_built msg' \<and> (rc = 0 \<or> rc = -1)"
proof -
  let ?i = "sect_count msg sect" and ?old = "sect_base msg sect ! sect_count msg sect"
  obtain p m where s: "msg_store_name msg (rr_name src) = (p, m)" by (metis surj_pair)
  have ok: "store_ok msg" using assms(1) by (simp add: msg_built_def msg_ok_def)
  note 1 = msg_store_name_stores [OF ok s]
  note f = stores_fields [OF 1(1)] and b = built_stores [OF assms(1) 1(1)]
  have slot: "msg_built (set_slot m' sect ?i rr)" if "stores m m'" for m' rr
    using built_slot [OF built_stores [OF b that], of sect] stores_fields [OF that] f by simp
  obtain rc m' rd where r: "add_rdata un uz m (rr_type src) (rr_rdata ?old) (rr_rdata src) = Some (rc, m', rd)"
    and st: "stores m m'" "rc = 0 \<or> rc = -1"
      "rc = 0 \<Longrightarrow> rr_type src \<in> data_types \<Longrightarrow> rd_type rd = Some (rr_type src) \<and> (\<forall>p \<in> rd_ptrs rd. ptr_ok m' p)"
  proof (cases "rr_type src \<in> data_types")
    case True
    then show thesis
      using added_rdata [OF stores_ok [OF 1(1)] True, of "rr_rdata src" un "rr_rdata ?old" uz] assms(2) that
      by (auto simp: src_ok_def added_def)
  next
    case False
    then show thesis
      using that [of 0 m "rr_rdata ?old"] stores_refl [OF stores_ok [OF 1(1)]] by (simp add: add_rdata_def data_types_def)
  qed
  define rr where "rr = ?old\<lparr> rr_name := p, rr_type := rr_type src, rr_class := rr_class src, rr_ttl := rr_ttl src, rr_rdata := rd \<rparr>"
  have full: "msg_built (inc_count (set_slot m' sect ?i rr) sect)" if "rc = 0" "?i < DNS_MAX_RR"
  proof -
    have "rr_with (ptr_ok m') rr"
      using st that(1) ptr_ok_stores [OF stores_ok [OF 1(1)] st(1) 1(2)] by (simp add: rr_with_def rr_def)
    then show ?thesis
      using built_inc [OF built_stores [OF b st(1)], of rr sect] stores_fields [OF st(1)] f that(2) by simp
  qed
  have e: "dns_sect_add_rr un uz msg sect (Some src) =
      (if ?i \<ge> DNS_MAX_RR then Some (-1, msg) else if p = None then Some (-1, set_slot m sect ?i (?old\<lparr> rr_name := p \<rparr>))
       else if rc \<noteq> 0 then Some (rc, set_slot m' sect ?i rr) else Some (0, inc_count (set_slot m' sect ?i rr) sect))"
    unfolding dns_sect_add_rr_def using s r by (simp add: Let_def rr_def)
  show ?thesis
    unfolding e using st(2) slot [OF st(1)] slot [OF stores_refl [OF stores_ok [OF 1(1)]]] full assms(1) by auto
qed

lemma dns_add_qdn_built:
  assumes "msg_built msg"
  shows "msg_built (snd (dns_add_qdn msg name type cls))"
proof (cases "qd_len msg < DNS_MAX_QD")
  case True
  obtain p m where s: "msg_store_str msg name = (p, m)" by (metis surj_pair)
  have ok: "store_ok msg" using assms by (simp add: msg_built_def msg_ok_def)
  note 1 = msg_store_str_stores [OF ok s]
  note b = built_stores [OF assms 1(1)]
  have q: "qd_len m = qd_len msg" by (rule stores_fields(3) [OF 1(1)])
  have c: "sect_count (m\<lparr> msg_qd := x, qd_len := n \<rparr>) t = sect_count m t" "sect_base (m\<lparr> msg_qd := x, qd_len := n \<rparr>) t = sect_base m t"
    "sect_count (m\<lparr> msg_qd := x \<rparr>) t = sect_count m t" "sect_base (m\<lparr> msg_qd := x \<rparr>) t = sect_base m t"
    for x n t by (cases t; simp)+
  have p: "ptr_ok (m\<lparr> msg_qd := x, qd_len := n \<rparr>) = ptr_ok m" "ptr_ok (m\<lparr> msg_qd := x \<rparr>) = ptr_ok m" for x n
    by (simp_all add: ptr_ok_def fun_eq_iff)
  show ?thesis
    using b True s 1(2) q
    by (auto simp: dns_add_qdn_def Let_def msg_built_def msg_ok_def store_ok_def c p less_Suc_eq nth_list_update)
qed (use assms in \<open>simp add: dns_add_qdn_def\<close>)

text \<open>
  C20. Building a message keeps it well-formed: from a message in which every used record has the data of
  its type and every name is a string of at most 253 bytes in the used part of the store,
  \<open>dns_add_rr\<close> and \<open>dns_add_qd\<close> lead to such a message, whether they succeed or fail, provided
  that the data of the source record match its type and, for a TXT record, that the slot to be
  filled holds no strings.
\<close>

theorem dns_add_built:
  assumes "msg_built msg" "\<forall>sect. src_ok un msg sect src"
  shows "(\<exists>rc msg'. dns_add_rr un uz msg sc (Some src) = Some (rc, msg') \<and> msg_built msg' \<and> (rc = 0 \<or> rc = -1)) \<and>
    msg_built (snd (dns_add_qd msg name type cls))"
proof -
  have "\<exists>rc msg'. dns_sect_add_rr un uz msg sect (Some src) = Some (rc, msg') \<and> msg_built msg' \<and> (rc = 0 \<or> rc = -1)" for sect
    by (rule dns_sect_add_rr_built) (use assms in auto)
  then show ?thesis using assms(1) dns_add_qdn_built [OF assms(1)] by (simp add: dns_add_rr_def dns_add_qd_def)
qed

lemma msg_built_reset: "msg_ok msg \<Longrightarrow> msg_built (dns_msg_reset msg)"
  by (simp add: msg_built_def msg_ok_reset) (simp add: dns_msg_reset_def)

definition sample_rr :: "bytes dns_rr" where
  "sample_rr = \<lparr> rr_name = Some (ascii ''a.b''), rr_type = DNS_TYPE_CNAME, rr_class = DNS_CLASS_IN, rr_ttl = 60, rr_rdlen = 0,
    rr_rdata = RD_cname (Some (ascii ''c.b'')) \<rparr>"

lemma sample_rr_ok: "src_ok un msg sect sample_rr"
  by (simp add: src_ok_def sample_rr_def dns_type_defs)

theorem dns_add_built_witness:
  "msg_built (dns_msg_reset msg_zero) \<and>
   (\<exists>rc msg'. dns_add_rr (\<lambda>_. 0) (\<lambda>_. 0) (dns_msg_reset msg_zero) 1 (Some sample_rr) = Some (rc, msg') \<and> msg_built msg')"
proof -
  have b: "msg_built (dns_msg_reset msg_zero)" by (rule msg_built_reset [OF msg_ok_zero])
  have "\<forall>sect. src_ok (\<lambda>_. 0) (dns_msg_reset msg_zero) sect sample_rr" by (simp add: sample_rr_ok)
  from dns_add_built [OF b this, of "\<lambda>_. 0" 1] show ?thesis using b by blast
qed

lemma ptr_ok_short: "ptr_ok msg p \<Longrightarrow> short msg p"
  by (auto simp: ptr_ok_def short_def name_str_def)

lemma keeps_rrs:
  "\<forall>rr \<in> set rrs. rr_with (short msg) rr \<and> rr_type rr \<noteq> DNS_TYPE_SRV \<Longrightarrow> enc_keeps L (rrs_encode msg rrs)"
  by (induction rrs) (auto intro: keeps_rr)

lemma keeps_qds: "\<forall>q \<in> set qds. short msg (qname q) \<Longrightarrow> enc_keeps L (qds_encode msg qds)"
  by (induction qds) (auto intro: keeps_quest)

text \<open>The records in use.\<close>

definition used_rrs :: "dns_msg \<Rightarrow> nat dns_rr list" where
  "used_rrs msg = concat (map (\<lambda>t. take (sect_count msg t) (sect_base msg t)) [Sect_an, Sect_ns, Sect_ar])"

lemma dns_msg_encode_outcome:
  assumes "msg_built msg" "\<forall>rr \<in> set (used_rrs msg). rr_type rr \<noteq> DNS_TYPE_SRV"
  shows "\<exists>rc msg' buf'. dns_msg_encode msg buf = Some (rc, msg', buf') \<and> length buf' = length buf \<and>
    (rc = -1 \<or> int DNS_HDR_LEN \<le> rc \<and> rc \<le> int (length buf))"
proof -
  let ?m = "sync_hdr msg" and ?L = "length buf" and ?e = "\<lparr> enc_buf = buf, enc_len = 0, suffix = [] \<rparr>"
  have s: "sect_count ?m t = sect_count msg t" "sect_base ?m t = sect_base msg t" for t by (cases t; simp add: sync_hdr_def)+
  have p: "ptr_ok msg p \<Longrightarrow> short ?m p" for p using ptr_ok_short [of msg p] by (simp add: short_def name_str_def sync_hdr_def)
  have sect: "enc_keeps ?L (dns_sect_enc ?m t)" for t
    unfolding dns_sect_enc_def s
  proof (rule keeps_rrs, intro ballI)
    fix rr assume rr: "rr \<in> set (take (sect_count msg t) (sect_base msg t))"
    then have "rr \<in> set (used_rrs msg)" by (cases t) (simp_all add: used_rrs_def)
    moreover have "rr_with (ptr_ok msg) rr" using rr assms(1) by (auto simp: msg_built_def in_set_conv_nth)
    ultimately show "rr_with (short ?m) rr \<and> rr_type rr \<noteq> DNS_TYPE_SRV" using rr_with_mono [of "ptr_ok msg" "short ?m"] p assms(2) by blast
  qed
  have qd: "enc_keeps ?L (encode_qd ?m)"
    unfolding encode_qd_def
    by (rule keeps_qds) (use assms(1) p in \<open>auto simp: msg_built_def in_set_conv_nth sync_hdr_def\<close>)
  have rest: "enc_keeps ?L (enc_then (encode_qd ?m) (enc_then (encode_an ?m) (enc_then (encode_ns ?m) (encode_ar ?m))))"
    unfolding encode_an_def encode_ns_def encode_ar_def by (intro keeps_then qd sect)
  show ?thesis
  proof (cases "DNS_HDR_LEN \<le> ?L")
    case True
    define e where "e = ?e\<lparr> enc_len := DNS_HDR_LEN, enc_buf := write_at buf 0 (hdr_bytes (msg_hdr ?m)) \<rparr>"
    have h: "encode_hdr ?m ?e = Some (0, e)" "enc_ok ?L e"
      using True
      by (simp_all add: encode_hdr_def with_space_def dns_enc_mkspace_def put_def poke_def hdr_bytes_def e_def enc_ok_def DNS_HDR_LEN_def)
    from h(2) rest obtain rc enc where
      "enc_then (encode_qd ?m) (enc_then (encode_an ?m) (enc_then (encode_ns ?m) (encode_ar ?m))) e = Some (rc, enc)"
      "rc = 0 \<or> rc = -1" "enc_ok ?L enc" unfolding enc_keeps_def out_ok_def by blast
    then show ?thesis using h(1)
      by (auto simp: dns_msg_encode_def encode_msg_def enc_then_def [of "encode_hdr ?m"] enc_ok_def)
  next
    case False
    then show ?thesis
      by (simp add: dns_msg_encode_def encode_msg_def enc_then_def encode_hdr_def with_space_def dns_enc_mkspace_def)
  qed
qed

text \<open>
  C19. The encoder stays within its buffer: for a well-formed message without SRV records and a buffer of
  any size, \<open>dns_msg_encode\<close> makes no store outside the buffer and returns -1 or the number of
  bytes used, which is at least the size of the header and at most the size of the buffer.
\<close>

theorem dns_msg_encode_safe:
  assumes "msg_built msg" "\<forall>rr \<in> set (used_rrs msg). rr_type rr \<noteq> DNS_TYPE_SRV"
  shows "\<exists>rc msg' buf'. dns_msg_encode msg buf = Some (rc, msg', buf') \<and> length buf' = length buf \<and>
    (rc = -1 \<or> int DNS_HDR_LEN \<le> rc \<and> rc \<le> int (length buf))"
  by (rule dns_msg_encode_outcome [OF assms])

theorem dns_msg_encode_safe_witness:
  "msg_built (dns_msg_reset msg_zero) \<and> used_rrs (dns_msg_reset msg_zero) = [] \<and>
   (\<exists>rc msg' buf'. dns_msg_encode (dns_msg_reset msg_zero) (replicate 512 0) = Some (rc, msg', buf') \<and> length buf' = 512)"
proof -
  have b: "msg_built (dns_msg_reset msg_zero)" by (rule msg_built_reset [OF msg_ok_zero])
  have u: "used_rrs (dns_msg_reset msg_zero) = []" by (simp add: used_rrs_def)
  then have "\<forall>rr \<in> set (used_rrs (dns_msg_reset msg_zero)). rr_type rr \<noteq> DNS_TYPE_SRV" by simp
  from dns_msg_encode_safe [OF b this, of "replicate 512 0"] show ?thesis using b u by auto
qed

end
