(* ===== verification/Dns_Query.thy ===== *)
theory Dns_Query
  imports Dns_Encode
begin

text \<open>
  The encoder and the decoder of \<open>src/src/dns_proto.c\<close> together: a query that is built with
  \<open>dns_add_qd\<close>, encoded with \<open>dns_msg_encode\<close> and decoded with \<open>dns_msg_decode\<close> comes back; and an
  SRV record for which the encoder stores behind its buffer.
\<close>

section \<open>A name written into an empty packet\<close>

lemma enc_name_exact:
  assumes ls: "\<forall>l \<in> set ls. good_label l" "length (dotted ls) \<le> DNS_NAME_MAXSTR" "name_str msg p = Some (dotted ls)"
    and enc: "suffix enc = []" "enc_len enc = w + len" "12 \<le> w" "w < 256" "w + len \<le> length (enc_buf enc)"
    and len: "len = DNS_NAME_MAXLEN + length post" "len < 1000"
  shows "\<exists>w' enc'. enc_name_then msg p post len w enc = Some (0, enc') \<and> w < w' \<and> w' \<le> w + length (dotted ls) + 2 \<and>
    enc_len enc' = w' + length post \<and> length (enc_buf enc') = length (enc_buf enc) \<and>
    take w (enc_buf enc') = take w (enc_buf enc) \<and> name_at (take w' (enc_buf enc')) w (dotted ls) (w' - w) 0 \<and>
    segment (enc_buf enc') w' (w' + length post) = post"
proof -
  let ?n = "length (dotted ls)"
  have n: "?n \<le> 253" using ls(2) by (simp add: DNS_NAME_MAXSTR_def)
  have "\<exists>w' enc'. encode_loop enc w w (dotted ls) = Some (Some w', enc') \<and> encoded enc w 0 ls w w' enc'"
    by (rule encode_loop_encodes [OF ls(1)]) (use enc len n in \<open>auto simp: DNS_NAME_MAXLEN_def\<close>)
  then obtain w' enc' where e: "encode_loop enc w w (dotted ls) = Some (Some w', enc')" "encoded enc w 0 ls w w' enc'" by blast
  have w': "w < w'" "w' \<le> w + ?n + 2" "length (enc_buf enc') = length (enc_buf enc)" "take w (enc_buf enc') = take w (enc_buf enc)"
    "enc_len enc' = enc_len enc" "name_at (take w' (enc_buf enc')) w (dotted ls) (w' - w) 0"
    using e(2) enc(1) by (auto simp: encoded_def split: if_splits)
  have fit: "w' + length post \<le> w + len" using w'(2) n len by (simp add: DNS_NAME_MAXLEN_def)
  define enc2 where "enc2 = enc'\<lparr> enc_buf := write_at (enc_buf enc') w' post, enc_len := w' + length post \<rparr>"
  have "sz_sub len (w' + length post - w) = w + len - (w' + length post)"
    using w'(1) fit len(2) by (simp add: sz_sub_nowrap)
  then have "enc_name_then msg p post len w enc = Some (0, enc2)"
    using e(1) ls(3) w' fit enc
    by (simp add: enc_name_then_def encode_name_def poke_def dns_enc_retspace_def enc2_def)
  moreover have "segment (enc_buf enc2) w' (w' + length post) = post"
    using w'(3) fit enc(5) by (simp add: enc2_def segment_write_at_append)
  moreover have "take w' (enc_buf enc2) = take w' (enc_buf enc')" "take w (enc_buf enc2) = take w (enc_buf enc')"
    "length (enc_buf enc2) = length (enc_buf enc')"
    using w' fit enc(5) by (simp_all add: enc2_def take_write_at)
  ultimately show ?thesis using w' by (intro exI [of _ w'] exI [of _ enc2]) (simp add: enc2_def)
qed

section \<open>Queries\<close>

definition query_hdr :: "u16 \<Rightarrow> u16 \<Rightarrow> dns_hdr" where
  "query_hdr i flags = \<lparr> hdr_id = i, hdr_flags = flags, qd_count = 1, an_count = 0, ns_count = 0, ar_count = 0 \<rparr>"

definition query_msg :: "dns_msg \<Rightarrow> u16 \<Rightarrow> u16 \<Rightarrow> bytes \<Rightarrow> u16 \<Rightarrow> u16 \<Rightarrow> int \<times> dns_msg" where
  "query_msg msg i flags name type cls = dns_add_qd (dns_msg_init (dns_msg_reset msg) i flags) (Some name) type cls"

text \<open>The packet of a query with the name \<open>nm\<close>, which ends at \<open>w\<close>.\<close>

definition query_pkt :: "u16 \<Rightarrow> u16 \<Rightarrow> bytes \<Rightarrow> u16 \<Rightarrow> u16 \<Rightarrow> nat \<Rightarrow> bytes \<Rightarrow> bool" where
  "query_pkt i flags nm type cls w pkt \<longleftrightarrow> length pkt = w + 4 \<and> 12 < w \<and> take 12 pkt = hdr_bytes (query_hdr i flags) \<and>
    name_at (take w pkt) 12 nm (w - 12) 0 \<and> drop w pkt = enc_u16 type @ enc_u16 cls"

lemma query_pkt_hdr:
  assumes "query_pkt i flags nm type cls w pkt"
  shows "dns_hdr_decode h pkt = Some (0, query_hdr i flags)"
proof -
  let ?t = "drop 12 pkt"
  have p: "pkt = hdr_bytes (query_hdr i flags) @ ?t"
    using assms append_take_drop_id [of 12 pkt] by (simp add: query_pkt_def)
  have d: "dec_u16 pkt k = v" if "pkt = xs @ enc_u16 v @ ys" "k = length xs" for xs v ys k
    unfolding that by (rule dec_enc_u16)
  have "dec_u16 pkt 0 = i" "dec_u16 pkt 2 = flags" "dec_u16 pkt 4 = 1" "dec_u16 pkt 6 = 0" "dec_u16 pkt 8 = 0" "dec_u16 pkt 10 = 0"
    using p
    by (intro d [of "[]" i _ 0] d [of "enc_u16 i" flags _ 2] d [of "enc_u16 i @ enc_u16 flags" 1 _ 4]
        d [of "enc_u16 i @ enc_u16 flags @ enc_u16 1" 0 _ 6] d [of "enc_u16 i @ enc_u16 flags @ enc_u16 1 @ enc_u16 0" 0 _ 8]
        d [of "enc_u16 i @ enc_u16 flags @ enc_u16 1 @ enc_u16 0 @ enc_u16 0" 0 _ 10];
        simp add: hdr_bytes_def query_hdr_def)+
  then show ?thesis using assms by (simp add: dns_hdr_decode_def rdu16_in query_pkt_def DNS_HDR_LEN_def query_hdr_def)
qed

lemma query_pkt_quest:
  assumes "query_pkt i flags nm type cls w pkt" "length nm \<le> DNS_NAME_MAXSTR"
  shows "decode_name pkt 12 DNS_MSG_SIZE DNS_MSG_SIZE = Some (int (length nm) + 1, w, nm @ [0])"
    "dec_u16 pkt w = type" "dec_u16 pkt (w + 2) = cls" "length pkt = w + 4"
proof -
  have q: "length pkt = w + 4" "12 < w" "name_at (take w pkt) 12 nm (w - 12) 0" "drop w pkt = enc_u16 type @ enc_u16 cls"
    using assms(1) by (simp_all add: query_pkt_def)
  have "name_at pkt 12 nm (w - 12) 0" using name_at_append [OF q(3), of "drop w pkt"] by simp
  then show "decode_name pkt 12 DNS_MSG_SIZE DNS_MSG_SIZE = Some (int (length nm) + 1, w, nm @ [0])"
    using name_loop_accepts [of pkt 12 nm "w - 12" 0 0 DNS_MSG_SIZE "[]" DNS_MSG_SIZE 12] q(2) assms(2)
    by (simp add: decode_name_def DNS_MSG_SIZE_def DNS_NAME_MAXSTR_def)
  have p: "pkt = take w pkt @ enc_u16 type @ enc_u16 cls" using q(4) append_take_drop_id [of w pkt] by simp
  have l: "length (take w pkt) = w" using q(1) by simp
  show "dec_u16 pkt w = type" using dec_enc_u16 [of "take w pkt" type "enc_u16 cls"] p l by simp
  show "dec_u16 pkt (w + 2) = cls"
    using dec_enc_u16 [of "take w pkt @ enc_u16 type" cls "[]"] p l by simp
  show "length pkt = w + 4" by (rule q(1))
qed

text \<open>A message that holds the query and nothing else.\<close>

definition holds_query :: "u16 \<Rightarrow> u16 \<Rightarrow> bytes \<Rightarrow> u16 \<Rightarrow> u16 \<Rightarrow> dns_msg \<Rightarrow> bool" where
  "holds_query i flags nm type cls msg \<longleftrightarrow> msg_hdr msg = query_hdr i flags \<and> qd_len msg = 1 \<and> dns_cnt_rr msg = 0 \<and>
    name_str msg (qname (msg_qd msg ! 0)) = Some nm \<and> qtype (msg_qd msg ! 0) = type \<and> qclass (msg_qd msg ! 0) = cls"

lemma cstr_front: "0 \<notin> set nm \<Longrightarrow> cstr (nm @ 0 # ys) 0 = nm"
  by (simp add: cstr_def takeWhile_nonzero)

lemma query_decode:
  assumes q: "query_pkt i flags nm type cls w pkt" and nm: "length nm \<le> DNS_NAME_MAXSTR" "0 \<notin> set nm" and ok: "msg_ok msg"
  shows "\<exists>msg'. dns_msg_decode un msg pkt = Some (0, msg') \<and> holds_query i flags nm type cls msg'"
proof -
  define m where "m = (dns_msg_reset msg)\<lparr> msg_hdr := query_hdr i flags \<rparr>"
  define m' where "m' = m\<lparr> names := write_at (names msg) 0 (nm @ [0]), names_len := length nm + 1,
    msg_qd := [\<lparr> qname = Some 0, qtype = type, qclass = cls \<rparr>], qd_len := 1 \<rparr>"
  have one: "\<exists>x. msg_qd msg = [x]" using ok by (simp add: msg_ok_def DNS_MAX_QD_def length_Suc_conv)
  have st: "msg_store_name m (Some (nm @ [0])) =
      (Some 0, m\<lparr> names := write_at (names msg) 0 (nm @ [0]), names_len := length nm + 1 \<rparr>)"
    using nm takeWhile_nonzero [OF nm(2), of "[]"]
    by (simp add: msg_store_name_def msg_store_str_def m_def dns_msg_reset_def DNS_NAME_MAXSTR_def DNS_MAX_PDUSIZE_def)
  have qd: "\<exists>dec'. decode_qd dec m = Some (0, dec', m') \<and> \<not> need_emsg dec'"
    if "pkt_buf dec = pkt" "dec_off dec = 12" "load_msg dec" "\<not> need_emsg dec" "errs dec = []" for dec
    using that one query_pkt_quest [OF q nm(1)] st
    by (auto simp: decode_qd_def m_def query_hdr_def eval_nat_numeral dns_qd_decode_def rdu16_in Let_def m'_def dns_msg_reset_def
        DNS_MAX_QD_def dns_dec_err_def DNS_MAX_EMSG_def)
  let ?dec = "dec_init pkt False (sbuf_init None)"
  have h: "decode_hdr ?dec (dns_msg_reset msg) = Some (0, ?dec\<lparr> dec_off := 12 \<rparr>, m)"
    using query_pkt_hdr [OF q] by (simp add: decode_hdr_def dec_init_def m_def DNS_HDR_LEN_def)
  obtain dec' where d: "decode_qd (?dec\<lparr> dec_off := 12 \<rparr>) m = Some (0, dec', m')" "\<not> need_emsg dec'"
    using qd [of "?dec\<lparr> dec_off := 12 \<rparr>"] by (auto simp: dec_init_def)
  have "an_count (msg_hdr m') = 0" "ns_count (msg_hdr m') = 0" "ar_count (msg_hdr m') = 0"
    by (simp_all add: m'_def m_def query_hdr_def)
  then have "dns_msg_decode un msg pkt = Some (0, m')"
    by (simp add: dns_msg_decode_def decode_msg_def h d chain_def decode_an_def decode_ns_def decode_ar_def check_size_def)
  moreover have "holds_query i flags nm type cls m'"
    using ok cstr_front [OF nm(2)]
    by (simp add: holds_query_def m'_def m_def dns_cnt_rr_def dns_msg_reset_def name_str_def write_at_def)
  ultimately show ?thesis by blast
qed

lemma query_encode:
  assumes ls: "\<forall>l \<in> set ls. good_label l" "length (dotted ls) \<le> DNS_NAME_MAXSTR" "0 \<notin> set (dotted ls)"
    and ok: "msg_ok msg" and buf: "271 \<le> length buf"
  shows "\<exists>m w m' buf'. query_msg msg i flags (dotted ls) type cls = (0, m) \<and>
    dns_msg_encode m buf = Some (int (w + 4), m', buf') \<and> w + 4 \<le> length buf \<and>
    query_pkt i flags (dotted ls) type cls w (take (w + 4) buf')"
proof -
  let ?nm = "dotted ls" and ?q = "\<lparr> qname = Some (0 :: nat), qtype = type, qclass = cls \<rparr>"
  define m0 where "m0 = dns_msg_init (dns_msg_reset msg) i flags"
  define m where "m = m0\<lparr> names := write_at (names msg) 0 (?nm @ [0]), names_len := length ?nm + 1, msg_qd := [?q], qd_len := 1 \<rparr>"
  have one: "\<exists>x. msg_qd msg = [x]" using ok by (simp add: msg_ok_def DNS_MAX_QD_def length_Suc_conv)
  have tw: "takeWhile (\<lambda>c. c \<noteq> 0) ?nm = ?nm" using ls(3) by (metis (mono_tags, lifting) takeWhile_eq_all_conv)
  have add: "query_msg msg i flags ?nm type cls = (0, m)"
    using one ls(2)
    by (auto simp: tw query_msg_def dns_add_qd_def dns_add_qdn_def msg_store_str_def m_def m0_def dns_msg_init_def dns_msg_reset_def
        DNS_NAME_MAXSTR_def DNS_MAX_PDUSIZE_def DNS_MAX_QD_def)
  let ?s = "sync_hdr m"
  have hdr: "msg_hdr ?s = query_hdr i flags"
    by (simp add: sync_hdr_def m_def m0_def dns_msg_init_def dns_msg_reset_def dns_hdr_init_def query_hdr_def dns_hdr_reset_def)
  define e0 where "e0 = \<lparr> enc_buf = write_at buf 0 (hdr_bytes (query_hdr i flags)), enc_len = 12, suffix = [] \<rparr>"
  have hl: "length (hdr_bytes h) = 12" for h by (simp add: hdr_bytes_def)
  have eh: "encode_hdr ?s \<lparr> enc_buf = buf, enc_len = 0, suffix = [] \<rparr> = Some (0, e0)"
    using buf by (simp add: encode_hdr_def with_space_def dns_enc_mkspace_def put_def poke_def hdr hl e0_def DNS_HDR_LEN_def)
  let ?post = "enc_u16 type @ enc_u16 cls"
  have "name_str ?s (Some 0) = Some ?nm"
    using cstr_front [OF ls(3)] by (simp add: name_str_def sync_hdr_def m_def write_at_def)
  then have "\<exists>w e1. enc_name_then ?s (Some 0) ?post 259 12 (e0\<lparr> enc_len := 271 \<rparr>) = Some (0, e1) \<and>
      12 < w \<and> w \<le> 12 + length ?nm + 2 \<and> enc_len e1 = w + length ?post \<and>
      length (enc_buf e1) = length (enc_buf (e0\<lparr> enc_len := 271 \<rparr>)) \<and>
      take 12 (enc_buf e1) = take 12 (enc_buf (e0\<lparr> enc_len := 271 \<rparr>)) \<and> name_at (take w (enc_buf e1)) 12 ?nm (w - 12) 0 \<and>
      segment (enc_buf e1) w (w + length ?post) = ?post"
    by (intro enc_name_exact [OF ls(1,2)]) (use buf hl in \<open>simp_all add: e0_def DNS_NAME_MAXLEN_def\<close>)
  then obtain w e1 where e1: "enc_name_then ?s (Some 0) ?post 259 12 (e0\<lparr> enc_len := 271 \<rparr>) = Some (0, e1)" "12 < w"
    "w \<le> 12 + length ?nm + 2" "enc_len e1 = w + 4" "length (enc_buf e1) = length buf"
    "take 12 (enc_buf e1) = hdr_bytes (query_hdr i flags)"
    "name_at (take w (enc_buf e1)) 12 ?nm (w - 12) 0" "segment (enc_buf e1) w (w + 4) = ?post"
    using buf hl [of "query_hdr i flags"] take_write_at_exact [of 0 buf "hdr_bytes (query_hdr i flags)"] by (auto simp: e0_def)
  have "encode_qd ?s e0 = Some (0, e1)"
    using e1(1) buf hl
    by (simp add: encode_qd_def sync_hdr_def m_def dns_enc_quest_def with_space_def dns_enc_mkspace_def e0_def enc_then_def DNS_NAME_MAXLEN_def)
  moreover have "an_len ?s = 0" "ns_len ?s = 0" "ar_len ?s = 0"
    by (simp_all add: sync_hdr_def m_def m0_def dns_msg_init_def dns_msg_reset_def)
  ultimately have "encode_msg ?s \<lparr> enc_buf = buf, enc_len = 0, suffix = [] \<rparr> = Some (0, e1)"
    by (simp add: encode_msg_def enc_then_def eh encode_an_def encode_ns_def encode_ar_def dns_sect_enc_def)
  then have enc: "dns_msg_encode m buf = Some (int (w + 4), ?s, enc_buf e1)" using e1(4) by (simp add: dns_msg_encode_def)
  have fit: "w + 4 \<le> length buf" using e1(3) ls(2) buf by (simp add: DNS_NAME_MAXSTR_def)
  have "query_pkt i flags ?nm type cls w (take (w + 4) (enc_buf e1))"
    using e1 fit by (simp add: query_pkt_def min_absorb1 take_take segment_def)
  then show ?thesis using add enc fit by blast
qed

text \<open>
  C14. A query comes back: when a query for a name of good labels, at most 253 bytes in all, is built in a
  message and encoded into a buffer of at least 271 bytes, the encoder returns the length of a
  packet, and the decoder, given these bytes and any other message, returns 0 and a message with the
  same identifier and flags, one question with the same name, type and class, and no records.
\<close>

theorem query_encode_decode:
  assumes "\<forall>l \<in> set ls. good_label l" "length (dotted ls) \<le> DNS_NAME_MAXSTR" "0 \<notin> set (dotted ls)"
    and "msg_ok msg" "msg_ok msg2" "271 \<le> length buf"
  shows "\<exists>m n m' buf' msg'. query_msg msg i flags (dotted ls) type cls = (0, m) \<and>
    dns_msg_encode m buf = Some (int n, m', buf') \<and> n \<le> length buf \<and>
    dns_msg_decode un msg2 (take n buf') = Some (0, msg') \<and> holds_query i flags (dotted ls) type cls msg'"
proof -
  obtain m w m' buf' where e: "query_msg msg i flags (dotted ls) type cls = (0, m)"
    "dns_msg_encode m buf = Some (int (w + 4), m', buf')" "w + 4 \<le> length buf"
    "query_pkt i flags (dotted ls) type cls w (take (w + 4) buf')"
    using query_encode [OF assms(1-4,6)] by blast
  obtain msg' where "dns_msg_decode un msg2 (take (w + 4) buf') = Some (0, msg')" "holds_query i flags (dotted ls) type cls msg'"
    using query_decode [OF e(4) assms(2,3,5)] by blast
  then show ?thesis using e by blast
qed

theorem query_encode_decode_witness:
  "\<exists>m n m' buf' msg'. query_msg msg_zero 7 0x100 (ascii ''a.bc'') DNS_TYPE_A DNS_CLASS_IN = (0, m) \<and>
    dns_msg_encode m (replicate 512 0) = Some (int n, m', buf') \<and>
    dns_msg_decode (\<lambda>_. 0) msg_zero (take n buf') = Some (0, msg') \<and>
    holds_query 7 0x100 (ascii ''a.bc'') DNS_TYPE_A DNS_CLASS_IN msg'"
proof -
  let ?ls = "[ascii ''a'', ascii ''bc'']"
  have g: "\<forall>l \<in> set ?ls. good_label l" "length (dotted ?ls) \<le> DNS_NAME_MAXSTR" "0 \<notin> set (dotted ?ls)"
    by (auto simp: good_label_def DNS_LABEL_MAXSTR_def DNS_NAME_MAXSTR_def)
  have d: "dotted ?ls = ascii ''a.bc''" by simp
  show ?thesis
    using query_encode_decode [OF g msg_ok_zero msg_ok_zero, of "replicate 512 0" 7 "0x100" DNS_TYPE_A DNS_CLASS_IN "\<lambda>_. 0"]
    unfolding d by auto
qed

section \<open>SRV records\<close>

text \<open>An uncompressed name takes two bytes more than its text.\<close>

lemma name_at_width: "name_at pkt i nm w j \<Longrightarrow> j = 0 \<Longrightarrow> w = length nm + (if nm = [] then 1 else 2) \<and> (nm = [] \<longleftrightarrow> rd8 pkt i = Some 0)"
proof (induction rule: name_at.induct)
  case (label i b l c nm w j)
  have "length l = unat b" by (rule rdmem_length [OF label.hyps(4)])
  moreover have "unat b \<noteq> 0" using label.hyps(3) by (simp add: unat_eq_0)
  ultimately show ?case using label by (auto split: if_splits)
qed simp_all

text \<open>
  C36. Encoding an SRV record can store behind the buffer: \<open>dns_rr_encode\<close> reserves two bytes for the
  three 16-bit fields and writes six.  A message whose only answer is an SRV record with an owner name
  of 251 bytes leaves exactly two bytes of a buffer of 277 bytes for them, and the encoder stores
  four bytes behind it.
\<close>

theorem dns_msg_encode_srv_overflow:
  assumes "\<forall>l \<in> set ls. good_label l" "length (dotted ls) = 251" "qd_len msg = 0" "an_len msg = 1" "msg_an msg \<noteq> []"
    and "rr_type (msg_an msg ! 0) = DNS_TYPE_SRV" "rr_rdata (msg_an msg ! 0) = RD_srv a b c p"
    and "name_str msg (rr_name (msg_an msg ! 0)) = Some (dotted ls)" "length buf = 277"
  shows "dns_msg_encode msg buf = None"
proof -
  let ?s = "sync_hdr msg" and ?rr = "msg_an msg ! 0" and ?post = "enc_u16 (rr_type (msg_an msg ! 0)) @
    enc_u16 (rr_class (msg_an msg ! 0)) @ enc_u32 (rr_ttl (msg_an msg ! 0)) @ enc_u16 0"
  define e0 where "e0 = \<lparr> enc_buf = write_at buf 0 (hdr_bytes (msg_hdr ?s)), enc_len = 12, suffix = [] \<rparr>"
  have hl: "length (hdr_bytes h) = 12" for h by (simp add: hdr_bytes_def)
  have eh: "encode_hdr ?s \<lparr> enc_buf = buf, enc_len = 0, suffix = [] \<rparr> = Some (0, e0)"
    using assms(9) by (simp add: encode_hdr_def with_space_def dns_enc_mkspace_def put_def poke_def hl e0_def DNS_HDR_LEN_def)
  have lb: "length (enc_buf e0) = 277" using assms(9) hl by (simp add: e0_def)
  have "name_str ?s (rr_name ?rr) = Some (dotted ls)" using assms(8) by (simp add: name_str_def sync_hdr_def)
  then have "\<exists>w e1. enc_name_then ?s (rr_name ?rr) ?post 265 12 (e0\<lparr> enc_len := 277 \<rparr>) = Some (0, e1) \<and>
      12 < w \<and> w \<le> 12 + length (dotted ls) + 2 \<and> enc_len e1 = w + length ?post \<and>
      length (enc_buf e1) = length (enc_buf (e0\<lparr> enc_len := 277 \<rparr>)) \<and>
      take 12 (enc_buf e1) = take 12 (enc_buf (e0\<lparr> enc_len := 277 \<rparr>)) \<and>
      name_at (take w (enc_buf e1)) 12 (dotted ls) (w - 12) 0 \<and> segment (enc_buf e1) w (w + length ?post) = ?post"
    by (intro enc_name_exact [OF assms(1)]) (use lb assms(2) in \<open>simp_all add: e0_def DNS_NAME_MAXLEN_def DNS_NAME_MAXSTR_def\<close>)
  then obtain w e1 where e1: "enc_name_then ?s (rr_name ?rr) ?post 265 12 (e0\<lparr> enc_len := 277 \<rparr>) = Some (0, e1)" "12 < w"
    "enc_len e1 = w + 10" "length (enc_buf e1) = 277" "name_at (take w (enc_buf e1)) 12 (dotted ls) (w - 12) 0"
    using lb by auto
  have "w - 12 = 253" using name_at_width [OF e1(5) refl] assms(2) by auto
  then have len: "enc_len e1 = 275" using e1(2,3) by simp
  have hdr: "enc_rr_hdr ?s ?rr e0 = Some (0, e1)"
    using e1(1) lb by (simp add: enc_rr_hdr_def with_space_def dns_enc_mkspace_def rr_hdr_len_def DNS_NAME_MAXLEN_def e0_def)
  have "enc_rdata ?s 273 (rr_type ?rr) (rr_rdata ?rr) e1 = None"
    using assms(6,7) len e1(4)
    by (simp add: enc_rdata_def dns_type_defs enc_srv_def enc_then_def with_space_def dns_enc_mkspace_def put_def poke_def)
  then have "dns_rr_encode ?s ?rr e0 = None"
    using hdr len by (simp add: dns_rr_encode_def enc_then_def enc_rr_data_def)
  moreover have "take 1 (msg_an msg) = [?rr]" using assms(5) by (cases "msg_an msg") auto
  ultimately have "encode_an ?s e0 = None"
    using assms(4) by (simp add: encode_an_def dns_sect_enc_def sync_hdr_def enc_then_def)
  moreover have "encode_qd ?s e0 = Some (0, e0)" using assms(3) by (simp add: encode_qd_def sync_hdr_def)
  ultimately show ?thesis by (simp add: dns_msg_encode_def encode_msg_def enc_then_def eh)
qed

definition long_label :: "nat \<Rightarrow> bytes" where
  "long_label n = replicate n 97"

definition srv_msg :: dns_msg where
  "srv_msg = msg_zero\<lparr> names := dotted [long_label 63, long_label 63, long_label 63, long_label 59] @ 0 # replicate 1796 0,
    names_len := 252, an_len := 1, msg_an := (msg_an msg_zero)[0 := \<lparr> rr_name = Some 0, rr_type = DNS_TYPE_SRV, rr_class = DNS_CLASS_IN,
      rr_ttl = 0, rr_rdlen = 0, rr_rdata = RD_srv 1 2 53 (Some 251) \<rparr>] \<rparr>"

theorem dns_msg_encode_srv_overflow_witness:
  "length (dotted [long_label 63, long_label 63, long_label 63, long_label 59]) = 251 \<and> msg_ok srv_msg \<and>
   dns_msg_encode srv_msg (replicate 277 0) = None"
proof -
  let ?ls = "[long_label 63, long_label 63, long_label 63, long_label 59]"
  have g: "\<forall>l \<in> set ?ls. good_label l" and n: "length (dotted ?ls) = 251" and z: "0 \<notin> set (dotted ?ls)"
    by (simp_all add: long_label_def good_label_def DNS_LABEL_MAXSTR_def)
  have s: "msg_an srv_msg ! 0 = \<lparr> rr_name = Some 0, rr_type = DNS_TYPE_SRV, rr_class = DNS_CLASS_IN, rr_ttl = 0, rr_rdlen = 0,
      rr_rdata = RD_srv 1 2 53 (Some 251) \<rparr>" "msg_an srv_msg \<noteq> []" "qd_len srv_msg = 0" "an_len srv_msg = 1"
    by (simp_all add: srv_msg_def msg_zero_def DNS_MAX_RR_def)
  have nm: "name_str srv_msg (rr_name (msg_an srv_msg ! 0)) = Some (dotted ?ls)"
    unfolding s(1) using cstr_front [OF z] by (simp add: name_str_def srv_msg_def)
  have "length (names srv_msg) = 2048" using n by (simp add: srv_msg_def)
  then have "msg_ok srv_msg"
    by (simp add: msg_ok_def store_ok_def DNS_MAX_PDUSIZE_def) (simp add: srv_msg_def msg_zero_def DNS_MAX_RR_def)
  moreover have "dns_msg_encode srv_msg (replicate 277 0) = None"
    by (rule dns_msg_encode_srv_overflow [OF g n s(3,4,2) _ _ nm]) (simp_all add: s(1))
  ultimately show ?thesis using n by blast
qed

end
