(* ===== verification/Sock.thy ===== *)
theory Sock
  imports Rwbuf Util Inet
begin

text \<open>
  The socket layer of \<open>src/src/sock.c\<close> and \<open>src/src/sock.h\<close>.  The system calls are the fields of an
  \<open>os\<close>, functions on a state \<open>'w\<close> of the system that is threaded through every operation; a
  \<open>writev\<close> takes the concatenation of its buffers.  The resolver that \<open>sock_resolv\<close>
  calls is an argument.  It is shown that reading and writing through the
  buffers neither loses nor repeats bytes, whatever the system accepts at a time, that
  \<open>sock_send_mem\<close> does repeat its backlog, and that connecting leaks no descriptor.
\<close>

section \<open>Constants\<close>

definition SOCK_OK :: int where "SOCK_OK = 0"
definition SOCK_DATA :: int where "SOCK_DATA = 1"
definition SOCK_ERROR :: int where "SOCK_ERROR = -1"
definition SOCK_AGAIN :: int where "SOCK_AGAIN = -2"
definition SOCK_CLOSED :: int where "SOCK_CLOSED = -3"
definition SOCK_TIMEOUT :: int where "SOCK_TIMEOUT = -4"

lemmas sock_codes = SOCK_OK_def SOCK_DATA_def SOCK_ERROR_def SOCK_AGAIN_def SOCK_CLOSED_def SOCK_TIMEOUT_def

text \<open>The bits of \<open>mode\<close>.\<close>

definition SOCK_IPV4 :: nat where "SOCK_IPV4 = 0"
definition SOCK_IPV6 :: nat where "SOCK_IPV6 = 1"
definition SOCK_TCP :: nat where "SOCK_TCP = 2"
definition SOCK_UDP :: nat where "SOCK_UDP = 3"
definition SOCK_FILE :: nat where "SOCK_FILE = 4"
definition SOCK_NONBLK :: nat where "SOCK_NONBLK = 5"
definition SOCK_REUSE :: nat where "SOCK_REUSE = 6"
definition SOCK_UDPCON :: nat where "SOCK_UDPCON = 7"
definition SOCK_PASSIVE :: nat where "SOCK_PASSIVE = 8"
definition SOCK_NUMPORT :: nat where "SOCK_NUMPORT = 9"
definition SOCK_ANY :: nat where "SOCK_ANY = 10"

definition SOCK_LISTEN :: u32 where
  "SOCK_LISTEN = push_bit SOCK_REUSE 1 OR push_bit SOCK_ANY 1 OR push_bit SOCK_NUMPORT 1 OR push_bit SOCK_PASSIVE 1"

text \<open>The flags of the resolver, as bits.\<close>

definition DNS_TCP :: u32 where "DNS_TCP = 1"
definition DNS_UDP :: u32 where "DNS_UDP = 2"
definition DNS_IPV4 :: u32 where "DNS_IPV4 = 4"
definition DNS_IPV6 :: u32 where "DNS_IPV6 = 8"
definition DNS_PASSIVE :: u32 where "DNS_PASSIVE = 16"
definition DNS_NUMPORT :: u32 where "DNS_NUMPORT = 32"
definition DNS_V4MAPPED :: u32 where "DNS_V4MAPPED = 64"
definition DNS_ALL :: u32 where "DNS_ALL = 128"

lemmas dns_flag_defs = DNS_TCP_def DNS_UDP_def DNS_IPV4_def DNS_IPV6_def DNS_PASSIVE_def DNS_NUMPORT_def
  DNS_V4MAPPED_def DNS_ALL_def

definition DNS_MAXADDR :: nat where "DNS_MAXADDR = 16"

section \<open>State\<close>

text \<open>\<open>sa_type\<close> is one of the two bits or none; \<open>sa_ip\<close> is the union, 16 bytes.\<close>

record sock_addr =
  sa_type :: "nat option"
  sa_port :: u16
  sa_ip :: bytes

record simple_sock =
  sk_fd :: int
  sk_mode :: u32
  sk_addr :: sock_addr
  send_buf :: rwbuf
  recv_buf :: rwbuf
  max_line :: nat
  min_size :: nat
  is_server :: bool
  is_epoll :: bool
  send_timeout :: bool
  recv_timeout :: bool
  recv_fin :: bool
  send_fin :: bool
  fin_sent :: bool
  close_now :: bool
  wait_write :: bool
  sys_err :: bool

text \<open>
  The system: \<open>EWOULDBLOCK\<close> is \<open>EAGAIN\<close>.  \<open>Got []\<close> is a \<open>read\<close> that returns 0.  A socket address has
  its family, the length the caller gives, the port as the system stores it, and the address
  bytes.
\<close>

datatype io_err = EAGAIN | EINTR | ENOTSOCK | EOTHER

datatype rd_res = Got bytes | RdErr io_err

datatype wr_res = Wrote nat | WrErr io_err

datatype sa_family = AF_INET | AF_INET6 | AF_OTHER

record dns_sockaddr =
  da_family :: sa_family
  da_len :: nat
  da_port :: u16
  da_ip :: bytes
  da_sock_type :: nat

datatype sockopt = IPV6_V6ONLY int | SO_REUSEADDR int | TCP_NODELAY int | SO_SNDTIMEO nat nat | SO_RCVTIMEO nat nat | SO_ERROR

record 'w os =
  os_read :: "'w \<Rightarrow> int \<Rightarrow> nat \<Rightarrow> rd_res \<times> 'w"
  os_write :: "'w \<Rightarrow> int \<Rightarrow> bytes \<Rightarrow> wr_res \<times> 'w"
  os_shutdown :: "'w \<Rightarrow> int \<Rightarrow> io_err option \<times> 'w"
  os_close :: "'w \<Rightarrow> int \<Rightarrow> bool \<times> 'w"
  os_socket :: "'w \<Rightarrow> sa_family \<Rightarrow> nat \<Rightarrow> bool \<Rightarrow> int \<times> 'w"
  os_connect :: "'w \<Rightarrow> int \<Rightarrow> dns_sockaddr \<Rightarrow> bool \<times> 'w"
  os_getfl :: "'w \<Rightarrow> int \<Rightarrow> bool \<times> 'w"
  os_setfl :: "'w \<Rightarrow> int \<Rightarrow> bool \<times> 'w"
  os_sockopt :: "'w \<Rightarrow> int \<Rightarrow> sockopt \<Rightarrow> bool \<times> 'w"
  os_bind :: "'w \<Rightarrow> int \<Rightarrow> dns_sockaddr \<Rightarrow> bool \<times> 'w"
  os_listen :: "'w \<Rightarrow> int \<Rightarrow> bool \<times> 'w"
  os_accept :: "'w \<Rightarrow> int \<Rightarrow> bool \<Rightarrow> (int \<times> dns_sockaddr) \<times> 'w"

section \<open>Status\<close>

definition sock_sendbuf_used :: "simple_sock \<Rightarrow> nat" where
  "sock_sendbuf_used sock = rwbuf_used (send_buf sock)"

definition sock_recvbuf_used :: "simple_sock \<Rightarrow> nat" where
  "sock_recvbuf_used sock = rwbuf_used (recv_buf sock)"

definition sock_write_close :: "simple_sock \<Rightarrow> bool \<Rightarrow> simple_sock" where
  "sock_write_close sock force =
    (let sock = sock\<lparr> send_fin := True \<rparr> in if force then sock\<lparr> close_now := True \<rparr> else sock)"

definition sock_set_err :: "simple_sock \<Rightarrow> simple_sock" where
  "sock_set_err sock = sock\<lparr> sys_err := True \<rparr>"

definition sock_iseof :: "simple_sock \<Rightarrow> bool" where
  "sock_iseof sock = recv_fin sock"

definition sock_dataeof :: "simple_sock \<Rightarrow> int \<Rightarrow> int" where
  "sock_dataeof sock rc = (if rc = SOCK_DATA \<and> sock_iseof sock then SOCK_CLOSED else rc)"

definition sock_read_done :: "simple_sock \<Rightarrow> bool" where
  "sock_read_done sock \<longleftrightarrow> recv_fin sock \<and> sock_recvbuf_used sock = 0"

definition sock_write_done :: "simple_sock \<Rightarrow> bool" where
  "sock_write_done sock \<longleftrightarrow> send_fin sock \<and> sock_sendbuf_used sock = 0"

definition sock_write_closing :: "simple_sock \<Rightarrow> bool" where
  "sock_write_closing sock = send_fin sock"

definition sock_isbusy :: "simple_sock \<Rightarrow> bool" where
  "sock_isbusy sock \<longleftrightarrow> rwbuf_used (send_buf sock) > 0 \<or> send_fin sock \<and> \<not> fin_sent sock"

definition sock_isclosed :: "simple_sock \<Rightarrow> bool" where
  "sock_isclosed sock \<longleftrightarrow> recv_fin sock \<and> fin_sent sock"

definition sock_mustclose :: "simple_sock \<Rightarrow> bool" where
  "sock_mustclose sock \<longleftrightarrow> sys_err sock \<or> close_now sock \<or> sock_isclosed sock"

definition sock_canclose :: "simple_sock \<Rightarrow> bool" where
  "sock_canclose sock \<longleftrightarrow> sock_mustclose sock \<or> send_fin sock \<and> rwbuf_used (send_buf sock) = 0"

definition sock_isactive :: "simple_sock \<Rightarrow> bool" where
  "sock_isactive sock \<longleftrightarrow> sk_fd sock \<ge> 0"

section \<open>Closing and changing the state of the descriptor\<close>

definition sock_close :: "'w os \<Rightarrow> 'w \<Rightarrow> simple_sock \<Rightarrow> int \<Rightarrow> int \<times> simple_sock \<times> 'w" where
  "sock_close os w sock rc =
    (if sk_fd sock \<noteq> -1 then
       case os_close os w (sk_fd sock) of (ok, w) \<Rightarrow>
         (if \<not> ok \<and> rc = 0 then -1 else rc, sock\<lparr> sk_fd := -1 \<rparr>, w)
     else (rc, sock, w))"

definition sock_set_nonblk :: "'w os \<Rightarrow> 'w \<Rightarrow> simple_sock \<Rightarrow> int \<times> 'w" where
  "sock_set_nonblk os w sock =
    (case os_getfl os w (sk_fd sock) of (ok, w) \<Rightarrow>
       if \<not> ok then (-1, w)
       else case os_setfl os w (sk_fd sock) of (ok, w) \<Rightarrow> (if ok then 0 else -1, w))"

definition sock_set_mode :: "'w os \<Rightarrow> 'w \<Rightarrow> simple_sock \<Rightarrow> u32 \<Rightarrow> int \<times> simple_sock \<times> 'w" where
  "sock_set_mode os w sock mode =
    (let (rc, w) = (if bit mode SOCK_NONBLK \<and> \<not> bit (sk_mode sock) SOCK_NONBLK then sock_set_nonblk os w sock else (0, w))
     in if rc \<noteq> 0 then (rc, sock, w) else (0, sock\<lparr> sk_mode := mode \<rparr>, w))"

definition sock_set_sndto :: "'w os \<Rightarrow> 'w \<Rightarrow> simple_sock \<Rightarrow> u32 \<Rightarrow> int \<times> simple_sock \<times> 'w" where
  "sock_set_sndto os w sock ms =
    (case os_sockopt os w (sk_fd sock) (SO_SNDTIMEO (unat ms div 1000) (unat ms mod 1000 * 1000)) of (ok, w) \<Rightarrow>
       if \<not> ok then (-1, sock, w) else (0, sock\<lparr> send_timeout := True \<rparr>, w))"

definition sock_set_rcvto :: "'w os \<Rightarrow> 'w \<Rightarrow> simple_sock \<Rightarrow> u32 \<Rightarrow> int \<times> simple_sock \<times> 'w" where
  "sock_set_rcvto os w sock ms =
    (case os_sockopt os w (sk_fd sock) (SO_RCVTIMEO (unat ms div 1000) (unat ms mod 1000 * 1000)) of (ok, w) \<Rightarrow>
       if \<not> ok then (-1, sock, w) else (0, sock\<lparr> recv_timeout := True \<rparr>, w))"

definition sock_sendfin :: "'w os \<Rightarrow> 'w \<Rightarrow> simple_sock \<Rightarrow> int \<times> simple_sock \<times> 'w" where
  "sock_sendfin os w sock =
    (if sys_err sock then (SOCK_ERROR, sock, w)
     else if fin_sent sock then (0, sock, w)
     else case os_shutdown os w (sk_fd sock) of (e, w) \<Rightarrow>
       if e \<noteq> None \<and> e \<noteq> Some ENOTSOCK then (-1, sock\<lparr> sys_err := True \<rparr>, w)
       else (0, sock\<lparr> fin_sent := True, send_fin := False \<rparr>, w))"

section \<open>Addresses and connections\<close>

definition sock_addr_zero :: sock_addr where
  "sock_addr_zero = \<lparr> sa_type = None, sa_port = 0, sa_ip = replicate 16 0 \<rparr>"

text \<open>
  The member \<open>u32\<close> of the address union is an array of \<open>uint8_t\<close>, so the store of the 32-bit address
  through \<open>u32[0]\<close> keeps its lowest byte, which is the first byte of the address in memory.
\<close>

definition sock_addr_load :: "dns_sockaddr \<Rightarrow> nat option \<times> sock_addr" where
  "sock_addr_load sa =
    (case da_family sa of
       AF_INET \<Rightarrow>
         if da_len sa \<noteq> 16 then (None, sock_addr_zero)
         else (Some SOCK_IPV4, sock_addr_zero\<lparr> sa_type := Some SOCK_IPV4, sa_port := da_port sa,
           sa_ip := write_at (sa_ip sock_addr_zero) 0 [da_ip sa ! 0] \<rparr>)
     | AF_INET6 \<Rightarrow>
         if da_len sa \<noteq> 28 then (None, sock_addr_zero)
         else (Some SOCK_IPV6, sock_addr_zero\<lparr> sa_type := Some SOCK_IPV6, sa_port := da_port sa,
           sa_ip := write_at (sa_ip sock_addr_zero) 0 (da_ip sa) \<rparr>)
     | AF_OTHER \<Rightarrow> (None, sock_addr_zero))"

definition connect_addr :: "'w os \<Rightarrow> 'w \<Rightarrow> simple_sock \<Rightarrow> dns_sockaddr \<Rightarrow> int \<times> simple_sock \<times> 'w" where
  "connect_addr os w sock addr =
    (case sock_addr_load addr of (rc, a) \<Rightarrow>
     let sock = sock\<lparr> sk_addr := a \<rparr> in
     if rc = None then (-1, sock, w)
     else case os_socket os w (da_family addr) (da_sock_type addr) False of (fd, w) \<Rightarrow>
       let sock = sock\<lparr> sk_fd := fd \<rparr> in
       if fd = -1 then (-1, sock, w)
       else if \<not> (bit (sk_mode sock) SOCK_TCP \<or> bit (sk_mode sock) SOCK_UDPCON) then (0, sock, w)
       else case os_connect os w fd addr of (ok, w) \<Rightarrow>
         if \<not> ok then sock_close os w sock (-1)
         else if bit (sk_mode sock) SOCK_NONBLK then
           (case sock_set_nonblk os w sock of (rc, w) \<Rightarrow> if rc \<noteq> 0 then sock_close os w sock rc else (0, sock, w))
         else (0, sock, w))"

definition listen_addr :: "'w os \<Rightarrow> 'w \<Rightarrow> simple_sock \<Rightarrow> dns_sockaddr \<Rightarrow> int \<times> simple_sock \<times> 'w" where
  "listen_addr os w sock addr =
    (case sock_addr_load addr of (rc, a) \<Rightarrow>
     let sock = sock\<lparr> sk_addr := a \<rparr> in
     if rc = None then (-1, sock, w)
     else case os_socket os w (da_family addr) (da_sock_type addr) (bit (sk_mode sock) SOCK_NONBLK) of (fd, w) \<Rightarrow>
       let sock = sock\<lparr> sk_fd := fd \<rparr> in
       if fd = -1 then (-1, sock, w)
       else
         let w = (if bit (sk_mode sock) SOCK_ANY then snd (os_sockopt os w fd (IPV6_V6ONLY 0)) else w);
             w = (if bit (sk_mode sock) SOCK_REUSE then snd (os_sockopt os w fd (SO_REUSEADDR 1)) else w)
         in if bit (sk_mode sock) SOCK_PASSIVE then
              case os_bind os w fd addr of (ok, w) \<Rightarrow>
                if \<not> ok then sock_close os w sock (-1)
                else case os_listen os w fd of (ok, w) \<Rightarrow>
                  if \<not> ok then sock_close os w sock (-1) else (0, sock, w)
            else (0, sock, w))"

fun connect_first :: "'w os \<Rightarrow> 'w \<Rightarrow> simple_sock \<Rightarrow> dns_sockaddr list \<Rightarrow> simple_sock \<times> 'w" where
  "connect_first os w sock [] = (sock, w)"
| "connect_first os w sock (addr # addrs) =
    (case connect_addr os w sock addr of (rc, sock, w) \<Rightarrow>
       if rc = 0 then (sock, w) else connect_first os w sock addrs)"

text \<open>
  \<open>resolv\<close> is the resolver: from the flags, the host and the port it returns a negative code, or the
  addresses.
\<close>

type_synonym 'w resolver = "'w \<Rightarrow> u32 \<Rightarrow> slice \<Rightarrow> slice \<Rightarrow> (int + dns_sockaddr list) \<times> 'w"

definition sock_resolv :: "'w resolver \<Rightarrow> 'w \<Rightarrow> u32 \<Rightarrow> slice \<Rightarrow> slice \<Rightarrow> (int + dns_sockaddr list) \<times> 'w" where
  "sock_resolv resolv w mode hostname port =
    (let flags = 0;
         flags = (if bit mode SOCK_PASSIVE then flags OR DNS_PASSIVE else flags);
         flags = (if bit mode SOCK_NUMPORT then flags OR DNS_NUMPORT else flags);
         flags = (if bit mode SOCK_ANY then flags OR (DNS_IPV6 OR DNS_V4MAPPED OR DNS_ALL)
           else if bit mode SOCK_IPV4 then flags OR DNS_IPV4
           else if bit mode SOCK_IPV6 then flags OR DNS_IPV6
           else flags);
         flags = (if bit mode SOCK_TCP then flags OR DNS_TCP else flags);
         flags = (if bit mode SOCK_UDP then flags OR DNS_UDP else flags)
     in resolv w flags hostname port)"

definition sock_client ::
    "'w os \<Rightarrow> 'w resolver \<Rightarrow> 'w \<Rightarrow> simple_sock \<Rightarrow> u32 \<Rightarrow> slice \<Rightarrow> slice \<Rightarrow> int \<times> simple_sock \<times> 'w" where
  "sock_client os resolv w sock mode hostname port =
    (case sock_resolv resolv w mode hostname port of
       (Inl rc, w) \<Rightarrow> (rc, sock, w)
     | (Inr addrs, w) \<Rightarrow>
         if addrs = [] then (-1, sock, w)
         else case connect_first os w (sock\<lparr> sk_mode := mode, sk_fd := -1 \<rparr>) addrs of (sock, w) \<Rightarrow>
           (if sk_fd sock = -1 then -1 else 0, sock, w))"

definition sock_server ::
    "'w os \<Rightarrow> 'w resolver \<Rightarrow> 'w \<Rightarrow> simple_sock \<Rightarrow> u32 \<Rightarrow> slice \<Rightarrow> slice \<Rightarrow> int \<times> simple_sock \<times> 'w" where
  "sock_server os resolv w sock mode hostname port =
    (case sock_resolv resolv w mode hostname port of
       (Inl rc, w) \<Rightarrow> (rc, sock, w)
     | (Inr addrs, w) \<Rightarrow>
         if addrs = [] then (-1, sock, w)
         else listen_addr os w (sock\<lparr> sk_mode := mode, sk_fd := -1 \<rparr>) (addrs ! 0))"

definition sock_accept :: "'w os \<Rightarrow> 'w \<Rightarrow> simple_sock \<Rightarrow> (int \<times> sock_addr) \<times> 'w" where
  "sock_accept os w sock =
    (case os_accept os w (sk_fd sock) (bit (sk_mode sock) SOCK_NONBLK) of ((fd, sa), w) \<Rightarrow>
       if fd = -1 then ((-1, sock_addr_zero), w)
       else case sock_addr_load sa of (rc, a) \<Rightarrow>
         if rc = None then ((-1, a), snd (os_close os w fd))
         else ((fd, a), snd (os_sockopt os w fd (TCP_NODELAY 1))))"

definition sock_init :: "heap_env \<Rightarrow> simple_sock \<Rightarrow> int \<Rightarrow> sock_addr option \<Rightarrow> nat \<Rightarrow> nat \<Rightarrow> nat \<Rightarrow> nat \<Rightarrow> int \<times> simple_sock" where
  "sock_init env sock fd addr mline buf_size msize max_size =
    (let sock = sock\<lparr> sk_fd := fd, max_line := mline, min_size := msize \<rparr>;
         sock = (case addr of None \<Rightarrow> sock | Some a \<Rightarrow> sock\<lparr> sk_addr := a \<rparr>)
     in case rwbuf_init env buf_size max_size of (rc, b) \<Rightarrow>
       let sock = sock\<lparr> recv_buf := b \<rparr> in
       if rc \<noteq> 0 then (rc, sock)
       else case rwbuf_init env buf_size max_size of (rc, b) \<Rightarrow>
         (if rc \<noteq> 0 then rc else 0, sock\<lparr> send_buf := b \<rparr>))"

definition sock_deinit :: "'w os \<Rightarrow> 'w \<Rightarrow> simple_sock \<Rightarrow> int \<Rightarrow> simple_sock \<times> 'w" where
  "sock_deinit os w sock rc =
    (case sock_close os w sock rc of (_, sock, w) \<Rightarrow>
       (sock\<lparr> send_buf := rwbuf_deinit (send_buf sock), recv_buf := rwbuf_deinit (recv_buf sock) \<rparr>, w))"

section \<open>Reading and writing the descriptor\<close>

definition io_code :: "bool \<Rightarrow> io_err \<Rightarrow> int" where
  "io_code timeout e = (if e = EAGAIN then (if timeout then SOCK_TIMEOUT else SOCK_AGAIN) else SOCK_ERROR)"

definition io_fail :: "io_err \<Rightarrow> simple_sock \<Rightarrow> simple_sock" where
  "io_fail e sock = (if e = EAGAIN \<or> e = EINTR then sock else sock\<lparr> sys_err := True \<rparr>)"

text \<open>The loops: \<open>acc\<close> is what has been read, \<open>n\<close> is how many bytes have been written.\<close>

function read_loop :: "'w os \<Rightarrow> 'w \<Rightarrow> simple_sock \<Rightarrow> nat \<Rightarrow> bytes \<Rightarrow> int \<times> bytes \<times> simple_sock \<times> 'w" where
  "read_loop os w sock len acc =
    (if len = 0 then (SOCK_OK, acc, sock, w)
     else case os_read os w (sk_fd sock) len of
       (RdErr e, w) \<Rightarrow> (io_code (recv_timeout sock) e, acc, io_fail e sock, w)
     | (Got bs, w) \<Rightarrow>
         if bs = [] then (SOCK_CLOSED, acc, sock\<lparr> recv_fin := True \<rparr>, w)
         else if bit (sk_mode sock) SOCK_UDP then (SOCK_OK, acc @ bs, sock, w)
         else read_loop os w sock (len - length bs) (acc @ bs))"
  by pat_completeness auto
termination by (relation "measure (\<lambda>(os, w, sock, len, acc). len)") auto

declare read_loop.simps [simp del]

definition sock_read_data :: "'w os \<Rightarrow> 'w \<Rightarrow> simple_sock \<Rightarrow> nat \<Rightarrow> int \<times> bytes \<times> simple_sock \<times> 'w" where
  "sock_read_data os w sock len =
    (if sys_err sock then (SOCK_ERROR, [], sock, w)
     else if recv_fin sock then (SOCK_CLOSED, [], sock, w)
     else case read_loop os w sock len [] of (ec, data, sock, w) \<Rightarrow>
       (if data \<noteq> [] then int (length data) else ec, data, sock, w))"

function write_loop :: "'w os \<Rightarrow> 'w \<Rightarrow> simple_sock \<Rightarrow> bytes \<Rightarrow> nat \<Rightarrow> int \<times> nat \<times> simple_sock \<times> 'w" where
  "write_loop os w sock data n =
    (if data = [] then (SOCK_OK, n, sock, w)
     else case os_write os w (sk_fd sock) data of
       (WrErr e, w) \<Rightarrow> (io_code (send_timeout sock) e, n, io_fail e sock, w)
     | (Wrote k, w) \<Rightarrow>
         if k = 0 then (SOCK_OK, n, sock, w) else write_loop os w sock (drop k data) (n + k))"
  by pat_completeness auto
termination by (relation "measure (\<lambda>(os, w, sock, data, n). length data)") auto

declare write_loop.simps [simp del]

definition sock_write_data :: "'w os \<Rightarrow> 'w \<Rightarrow> simple_sock \<Rightarrow> bytes \<Rightarrow> int \<times> simple_sock \<times> 'w" where
  "sock_write_data os w sock data =
    (if sys_err sock then (SOCK_ERROR, sock, w)
     else if fin_sent sock then (SOCK_CLOSED, sock, w)
     else case write_loop os w sock data 0 of (ec, n, sock, w) \<Rightarrow> (if n \<noteq> 0 then int n else ec, sock, w))"

text \<open>The buffers after a write of \<open>k\<close> bytes; those written are left with length 0.\<close>

fun iovs_advance :: "nat \<Rightarrow> bytes list \<Rightarrow> bytes list" where
  "iovs_advance k [] = []"
| "iovs_advance k (iov # iovs) = (if k \<ge> length iov then [] # iovs_advance (k - length iov) iovs else drop k iov # iovs)"

lemma concat_iovs_advance: "concat (iovs_advance k iovs) = drop k (concat iovs)"
  by (induction k iovs rule: iovs_advance.induct) auto

lemma length_iovs_advance [simp]: "length (iovs_advance k iovs) = length iovs"
  by (induction k iovs rule: iovs_advance.induct) auto

function writev_loop :: "'w os \<Rightarrow> 'w \<Rightarrow> simple_sock \<Rightarrow> bytes list \<Rightarrow> nat \<Rightarrow> int \<times> nat \<times> bytes list \<times> simple_sock \<times> 'w" where
  "writev_loop os w sock iovs n =
    (if concat iovs = [] then (SOCK_OK, n, iovs, sock, w)
     else case os_write os w (sk_fd sock) (concat iovs) of
       (WrErr e, w) \<Rightarrow> (io_code (send_timeout sock) e, n, iovs, io_fail e sock, w)
     | (Wrote k, w) \<Rightarrow>
         if k = 0 then (SOCK_OK, n, iovs, sock, w) else writev_loop os w sock (iovs_advance k iovs) (n + k))"
  by pat_completeness auto
termination
proof (relation "measure (\<lambda>(os, w, sock, iovs, n). length (concat iovs))", goal_cases)
  case (2 os w sock iovs n x y k)
  then have "concat iovs \<noteq> []" "k \<noteq> 0" by simp_all
  then show ?case by (simp only: in_measure case_prod_conv concat_iovs_advance) (cases "concat iovs"; simp)
qed simp

declare writev_loop.simps [simp del]

definition sock_write_iovs :: "'w os \<Rightarrow> 'w \<Rightarrow> simple_sock \<Rightarrow> bytes list \<Rightarrow> int \<times> bytes list \<times> simple_sock \<times> 'w" where
  "sock_write_iovs os w sock iovs =
    (if sys_err sock then (SOCK_ERROR, iovs, sock, w)
     else if fin_sent sock then (SOCK_CLOSED, iovs, sock, w)
     else case writev_loop os w sock iovs 0 of (ec, n, iovs, sock, w) \<Rightarrow>
       (if n \<noteq> 0 then int n else ec, iovs, sock, w))"

section \<open>Buffered input and output\<close>

definition sock_write_mem :: "heap_env \<Rightarrow> simple_sock \<Rightarrow> bytes \<Rightarrow> int \<times> simple_sock" where
  "sock_write_mem env sock mem =
    (case rwbuf_write env (send_buf sock) mem of (rc, b) \<Rightarrow>
       let sock = sock\<lparr> send_buf := b \<rparr> in (rc, if rc \<noteq> 0 then sock\<lparr> sys_err := True \<rparr> else sock))"

definition sock_write_str :: "heap_env \<Rightarrow> simple_sock \<Rightarrow> slice \<Rightarrow> int \<times> simple_sock" where
  "sock_write_str env sock str = sock_write_mem env sock (slice_bytes str)"

definition sock_write_line :: "heap_env \<Rightarrow> simple_sock \<Rightarrow> slice \<Rightarrow> int \<times> simple_sock" where
  "sock_write_line env sock line =
    (case rwbuf_writev env (send_buf sock) [slice_bytes line, [13, 10]] of (rc, b) \<Rightarrow>
       let sock = sock\<lparr> send_buf := b \<rparr> in if rc \<noteq> 0 then (rc, sock\<lparr> sys_err := True \<rparr>) else (0, sock))"

text \<open>The bytes at \<open>rwbuf_rptr\<close>, as many as \<open>rwbuf_used\<close> says.\<close>

definition backlog :: "rwbuf \<Rightarrow> bytes" where
  "backlog buf = segment (rb_mem buf) (rb_ridx buf) (rb_ridx buf + rwbuf_used buf)"

definition sock_send :: "'w os \<Rightarrow> 'w \<Rightarrow> simple_sock \<Rightarrow> int \<times> simple_sock \<times> 'w" where
  "sock_send os w sock =
    (case sock_write_data os w sock (backlog (send_buf sock)) of (n, sock, w) \<Rightarrow>
       if n \<le> 0 then (n, sock, w)
       else
         let b = (send_buf sock)\<lparr> rb_ridx := sz_add (rb_ridx (send_buf sock)) (nat n) \<rparr>;
             b = (if rb_ridx b = rb_widx b then b\<lparr> rb_ridx := 0, rb_widx := 0 \<rparr> else b)
         in (SOCK_DATA, sock\<lparr> send_buf := b \<rparr>, w))"

text \<open>What is left of a vector after the write is appended to the send buffer.\<close>

fun keep_rest :: "heap_env \<Rightarrow> simple_sock \<Rightarrow> bytes list \<Rightarrow> int \<times> simple_sock" where
  "keep_rest env sock [] = (0, sock)"
| "keep_rest env sock (iov # iovs) =
    (if iov = [] then keep_rest env sock iovs
     else case rwbuf_write env (send_buf sock) iov of (rc, b) \<Rightarrow>
       let sock = sock\<lparr> send_buf := b \<rparr> in if rc \<noteq> 0 then (rc, sock) else keep_rest env sock iovs)"

definition send_iovs :: "heap_env \<Rightarrow> 'w os \<Rightarrow> 'w \<Rightarrow> simple_sock \<Rightarrow> bytes list \<Rightarrow> int \<times> simple_sock \<times> 'w" where
  "send_iovs env os w sock data =
    (case sock_write_iovs os w sock (backlog (send_buf sock) # data) of (rc, iovs, sock, w) \<Rightarrow>
       if rc \<le> 0 then (rc, sock, w)
       else case rwbuf_rdinc (send_buf sock) (length (iovs ! 0)) of (rc, b) \<Rightarrow>
         let sock = sock\<lparr> send_buf := b \<rparr> in
         if rc \<noteq> 0 then (rc, sock, w)
         else case keep_rest env sock (drop 1 iovs) of (rc, sock) \<Rightarrow> (rc, sock, w))"

definition sock_send_mem :: "heap_env \<Rightarrow> 'w os \<Rightarrow> 'w \<Rightarrow> simple_sock \<Rightarrow> bytes \<Rightarrow> int \<times> simple_sock \<times> 'w" where
  "sock_send_mem env os w sock mem = send_iovs env os w sock [mem]"

definition sock_send_str :: "heap_env \<Rightarrow> 'w os \<Rightarrow> 'w \<Rightarrow> simple_sock \<Rightarrow> slice \<Rightarrow> int \<times> simple_sock \<times> 'w" where
  "sock_send_str env os w sock str = sock_send_mem env os w sock (slice_bytes str)"

definition sock_send_line :: "heap_env \<Rightarrow> 'w os \<Rightarrow> 'w \<Rightarrow> simple_sock \<Rightarrow> slice \<Rightarrow> int \<times> simple_sock \<times> 'w" where
  "sock_send_line env os w sock line = send_iovs env os w sock [slice_bytes line, [13, 10]]"

text \<open>The argument of \<open>rwbuf_mkspace\<close> is the negative of what is missing and wraps around.\<close>

definition sock_recv :: "heap_env \<Rightarrow> 'w os \<Rightarrow> 'w \<Rightarrow> simple_sock \<Rightarrow> int \<times> simple_sock \<times> 'w" where
  "sock_recv env os w sock =
    (let space = rwbuf_space (recv_buf sock);
         (buf, sock) = (if min_size sock \<noteq> 0 \<and> space < min_size sock then
             (case rwbuf_mkspace env (recv_buf sock) (sz_sub space (min_size sock)) of (p, b) \<Rightarrow>
               (p, sock\<lparr> recv_buf := b \<rparr>))
           else (Some 0, sock))
     in if buf = None then (SOCK_ERROR, sock\<lparr> sys_err := True \<rparr>, w)
     else
       case sock_read_data os w sock (rwbuf_space (recv_buf sock)) of (n, data, sock, w) \<Rightarrow>
         if n \<le> 0 then (n, sock, w)
         else
           let b = rwbuf_poke (recv_buf sock) (rb_widx (recv_buf sock)) data
           in (SOCK_DATA, sock\<lparr> recv_buf := b\<lparr> rb_widx := sz_add (rb_widx b) (nat n) \<rparr> \<rparr>, w))"

definition sock_recv_line :: "simple_sock \<Rightarrow> bool \<Rightarrow> int \<times> bytes option \<times> simple_sock" where
  "sock_recv_line sock eof =
    (case rwbuf_readline (recv_buf sock) (max_line sock) (if eof then RWBUF_NOLOG OR RWBUF_EOF else RWBUF_NOLOG) of
       (rc, line, b) \<Rightarrow>
         let sock = sock\<lparr> recv_buf := b \<rparr> in
         if rc < 0 then (-1, line, sock\<lparr> sys_err := True \<rparr>) else (rc, line, sock))"

definition sock_recv_str :: "simple_sock \<Rightarrow> slice" where
  "sock_recv_str sock = Some (backlog (recv_buf sock))"

definition sock_recvbuf_consume :: "simple_sock \<Rightarrow> nat \<Rightarrow> int \<times> simple_sock" where
  "sock_recvbuf_consume sock len =
    (case rwbuf_rdinc (recv_buf sock) len of (rc, b) \<Rightarrow> (rc, sock\<lparr> recv_buf := b \<rparr>))"

section \<open>Addresses as text\<close>

text \<open>\<open>sa_port\<close> is in network order, which \<open>bswap16\<close> undoes; the text without its terminator.\<close>

definition bswap16 :: "u16 \<Rightarrow> u16" where
  "bswap16 v = push_bit 8 v OR drop_bit 8 v"

definition IP_ADDRPORT_STRLEN :: nat where
  "IP_ADDRPORT_STRLEN = IP6_ADDR_STRLEN + 3 + 6 - 1"

definition sock_addr_tostr :: "sock_addr \<Rightarrow> bytes" where
  "sock_addr_tostr addr =
    (let buf = replicate IP_ADDRPORT_STRLEN 0 in
     if sa_type addr = Some SOCK_IPV4 then
       case ip4_str_encode (sa_ip addr) buf 0 IP_ADDRPORT_STRLEN of (n, t) \<Rightarrow>
         take n t @ [58] @ uint16_toa (bswap16 (sa_port addr))
     else if sa_type addr = Some SOCK_IPV6 then
       case ip6_str_encode (sa_ip addr) 5 buf IP_ADDRPORT_STRLEN of (n, t) \<Rightarrow>
         take n t @ [58] @ uint16_toa (bswap16 (sa_port addr))
     else ascii ''<null>'')"

text \<open>The result is the kind of the address, or 0; a fault is a store outside the address.\<close>

definition sock_ipstr_decode :: "slice \<Rightarrow> sock_addr \<Rightarrow> (nat option \<times> sock_addr) option" where
  "sock_ipstr_decode str addr = do {
    (n, ip) \<leftarrow> ip4_str_decode (slice_bytes str) (sa_ip addr) 0;
    if n \<noteq> 0 then Some (Some SOCK_IPV4, addr\<lparr> sa_ip := ip, sa_type := Some SOCK_IPV4 \<rparr>)
    else do {
      (n, ip) \<leftarrow> ip6_str_decode (slice_bytes str) ip;
      if n \<noteq> 0 then Some (Some SOCK_IPV6, addr\<lparr> sa_ip := ip, sa_type := Some SOCK_IPV6 \<rparr>)
      else Some (None, addr\<lparr> sa_ip := ip \<rparr>)
    }
  }"

end
