(* ===== verification/Sock_Stream.thy ===== *)
theory Sock_Stream
  imports Sock
begin

text \<open>
  What the socket layer of \<open>src/src/sock.c\<close> does to the two streams of bytes of a connection: the
  laws of \<open>read\<close> and \<open>write\<close>, the streams through the send and receive buffers, the backlog that
  \<open>sock_send_mem\<close> repeats, the descriptors of \<open>sock_client\<close>, and the text of a peer's address.
\<close>

section \<open>The laws of the system\<close>

text \<open>
  \<open>out w\<close> is all that the system has accepted for writing on \<open>fd\<close>, \<open>inp w\<close> all that it will deliver
  from \<open>w\<close> on: a write accepts some front of its data, a read takes at most as much as it is asked
  for from the front of what the peer sends and returns nothing only at the end of it, and a call
  that fails does neither.
\<close>

definition write_law :: "('w \<Rightarrow> bytes) \<Rightarrow> int \<Rightarrow> 'w os \<Rightarrow> bool" where
  "write_law out fd os \<longleftrightarrow> (\<forall>w bs. case os_write os w fd bs of
      (Wrote k, w') \<Rightarrow> k \<le> length bs \<and> out w' = out w @ take k bs
    | (WrErr _, w') \<Rightarrow> out w' = out w)"

definition read_law :: "('w \<Rightarrow> bytes) \<Rightarrow> int \<Rightarrow> 'w os \<Rightarrow> bool" where
  "read_law inp fd os \<longleftrightarrow> (\<forall>w n. case os_read os w fd n of
      (Got bs, w') \<Rightarrow> length bs \<le> n \<and> inp w = bs @ inp w' \<and> (bs = [] \<and> 0 < n \<longrightarrow> inp w = [])
    | (RdErr _, w') \<Rightarrow> inp w' = inp w)"

lemma write_lawD:
  assumes "write_law out fd os"
  shows "os_write os w fd bs = (Wrote k, w') \<Longrightarrow> k \<le> length bs \<and> out w' = out w @ take k bs"
    and "os_write os w fd bs = (WrErr e, w') \<Longrightarrow> out w' = out w"
  using spec [OF spec [OF assms [unfolded write_law_def]], of bs w] by simp_all

lemma read_lawD:
  assumes "read_law inp fd os"
  shows "os_read os w fd n = (Got bs, w') \<Longrightarrow> length bs \<le> n \<and> inp w = bs @ inp w' \<and> (bs = [] \<and> 0 < n \<longrightarrow> inp w = [])"
    and "os_read os w fd n = (RdErr e, w') \<Longrightarrow> inp w' = inp w"
  using spec [OF spec [OF assms [unfolded read_law_def]], of n w] by auto

section \<open>The loops\<close>

lemma write_loop_stream:
  assumes "write_law out (sk_fd sock) os" "write_loop os w sock data n = (ec, m, sock', w')"
  shows "n \<le> m \<and> m \<le> n + length data \<and> out w' = out w @ take (m - n) data \<and> (\<exists>b. sock' = sock\<lparr> sys_err := b \<rparr>) \<and> ec \<le> 0"
  using assms(2)
proof (induction "length data" arbitrary: data n w rule: less_induct)
  case less
  show ?case
  proof (cases "data = []")
    case True
    then show ?thesis using less.prems by (subst (asm) write_loop.simps) (auto simp: sock_codes intro: exI [of _ "sys_err sock"])
  next
    case ne: False
    obtain r w1 where r: "os_write os w (sk_fd sock) data = (r, w1)" by fastforce
    show ?thesis
    proof (cases r)
      case (WrErr e)
      then have "(io_code (send_timeout sock) e, n, io_fail e sock, w1) = (ec, m, sock', w')"
        using less.prems r ne by (subst (asm) write_loop.simps) simp
      moreover have "\<exists>b. io_fail e sock = sock\<lparr> sys_err := b \<rparr>"
        by (cases "e = EAGAIN \<or> e = EINTR") (auto simp: io_fail_def intro: exI [of _ "sys_err sock"])
      ultimately show ?thesis using write_lawD(2) [OF assms(1)] r WrErr by (auto simp: io_code_def sock_codes)
    next
      case (Wrote k)
      note l = write_lawD(1) [OF assms(1) r [unfolded Wrote]]
      show ?thesis
      proof (cases "k = 0")
        case True
        then show ?thesis
          using less.prems r ne Wrote l
          by (subst (asm) write_loop.simps) (auto simp: sock_codes intro: exI [of _ "sys_err sock"])
      next
        case False
        then have rec: "write_loop os w1 sock (drop k data) (n + k) = (ec, m, sock', w')"
          using less.prems r ne Wrote by (subst (asm) write_loop.simps) simp
        have "length (drop k data) < length data" using False ne by simp
        from less.hyps [OF this rec] obtain b where i: "n + k \<le> m" "m \<le> n + k + length (drop k data)"
          "out w' = out w1 @ take (m - (n + k)) (drop k data)" "sock' = sock\<lparr> sys_err := b \<rparr>" "ec \<le> 0" by blast
        have "take k data @ take (m - (n + k)) (drop k data) = take (m - n) data"
          using i(1) take_add [of k "m - (n + k)" data] by simp
        then show ?thesis using i l by auto
      qed
    qed
  qed
qed

lemma read_loop_stream:
  assumes "read_law inp (sk_fd sock) os" "read_loop os w sock len acc = (ec, data, sock', w')"
  shows "\<exists>d. data = acc @ d \<and> length d \<le> len \<and> inp w = d @ inp w' \<and> (\<exists>b c. sock' = sock\<lparr> sys_err := b, recv_fin := c \<rparr>) \<and> ec \<le> 0 \<and>
    (recv_fin sock' \<longrightarrow> recv_fin sock \<or> inp w' = [])"
  using assms(2)
proof (induction len arbitrary: acc w rule: less_induct)
  case (less len)
  have same: "\<exists>b c. sock = sock\<lparr> sys_err := b, recv_fin := c \<rparr>" by (rule exI [of _ "sys_err sock"], rule exI [of _ "recv_fin sock"]) simp
  have err: "\<exists>b c. sock\<lparr> sys_err := True \<rparr> = sock\<lparr> sys_err := b, recv_fin := c \<rparr>"
    by (rule exI [of _ True], rule exI [of _ "recv_fin sock"]) simp
  have fin: "\<exists>b c. sock\<lparr> recv_fin := True \<rparr> = sock\<lparr> sys_err := b, recv_fin := c \<rparr>"
    by (rule exI [of _ "sys_err sock"], rule exI [of _ True]) simp
  show ?case
  proof (cases "len = 0")
    case True
    then show ?thesis using less.prems same by (subst (asm) read_loop.simps) (auto simp: sock_codes)
  next
    case ne: False
    obtain r w1 where r: "os_read os w (sk_fd sock) len = (r, w1)" by fastforce
    show ?thesis
    proof (cases r)
      case (RdErr e)
      then have "(io_code (recv_timeout sock) e, acc, io_fail e sock, w1) = (ec, data, sock', w')"
        using less.prems r ne by (subst (asm) read_loop.simps) simp
      moreover have "\<exists>b c. io_fail e sock = sock\<lparr> sys_err := b, recv_fin := c \<rparr>"
        using same err by (cases "e = EAGAIN \<or> e = EINTR") (simp_all add: io_fail_def)
      moreover have "io_code (recv_timeout sock) e < 0" by (simp add: io_code_def sock_codes)
      moreover have "recv_fin (io_fail e sock) = recv_fin sock" by (simp add: io_fail_def)
      ultimately show ?thesis using read_lawD(2) [OF assms(1) r [unfolded RdErr]] by (intro exI [of _ "[]"]) auto
    next
      case (Got bs)
      note l = read_lawD(1) [OF assms(1) r [unfolded Got]]
      consider "bs = []" | "bs \<noteq> []" "bit (sk_mode sock) SOCK_UDP" | "bs \<noteq> []" "\<not> bit (sk_mode sock) SOCK_UDP" by blast
      then show ?thesis
      proof cases
        case 1
        then have "(SOCK_CLOSED, acc, sock\<lparr> recv_fin := True \<rparr>, w1) = (ec, data, sock', w')"
          using less.prems r ne Got by (subst (asm) read_loop.simps) simp
        then show ?thesis using l 1 fin ne by (intro exI [of _ "[]"]) (auto simp: sock_codes)
      next
        case 2
        then have "(SOCK_OK, acc @ bs, sock, w1) = (ec, data, sock', w')"
          using less.prems r ne Got by (subst (asm) read_loop.simps) simp
        then show ?thesis using l 2 same by (intro exI [of _ bs]) (auto simp: sock_codes)
      next
        case 3
        then have rec: "read_loop os w1 sock (len - length bs) (acc @ bs) = (ec, data, sock', w')"
          using less.prems r ne Got by (subst (asm) read_loop.simps) simp
        have "len - length bs < len" using 3 ne by simp
        from less.IH [OF this rec] obtain d where "data = (acc @ bs) @ d" "length d \<le> len - length bs" "inp w1 = d @ inp w'"
          "\<exists>b c. sock' = sock\<lparr> sys_err := b, recv_fin := c \<rparr>" "ec \<le> 0" "recv_fin sock' \<longrightarrow> recv_fin sock \<or> inp w' = []" by blast
        moreover from this have "length (bs @ d) \<le> len" using l by auto
        ultimately show ?thesis using l 3 by (intro exI [of _ "bs @ d"]) simp
      qed
    qed
  qed
qed

section \<open>Sending\<close>

lemma backlog_content: "rwbuf_inv buf \<Longrightarrow> backlog buf = rwbuf_content buf"
  by (auto simp: backlog_def rwbuf_content_def dest: rwbuf_invD(1))

lemma sock_write_data_stream:
  assumes "write_law out (sk_fd sock) os" "sock_write_data os w sock data = (n, sock', w')"
  shows "\<exists>k b. k \<le> length data \<and> out w' = out w @ take k data \<and> sock' = sock\<lparr> sys_err := b \<rparr> \<and> (if 0 < k then n = int k else n \<le> 0)"
proof (cases "sys_err sock \<or> fin_sent sock")
  case True
  then show ?thesis
    using assms(2) by (intro exI [of _ 0] exI [of _ "sys_err sock"]) (auto simp: sock_write_data_def sock_codes split: if_splits)
next
  case False
  obtain ec m sock1 w1 where l: "write_loop os w sock data 0 = (ec, m, sock1, w1)" by (metis prod_cases4)
  obtain b where "m \<le> length data" "out w1 = out w @ take m data" "sock1 = sock\<lparr> sys_err := b \<rparr>" "ec \<le> 0"
    using write_loop_stream [OF assms(1) l] by auto
  then show ?thesis
    using assms(2) False l by (intro exI [of _ m] exI [of _ b]) (auto simp: sock_write_data_def)
qed

lemma sock_send_stream:
  assumes "write_law out (sk_fd sock) os" "rwbuf_inv (send_buf sock)" "sock_send os w sock = (rc, sock', w')"
  shows "rwbuf_inv (send_buf sock') \<and> out w' @ rwbuf_content (send_buf sock') = out w @ rwbuf_content (send_buf sock) \<and>
    (\<exists>b s. sock' = sock\<lparr> sys_err := b, send_buf := s \<rparr>)"
proof -
  let ?b = "send_buf sock" and ?c = "rwbuf_content (send_buf sock)"
  obtain n sock1 w1 where d: "sock_write_data os w sock ?c = (n, sock1, w1)" by (metis prod_cases3)
  obtain k b where k: "k \<le> length ?c" "out w1 = out w @ take k ?c" "sock1 = sock\<lparr> sys_err := b \<rparr>" "if 0 < k then n = int k else n \<le> 0"
    using sock_write_data_stream [OF assms(1) d] by blast
  note i = rwbuf_invD [OF assms(2)]
  show ?thesis
  proof (cases "0 < k")
    case True
    have le: "rb_ridx ?b + k \<le> rb_widx ?b" using k(1) i length_content [OF assms(2)] by linarith
    then have a: "sz_add (rb_ridx ?b) k = rb_ridx ?b + k" using i by (intro sz_add_nowrap) simp
    define b1 where "b1 = (if rb_ridx ?b + k = rb_widx ?b then ?b\<lparr> rb_ridx := 0, rb_widx := 0 \<rparr> else ?b\<lparr> rb_ridx := rb_ridx ?b + k \<rparr>)"
    have b1: "rwbuf_inv b1" "rwbuf_content b1 = drop k ?c"
      using le i by (auto simp: b1_def rwbuf_inv_def rwbuf_content_def segment_def add.commute)
    have "sock' = sock\<lparr> sys_err := b, send_buf := b1 \<rparr>" "w' = w1"
      using assms(2,3) d k True by (auto simp: sock_send_def backlog_content a b1_def Let_def)
    then show ?thesis using b1 k(2) by auto
  next
    case False
    then have "sock' = sock\<lparr> sys_err := b, send_buf := ?b \<rparr>" "w' = w1"
      using assms(2,3) d k by (auto simp: sock_send_def backlog_content)
    moreover have "\<exists>b s. sock' = sock\<lparr> sys_err := b, send_buf := s \<rparr>" using calculation(1) by blast
    ultimately show ?thesis using k(2) False assms(2) by simp
  qed
qed

datatype out_op = WriteMem bytes | WriteLine bytes | Flush

text \<open>
  A run of appends and flushes; the result has the bytes of the appends that were accepted.
\<close>

fun run_out :: "heap_env \<Rightarrow> 'w os \<Rightarrow> 'w \<Rightarrow> simple_sock \<Rightarrow> out_op list \<Rightarrow> bytes \<times> simple_sock \<times> 'w" where
  "run_out env os w sock [] = ([], sock, w)"
| "run_out env os w sock (WriteMem m # ops) =
    (case sock_write_mem env sock m of (rc, sock) \<Rightarrow> case run_out env os w sock ops of (acc, sock, w) \<Rightarrow>
       (if rc = 0 then m @ acc else acc, sock, w))"
| "run_out env os w sock (WriteLine l # ops) =
    (case sock_write_line env sock (Some l) of (rc, sock) \<Rightarrow> case run_out env os w sock ops of (acc, sock, w) \<Rightarrow>
       (if rc = 0 then l @ [13, 10] @ acc else acc, sock, w))"
| "run_out env os w sock (Flush # ops) =
    (case sock_send os w sock of (_, sock, w) \<Rightarrow> run_out env os w sock ops)"

fun out_len :: "out_op \<Rightarrow> nat" where
  "out_len (WriteMem m) = length m"
| "out_len (WriteLine l) = length l + 2"
| "out_len Flush = 0"

lemma sock_write_mem_stream:
  assumes "rwbuf_inv (send_buf sock)" "heap_env_ok env" "length m < 2 ^ 62" "sock_write_mem env sock m = (rc, sock')"
  shows "rwbuf_inv (send_buf sock')" "sk_fd sock' = sk_fd sock"
    "rwbuf_content (send_buf sock') = rwbuf_content (send_buf sock) @ (if rc = 0 then m else [])"
proof -
  obtain b where w: "rwbuf_write env (send_buf sock) m = (rc, b)"
    using assms(4) by (auto simp: sock_write_mem_def Let_def split: prod.splits)
  then have s: "sock' = (let s = sock\<lparr> send_buf := b \<rparr> in if rc \<noteq> 0 then s\<lparr> sys_err := True \<rparr> else s)"
    using assms(4) by (auto simp: sock_write_mem_def Let_def)
  note x = rwbuf_write_spec [OF assms(1-3) w]
  show "rwbuf_inv (send_buf sock')" "sk_fd sock' = sk_fd sock"
    "rwbuf_content (send_buf sock') = rwbuf_content (send_buf sock) @ (if rc = 0 then m else [])"
    using x s by (simp_all add: Let_def)
qed

lemma sock_write_line_eq:
  assumes "rwbuf_inv (send_buf sock)" "heap_env_ok env" "length (slice_bytes l) + 2 < 2 ^ 62"
  shows "sock_write_line env sock l = sock_write_mem env sock (slice_bytes l @ [13, 10])"
  using rwbuf_writev_eq [OF assms(1,2), of "[slice_bytes l, [13, 10]]"] assms(3)
  by (simp add: sock_write_line_def sock_write_mem_def Let_def split: prod.splits)

lemma run_out_stream:
  assumes "write_law out (sk_fd sock) os" "heap_env_ok env" "rwbuf_inv (send_buf sock)" "\<forall>x \<in> set ops. out_len x < 2 ^ 62"
    and "run_out env os w sock ops = (acc, sock', w')"
  shows "rwbuf_inv (send_buf sock') \<and> out w' @ rwbuf_content (send_buf sock') = out w @ rwbuf_content (send_buf sock) @ acc"
  using assms
proof (induction ops arbitrary: w sock acc)
  case (Cons x ops)
  have mem: ?case if m: "length m < 2 ^ 62" and s1: "sock_write_mem env sock m = (rc, sock1)"
    and r: "run_out env os w sock1 ops = (acc1, sock', w')" and a: "acc = (if rc = 0 then m @ acc1 else acc1)" for m rc sock1 acc1
  proof -
    note x = sock_write_mem_stream [OF Cons.prems(3,2) m s1]
    have "rwbuf_inv (send_buf sock') \<and> out w' @ rwbuf_content (send_buf sock') = out w @ rwbuf_content (send_buf sock1) @ acc1"
      by (rule Cons.IH [OF _ Cons.prems(2) x(1) _ r]) (use Cons.prems(1,4) x(2) in simp_all)
    then show ?thesis using x(3) a by simp
  qed
  show ?case
  proof (cases x)
    case (WriteMem m)
    then show ?thesis using Cons.prems(4,5) mem [of m] by (auto split: prod.splits)
  next
    case (WriteLine l)
    then have l: "length (l @ [13, 10]) < 2 ^ 62" using Cons.prems(4) by simp
    have "sock_write_line env sock (Some l) = sock_write_mem env sock (l @ [13, 10])"
      using sock_write_line_eq [OF Cons.prems(3,2), of "Some l"] l by simp
    then show ?thesis using Cons.prems(5) mem [OF l] WriteLine by (auto split: prod.splits)
  next
    case Flush
    obtain rc sock1 w1 where s: "sock_send os w sock = (rc, sock1, w1)" by (metis prod_cases3)
    note x = sock_send_stream [OF Cons.prems(1,3) s]
    have r: "run_out env os w1 sock1 ops = (acc, sock', w')" using Cons.prems(5) Flush s by simp
    have "rwbuf_inv (send_buf sock') \<and> out w' @ rwbuf_content (send_buf sock') = out w1 @ rwbuf_content (send_buf sock1) @ acc"
      by (rule Cons.IH [OF _ Cons.prems(2) _ _ r]) (use Cons.prems(1,4) x in auto)
    moreover have "out w1 @ rwbuf_content (send_buf sock1) = out w @ rwbuf_content (send_buf sock)" using x by blast
    ultimately show ?thesis by (metis append.assoc)
  qed
qed simp

text \<open>
  C6. Nothing is lost, repeated or reordered on the way out: over any sequence of \<open>sock_write_mem\<close>,
  \<open>sock_write_line\<close> and \<open>sock_send\<close>, whatever part of its data the system accepts in each \<open>write\<close>
  and whatever errors it returns, the bytes on the wire followed by the send buffer are those before
  followed by the accepted appends in their order.
\<close>

theorem sock_out_stream:
  assumes "write_law out (sk_fd sock) os" "heap_env_ok env" "rwbuf_inv (send_buf sock)" "\<forall>x \<in> set ops. out_len x < 2 ^ 62"
    and "run_out env os w sock ops = (acc, sock', w')"
  shows "out w' @ rwbuf_content (send_buf sock') = out w @ rwbuf_content (send_buf sock) @ acc"
  using run_out_stream [OF assms] by blast

text \<open>A system that accepts three bytes at a time; its state is what it has accepted.\<close>

definition drip_os :: "bytes os" where
  "drip_os = \<lparr> os_read = (\<lambda>w fd n. (RdErr EAGAIN, w)), os_write = (\<lambda>w fd bs. (Wrote (min 3 (length bs)), w @ take 3 bs)),
    os_shutdown = (\<lambda>w fd. (None, w)), os_close = (\<lambda>w fd. (True, w)), os_socket = (\<lambda>w f t b. (3, w)),
    os_connect = (\<lambda>w fd a. (True, w)), os_getfl = (\<lambda>w fd. (True, w)), os_setfl = (\<lambda>w fd. (True, w)),
    os_sockopt = (\<lambda>w fd s. (True, w)), os_bind = (\<lambda>w fd a. (True, w)), os_listen = (\<lambda>w fd. (True, w)),
    os_accept = (\<lambda>w fd b. ((-1, \<lparr> da_family = AF_OTHER, da_len = 0, da_port = 0, da_ip = [], da_sock_type = 0 \<rparr>), w)) \<rparr>"

lemma drip_write_law: "write_law id fd drip_os"
  by (simp add: write_law_def drip_os_def min_def)

definition sample_sock :: simple_sock where
  "sample_sock = \<lparr> sk_fd = 3, sk_mode = 0, sk_addr = sock_addr_zero, send_buf = RWBUF_INIT (replicate 16 0),
    recv_buf = RWBUF_INIT (replicate 16 0), max_line = 256, min_size = 0, is_server = False, is_epoll = False,
    send_timeout = False, recv_timeout = False, recv_fin = False, send_fin = False, fin_sent = False, close_now = False,
    wait_write = False, sys_err = False \<rparr>"

definition no_heap :: heap_env where
  "no_heap = \<lparr> alloc_ok = (\<lambda>_. False), junk = (\<lambda>_. 0) \<rparr>"

lemma no_heap_ok: "heap_env_ok no_heap"
  by (simp add: heap_env_ok_def no_heap_def)

lemma sample_bufs: "rwbuf_inv (send_buf sample_sock)" "rwbuf_content (send_buf sample_sock) = []"
  "rwbuf_inv (recv_buf sample_sock)" "rwbuf_content (recv_buf sample_sock) = []"
  using RWBUF_INIT_inv [of "replicate 16 0"] by (simp_all add: sample_sock_def)

theorem sock_out_stream_witness:
  "\<exists>acc sock' w'. run_out no_heap drip_os [] sample_sock [WriteLine [72, 105], Flush, WriteMem [62, 32]] = (acc, sock', w') \<and>
     w' @ rwbuf_content (send_buf sock') = acc"
proof -
  let ?ops = "[WriteLine [72, 105], Flush, WriteMem [62, 32]]"
  obtain acc sock' w' where r: "run_out no_heap drip_os [] sample_sock ?ops = (acc, sock', w')" by (metis prod_cases3)
  have "id w' @ rwbuf_content (send_buf sock') = id [] @ rwbuf_content (send_buf sample_sock) @ acc"
    by (rule sock_out_stream [OF drip_write_law no_heap_ok sample_bufs(1) _ r]) simp
  then show ?thesis using r sample_bufs(2) by auto
qed

section \<open>The backlog of sock\_send\_mem\<close>

text \<open>A system that accepts all it is given.\<close>

definition accepts_all :: "int \<Rightarrow> 'w os \<Rightarrow> bool" where
  "accepts_all fd os \<longleftrightarrow> (\<forall>w bs. \<exists>w'. os_write os w fd bs = (Wrote (length bs), w'))"

lemma iovs_advance_all: "iovs_advance (length (concat iovs)) iovs = map (\<lambda>_. []) iovs"
  by (induction iovs) auto

lemma writev_all:
  assumes "write_law out (sk_fd sock) os" "accepts_all (sk_fd sock) os" "concat iovs \<noteq> []"
  shows "\<exists>w'. writev_loop os w sock iovs 0 = (SOCK_OK, length (concat iovs), map (\<lambda>_. []) iovs, sock, w') \<and> out w' = out w @ concat iovs"
proof -
  obtain w1 where w1: "os_write os w (sk_fd sock) (concat iovs) = (Wrote (length (concat iovs)), w1)"
    using assms(2) unfolding accepts_all_def by blast
  have "length (concat iovs) \<noteq> 0" using assms(3) by (metis length_0_conv)
  then have "writev_loop os w sock iovs 0 = writev_loop os w1 sock (map (\<lambda>_. []) iovs) (length (concat iovs))"
    using w1 assms(3) by (subst writev_loop.simps) (simp add: iovs_advance_all del: length_concat concat_eq_Nil_conv)
  also have "\<dots> = (SOCK_OK, length (concat iovs), map (\<lambda>_. []) iovs, sock, w1)"
    by (subst writev_loop.simps) simp
  finally show ?thesis using write_lawD(1) [OF assms(1) w1] by auto
qed

lemma write_all:
  assumes "write_law out (sk_fd sock) os" "accepts_all (sk_fd sock) os" "data \<noteq> []"
  shows "\<exists>w'. write_loop os w sock data 0 = (SOCK_OK, length data, sock, w') \<and> out w' = out w @ data"
proof -
  obtain w1 where w1: "os_write os w (sk_fd sock) data = (Wrote (length data), w1)" using assms(2) unfolding accepts_all_def by blast
  then have "write_loop os w sock data 0 = write_loop os w1 sock [] (length data)"
    using assms(3) by (subst write_loop.simps) simp
  also have "\<dots> = (SOCK_OK, length data, sock, w1)" by (subst write_loop.simps) simp
  finally show ?thesis using write_lawD(1) [OF assms(1) w1] by auto
qed

text \<open>
  C33. \<open>sock_send_mem\<close> sends its backlog twice: it consumes from the send buffer what is left of the
  backlog after the write, instead of what was written.  When the system accepts everything, a
  backlog \<open>b\<close> stays in the buffer, and the next \<open>sock_send\<close> puts it on the wire again.
\<close>

theorem sock_send_mem_repeats:
  assumes "write_law out (sk_fd sock) os" "accepts_all (sk_fd sock) os" "rwbuf_inv (send_buf sock)"
    and "\<not> sys_err sock" "\<not> fin_sent sock" "rwbuf_content (send_buf sock) = b" "b \<noteq> []"
  shows "\<exists>sock1 w1 sock2 w2. sock_send_mem env os w sock mem = (0, sock1, w1) \<and> out w1 = out w @ b @ mem \<and>
    sock_send os w1 sock1 = (SOCK_DATA, sock2, w2) \<and> out w2 = out w @ b @ mem @ b"
proof -
  have bl: "backlog (send_buf sock) = b" using backlog_content [OF assms(3)] assms(6) by simp
  have ne: "concat [b, mem] \<noteq> []" using assms(7) by simp
  obtain w1 where w1: "writev_loop os w sock [b, mem] 0 = (SOCK_OK, length (concat [b, mem]), [[], []], sock, w1)"
    "out w1 = out w @ b @ mem" using writev_all [OF assms(1,2) ne, of w] by auto
  then have v: "sock_write_iovs os w sock [b, mem] = (int (length (concat [b, mem])), [[], []], sock, w1)"
    using assms(4,5,7) by (simp add: sock_write_iovs_def)
  obtain s1 where s1: "rwbuf_rdinc (send_buf sock) 0 = (0, s1)" "rwbuf_inv s1" "rwbuf_content s1 = b"
    using rwbuf_rdinc_spec [OF assms(3), of 0] assms(6) by (metis drop0 le0 prod.collapse)
  let ?sock1 = "sock\<lparr> send_buf := s1 \<rparr>"
  have "\<not> int (length (concat [b, mem])) \<le> 0" using assms(7) by (cases b) auto
  then have "sock_send_mem env os w sock mem = (0, ?sock1, w1)"
    using v s1(1) by (simp add: sock_send_mem_def send_iovs_def bl)
  moreover obtain w2 where w2: "write_loop os w1 ?sock1 b 0 = (SOCK_OK, length b, ?sock1, w2)" "out w2 = out w1 @ b"
    using write_all [of out ?sock1 os b w1] assms(1,2,7) by auto
  then have "\<exists>sock2. sock_send os w1 ?sock1 = (SOCK_DATA, sock2, w2)"
    using assms(4,5,7) backlog_content [OF s1(2)] s1(3) by (simp add: sock_send_def sock_write_data_def Let_def)
  ultimately show ?thesis using w1(2) w2(2) by auto
qed

text \<open>A system that accepts everything, and a socket with a backlog of two bytes.\<close>

definition sink_os :: "bytes os" where
  "sink_os = drip_os\<lparr> os_write := (\<lambda>w fd bs. (Wrote (length bs), w @ bs)) \<rparr>"

definition busy_sock :: simple_sock where
  "busy_sock = sample_sock\<lparr> send_buf := (RWBUF_INIT [65, 66, 0, 0])\<lparr> rb_widx := 2 \<rparr> \<rparr>"

theorem sock_send_mem_repeats_witness:
  "\<exists>sock1 w1 sock2 w2. sock_send_mem no_heap sink_os [] busy_sock [67] = (0, sock1, w1) \<and> w1 = [65, 66, 67] \<and>
    sock_send sink_os w1 sock1 = (SOCK_DATA, sock2, w2) \<and> w2 = [65, 66, 67, 65, 66]"
proof -
  have l: "write_law id (sk_fd busy_sock) sink_os" "accepts_all (sk_fd busy_sock) sink_os"
    by (simp_all add: write_law_def accepts_all_def sink_os_def)
  have b: "rwbuf_inv (send_buf busy_sock)" "rwbuf_content (send_buf busy_sock) = [65, 66]" "\<not> sys_err busy_sock" "\<not> fin_sent busy_sock"
    by (simp_all add: busy_sock_def RWBUF_INIT_def rwbuf_inv_def rb_mem_def rwbuf_content_def segment_def sample_sock_def)
  show ?thesis using sock_send_mem_repeats [OF l b(1,3,4,2), of no_heap "[]" "[67]"] by simp
qed

section \<open>Receiving\<close>

lemma sock_recv_stream:
  assumes "read_law inp (sk_fd sock) os" "rwbuf_inv (recv_buf sock)" "min_size sock \<le> rwbuf_space (recv_buf sock)"
    and "sock_recv env os w sock = (rc, sock', w')"
  shows "\<exists>d. inp w = d @ inp w' \<and> rwbuf_inv (recv_buf sock') \<and> rwbuf_content (recv_buf sock') = rwbuf_content (recv_buf sock) @ d \<and>
    (if d \<noteq> [] then rc = SOCK_DATA else rc \<le> 0) \<and> (\<exists>b c s. sock' = sock\<lparr> sys_err := b, recv_fin := c, recv_buf := s \<rparr>) \<and>
    rb_size (recv_buf sock') = rb_size (recv_buf sock) \<and> (recv_fin sock' \<longrightarrow> recv_fin sock \<or> inp w' = []) \<and>
    (sys_err sock \<longrightarrow> rc = SOCK_ERROR \<and> sys_err sock') \<and> (d = [] \<longrightarrow> recv_buf sock' = recv_buf sock)"
proof -
  let ?b = "recv_buf sock" and ?n = "rwbuf_space (recv_buf sock)"
  note i = rwbuf_invD [OF assms(2)]
  have upd: "\<exists>b c s. sock\<lparr> sys_err := x, recv_fin := y \<rparr> = sock\<lparr> sys_err := b, recv_fin := c, recv_buf := s \<rparr>" for x y
    by (rule exI [of _ x], rule exI [of _ y], rule exI [of _ ?b]) simp
  obtain n d sock1 w1 where r: "sock_read_data os w sock ?n = (n, d, sock1, w1)" by (metis prod_cases4)
  have l: "length d \<le> ?n \<and> inp w = d @ inp w1 \<and> (\<exists>x y. sock1 = sock\<lparr> sys_err := x, recv_fin := y \<rparr>) \<and>
      (if d \<noteq> [] then n = int (length d) else n \<le> 0) \<and> (recv_fin sock1 \<longrightarrow> recv_fin sock \<or> inp w1 = []) \<and>
      (sys_err sock \<longrightarrow> n = SOCK_ERROR \<and> d = [] \<and> sys_err sock1)"
  proof (cases "sys_err sock \<or> recv_fin sock")
    case True
    then have "d = []" "n \<le> 0" "w1 = w" "sock1 = sock" "sys_err sock \<longrightarrow> n = SOCK_ERROR" using r by (auto simp: sock_read_data_def sock_codes split: if_splits)
    moreover have "\<exists>x y. sock = sock\<lparr> sys_err := x, recv_fin := y \<rparr>" by (rule exI [of _ "sys_err sock"], rule exI [of _ "recv_fin sock"]) simp
    ultimately show ?thesis by simp
  next
    case False
    obtain ec d' sock2 w2 where rl: "read_loop os w sock ?n [] = (ec, d', sock2, w2)" by (metis prod_cases4)
    have e: "d = d'" "sock1 = sock2" "w1 = w2" "n = (if d' \<noteq> [] then int (length d') else ec)"
      using r rl False by (auto simp: sock_read_data_def)
    show ?thesis using read_loop_stream [OF assms(1) rl] e False by auto
  qed
  then obtain x y where s1: "sock1 = sock\<lparr> sys_err := x, recv_fin := y \<rparr>" by blast
  have recv: "sock_recv env os w sock =
      (if n \<le> 0 then (n, sock1, w1)
       else let b = rwbuf_poke (recv_buf sock1) (rb_widx (recv_buf sock1)) d
         in (SOCK_DATA, sock1\<lparr> recv_buf := b\<lparr> rb_widx := sz_add (rb_widx b) (nat n) \<rparr> \<rparr>, w1))"
    using assms(3) r by (simp add: sock_recv_def)
  show ?thesis
  proof (cases "d = []")
    case True
    then have "rc = n" "sock' = sock1" "w' = w1" using l recv assms(4) by simp_all
    then show ?thesis using True l assms(2) upd by (intro exI [of _ "[]"]) (simp add: s1)
  next
    case False
    have "length d \<le> rb_size ?b - rb_widx ?b" using l assms(2) by simp
    then have fit: "rb_widx ?b + length d \<le> rb_size ?b" using i(2) by linarith
    have a: "sz_add (rb_widx ?b) (length d) = rb_widx ?b + length d" using fit i by (intro sz_add_nowrap) simp
    let ?p = "(rwbuf_poke ?b (rb_widx ?b) d)\<lparr> rb_widx := rb_widx ?b + length d \<rparr>"
    have n: "\<not> n \<le> 0" "nat n = length d" using l False by (cases d; simp)+
    have wp: "rb_widx (rwbuf_poke ?b k d) = rb_widx ?b" "rb_size (rwbuf_poke ?b k d) = rb_size ?b" for k by (simp_all add: rwbuf_poke_def)
    have "rc = SOCK_DATA" "sock' = sock1\<lparr> recv_buf := ?p \<rparr>" "w' = w1"
      using recv assms(4) n s1 a wp by (simp_all add: Let_def)
    then show ?thesis
      using rwbuf_poke_widx [OF assms(2) fit] l False wp s1 by (intro exI [of _ d]) auto
  qed
qed

section \<open>Descriptors\<close>

text \<open>\<open>opened w\<close> is the set of open descriptors.\<close>

definition fd_law :: "('w \<Rightarrow> int set) \<Rightarrow> 'w os \<Rightarrow> bool" where
  "fd_law opened os \<longleftrightarrow>
    (\<forall>w f t b fd w'. os_socket os w f t b = (fd, w') \<longrightarrow>
      (if fd = -1 then opened w' = opened w else fd \<notin> opened w \<and> opened w' = insert fd (opened w))) \<and>
    (\<forall>w fd ok w'. os_close os w fd = (ok, w') \<longrightarrow> opened w' = opened w - {fd}) \<and>
    (\<forall>w fd a ok w'. os_connect os w fd a = (ok, w') \<longrightarrow> opened w' = opened w) \<and>
    (\<forall>w fd ok w'. os_getfl os w fd = (ok, w') \<longrightarrow> opened w' = opened w) \<and>
    (\<forall>w fd ok w'. os_setfl os w fd = (ok, w') \<longrightarrow> opened w' = opened w)"

lemma fd_lawD:
  assumes "fd_law opened os"
  shows "os_socket os w f t b = (fd, w') \<Longrightarrow>
      if fd = -1 then opened w' = opened w else fd \<notin> opened w \<and> opened w' = insert fd (opened w)"
    and "os_close os w fd = (ok, w') \<Longrightarrow> opened w' = opened w - {fd}"
    and "os_connect os w fd a = (ok, w') \<Longrightarrow> opened w' = opened w"
    and "os_getfl os w fd = (ok, w') \<Longrightarrow> opened w' = opened w"
    and "os_setfl os w fd = (ok, w') \<Longrightarrow> opened w' = opened w"
  using assms unfolding fd_law_def by auto

lemma connect_addr_fds:
  assumes law: "fd_law opened os" and fd: "sk_fd sock = -1" and c: "connect_addr os w sock addr = (rc, sock', w')"
  shows "if rc = 0 then sk_fd sock' \<noteq> -1 \<and> sk_fd sock' \<notin> opened w \<and> opened w' = insert (sk_fd sock') (opened w)
    else sk_fd sock' = -1 \<and> opened w' = opened w"
proof -
  obtain k a where a: "sock_addr_load addr = (k, a)" by fastforce
  obtain fd1 w1 where s: "os_socket os w (da_family addr) (da_sock_type addr) False = (fd1, w1)" by fastforce
  obtain ok w2 where cn: "os_connect os w1 fd1 addr = (ok, w2)" by fastforce
  obtain rc3 w3 where nb: "sock_set_nonblk os w2 (sock\<lparr> sk_addr := a, sk_fd := fd1 \<rparr>) = (rc3, w3)" by fastforce
  have o1: "if fd1 = -1 then opened w1 = opened w else fd1 \<notin> opened w \<and> opened w1 = insert fd1 (opened w)"
    by (rule fd_lawD(1) [OF law s])
  have o2: "opened w2 = opened w1" by (rule fd_lawD(3) [OF law cn])
  have o3: "opened w3 = opened w2"
    using nb fd_lawD(4,5) [OF law] unfolding sock_set_nonblk_def by (auto split: prod.splits if_splits)
  have cl: "sock_close os v (sock\<lparr> sk_addr := a, sk_fd := fd1 \<rparr>) r = (r', t, v') \<Longrightarrow> r \<noteq> 0 \<Longrightarrow> fd1 \<noteq> -1 \<Longrightarrow>
      r' = r \<and> sk_fd t = -1 \<and> opened v' = opened v - {fd1}" for v r r' t v'
    using fd_lawD(2) [OF law] unfolding sock_close_def by (auto split: prod.splits)
  consider "k = None" | "k \<noteq> None" "fd1 = -1" | "k \<noteq> None" "fd1 \<noteq> -1" "\<not> (bit (sk_mode sock) SOCK_TCP \<or> bit (sk_mode sock) SOCK_UDPCON)"
    | "k \<noteq> None" "fd1 \<noteq> -1" "bit (sk_mode sock) SOCK_TCP \<or> bit (sk_mode sock) SOCK_UDPCON" by blast
  then show ?thesis
  proof cases
    case 1
    then have "rc = -1" "sock' = sock\<lparr> sk_addr := a \<rparr>" "w' = w" using c a by (simp_all add: connect_addr_def)
    then show ?thesis using fd by simp
  next
    case 2
    then have "rc = -1" "sk_fd sock' = -1" "w' = w1" using c a s by (auto simp: connect_addr_def)
    then show ?thesis using o1 2 by simp
  next
    case 3
    then have "rc = 0" "sk_fd sock' = fd1" "w' = w1" using c a s by (auto simp: connect_addr_def)
    then show ?thesis using o1 3 by simp
  next
    case 4
    show ?thesis
    proof (cases ok)
      case True
      show ?thesis
      proof (cases "bit (sk_mode sock) SOCK_NONBLK \<and> rc3 \<noteq> 0")
        case bad: True
        then have "sock_close os w3 (sock\<lparr> sk_addr := a, sk_fd := fd1 \<rparr>) rc3 = (rc, sock', w')"
          using c a s cn nb 4 True by (simp add: connect_addr_def Let_def)
        from cl [OF this] show ?thesis using bad 4 o1 o2 o3 by auto
      next
        case False
        then have "rc = 0" "sock' = sock\<lparr> sk_addr := a, sk_fd := fd1 \<rparr>" "opened w' = opened w1"
          using c a s cn nb 4 True o2 o3 by (auto simp: connect_addr_def Let_def split: if_splits)
        then show ?thesis using 4 o1 by simp
      qed
    next
      case False
      then have "sock_close os w2 (sock\<lparr> sk_addr := a, sk_fd := fd1 \<rparr>) (-1) = (rc, sock', w')"
        using c a s cn 4 by (simp add: connect_addr_def Let_def)
      from cl [OF this] show ?thesis using 4 o1 o2 by auto
    qed
  qed
qed

lemma connect_first_fds:
  assumes "fd_law opened os" "sk_fd sock = -1" "connect_first os w sock addrs = (sock', w')"
  shows "if sk_fd sock' = -1 then opened w' = opened w else sk_fd sock' \<notin> opened w \<and> opened w' = insert (sk_fd sock') (opened w)"
  using assms(2,3)
proof (induction addrs arbitrary: sock w)
  case (Cons a addrs)
  obtain rc sock1 w1 where c: "connect_addr os w sock a = (rc, sock1, w1)" by (metis prod_cases3)
  note x = connect_addr_fds [OF assms(1) Cons.prems(1) c]
  show ?case
  proof (cases "rc = 0")
    case True
    then show ?thesis using Cons.prems(2) c x by simp
  next
    case False
    then have "sk_fd sock1 = -1" "opened w1 = opened w" using x by simp_all
    then show ?thesis using Cons.prems(2) Cons.IH [of sock1 w1] c False by (simp split: if_splits)
  qed
qed auto

text \<open>What is assumed of the resolver: its errors are negative and it leaves the open descriptors as they are.\<close>

definition resolver_law :: "('w \<Rightarrow> int set) \<Rightarrow> 'w resolver \<Rightarrow> bool" where
  "resolver_law opened resolv \<longleftrightarrow>
    (\<forall>w flags host port r w'. resolv w flags host port = (r, w') \<longrightarrow> opened w' = opened w \<and> (\<forall>ec. r = Inl ec \<longrightarrow> ec < 0))"

lemma sock_resolv_law:
  assumes "resolver_law opened resolv" "sock_resolv resolv w mode host port = (r, w')"
  shows "opened w' = opened w" "r = Inl ec \<Longrightarrow> ec < 0"
  using assms by (simp_all add: resolver_law_def sock_resolv_def Let_def)

text \<open>
  C24. Connecting leaks no descriptor: for addresses of any kind and any failures of the system calls,
  \<open>sock_client\<close> returns 0 with exactly one new open descriptor, that of the socket, or an error with
  the open descriptors as before.
\<close>

theorem sock_client_no_leak:
  assumes "fd_law opened os" "resolver_law opened resolv"
    and "sock_client os resolv w sock mode host port = (rc, sock', w')"
  shows "if rc = 0 then sk_fd sock' \<notin> opened w \<and> opened w' = insert (sk_fd sock') (opened w) else opened w' = opened w"
proof -
  obtain r w0 where r: "sock_resolv resolv w mode host port = (r, w0)" by fastforce
  note law = sock_resolv_law [OF assms(2) r]
  show ?thesis
  proof (cases r)
    case (Inl ec)
    have "(rc, sock', w') = (ec, sock, w0)" unfolding assms(3) [symmetric] by (simp add: sock_client_def r Inl)
    then show ?thesis using law(1) law(2) [OF Inl] by simp
  next
    case (Inr addrs)
    obtain sock1 w1 where c: "connect_first os w0 (sock\<lparr> sk_mode := mode, sk_fd := -1 \<rparr>) addrs = (sock1, w1)" by fastforce
    have "if sk_fd sock1 = -1 then opened w1 = opened w0 else sk_fd sock1 \<notin> opened w0 \<and> opened w1 = insert (sk_fd sock1) (opened w0)"
      by (rule connect_first_fds [OF assms(1) _ c]) simp
    moreover have "(rc, sock', w') = (if addrs = [] then (-1, sock, w0) else (if sk_fd sock1 = -1 then -1 else 0, sock1, w1))"
      unfolding assms(3) [symmetric] by (simp add: sock_client_def r Inr c)
    ultimately show ?thesis using law(1) by (cases "addrs = []"; cases "sk_fd sock1 = -1") simp_all
  qed
qed

text \<open>A system with one free descriptor, whose state is the set of open ones; only the port 80 answers.\<close>

definition set_os :: "int set os" where
  "set_os = \<lparr> os_read = (\<lambda>w fd n. (RdErr EAGAIN, w)), os_write = (\<lambda>w fd bs. (WrErr EAGAIN, w)),
    os_shutdown = (\<lambda>w fd. (None, w)), os_close = (\<lambda>w fd. (True, w - {fd})),
    os_socket = (\<lambda>w f t b. if 3 \<in> w then (-1, w) else (3, insert 3 w)),
    os_connect = (\<lambda>w fd a. (da_port a = 80, w)), os_getfl = (\<lambda>w fd. (True, w)), os_setfl = (\<lambda>w fd. (True, w)),
    os_sockopt = (\<lambda>w fd s. (True, w)), os_bind = (\<lambda>w fd a. (True, w)), os_listen = (\<lambda>w fd. (True, w)),
    os_accept = (\<lambda>w fd b. ((-1, \<lparr> da_family = AF_OTHER, da_len = 0, da_port = 0, da_ip = [], da_sock_type = 0 \<rparr>), w)) \<rparr>"

definition sample_addr :: "u16 \<Rightarrow> dns_sockaddr" where
  "sample_addr port = \<lparr> da_family = AF_INET, da_len = 16, da_port = port, da_ip = [127, 0, 0, 1], da_sock_type = 1 \<rparr>"

lemma set_os_law: "fd_law id set_os"
  by (simp add: fd_law_def set_os_def)

definition two_addrs :: "int set resolver" where
  "two_addrs w flags host port = (Inr [sample_addr 79, sample_addr 80], w)"

lemma two_addrs_law: "resolver_law id two_addrs"
  by (simp add: resolver_law_def two_addrs_def)

theorem sock_client_no_leak_witness:
  "\<exists>rc sock' w'. sock_client set_os two_addrs {0, 1, 2} sample_sock 4 None None = (rc, sock', w') \<and>
    (if rc = 0 then sk_fd sock' \<notin> {0, 1, 2} \<and> w' = insert (sk_fd sock') {0, 1, 2} else w' = {0, 1, 2})"
proof -
  obtain rc sock' w' where r: "sock_client set_os two_addrs {0, 1, 2} sample_sock 4 None None = (rc, sock', w')"
    by (metis prod_cases3)
  have "if rc = 0 then sk_fd sock' \<notin> id {0, 1, 2} \<and> id w' = insert (sk_fd sock') (id {0, 1, 2}) else id w' = id {0, 1, 2}"
    by (rule sock_client_no_leak [OF set_os_law two_addrs_law r])
  then show ?thesis using r by auto
qed

section \<open>The address of a peer\<close>

text \<open>
  The text of an IPv4 peer has the first byte of its address only: \<open>sock_addr_load\<close> stores the address
  through a byte of the union, so that \<open>sock_addr_tostr\<close> prints the first byte, three zeros and the
  port.
\<close>

theorem sock_ipv4_text:
  assumes "da_family sa = AF_INET" "da_len sa = 16" "da_ip sa = [a, b, c, d]"
  shows "sock_addr_tostr (snd (sock_addr_load sa)) = dec_digits (unat a) @ ascii ''.0.0.0:'' @ uint16_toa (bswap16 (da_port sa))"
proof -
  have z: "uint8_toa 0 = [48]" by (simp add: uint8_toa_def)
  have l: "\<not> IP_ADDRPORT_STRLEN < IP4_ADDR_STRLEN" by (simp add: IP_ADDRPORT_STRLEN_def IP6_ADDR_STRLEN_def IP4_ADDR_STRLEN_def)
  let ?ip = "write_at (replicate 16 0) 0 [a]"
  have ip: "?ip ! 0 = a" "?ip ! Suc 0 = 0" "?ip ! 2 = 0" "?ip ! 3 = 0" by (simp_all add: write_at_def nth_append)
  show ?thesis
    using assms by (simp add: sock_addr_load_def sock_addr_zero_def sock_addr_tostr_def ip4_str_encode_def l ip z uint8_toa_eq [of a]
      SOCK_IPV4_def) (simp add: write_at_def)
qed

theorem sock_ipv4_text_witness:
  "sock_addr_tostr (snd (sock_addr_load \<lparr> da_family = AF_INET, da_len = 16, da_port = 0x5000, da_ip = [10, 1, 2, 3], da_sock_type = 1 \<rparr>)) =
    ascii ''10.0.0.0:80''"
  by (subst sock_ipv4_text [of _ 10 1 2 3]) (simp_all add: bswap16_def uint16_toa_def dec_digits.simps)

end
