(* ===== verification/Linked_List.thy ===== *)
theory Linked_List
  imports Prelude "HOL-Library.Monad_Syntax"
begin

text \<open>
  The doubly linked lists of \<open>src/src/list.h\<close> on an explicit memory of elements: \<open>None\<close> as an address is
  the null pointer, and an operation that follows a null or dangling pointer has no result.  A
  list with head \<open>h\<close> is a ring through \<open>h\<close>; the operations are shown to be those of lists of
  addresses.
\<close>

section \<open>Elements\<close>

record list_elem =
  le_next :: "nat option"
  le_prev :: "nat option"

type_synonym nodes = "nat \<Rightarrow> list_elem option"

definition set_le_next :: "nodes \<Rightarrow> nat option \<Rightarrow> nat option \<Rightarrow> nodes option" where
  "set_le_next m p v = do { a \<leftarrow> p; e \<leftarrow> m a; Some (m(a \<mapsto> e\<lparr> le_next := v \<rparr>)) }"

definition set_le_prev :: "nodes \<Rightarrow> nat option \<Rightarrow> nat option \<Rightarrow> nodes option" where
  "set_le_prev m p v = do { a \<leftarrow> p; e \<leftarrow> m a; Some (m(a \<mapsto> e\<lparr> le_prev := v \<rparr>)) }"

definition list_isempty :: "nodes \<Rightarrow> nat \<Rightarrow> bool option" where
  "list_isempty m list = do { e \<leftarrow> m list; Some (le_next e = Some list) }"

definition list_inuse :: "nodes \<Rightarrow> nat \<Rightarrow> bool option" where
  "list_inuse m elem = do { e \<leftarrow> m elem; Some (le_next e \<noteq> None) }"

definition list_first :: "nodes \<Rightarrow> nat \<Rightarrow> nat option option" where
  "list_first m head = do { e \<leftarrow> m head; b \<leftarrow> list_isempty m head; Some (if b then None else le_next e) }"

section \<open>Iteration\<close>

text \<open>The elements that \<open>list_fornext\<close> and \<open>list_forprev\<close> visit, from \<open>elem\<close> on.\<close>

partial_function (option) fornext_from :: "nodes \<Rightarrow> nat \<Rightarrow> nat \<Rightarrow> nat list option" where
  "fornext_from m head elem =
    (if elem = head then Some []
     else Option.bind (m elem) (\<lambda>e. Option.bind (le_next e) (\<lambda>next.
       Option.bind (fornext_from m head next) (\<lambda>elems. Some (elem # elems)))))"

partial_function (option) forprev_from :: "nodes \<Rightarrow> nat \<Rightarrow> nat \<Rightarrow> nat list option" where
  "forprev_from m head elem =
    (if elem = head then Some []
     else Option.bind (m elem) (\<lambda>e. Option.bind (le_prev e) (\<lambda>prev.
       Option.bind (forprev_from m head prev) (\<lambda>elems. Some (elem # elems)))))"

definition list_fornext :: "nodes \<Rightarrow> nat \<Rightarrow> nat list option" where
  "list_fornext m head = do { e \<leftarrow> m head; n \<leftarrow> le_next e; fornext_from m head n }"

definition list_forprev :: "nodes \<Rightarrow> nat \<Rightarrow> nat list option" where
  "list_forprev m head = do { e \<leftarrow> m head; n \<leftarrow> le_prev e; forprev_from m head n }"

section \<open>Changes\<close>

definition list_init :: "nodes \<Rightarrow> nat \<Rightarrow> nodes option" where
  "list_init m elem = do { m \<leftarrow> set_le_next m (Some elem) (Some elem); set_le_prev m (Some elem) (Some elem) }"

definition list_chain :: "nodes \<Rightarrow> nat option \<Rightarrow> nat option \<Rightarrow> nat option \<Rightarrow> nodes option" where
  "list_chain m prev node next = do {
    m \<leftarrow> set_le_prev m next node;
    m \<leftarrow> set_le_next m node next;
    m \<leftarrow> set_le_prev m node prev;
    set_le_next m prev node
  }"

definition list_prepend :: "nodes \<Rightarrow> nat \<Rightarrow> nat \<Rightarrow> nodes option" where
  "list_prepend m head node = do { e \<leftarrow> m head; list_chain m (Some head) (Some node) (le_next e) }"

definition list_append :: "nodes \<Rightarrow> nat \<Rightarrow> nat \<Rightarrow> nodes option" where
  "list_append m head node = do { e \<leftarrow> m head; list_chain m (le_prev e) (Some node) (Some head) }"

definition list_remove :: "nodes \<Rightarrow> nat \<Rightarrow> nodes option" where
  "list_remove m elem = do {
    e \<leftarrow> m elem;
    m \<leftarrow> set_le_next m (le_prev e) (le_next e);
    e \<leftarrow> m elem;
    m \<leftarrow> set_le_prev m (le_next e) (le_prev e);
    m \<leftarrow> set_le_next m (Some elem) None;
    set_le_prev m (Some elem) None
  }"

definition list_replace :: "nodes \<Rightarrow> nat \<Rightarrow> nat \<Rightarrow> nodes option" where
  "list_replace m old_elem new_elem = do {
    e \<leftarrow> m old_elem;
    m \<leftarrow> set_le_prev m (Some new_elem) (le_prev e);
    e \<leftarrow> m old_elem;
    m \<leftarrow> set_le_next m (Some new_elem) (le_next e);
    m \<leftarrow> set_le_prev m (Some old_elem) None;
    m \<leftarrow> set_le_next m (Some old_elem) None;
    e \<leftarrow> m new_elem;
    m \<leftarrow> set_le_next m (le_prev e) (Some new_elem);
    e \<leftarrow> m new_elem;
    set_le_prev m (le_next e) (Some new_elem)
  }"

section \<open>Rings\<close>

text \<open>\<open>linked m p q\<close>: the two elements point to each other; a ring through \<open>head\<close> and then \<open>xs\<close>.\<close>

definition linked :: "nodes \<Rightarrow> nat \<Rightarrow> nat \<Rightarrow> bool" where
  "linked m p q \<longleftrightarrow> map_option le_next (m p) = Some (Some q) \<and> map_option le_prev (m q) = Some (Some p)"

fun links :: "nodes \<Rightarrow> nat list \<Rightarrow> bool" where
  "links m (p # q # xs) \<longleftrightarrow> linked m p q \<and> links m (q # xs)"
| "links m _ \<longleftrightarrow> True"

definition ring :: "nodes \<Rightarrow> nat \<Rightarrow> nat list \<Rightarrow> bool" where
  "ring m head xs \<longleftrightarrow> distinct (head # xs) \<and> links m (head # xs @ [head])"

lemma links_append: "links m (xs @ p # ys) \<longleftrightarrow> links m (xs @ [p]) \<and> links m (p # ys)"
proof (induction xs)
  case (Cons x xs)
  then show ?case by (cases xs) auto
qed simp

lemma links_frame:
  assumes "links m xs" "\<And>a. a \<in> set (butlast xs) \<Longrightarrow> map_option le_next (m' a) = map_option le_next (m a)"
    "\<And>a. a \<in> set (List.tl xs) \<Longrightarrow> map_option le_prev (m' a) = map_option le_prev (m a)"
  shows "links m' xs"
  using assms
proof (induction m xs rule: links.induct)
  case (1 m p q xs)
  have "linked m' p q" using 1(2,3,4) by (simp add: linked_def)
  moreover have "links m' (q # xs)"
  proof (rule 1(1))
    show "links m (q # xs)" using 1(2) by simp
    show "map_option le_next (m' a) = map_option le_next (m a)" if "a \<in> set (butlast (q # xs))" for a
      using 1(3) that by simp
    show "map_option le_prev (m' a) = map_option le_prev (m a)" if "a \<in> set (List.tl (q # xs))" for a
      using 1(4) that by simp
  qed
  ultimately show ?case by simp
qed simp_all

text \<open>The two fields of all elements, as maps; every operation is a few updates of them.\<close>

definition nx :: "nodes \<Rightarrow> nat \<Rightarrow> nat option option" where
  "nx m a = map_option le_next (m a)"

definition pv :: "nodes \<Rightarrow> nat \<Rightarrow> nat option option" where
  "pv m a = map_option le_prev (m a)"

lemma set_le_next_eq:
  assumes "nx m a \<noteq> None"
  obtains m' where "set_le_next m (Some a) v = Some m'" "nx m' = (nx m)(a \<mapsto> v)" "pv m' = pv m"
proof -
  obtain e where e: "m a = Some e" using assms by (auto simp: nx_def)
  show ?thesis
    by (rule that [of "m(a \<mapsto> e\<lparr> le_next := v \<rparr>)"]) (auto simp: set_le_next_def e nx_def pv_def fun_eq_iff)
qed

lemma set_le_prev_eq:
  assumes "nx m a \<noteq> None"
  obtains m' where "set_le_prev m (Some a) v = Some m'" "nx m' = nx m" "pv m' = (pv m)(a \<mapsto> v)"
proof -
  obtain e where e: "m a = Some e" using assms by (auto simp: nx_def)
  show ?thesis
    by (rule that [of "m(a \<mapsto> e\<lparr> le_prev := v \<rparr>)"]) (auto simp: set_le_prev_def e nx_def pv_def fun_eq_iff)
qed

lemma node_views: "nx m a = Some n \<Longrightarrow> pv m a = Some p \<Longrightarrow> m a = Some \<lparr> le_next = n, le_prev = p \<rparr>"
  by (auto simp: nx_def pv_def)

lemma pv_nx_None: "pv m a = None \<longleftrightarrow> nx m a = None"
  by (simp add: nx_def pv_def)

lemma linked_views: "linked m p q \<longleftrightarrow> nx m p = Some (Some q) \<and> pv m q = Some (Some p)"
  by (simp add: linked_def nx_def pv_def)

lemma links_views:
  assumes "links m xs" "\<And>a. a \<in> set (butlast xs) \<Longrightarrow> nx m' a = nx m a" "\<And>a. a \<in> set (List.tl xs) \<Longrightarrow> pv m' a = pv m a"
  shows "links m' xs"
  using assms unfolding nx_def pv_def by (rule links_frame)

lemma links_known: "links m xs \<Longrightarrow> 2 \<le> length xs \<Longrightarrow> a \<in> set xs \<Longrightarrow> nx m a \<noteq> None"
proof (induction m xs rule: links.induct)
  case (1 m p q xs)
  then show ?case by (cases xs) (auto simp: linked_def nx_def)
qed simp_all

lemma ring_known: "ring m head xs \<Longrightarrow> a \<in> set (head # xs) \<Longrightarrow> nx m a \<noteq> None"
  by (rule links_known [of m "head # xs @ [head]"]) (auto simp: ring_def)

text \<open>Where an element of a ring points to.\<close>

lemma links_last: "links m (x # xs @ [a]) \<Longrightarrow> linked m (last (x # xs)) a"
  by (induction xs arbitrary: x) auto

lemma links_first: "links m (x # ys) \<Longrightarrow> ys \<noteq> [] \<Longrightarrow> linked m x (hd ys)"
  by (cases ys) simp_all

lemma ring_at:
  assumes "ring m head (us @ a # vs)"
  shows "linked m (last (head # us)) a" "linked m a (hd (vs @ [head]))"
proof -
  have "links m ((head # us) @ a # vs @ [head])" using assms by (simp add: ring_def)
  then have l: "links m ((head # us) @ [a])" "links m (a # vs @ [head])" using links_append by blast+
  show "linked m (last (head # us)) a" using l(1) by (intro links_last) simp
  show "linked m a (hd (vs @ [head]))" using l(2) by (rule links_first) simp
qed

lemma ring_head:
  assumes "ring m head xs"
  shows "linked m (last (head # xs)) head" "linked m head (hd (xs @ [head]))"
proof -
  have l: "links m (head # xs @ [head])" using assms by (simp add: ring_def)
  show "linked m (last (head # xs)) head" using l by (rule links_last)
  show "linked m head (hd (xs @ [head]))" using l by (rule links_first) simp
qed

section \<open>The operations on rings\<close>

lemma fornext_links:
  assumes "links m (xs @ [head])" "head \<notin> set xs" "xs \<noteq> []"
  shows "fornext_from m head (hd xs) = Some xs"
  using assms
proof (induction xs)
  case (Cons x xs)
  have "linked m x (hd (xs @ [head]))" using Cons.prems(1) by (cases xs) auto
  then obtain e where e: "m x = Some e" "le_next e = Some (hd (xs @ [head]))" by (auto simp: linked_def)
  have "fornext_from m head (hd (xs @ [head])) = Some xs"
  proof (cases "xs = []")
    case True
    then show ?thesis by (simp add: fornext_from.simps)
  next
    case False
    have "links m (xs @ [head])" using Cons.prems(1) False by (cases xs) auto
    then show ?thesis using Cons False by simp
  qed
  then show ?case using e Cons.prems(2) by (subst fornext_from.simps) simp
qed simp

lemma list_fornext_ring:
  assumes "ring m head xs"
  shows "list_fornext m head = Some xs"
proof -
  obtain e where e: "m head = Some e" "le_next e = Some (hd (xs @ [head]))"
    using ring_head(2) [OF assms] by (auto simp: linked_def)
  show ?thesis
  proof (cases "xs = []")
    case True
    then show ?thesis using e by (simp add: list_fornext_def fornext_from.simps)
  next
    case False
    have l: "links m (head # xs @ [head])" "head \<notin> set xs" using assms by (auto simp: ring_def)
    have "links m (xs @ [head])" using l(1) False by (cases xs) auto
    from fornext_links [OF this l(2) False] show ?thesis using e False by (simp add: list_fornext_def)
  qed
qed

lemma list_init_ring:
  assumes "m head \<noteq> None"
  obtains m' where "list_init m head = Some m'" "ring m' head []" "\<And>b. b \<noteq> head \<Longrightarrow> m' b = m b"
proof -
  obtain e where e: "m head = Some e" using assms by auto
  show ?thesis
    by (rule that [of "m(head \<mapsto> \<lparr> le_next = Some head, le_prev = Some head \<rparr>)"])
      (auto simp: list_init_def set_le_next_def set_le_prev_def e ring_def linked_def)
qed

text \<open>
  All changes replace a part \<open>xs\<close> of a ring: the links before and after it stay, and the new part
  is linked with the element before it and the one after it.
\<close>

lemma ring_splice:
  assumes "ring m head (us @ xs @ vs)" "distinct (head # us @ ys @ vs)"
    and "links m' (last (head # us) # ys @ [hd (vs @ [head])])"
    and "\<And>a. a \<in> set (butlast (head # us)) \<union> set vs \<Longrightarrow> nx m' a = nx m a"
    and "\<And>a. a \<in> set us \<union> set (List.tl (vs @ [head])) \<Longrightarrow> pv m' a = pv m a"
  shows "ring m' head (us @ ys @ vs)"
proof -
  define A p n B where d: "A = butlast (head # us)" "p = last (head # us)" "n = hd (vs @ [head])" "B = List.tl (vs @ [head])"
  have h: "head # us = A @ [p]" and t: "vs @ [head] = n # B" unfolding d by simp_all
  have eq: "head # (us @ zs @ vs) @ [head] = A @ p # zs @ n # B" for zs using h t by (metis append.assoc append_Cons append_Nil)
  have "links m (A @ p # xs @ n # B)" using assms(1) eq by (simp add: ring_def)
  then have 1: "links m (A @ [p])" "links m ((p # xs) @ n # B)" using links_append by (metis, metis append_Cons)
  have 2: "links m (n # B)" using 1(2) links_append by blast
  have "links m' (A @ [p])"
  proof (rule links_views [OF 1(1)])
    show "nx m' a = nx m a" if "a \<in> set (butlast (A @ [p]))" for a using assms(4) that by (simp add: d)
    show "pv m' a = pv m a" if "a \<in> set (List.tl (A @ [p]))" for a
      using assms(5) [of a] that unfolding h [symmetric] by simp
  qed
  moreover have "links m' (n # B)"
  proof (rule links_views [OF 2])
    show "nx m' a = nx m a" if "a \<in> set (butlast (n # B))" for a
      using assms(4) [of a] that unfolding t [symmetric] by simp
    show "pv m' a = pv m a" if "a \<in> set (List.tl (n # B))" for a using assms(5) that by (simp add: d)
  qed
  moreover have "links m' ((p # ys) @ [n])" using assms(3) by (simp add: d)
  ultimately have "links m' (A @ p # ys @ n # B)" using links_append [of m' "p # ys" n B] links_append [of m' A p "ys @ n # B"] by simp
  then show ?thesis using assms(2) eq by (simp add: ring_def)
qed

lemma list_chain_eq:
  assumes "nx m p \<noteq> None" "nx m a \<noteq> None" "nx m n \<noteq> None"
  obtains m' where "list_chain m (Some p) (Some a) (Some n) = Some m'" "nx m' = (nx m)(a \<mapsto> Some n, p \<mapsto> Some a)"
    "pv m' = (pv m)(n \<mapsto> Some a, a \<mapsto> Some p)"
proof -
  obtain m1 where 1: "set_le_prev m (Some n) (Some a) = Some m1" "nx m1 = nx m" "pv m1 = (pv m)(n \<mapsto> Some a)"
    using assms(3) by (rule set_le_prev_eq)
  obtain m2 where 2: "set_le_next m1 (Some a) (Some n) = Some m2" "nx m2 = (nx m1)(a \<mapsto> Some n)" "pv m2 = pv m1"
    by (rule set_le_next_eq [of m1 a]) (use assms 1 in simp)
  obtain m3 where 3: "set_le_prev m2 (Some a) (Some p) = Some m3" "nx m3 = nx m2" "pv m3 = (pv m2)(a \<mapsto> Some p)"
    by (rule set_le_prev_eq [of m2 a]) (use assms 2 in simp)
  obtain m4 where 4: "set_le_next m3 (Some p) (Some a) = Some m4" "nx m4 = (nx m3)(p \<mapsto> Some a)" "pv m4 = pv m3"
    by (rule set_le_next_eq [of m3 p]) (use assms 1 2 3 in simp)
  show ?thesis by (rule that [of m4]) (simp_all add: list_chain_def 1 2 3 4)
qed

lemma list_chain_ring:
  assumes "ring m head (us @ vs)" "nx m a \<noteq> None" "a \<notin> set (head # us @ vs)"
  obtains m' where "list_chain m (Some (last (head # us))) (Some a) (Some (hd (vs @ [head]))) = Some m'"
    "ring m' head (us @ a # vs)" "\<And>b. nx m' b = None \<longleftrightarrow> nx m b = None"
proof -
  let ?p = "last (head # us)" and ?n = "hd (vs @ [head])"
  have mem: "?p \<in> set (head # us)" "?n \<in> set (head # vs)" by (rule last_in_set; simp) (cases vs; simp)
  have k: "nx m ?p \<noteq> None" "nx m ?n \<noteq> None" using ring_known [OF assms(1)] mem by auto
  obtain m' where m': "list_chain m (Some ?p) (Some a) (Some ?n) = Some m'" "nx m' = (nx m)(a \<mapsto> Some ?n, ?p \<mapsto> Some a)"
    "pv m' = (pv m)(?n \<mapsto> Some a, a \<mapsto> Some ?p)" using list_chain_eq [OF k(1) assms(2) k(2)] .
  have d: "distinct (head # us @ vs)" using assms(1) by (simp add: ring_def)
  have ne: "a \<noteq> ?p" "a \<noteq> ?n" using assms(3) mem by auto
  have p: "?p \<notin> set (butlast (head # us)) \<union> set vs"
    using d by (cases us rule: rev_cases) auto
  have n: "?n \<notin> set us \<union> set (List.tl (vs @ [head]))" using d by (cases vs) auto
  have "ring m' head (us @ [a] @ vs)"
  proof (rule ring_splice [of m head us "[]" vs])
    show "ring m head (us @ [] @ vs)" using assms(1) by simp
    show "distinct (head # us @ [a] @ vs)" using d assms(3) by auto
    show "links m' (?p # [a] @ [?n])" using ne by (simp add: linked_views m')
    show "nx m' b = nx m b" if "b \<in> set (butlast (head # us)) \<union> set vs" for b
      using that p assms(3) by (auto simp: m' dest: in_set_butlastD)
    show "pv m' b = pv m b" if "b \<in> set us \<union> set (List.tl (vs @ [head]))" for b
      using that n assms(3) by (cases vs) (auto simp: m')
  qed
  moreover have "nx m' b = None \<longleftrightarrow> nx m b = None" for b using k assms(2) by (auto simp: m')
  ultimately show ?thesis using that [OF m'(1)] by simp
qed

lemma list_append_ring:
  assumes "ring m head xs" "nx m a \<noteq> None" "a \<notin> set (head # xs)"
  obtains m' where "list_append m head a = Some m'" "ring m' head (xs @ [a])" "\<And>b. nx m' b = None \<longleftrightarrow> nx m b = None"
proof -
  have r: "ring m head (xs @ [])" "a \<notin> set (head # xs @ [])" using assms by simp_all
  obtain e where e: "m head = Some e" "le_prev e = Some (last (head # xs))"
    using ring_head(1) [OF assms(1)] by (auto simp: linked_def)
  obtain m' where m': "list_chain m (Some (last (head # xs))) (Some a) (Some (hd ([] @ [head]))) = Some m'"
    "ring m' head (xs @ [a])" "\<And>b. nx m' b = None \<longleftrightarrow> nx m b = None"
    using list_chain_ring [OF r(1) assms(2) r(2)] by auto
  show ?thesis by (rule that [OF _ m'(2,3)]) (use e m'(1) in \<open>simp add: list_append_def\<close>)
qed

lemma list_prepend_ring:
  assumes "ring m head xs" "nx m a \<noteq> None" "a \<notin> set (head # xs)"
  obtains m' where "list_prepend m head a = Some m'" "ring m' head (a # xs)" "\<And>b. nx m' b = None \<longleftrightarrow> nx m b = None"
proof -
  have r: "ring m head ([] @ xs)" "a \<notin> set (head # [] @ xs)" using assms by simp_all
  obtain e where e: "m head = Some e" "le_next e = Some (hd (xs @ [head]))"
    using ring_head(2) [OF assms(1)] by (auto simp: linked_def)
  obtain m' where m': "list_chain m (Some (last (head # []))) (Some a) (Some (hd (xs @ [head]))) = Some m'"
    "ring m' head ([] @ a # xs)" "\<And>b. nx m' b = None \<longleftrightarrow> nx m b = None"
    using list_chain_ring [OF r(1) assms(2) r(2)] by auto
  show ?thesis by (rule that [OF _ _ m'(3)]) (use e m'(1,2) in \<open>simp_all add: list_prepend_def\<close>)
qed

text \<open>The elements before and after one of a ring, and which entries they own.\<close>

lemma ring_around:
  assumes "ring m head (us @ a # vs)"
  defines "p \<equiv> last (head # us)" and "n \<equiv> hd (vs @ [head])"
  shows "m a = Some \<lparr> le_next = Some n, le_prev = Some p \<rparr>" "nx m p \<noteq> None" "nx m n \<noteq> None" "nx m a \<noteq> None" "a \<noteq> p" "a \<noteq> n"
    "p \<notin> set (butlast (head # us)) \<union> set vs" "n \<notin> set us \<union> set (List.tl (vs @ [head]))"
proof -
  have d: "distinct (head # us @ a # vs)" using assms(1) by (simp add: ring_def)
  have mem: "p \<in> set (head # us)" "n \<in> set (head # vs)" unfolding p_def n_def by (rule last_in_set; simp) (cases vs; simp)
  have "linked m p a" "linked m a n" using ring_at [OF assms(1)] by (simp_all add: p_def n_def)
  then show "m a = Some \<lparr> le_next = Some n, le_prev = Some p \<rparr>" by (intro node_views) (simp_all add: linked_views)
  show "nx m p \<noteq> None" "nx m n \<noteq> None" "nx m a \<noteq> None" using ring_known [OF assms(1)] mem by auto
  show "a \<noteq> p" "a \<noteq> n" using d mem by auto
  show "p \<notin> set (butlast (head # us)) \<union> set vs" using d unfolding p_def by (cases us rule: rev_cases) auto
  show "n \<notin> set us \<union> set (List.tl (vs @ [head]))" using d unfolding n_def by (cases vs) auto
qed

lemma list_remove_ring:
  assumes "ring m head (us @ a # vs)"
  obtains m' where "list_remove m a = Some m'" "ring m' head (us @ vs)" "\<And>b. nx m' b = None \<longleftrightarrow> nx m b = None"
    "nx m' a = Some None" "pv m' a = Some None"
proof -
  let ?p = "last (head # us)" and ?n = "hd (vs @ [head])"
  note ar = ring_around [OF assms]
  obtain m1 where 1: "set_le_next m (Some ?p) (Some ?n) = Some m1" "nx m1 = (nx m)(?p \<mapsto> Some ?n)" "pv m1 = pv m"
    using ar(2) by (rule set_le_next_eq)
  have a1: "m1 a = Some \<lparr> le_next = Some ?n, le_prev = Some ?p \<rparr>"
    by (rule node_views) (use ar(1,5) in \<open>simp_all add: 1 nx_def pv_def\<close>)
  obtain m2 where 2: "set_le_prev m1 (Some ?n) (Some ?p) = Some m2" "nx m2 = nx m1" "pv m2 = (pv m1)(?n \<mapsto> Some ?p)"
    by (rule set_le_prev_eq [of m1 ?n]) (use ar(3) 1 in simp)
  obtain m3 where 3: "set_le_next m2 (Some a) None = Some m3" "nx m3 = (nx m2)(a \<mapsto> None)" "pv m3 = pv m2"
    by (rule set_le_next_eq [of m2 a]) (use ar(4) 1 2 in simp)
  obtain m4 where 4: "set_le_prev m3 (Some a) None = Some m4" "nx m4 = nx m3" "pv m4 = (pv m3)(a \<mapsto> None)"
    by (rule set_le_prev_eq [of m3 a]) (use 3 in simp)
  have nx4: "nx m4 = (nx m)(?p \<mapsto> Some ?n, a \<mapsto> None)" and pv4: "pv m4 = (pv m)(?n \<mapsto> Some ?p, a \<mapsto> None)"
    by (simp_all add: 1 2 3 4)
  have d: "distinct (head # us @ a # vs)" using assms by (simp add: ring_def)
  have "ring m4 head (us @ [] @ vs)"
  proof (rule ring_splice [of m head us "[a]" vs])
    show "ring m head (us @ [a] @ vs)" using assms by simp
    show "distinct (head # us @ [] @ vs)" using d by auto
    show "links m4 (?p # [] @ [?n])" using ar(5,6) by (simp add: linked_views nx4 pv4)
    show "nx m4 b = nx m b" if "b \<in> set (butlast (head # us)) \<union> set vs" for b
      using that ar(7) d by (auto simp: nx4 dest: in_set_butlastD)
    show "pv m4 b = pv m b" if "b \<in> set us \<union> set (List.tl (vs @ [head]))" for b
      using that ar(8) d by (cases vs) (auto simp: pv4)
  qed
  moreover have "nx m4 b = None \<longleftrightarrow> nx m b = None" for b using ar(2,4) by (auto simp: nx4)
  moreover have "list_remove m a = Some m4" using ar(1) a1 by (simp add: list_remove_def 1 2 3 4 del: last.simps)
  ultimately show ?thesis by (intro that [of m4]) (simp_all add: nx4 pv4)
qed

lemma list_replace_ring:
  assumes "ring m head (us @ a # vs)" "nx m c \<noteq> None" "c \<notin> set (head # us @ a # vs)"
  obtains m' where "list_replace m a c = Some m'" "ring m' head (us @ c # vs)" "\<And>b. nx m' b = None \<longleftrightarrow> nx m b = None"
proof -
  let ?p = "last (head # us)" and ?n = "hd (vs @ [head])"
  note ar = ring_around [OF assms(1)]
  have mem: "?p \<in> set (head # us)" "?n \<in> set (head # vs)" by (rule last_in_set; simp) (cases vs; simp)
  have c: "c \<noteq> ?p" "c \<noteq> ?n" "c \<noteq> a" using assms(3) mem by auto
  have va: "nx m a = Some (Some ?n)" "pv m a = Some (Some ?p)" using ar(1) by (simp_all add: nx_def pv_def del: last.simps)
  obtain m1 where 1: "set_le_prev m (Some c) (Some ?p) = Some m1" "nx m1 = nx m" "pv m1 = (pv m)(c \<mapsto> Some ?p)"
    using assms(2) by (rule set_le_prev_eq)
  have a1: "m1 a = Some \<lparr> le_next = Some ?n, le_prev = Some ?p \<rparr>" by (rule node_views) (use va c in \<open>simp_all add: 1 del: last.simps\<close>)
  obtain m2 where 2: "set_le_next m1 (Some c) (Some ?n) = Some m2" "nx m2 = (nx m1)(c \<mapsto> Some ?n)" "pv m2 = pv m1"
    by (rule set_le_next_eq [of m1 c]) (use assms(2) 1 in \<open>simp del: last.simps\<close>)
  obtain m3 where 3: "set_le_prev m2 (Some a) None = Some m3" "nx m3 = nx m2" "pv m3 = (pv m2)(a \<mapsto> None)"
    by (rule set_le_prev_eq [of m2 a]) (use ar(4) 1 2 in \<open>simp del: last.simps\<close>)
  obtain m4 where 4: "set_le_next m3 (Some a) None = Some m4" "nx m4 = (nx m3)(a \<mapsto> None)" "pv m4 = pv m3"
    by (rule set_le_next_eq [of m3 a]) (use ar(4) 1 2 3 in \<open>simp del: last.simps\<close>)
  have c4: "m4 c = Some \<lparr> le_next = Some ?n, le_prev = Some ?p \<rparr>" by (rule node_views) (use c in \<open>simp_all add: 1 2 3 4 del: last.simps\<close>)
  obtain m5 where 5: "set_le_next m4 (Some ?p) (Some c) = Some m5" "nx m5 = (nx m4)(?p \<mapsto> Some c)" "pv m5 = pv m4"
    by (rule set_le_next_eq [of m4 ?p]) (use ar(2) 1 2 3 4 in \<open>simp del: last.simps\<close>)
  have c5: "m5 c = Some \<lparr> le_next = Some ?n, le_prev = Some ?p \<rparr>" by (rule node_views) (use c in \<open>simp_all add: 1 2 3 4 5 del: last.simps\<close>)
  obtain m6 where 6: "set_le_prev m5 (Some ?n) (Some c) = Some m6" "nx m6 = nx m5" "pv m6 = (pv m5)(?n \<mapsto> Some c)"
    by (rule set_le_prev_eq [of m5 ?n]) (use ar(3) 1 2 3 4 5 in \<open>simp del: last.simps\<close>)
  have nx6: "nx m6 = (nx m)(c \<mapsto> Some ?n, a \<mapsto> None, ?p \<mapsto> Some c)" and pv6: "pv m6 = (pv m)(c \<mapsto> Some ?p, a \<mapsto> None, ?n \<mapsto> Some c)"
    by (simp_all add: 1 2 3 4 5 6)
  have d: "distinct (head # us @ a # vs)" using assms(1) by (simp add: ring_def)
  have "ring m6 head (us @ [c] @ vs)"
  proof (rule ring_splice [of m head us "[a]" vs])
    show "ring m head (us @ [a] @ vs)" using assms(1) by simp
    show "distinct (head # us @ [c] @ vs)" using d assms(3) by auto
    show "links m6 (?p # [c] @ [?n])" using c by (simp add: linked_views nx6 pv6)
    show "nx m6 b = nx m b" if "b \<in> set (butlast (head # us)) \<union> set vs" for b
      using that ar(7) d assms(3) by (auto simp: nx6 dest: in_set_butlastD)
    show "pv m6 b = pv m b" if "b \<in> set us \<union> set (List.tl (vs @ [head]))" for b
      using that ar(8) d assms(3) by (cases vs) (auto simp: pv6)
  qed
  moreover have "nx m6 b = None \<longleftrightarrow> nx m b = None" for b using ar(2,4) assms(2) by (auto simp: nx6)
  moreover have "list_replace m a c = Some m6" using ar(1) a1 c4 c5 by (simp add: list_replace_def 1 2 3 4 5 6 del: last.simps)
  ultimately show ?thesis by (intro that [of m6]) simp_all
qed

lemma forprev_links:
  assumes "links m (head # xs)" "head \<notin> set xs" "xs \<noteq> []"
  shows "forprev_from m head (last xs) = Some (rev xs)"
  using assms
proof (induction xs rule: rev_induct)
  case (snoc x xs)
  have "linked m (last (head # xs)) x" using snoc.prems(1) by (intro links_last) simp
  then obtain e where e: "m x = Some e" "le_prev e = Some (last (head # xs))" by (auto simp: linked_def)
  have "forprev_from m head (last (head # xs)) = Some (rev xs)"
  proof (cases "xs = []")
    case True
    then show ?thesis by (simp add: forprev_from.simps)
  next
    case False
    have "links m ((head # xs) @ [x])" using snoc.prems(1) by simp
    then have "links m (head # xs)"
      using False links_append [of m "head # butlast xs" "last xs" "[x]"] by (metis append.assoc append_Cons append_Nil append_butlast_last_id)
    then show ?thesis using snoc False by simp
  qed
  then show ?case using e snoc.prems(2) by (subst forprev_from.simps) (simp del: last.simps)
qed simp

lemma list_forprev_ring:
  assumes "ring m head xs"
  shows "list_forprev m head = Some (rev xs)"
proof -
  obtain e where e: "m head = Some e" "le_prev e = Some (last (head # xs))"
    using ring_head(1) [OF assms] by (auto simp: linked_def)
  have l: "links m ((head # xs) @ [head])" "head \<notin> set xs" using assms by (auto simp: ring_def)
  show ?thesis
  proof (cases "xs = []")
    case True
    then show ?thesis using e by (simp add: list_forprev_def forprev_from.simps)
  next
    case False
    have "links m (head # xs)"
      using l(1) False links_append [of m "head # butlast xs" "last xs" "[head]"]
      by (metis append.assoc append_Cons append_Nil append_butlast_last_id)
    from forprev_links [OF this l(2) False] show ?thesis using e False by (simp add: list_forprev_def)
  qed
qed

section \<open>Sequences of operations\<close>

datatype list_op = Prepend nat | Append nat | Remove nat | Replace nat nat

fun list_step :: "nat \<Rightarrow> nodes \<Rightarrow> list_op \<Rightarrow> nodes option" where
  "list_step head m (Prepend a) = list_prepend m head a"
| "list_step head m (Append a) = list_append m head a"
| "list_step head m (Remove a) = list_remove m a"
| "list_step head m (Replace a b) = list_replace m a b"

fun list_run :: "nat \<Rightarrow> nodes \<Rightarrow> list_op list \<Rightarrow> nodes option" where
  "list_run head m [] = Some m"
| "list_run head m (op # ops) = do { m \<leftarrow> list_step head m op; list_run head m ops }"

text \<open>
  The same on lists, with what a caller must see to: an element that is added is in memory and not
  in the list, and one that is taken out is in the list.
\<close>

fun spec_step :: "nat set \<Rightarrow> nat list \<Rightarrow> list_op \<Rightarrow> nat list option" where
  "spec_step A xs (Prepend a) = (if a \<in> A - set xs then Some (a # xs) else None)"
| "spec_step A xs (Append a) = (if a \<in> A - set xs then Some (xs @ [a]) else None)"
| "spec_step A xs (Remove a) = (if a \<in> set xs then Some (remove1 a xs) else None)"
| "spec_step A xs (Replace a b) =
    (if a \<in> set xs \<and> b \<in> A - set xs then Some (map (\<lambda>x. if x = a then b else x) xs) else None)"

fun spec_steps :: "nat set \<Rightarrow> nat list \<Rightarrow> list_op list \<Rightarrow> nat list option" where
  "spec_steps A xs [] = Some xs"
| "spec_steps A xs (op # ops) = do { xs \<leftarrow> spec_step A xs op; spec_steps A xs ops }"

lemma list_step_ring:
  assumes "ring m head xs" "spec_step {a. nx m a \<noteq> None \<and> a \<noteq> head} xs op = Some ys"
  obtains m' where "list_step head m op = Some m'" "ring m' head ys" "\<And>b. nx m' b = None \<longleftrightarrow> nx m b = None"
proof (cases op)
  case (Prepend a)
  then have a: "nx m a \<noteq> None" "a \<notin> set (head # xs)" "ys = a # xs" using assms(2) by (auto split: if_splits)
  from list_prepend_ring [OF assms(1) a(1,2)] show ?thesis using that Prepend a(3) by (metis list_step.simps(1))
next
  case (Append a)
  then have a: "nx m a \<noteq> None" "a \<notin> set (head # xs)" "ys = xs @ [a]" using assms(2) by (auto split: if_splits)
  from list_append_ring [OF assms(1) a(1,2)] show ?thesis using that Append a(3) by (metis list_step.simps(2))
next
  case (Remove a)
  then have "a \<in> set xs" and ys: "ys = remove1 a xs" using assms(2) by (auto split: if_splits)
  then obtain us vs where xs: "xs = us @ a # vs" "a \<notin> set us" by (meson split_list_first)
  with ys have "ys = us @ vs" by (simp add: remove1_append)
  with list_remove_ring [of m head us a vs] show ?thesis using that Remove xs(1) assms(1) by (metis list_step.simps(3))
next
  case (Replace a b)
  then have "a \<in> set xs" and b: "nx m b \<noteq> None" "b \<notin> set (head # xs)" and ys: "ys = map (\<lambda>x. if x = a then b else x) xs"
    using assms(2) by (auto split: if_splits)
  then obtain us vs where xs: "xs = us @ a # vs" by (meson split_list)
  have "distinct xs" using assms(1) by (simp add: ring_def)
  then have "ys = us @ b # vs" unfolding ys xs by (auto intro!: map_idI)
  with list_replace_ring [of m head us a vs b] show ?thesis using that Replace xs assms(1) b by (metis list_step.simps(4))
qed

text \<open>
  C12. The linked lists refine lists: any sequence of additions at either end, removals and
  replacements that is sensible for the list of elements succeeds without following a null or
  dangling pointer, and afterwards the iteration forwards visits exactly the elements of the
  resulting list in order, and the iteration backwards the same in reverse.
\<close>

theorem list_refines:
  assumes "ring m head xs" "spec_steps {a. nx m a \<noteq> None \<and> a \<noteq> head} xs ops = Some ys"
  shows "\<exists>m'. list_run head m ops = Some m' \<and> ring m' head ys \<and> list_fornext m' head = Some ys \<and>
    list_forprev m' head = Some (rev ys)"
  using assms
proof (induction ops arbitrary: m xs)
  case Nil
  then show ?case by (simp add: list_fornext_ring list_forprev_ring)
next
  case (Cons op ops)
  then obtain zs where z: "spec_step {a. nx m a \<noteq> None \<and> a \<noteq> head} xs op = Some zs"
    "spec_steps {a. nx m a \<noteq> None \<and> a \<noteq> head} zs ops = Some ys" by (auto simp: bind_eq_Some_conv)
  obtain m1 where m1: "list_step head m op = Some m1" "ring m1 head zs" "\<And>b. nx m1 b = None \<longleftrightarrow> nx m b = None"
    using list_step_ring [OF Cons.prems(1) z(1)] by blast
  then show ?case using Cons.IH [OF m1(2)] z(2) by simp
qed

definition fresh_nodes :: nodes where
  "fresh_nodes = (\<lambda>_. None)(0 \<mapsto> \<lparr> le_next = Some 0, le_prev = Some 0 \<rparr>, 1 \<mapsto> \<lparr> le_next = None, le_prev = None \<rparr>,
    2 \<mapsto> \<lparr> le_next = None, le_prev = None \<rparr>)"

theorem list_refines_witness:
  "\<exists>m'. list_run 0 fresh_nodes [Append 1, Prepend 2, Remove 1, Append 1] = Some m' \<and> ring m' 0 [2, 1] \<and>
    list_fornext m' 0 = Some [2, 1] \<and> list_forprev m' 0 = Some [1, 2]"
proof -
  have "ring fresh_nodes 0 []" by (simp add: ring_def linked_def fresh_nodes_def)
  moreover have "spec_steps {a. nx fresh_nodes a \<noteq> None \<and> a \<noteq> 0} [] [Append 1, Prepend 2, Remove 1, Append 1] = Some [2, 1]"
    by (simp add: nx_def fresh_nodes_def)
  ultimately show ?thesis using list_refines [of fresh_nodes 0 "[]"] by fastforce
qed

end
