(* ===== verification/Server.thy ===== *)
theory Server
  imports Sock_Stream Db_Store Linked_List
begin

text \<open>
  The database server of \<open>src/src/server.c\<close>: the commands, the lines of a client and its events, the
  event loop, and starting and ending the program.  The state is the database, the clients with
  their sockets, the linked list of the clients, and the state of the system that every system
  call threads through.  A result \<open>None\<close> is a loop that does not end, or the use of a client that
  was freed.  Clients are named by numbers that are not used again; the list element of client \<open>i\<close>
  is the element \<open>Suc i\<close> of the memory of elements, and the head \<open>server->clients\<close> is the element 0.
\<close>

section \<open>State\<close>

record client =
  cl_sock :: simple_sock
  log_line :: bool
  snd_prompt :: bool

text \<open>
  What the server relies on: the heaps of the buffers and of the database, the calls on descriptors,
  \<open>epoll_create1\<close>, \<open>epoll_ctl\<close> (the flag is \<open>EPOLL_CTL_ADD\<close>) and \<open>epoll_wait\<close>, whether memory for a
  client, the server or a string is available, the resolver with its initialisation, the signal
  handlers, the file of a database, and the flag \<open>run\<close> that the signal handler clears.
\<close>

datatype target = Listener | Client nat

record 'w sys =
  sy_heap :: heap_env
  sy_denv :: db_env
  sy_os :: "'w os"
  sy_epoll_ctl :: "'w \<Rightarrow> int \<Rightarrow> bool \<Rightarrow> u32 \<Rightarrow> io_err option \<times> 'w"
  sy_epoll_wait :: "'w \<Rightarrow> (io_err + (target \<times> u32) list) \<times> 'w"
  sy_malloc :: "'w \<Rightarrow> bool \<times> 'w"
  sy_epoll_create :: "'w \<Rightarrow> int \<times> 'w"
  sy_resolv :: "'w resolver"
  sy_dns_init :: "'w \<Rightarrow> int \<times> 'w"
  sy_signals :: "'w \<Rightarrow> int \<times> 'w"
  sy_calloc_ok :: bool
  sy_file :: "bytes \<Rightarrow> 'w file_sys"
  sy_run :: "'w \<Rightarrow> bool"

definition EPOLLIN :: u32 where "EPOLLIN = 0x1"
definition EPOLLOUT :: u32 where "EPOLLOUT = 0x4"
definition EPOLLERR :: u32 where "EPOLLERR = 0x8"
definition EPOLLHUP :: u32 where "EPOLLHUP = 0x10"
definition EPOLLRDHUP :: u32 where "EPOLLRDHUP = 0x2000"

definition RDWR_EVENTS :: u32 where "RDWR_EVENTS = EPOLLOUT OR EPOLLIN OR EPOLLRDHUP"
definition RD_EVENTS :: u32 where "RD_EVENTS = EPOLLIN OR EPOLLRDHUP"

definition SOCK_INIT_BUFSIZE :: nat where "SOCK_INIT_BUFSIZE = 4096"
definition SOCK_MIN_BUFSIZE :: nat where "SOCK_MIN_BUFSIZE = MAX_LINE * 2"
definition SOCK_MAX_BUFSIZE :: nat where "SOCK_MAX_BUFSIZE = 8192"

section \<open>Responses\<close>

definition send_prompt :: "heap_env \<Rightarrow> client \<Rightarrow> int \<times> client" where
  "send_prompt env client =
    (case sock_write_mem env (cl_sock client) (ascii ''> '') of (rc, sock) \<Rightarrow> (rc, client\<lparr> cl_sock := sock \<rparr>))"

definition send_line :: "heap_env \<Rightarrow> client \<Rightarrow> slice \<Rightarrow> int \<times> client" where
  "send_line env client line =
    (case sock_write_line env (cl_sock client) line of (rc, sock) \<Rightarrow> (rc, client\<lparr> cl_sock := sock \<rparr>))"

definition send_rsp :: "heap_env \<Rightarrow> client \<Rightarrow> slice \<Rightarrow> int \<times> client" where
  "send_rsp env client rsp =
    (case send_line env client rsp of (rc, client) \<Rightarrow>
       if rc = 0 \<and> snd_prompt client then send_prompt env client else (rc, client))"

definition client_close :: "client \<Rightarrow> bool \<Rightarrow> client" where
  "client_close client force = client\<lparr> cl_sock := sock_write_close (cl_sock client) force \<rparr>"

section \<open>Commands\<close>

text \<open>
  A command returns its code, the database and the client; \<open>None\<close> is a database operation that does
  not return.
\<close>

type_synonym cmd_result = "(int \<times> db \<times> client) option"

definition reply :: "'w sys \<Rightarrow> db \<Rightarrow> client \<Rightarrow> slice \<Rightarrow> cmd_result" where
  "reply sys db client res = (case send_rsp (sy_heap sys) client res of (rc, client) \<Rightarrow> Some (rc, db, client))"

definition cmd_set :: "'w sys \<Rightarrow> db \<Rightarrow> client \<Rightarrow> slice \<Rightarrow> cmd_result" where
  "cmd_set sys db client args =
    (case slice_splitch args 32 of (key, val) \<Rightarrow>
       let key = slice_trim key; val = slice_trim val
       in if slice_bytes key = [] \<or> slice_bytes val = [] then reply sys db client (Some (ascii ''FAIL''))
          else do {
            (rc, db) \<leftarrow> db_set (sy_denv sys) db (slice_bytes key) (slice_bytes val);
            reply sys db client (Some (if rc \<noteq> 0 then ascii ''FAIL'' else ascii ''OK''))
          })"

definition cmd_get :: "'w sys \<Rightarrow> db \<Rightarrow> client \<Rightarrow> slice \<Rightarrow> cmd_result" where
  "cmd_get sys db client key = do {
    res \<leftarrow> db_get (sy_denv sys) db (slice_bytes key);
    reply sys db client (if res = None then Some (ascii ''FAIL'') else res)
  }"

definition cmd_del :: "'w sys \<Rightarrow> db \<Rightarrow> client \<Rightarrow> slice \<Rightarrow> cmd_result" where
  "cmd_del sys db client key =
    (if slice_bytes key = [] then reply sys db client (Some (ascii ''FAIL''))
     else do {
       (rc, db) \<leftarrow> db_del (sy_denv sys) db (slice_bytes key);
       reply sys db client (Some (if rc \<noteq> 0 then ascii ''FAIL'' else ascii ''OK''))
     })"

definition cmd_quit :: "'w sys \<Rightarrow> db \<Rightarrow> client \<Rightarrow> slice \<Rightarrow> cmd_result" where
  "cmd_quit sys db client args =
    (case send_rsp (sy_heap sys) (client\<lparr> snd_prompt := False \<rparr>) (Some (ascii ''OK'')) of (rc, client) \<Rightarrow>
       Some (rc, db, client_close client (rc = 0)))"

definition cmd_unsupp :: "'w sys \<Rightarrow> db \<Rightarrow> client \<Rightarrow> slice \<Rightarrow> cmd_result" where
  "cmd_unsupp sys db client args = reply sys db client (Some (ascii ''UNSUPP''))"

text \<open>The table; its first entry is for everything that is not found.\<close>

definition cli_cmds :: "(string \<times> ('w sys \<Rightarrow> db \<Rightarrow> client \<Rightarrow> slice \<Rightarrow> cmd_result)) list" where
  "cli_cmds = [('''', cmd_unsupp), (''SET'', cmd_set), (''GET'', cmd_get), (''DEL'', cmd_del), (''QUIT'', cmd_quit)]"

definition cli_names :: "string list" where
  "cli_names = ['''', ''SET'', ''GET'', ''DEL'', ''QUIT'']"

definition find_cli_cmd :: "slice \<Rightarrow> nat" where
  "find_cli_cmd cmd =
    (case find (\<lambda>i. slice_cmpmem cmd (ascii (cli_names ! i)) = 0) [1..<length cli_names] of None \<Rightarrow> 0 | Some i \<Rightarrow> i)"

definition process_line :: "'w sys \<Rightarrow> db \<Rightarrow> client \<Rightarrow> slice \<Rightarrow> cmd_result" where
  "process_line sys db client cmd =
    (case slice_splitch cmd 32 of (name, cmd) \<Rightarrow>
       let name = slice_toupper name; cmd = slice_trim cmd
       in snd (cli_cmds ! find_cli_cmd name) sys db client cmd)"

section \<open>Polling\<close>

text \<open>The call is repeated while it is interrupted.\<close>

partial_function (option) epoll_loop ::
    "'w sys \<Rightarrow> 'w \<Rightarrow> int \<Rightarrow> bool \<Rightarrow> u32 \<Rightarrow> (io_err option \<times> 'w) option" where
  "epoll_loop sys w fd add events =
    (case sy_epoll_ctl sys w fd add events of (e, w) \<Rightarrow>
       if e = Some EINTR then epoll_loop sys w fd add events else Some (e, w))"

definition poll_ctrl :: "'w sys \<Rightarrow> 'w \<Rightarrow> simple_sock \<Rightarrow> u32 \<Rightarrow> (int \<times> simple_sock \<times> 'w) option" where
  "poll_ctrl sys w sock events = do {
    (e, w) \<leftarrow> epoll_loop sys w (sk_fd sock) (\<not> is_epoll sock) events;
    Some (if e \<noteq> None then (-1, sock\<lparr> sys_err := True \<rparr>, w) else (0, sock\<lparr> is_epoll := True \<rparr>, w))
  }"

section \<open>Events of a client\<close>

definition do_client_send :: "'w sys \<Rightarrow> 'w \<Rightarrow> client \<Rightarrow> (client \<times> 'w) option" where
  "do_client_send sys w client =
    (case sock_send (sy_os sys) w (cl_sock client) of (rc, sock, w) \<Rightarrow>
       let client = client\<lparr> cl_sock := sock \<rparr> in
       if rc < 0 then Some (client, w)
       else
         let events = (if sock_sendbuf_used sock \<noteq> 0 then (if wait_write sock then RDWR_EVENTS else 0)
           else (if wait_write sock then RD_EVENTS else 0))
         in if events \<noteq> 0 then do {
              (rc, sock, w) \<leftarrow> poll_ctrl sys w sock events;
              if rc \<noteq> 0 then Some (client\<lparr> cl_sock := sock \<rparr>, w)
              else Some (client\<lparr> cl_sock := sock\<lparr> wait_write := (events AND EPOLLOUT \<noteq> 0) \<rparr> \<rparr>, w)
            }
            else Some (client, w))"

partial_function (option) line_loop :: "'w sys \<Rightarrow> db \<Rightarrow> client \<Rightarrow> bool \<Rightarrow> (int \<times> db \<times> client) option" where
  "line_loop sys db client eof =
    (case sock_recv_line (cl_sock client) eof of (rc, line, sock) \<Rightarrow>
       let client = client\<lparr> cl_sock := sock \<rparr> in
       if rc > 0 then
         Option.bind (process_line sys db client line) (\<lambda>(rc, db, client).
           if rc \<noteq> 0 then Some (rc, db, client) else line_loop sys db client eof)
       else Some (rc, db, client))"

partial_function (option) recv_loop :: "'w sys \<Rightarrow> 'w \<Rightarrow> db \<Rightarrow> client \<Rightarrow> (int \<times> db \<times> client \<times> 'w) option" where
  "recv_loop sys w db client =
    (case sock_recv (sy_heap sys) (sy_os sys) w (cl_sock client) of (rc, sock, w) \<Rightarrow>
       let client = client\<lparr> cl_sock := sock \<rparr> in
       if rc = SOCK_DATA then
         Option.bind (line_loop sys db client (sock_iseof sock)) (\<lambda>(rc, db, client).
           if rc < 0 then Some (rc, db, client, w) else recv_loop sys w db client)
       else Some (rc, db, client, w))"

definition do_client_recv :: "'w sys \<Rightarrow> 'w \<Rightarrow> db \<Rightarrow> client \<Rightarrow> (db \<times> client \<times> 'w) option" where
  "do_client_recv sys w db client = do {
    (rc, db, client, w) \<leftarrow> recv_loop sys w db client;
    Some (db, if rc < 0 \<and> rc \<noteq> SOCK_AGAIN then client_close client (rc \<noteq> SOCK_CLOSED) else client, w)
  }"

definition client_must_close :: "client \<Rightarrow> bool" where
  "client_must_close client = sock_canclose (cl_sock client)"

section \<open>The server\<close>

record 'w server =
  sv_sock :: simple_sock
  sv_run :: bool
  sv_log_line :: bool
  sv_log_level :: int
  sv_hostname :: slice
  sv_port :: slice
  sv_database :: slice
  sv_epoll_fd :: int
  sv_nodes :: nodes
  sv_client :: "nat \<Rightarrow> client option"
  next_id :: nat
  sv_db :: db
  sv_w :: 'w

definition rwbuf_zero :: rwbuf where
  "rwbuf_zero = \<lparr> rb_data = None, rb_max_size = 0, rb_size = 0, rb_ridx = 0, rb_widx = 0, rb_is_malloc = False,
    rb_is_grow = False, rb_live = False \<rparr>"

definition sock_zero :: simple_sock where
  "sock_zero = \<lparr> sk_fd = 0, sk_mode = 0, sk_addr = sock_addr_zero, send_buf = rwbuf_zero, recv_buf = rwbuf_zero, max_line = 0,
    min_size = 0, is_server = False, is_epoll = False, send_timeout = False, recv_timeout = False, recv_fin = False,
    send_fin = False, fin_sent = False, close_now = False, wait_write = False, sys_err = False \<rparr>"

section \<open>Clients\<close>

text \<open>The result of \<open>sock_init\<close> is not looked at.\<close>

definition client_create :: "'w sys \<Rightarrow> 'w server \<Rightarrow> int \<Rightarrow> sock_addr \<Rightarrow> (nat option \<times> 'w server) option" where
  "client_create sys sv fd addr =
    (case sy_malloc sys (sv_w sv) of (ok, w) \<Rightarrow>
       let sv = sv\<lparr> sv_w := w \<rparr> in
       if \<not> ok then Some (None, sv)
       else do {
         let i = next_id sv;
         let sock = snd (sock_init (sy_heap sys) sock_zero fd (Some addr) MAX_LINE SOCK_INIT_BUFSIZE SOCK_MIN_BUFSIZE SOCK_MAX_BUFSIZE);
         nodes \<leftarrow> list_init ((sv_nodes sv)(Suc i \<mapsto> \<lparr> le_next = None, le_prev = None \<rparr>)) (Suc i);
         Some (Some i, sv\<lparr> next_id := i + 1, sv_nodes := nodes,
           sv_client := (sv_client sv)(i \<mapsto> \<lparr> cl_sock = sock, log_line = False, snd_prompt = False \<rparr>) \<rparr>)
       })"

definition client_destroy :: "'w sys \<Rightarrow> 'w server \<Rightarrow> nat \<Rightarrow> int \<Rightarrow> 'w server option" where
  "client_destroy sys sv i rc = do {
    client \<leftarrow> sv_client sv i;
    let (sock, w) = sock_deinit (sy_os sys) (sv_w sv) (cl_sock client) rc;
    inuse \<leftarrow> list_inuse (sv_nodes sv) (Suc i);
    nodes \<leftarrow> (if inuse then list_remove (sv_nodes sv) (Suc i) else Some (sv_nodes sv));
    Some (sv\<lparr> sv_client := (sv_client sv)(i := None), sv_nodes := nodes(Suc i := None), sv_w := w \<rparr>)
  }"

definition client_recv_event :: "'w sys \<Rightarrow> 'w server \<Rightarrow> nat \<Rightarrow> u32 \<Rightarrow> 'w server option" where
  "client_recv_event sys sv i events = do {
    client \<leftarrow> sv_client sv i;
    (client, w) \<leftarrow> (if events AND (EPOLLOUT OR EPOLLHUP OR EPOLLERR) \<noteq> 0 then do_client_send sys (sv_w sv) client
      else Some (client, sv_w sv));
    (db, client, w) \<leftarrow> (if events AND (EPOLLIN OR EPOLLHUP OR EPOLLRDHUP OR EPOLLERR) \<noteq> 0 then do {
        (db, client, w) \<leftarrow> do_client_recv sys w (sv_db sv) client;
        (client, w) \<leftarrow> do_client_send sys w client;
        Some (db, client, w)
      } else Some (sv_db sv, client, w));
    let sv = sv\<lparr> sv_client := (sv_client sv)(i \<mapsto> client), sv_db := db, sv_w := w \<rparr>;
    if client_must_close client then client_destroy sys sv i 1 else Some sv
  }"

section \<open>Events of the server\<close>

definition server_accept :: "'w sys \<Rightarrow> 'w server \<Rightarrow> (nat option \<times> 'w server) option" where
  "server_accept sys sv =
    (case sock_accept (sy_os sys) (sv_w sv) (sv_sock sv) of ((fd, addr), w) \<Rightarrow>
     let sv = sv\<lparr> sv_w := w \<rparr> in
     if fd = -1 then Some (None, sv)
     else do {
       (c, sv) \<leftarrow> client_create sys sv fd addr;
       case c of
         None \<Rightarrow> Some (None, sv\<lparr> sv_w := snd (os_close (sy_os sys) (sv_w sv) fd) \<rparr>)
       | Some i \<Rightarrow> do {
           client \<leftarrow> sv_client sv i;
           (rc, sock, w) \<leftarrow> poll_ctrl sys (sv_w sv) (cl_sock client) RD_EVENTS;
           let client = client\<lparr> cl_sock := sock, log_line := sv_log_line sv \<rparr>;
           let sv = sv\<lparr> sv_client := (sv_client sv)(i \<mapsto> client), sv_w := w \<rparr>;
           if rc \<noteq> 0 then do { sv \<leftarrow> client_destroy sys sv i 1; Some (None, sv) }
           else do {
             nodes \<leftarrow> list_append (sv_nodes sv) 0 (Suc i);
             (client, w) \<leftarrow> do_client_send sys (sv_w sv) (snd (send_prompt (sy_heap sys) (client\<lparr> snd_prompt := True \<rparr>)));
             Some (Some i, sv\<lparr> sv_nodes := nodes, sv_client := (sv_client sv)(i \<mapsto> client), sv_w := w \<rparr>)
           }
         }
     })"

fun accept_loop :: "nat \<Rightarrow> 'w sys \<Rightarrow> 'w server \<Rightarrow> 'w server option" where
  "accept_loop 0 sys sv = Some sv"
| "accept_loop (Suc n) sys sv = do {
    (client, sv) \<leftarrow> server_accept sys sv;
    if client = None then Some sv else accept_loop n sys sv
  }"

definition do_server_accept :: "'w sys \<Rightarrow> 'w server \<Rightarrow> 'w server option" where
  "do_server_accept sys sv = accept_loop 5 sys sv"

definition do_server_err :: "'w sys \<Rightarrow> 'w server \<Rightarrow> 'w server" where
  "do_server_err sys sv =
    sv\<lparr> sv_sock := (sv_sock sv)\<lparr> sys_err := True \<rparr>, sv_w := snd (os_sockopt (sy_os sys) (sv_w sv) (sk_fd (sv_sock sv)) SO_ERROR) \<rparr>"

definition do_server_check :: "'w sys \<Rightarrow> 'w server \<Rightarrow> 'w server" where
  "do_server_check sys sv =
    (if \<not> sys_err (sv_sock sv) then sv
     else case sock_close (sy_os sys) (sv_w sv) (sv_sock sv) (-1) of (_, sock, w) \<Rightarrow>
       sv\<lparr> sv_sock := sock, sv_run := False, sv_w := w \<rparr>)"

definition server_recv_event :: "'w sys \<Rightarrow> 'w server \<Rightarrow> u32 \<Rightarrow> 'w server option" where
  "server_recv_event sys sv events = do {
    let sv = (if events AND (EPOLLERR OR EPOLLHUP) \<noteq> 0 then do_server_err sys sv else sv);
    sv \<leftarrow> (if events AND EPOLLIN \<noteq> 0 then do_server_accept sys sv else Some sv);
    Some (do_server_check sys sv)
  }"

text \<open>An event carries the pointer to a socket; the flag \<open>is_server\<close> of the socket says whose it is.\<close>

definition server_event :: "'w sys \<Rightarrow> 'w server \<Rightarrow> target \<Rightarrow> u32 \<Rightarrow> 'w server option" where
  "server_event sys sv t events = do {
    sock \<leftarrow> (case t of Listener \<Rightarrow> Some (sv_sock sv) | Client i \<Rightarrow> map_option cl_sock (sv_client sv i));
    if is_server sock then server_recv_event sys sv events
    else case t of Listener \<Rightarrow> None | Client i \<Rightarrow> client_recv_event sys sv i events
  }"

fun server_events :: "'w sys \<Rightarrow> 'w server \<Rightarrow> (target \<times> u32) list \<Rightarrow> 'w server option" where
  "server_events sys sv [] = Some sv"
| "server_events sys sv ((t, events) # evs) = do { sv \<leftarrow> server_event sys sv t events; server_events sys sv evs }"

definition server_poll :: "'w sys \<Rightarrow> 'w server \<Rightarrow> (int \<times> 'w server) option" where
  "server_poll sys sv =
    (case sy_epoll_wait sys (sv_w sv) of
       (Inl e, w) \<Rightarrow> Some (if e = EINTR then 0 else -1, sv\<lparr> sv_w := w \<rparr>)
     | (Inr evs, w) \<Rightarrow> do { sv \<leftarrow> server_events sys (sv\<lparr> sv_w := w \<rparr>) evs; Some (0, sv) })"

partial_function (option) server_run :: "'w sys \<Rightarrow> 'w server \<Rightarrow> (int \<times> 'w server) option" where
  "server_run sys sv =
    (if sv_run sv \<and> sy_run sys (sv_w sv) then
       Option.bind (server_poll sys sv) (\<lambda>(rc, sv). if rc \<noteq> 0 then Some (-1, sv) else server_run sys sv)
     else Some (0, sv))"

section \<open>Starting and ending\<close>

definition setup_listener :: "'w sys \<Rightarrow> 'w server \<Rightarrow> (int \<times> 'w server) option" where
  "setup_listener sys sv =
    (let mode = SOCK_LISTEN OR push_bit SOCK_NONBLK 1 OR push_bit SOCK_TCP 1 in
     case sock_server (sy_os sys) (sy_resolv sys) (sv_w sv) (sv_sock sv) mode (sv_hostname sv) (sv_port sv) of (rc, sock, w) \<Rightarrow>
       let sv = sv\<lparr> sv_sock := sock, sv_w := w \<rparr> in
       if rc \<noteq> 0 then Some (rc, sv)
       else case sy_epoll_create sys w of (fd, w) \<Rightarrow>
         let sv = sv\<lparr> sv_epoll_fd := fd, sv_w := w \<rparr> in
         if fd = -1 then Some (-1, sv)
         else do {
           (rc, sock, w) \<leftarrow> poll_ctrl sys w sock EPOLLIN;
           Some (if rc \<noteq> 0 then -1 else 0, sv\<lparr> sv_sock := sock, sv_w := w \<rparr>)
         })"

definition setup_database :: "'w sys \<Rightarrow> 'w server \<Rightarrow> (int \<times> 'w server) option" where
  "setup_database sys sv = do {
    (rc, db, w) \<leftarrow> db_init (sy_calloc_ok sys) (map_option (sy_file sys) (sv_database sv)) (sv_w sv) (sv_db sv);
    Some (rc, sv\<lparr> sv_db := db, sv_w := w \<rparr>)
  }"

definition server_opts :: "cmd_opt list" where
  "server_opts = map (\<lambda>(n, a). \<lparr> opt_name = ascii n, has_arg = a, opt_code = 0 \<rparr>)
    [(''--help'', 0), (''--hostname'', 1), (''--port'', 1), (''--database'', 1), (''--log-line'', 0), (''--log-level'', 1),
     (''--argv'', 0)]"

text \<open>
  One option: the code and the server, or \<open>Inl 0\<close> when \<open>--help\<close> ends the program.  \<open>ok\<close> says whether
  the string can be copied.
\<close>

definition server_opt :: "bool \<Rightarrow> 'w server \<Rightarrow> cmd_argv \<Rightarrow> int \<Rightarrow> (int + int \<times> 'w server) option" where
  "server_opt ok sv parser code =
    (if code = 0 then Some (Inl 0)
     else if code = 1 then do { (rc, s) \<leftarrow> opt_setstr ok parser; Some (Inr (rc, sv\<lparr> sv_hostname := s \<rparr>)) }
     else if code = 2 then do { (rc, s) \<leftarrow> opt_setstr ok parser; Some (Inr (rc, sv\<lparr> sv_port := s \<rparr>)) }
     else if code = 3 then do { (rc, s) \<leftarrow> opt_setstr ok parser; Some (Inr (rc, sv\<lparr> sv_database := s \<rparr>)) }
     else if code = 4 then Some (Inr (code, sv\<lparr> sv_log_line := True \<rparr>))
     else if code = 5 then do { (rc, n) \<leftarrow> opt_setint (sv_log_level sv) parser; Some (Inr (rc, sv\<lparr> sv_log_level := n \<rparr>)) }
     else Some (Inr (code, sv)))"

partial_function (option) argv_loop :: "'w sys \<Rightarrow> 'w server \<Rightarrow> cmd_argv \<Rightarrow> (int \<times> 'w + int \<times> 'w server) option" where
  "argv_loop sys sv parser =
    (case cmd_argv_next parser of (rc, parser) \<Rightarrow>
       if rc \<ge> 0 then
         (case sy_malloc sys (sv_w sv) of (ok, w) \<Rightarrow>
          Option.bind (server_opt ok (sv\<lparr> sv_w := w \<rparr>) parser rc) (\<lambda>r. case r of
             Inl ec \<Rightarrow> Some (Inl (ec, w))
           | Inr (rc, sv) \<Rightarrow> if rc < 0 then Some (Inr (rc, sv)) else argv_loop sys sv parser))
       else Some (Inr (rc, sv)))"

definition server_argv :: "'w sys \<Rightarrow> 'w server \<Rightarrow> bytes list \<Rightarrow> (int \<times> 'w + int \<times> 'w server) option" where
  "server_argv sys sv args = do {
    r \<leftarrow> argv_loop sys sv \<lparr> argv = args, opts = server_opts, argv_idx = 0, opt_idx = 0, arg_name = None, arg_value = None \<rparr>;
    Some (case r of Inl ec \<Rightarrow> Inl ec | Inr (rc, sv) \<Rightarrow> Inr (if rc = OPT_EOF then 0 else -1, sv))
  }"

text \<open>The loop of \<open>server_free\<close>: \<open>next\<close> is read before the element is freed.\<close>

partial_function (option) free_clients :: "'w sys \<Rightarrow> 'w server \<Rightarrow> nat \<Rightarrow> nat \<Rightarrow> 'w server option" where
  "free_clients sys sv elem next =
    (if elem = 0 then Some sv
     else Option.bind (list_remove (sv_nodes sv) elem) (\<lambda>nodes.
       Option.bind (client_destroy sys (sv\<lparr> sv_nodes := nodes \<rparr>) (elem - 1) 0) (\<lambda>sv.
       Option.bind (sv_nodes sv next) (\<lambda>e. Option.bind (le_next e) (\<lambda>next'. free_clients sys sv next next')))))"

definition server_free :: "'w sys \<Rightarrow> 'w server \<Rightarrow> 'w server option" where
  "server_free sys sv = do {
    e \<leftarrow> sv_nodes sv 0;
    elem \<leftarrow> le_next e;
    e \<leftarrow> sv_nodes sv elem;
    next \<leftarrow> le_next e;
    sv \<leftarrow> free_clients sys sv elem next;
    let w = (if sk_fd (sv_sock sv) \<noteq> -1 then snd (os_close (sy_os sys) (sv_w sv) (sk_fd (sv_sock sv))) else sv_w sv);
    let w = (if sv_epoll_fd sv \<noteq> -1 then snd (os_close (sy_os sys) w (sv_epoll_fd sv)) else w);
    Some (sv\<lparr> sv_w := w, sv_hostname := None, sv_port := None, sv_database := None \<rparr>)
  }"

definition server_destroy :: "'w sys \<Rightarrow> 'w server \<Rightarrow> 'w server option" where
  "server_destroy sys sv = do { db \<leftarrow> db_deinit (sv_db sv); server_free sys (sv\<lparr> sv_db := db \<rparr>) }"

definition db_zero :: db where
  "db_zero = \<lparr> db_file = False, db_ready = False, db_buckets = (\<lambda>_. 0), db_heap = (\<lambda>_. None), db_size = 0, hdr_magic = 0,
    hdr_version = 0, num_rec = 0, num_del = 0, next_offset = 0, init_done = False \<rparr>"

definition LOG_INFO :: int where "LOG_INFO = 3"

definition server_create :: "'w sys \<Rightarrow> 'w \<Rightarrow> ('w server option \<times> 'w) option" where
  "server_create sys w =
    (case sy_malloc sys w of (ok, w) \<Rightarrow>
       if \<not> ok then Some (None, w)
       else do {
         nodes \<leftarrow> list_init ((\<lambda>_. None)(0 \<mapsto> \<lparr> le_next = None, le_prev = None \<rparr>)) 0;
         let (ok, w) = sy_malloc sys w;
         if \<not> ok then Some (None, w)
         else Some (Some \<lparr> sv_sock = sock_zero\<lparr> sk_fd := -1, is_server := True \<rparr>, sv_run = False, sv_log_line = False,
             sv_log_level = LOG_INFO, sv_hostname = None, sv_port = Some (ascii ''6379''), sv_database = None, sv_epoll_fd = -1,
             sv_nodes = nodes, sv_client = (\<lambda>_. None), next_id = 0, sv_db = db_zero, sv_w = w \<rparr>, w)
       })"

text \<open>
  The steps of \<open>main\<close> up to the first that fails, with its exit code; the server is destroyed
  whenever it was created.
\<close>

definition serve :: "'w sys \<Rightarrow> 'w server \<Rightarrow> bytes list \<Rightarrow> (int \<times> 'w + int \<times> 'w server) option" where
  "serve sys sv args = do {
    r \<leftarrow> server_argv sys sv args;
    case r of
      Inl ec \<Rightarrow> Some (Inl ec)
    | Inr (rc, sv) \<Rightarrow>
        if rc \<noteq> 0 then Some (Inr (2, sv))
        else case sy_signals sys (sv_w sv) of (rc, w) \<Rightarrow>
          if rc \<noteq> 0 then Some (Inr (3, sv\<lparr> sv_w := w \<rparr>))
          else case sy_dns_init sys w of (rc, w) \<Rightarrow>
            let sv = sv\<lparr> sv_run := True, sv_w := w \<rparr> in
            if rc \<noteq> 0 then Some (Inr (4, sv))
            else do {
              (rc, sv) \<leftarrow> setup_database sys sv;
              if rc \<noteq> 0 then Some (Inr (5, sv))
              else do {
                (rc, sv) \<leftarrow> setup_listener sys sv;
                if rc \<noteq> 0 then Some (Inr (6, sv))
                else do {
                  (rc, sv) \<leftarrow> server_run sys sv;
                  Some (Inr (if rc \<noteq> 0 then 7 else 0, sv))
                }
              }
            }
  }"

definition server_main :: "'w sys \<Rightarrow> 'w \<Rightarrow> bytes list \<Rightarrow> (int \<times> 'w) option" where
  "server_main sys w args = do {
    (c, w) \<leftarrow> server_create sys w;
    case c of
      None \<Rightarrow> Some (1, w)
    | Some sv \<Rightarrow> do {
        r \<leftarrow> serve sys sv args;
        case r of
          Inl (ec, w) \<Rightarrow> Some (ec, w)
        | Inr (ec, sv) \<Rightarrow> do { sv \<leftarrow> server_destroy sys sv; Some (ec, sv_w sv) }
      }
  }"

end
