(* ===== verification/Server_Session.thy ===== *)
theory Server_Session
  imports Server
begin

text \<open>
  What a client of the server sees.  A request is a line; a session is a sequence of lines with the
  answers they get from a finite map.  It is shown that handling the input of a client
  (\<open>do_client_recv\<close>) ends and executes exactly the complete lines of what the client has sent,
  however the system cuts it into pieces, and appends their answers to the send buffer.
\<close>

section \<open>Requests\<close>

datatype request = ReqSet bytes bytes | ReqGet bytes | ReqDel bytes | ReqQuit | ReqUnsupp | ReqFail

definition trim_white :: "bytes \<Rightarrow> bytes" where
  "trim_white s = dropWhile is_white (rev (dropWhile is_white (rev s)))"

definition before_sp :: "bytes \<Rightarrow> bytes" where
  "before_sp s = takeWhile (\<lambda>c. c \<noteq> 32) s"

definition after_sp :: "bytes \<Rightarrow> bytes" where
  "after_sp s = drop 1 (dropWhile (\<lambda>c. c \<noteq> 32) s)"

definition parse_request :: "bytes \<Rightarrow> request" where
  "parse_request line =
    (let name = str_toupper (before_sp line); arg = trim_white (after_sp line)
     in if name = ascii ''SET'' then
          (let key = trim_white (before_sp arg); val = trim_white (after_sp arg)
           in if key = [] \<or> val = [] then ReqFail else ReqSet key val)
        else if name = ascii ''GET'' then ReqGet arg
        else if name = ascii ''DEL'' then (if arg = [] then ReqFail else ReqDel arg)
        else if name = ascii ''QUIT'' then ReqQuit
        else ReqUnsupp)"

fun req_keys :: "request \<Rightarrow> bytes set" where
  "req_keys (ReqSet k v) = {k}"
| "req_keys (ReqGet k) = {k}"
| "req_keys (ReqDel k) = {k}"
| "req_keys _ = {}"

text \<open>The answers a request may get from the map \<open>a\<close>, and the map afterwards.\<close>

fun answer :: "(bytes \<Rightarrow> bytes option) \<Rightarrow> request \<Rightarrow> bytes \<Rightarrow> (bytes \<Rightarrow> bytes option) \<Rightarrow> bool" where
  "answer a (ReqSet k v) rsp a' \<longleftrightarrow> rsp = ascii ''OK'' \<and> a' = a(k \<mapsto> v) \<or> rsp = ascii ''FAIL'' \<and> a' = a"
| "answer a (ReqGet k) rsp a' \<longleftrightarrow> rsp = (case a k of None \<Rightarrow> ascii ''FAIL'' | Some v \<Rightarrow> v) \<and> a' = a"
| "answer a (ReqDel k) rsp a' \<longleftrightarrow> rsp = (if a k = None then ascii ''FAIL'' else ascii ''OK'') \<and> a' = a(k := None)"
| "answer a ReqQuit rsp a' \<longleftrightarrow> rsp = ascii ''OK'' \<and> a' = a"
| "answer a ReqUnsupp rsp a' \<longleftrightarrow> rsp = ascii ''UNSUPP'' \<and> a' = a"
| "answer a ReqFail rsp a' \<longleftrightarrow> rsp = ascii ''FAIL'' \<and> a' = a"

text \<open>
  A session: every line is answered in turn, each answer followed by a prompt as long as the
  client has not quit.
\<close>

inductive session :: "(bytes \<Rightarrow> bytes option) \<Rightarrow> bool \<Rightarrow> bytes list \<Rightarrow> bytes \<Rightarrow> (bytes \<Rightarrow> bytes option) \<Rightarrow> bool \<Rightarrow> bool" where
  session_Nil: "session a p [] [] a p"
| session_Cons: "\<lbrakk>answer a (parse_request l) rsp a1; p1 \<longleftrightarrow> p \<and> parse_request l \<noteq> ReqQuit; session a1 p1 ls out a2 p2\<rbrakk> \<Longrightarrow>
    session a p (l # ls) (rsp @ [13, 10] @ (if p1 then [62, 32] else []) @ out) a2 p2"

lemma session_append:
  "session a p ls out a1 p1 \<Longrightarrow> session a1 p1 ls' out' a2 p2 \<Longrightarrow> session a p (ls @ ls') (out @ out') a2 p2"
proof (induction rule: session.induct)
  case (session_Cons a l rsp a1 p1 p ls out a2 p2)
  from session.session_Cons [OF session_Cons(1,2) session_Cons.IH [OF session_Cons.prems]] show ?case by simp
qed simp

section \<open>Parsing\<close>

lemma slice_splitch_sp:
  "slice_splitch (Some b) 32 = (t, r) \<Longrightarrow> slice_bytes t = before_sp b \<and> slice_bytes r = after_sp b \<and> t = Some (before_sp b)"
proof (cases "memchr b 32")
  case None
  assume "slice_splitch (Some b) 32 = (t, r)"
  then have "t = Some b" "r = None" using None by (simp_all add: slice_splitch_def)
  moreover have "\<forall>c \<in> set b. c \<noteq> 32" using None by (auto simp: memchr_None)
  then have tw: "takeWhile (\<lambda>c. c \<noteq> 32) b = b" "dropWhile (\<lambda>c. c \<noteq> 32) b = []"
    unfolding takeWhile_eq_all_conv dropWhile_eq_Nil_conv by blast+
  ultimately show ?thesis unfolding before_sp_def after_sp_def tw by simp
next
  case (Some i)
  assume "slice_splitch (Some b) 32 = (t, r)"
  then have e: "t = Some (take i b)" "r = Some (drop (Suc i) b)" using Some by (simp_all add: slice_splitch_def)
  have b: "b = take i b @ 32 # drop (Suc i) b" by (rule memchr_split [OF Some])
  have n: "\<And>c. c \<in> set (take i b) \<Longrightarrow> c \<noteq> 32" using memchr_SomeD [OF Some] by auto
  have "takeWhile (\<lambda>c. c \<noteq> 32) b = take i b" "dropWhile (\<lambda>c. c \<noteq> 32) b = 32 # drop (Suc i) b"
    by (subst b, simp add: takeWhile_append2 n) (subst b, simp add: dropWhile_append2 n)
  then show ?thesis using e by (simp add: before_sp_def after_sp_def)
qed

lemma slice_trim_bytes: "slice_bytes (slice_trim s) = trim_white (slice_bytes s)"
  by (cases s) (simp_all add: slice_trim_def slice_ltrim_def slice_rtrim_def ltrim_loop_eq rtrim_loop_eq trim_white_def)

lemma slice_splitch_args:
  assumes "slice_splitch s 32 = (t, r)"
  shows "slice_bytes t = before_sp (slice_bytes s)" "slice_bytes r = after_sp (slice_bytes s)"
  using assms slice_splitch_sp by (cases s; auto simp: slice_splitch_def before_sp_def after_sp_def)+

lemma length_before_sp: "length (before_sp s) \<le> length s"
  by (simp add: before_sp_def length_takeWhile_le)

lemma length_toupper [simp]: "length (str_toupper s) = length s"
  by (induction s) auto

lemma find_cli_cmd_eq:
  assumes "length (slice_bytes name) < 2 ^ 31"
  shows "find_cli_cmd name =
    (if slice_bytes name = ascii ''SET'' then 1 else if slice_bytes name = ascii ''GET'' then 2
     else if slice_bytes name = ascii ''DEL'' then 3 else if slice_bytes name = ascii ''QUIT'' then 4 else 0)"
proof -
  have c: "slice_cmpmem name s = 0 \<longleftrightarrow> slice_bytes name = s" if "length s \<le> 4" for s
    unfolding slice_cmpmem_def using assms that by (intro str_cmp_eq_0) simp_all
  have l: "[1..<length cli_names] = [1, 2, 3, 4]" by (simp add: cli_names_def upt_rec)
  show ?thesis unfolding find_cli_cmd_def l by (simp add: cli_names_def c)
qed

section \<open>Answering\<close>

text \<open>What handling a line leaves as it is: the receiving side of the client.\<close>

definition same_input :: "client \<Rightarrow> client \<Rightarrow> bool" where
  "same_input c c' \<longleftrightarrow> recv_buf (cl_sock c') = recv_buf (cl_sock c) \<and> max_line (cl_sock c') = max_line (cl_sock c) \<and>
    min_size (cl_sock c') = min_size (cl_sock c) \<and> sk_fd (cl_sock c') = sk_fd (cl_sock c) \<and>
    sk_mode (cl_sock c') = sk_mode (cl_sock c) \<and> recv_fin (cl_sock c') = recv_fin (cl_sock c)"

definition sent_by :: "client \<Rightarrow> bytes" where
  "sent_by c = rwbuf_content (send_buf (cl_sock c))"

text \<open>
  After a step of the server: either the client has more to send and no new error, or the socket
  is marked as failed.
\<close>

definition replied :: "client \<Rightarrow> bytes \<Rightarrow> bool \<Rightarrow> int \<Rightarrow> client \<Rightarrow> bool" where
  "replied c out p rc c' \<longleftrightarrow> same_input c c' \<and> rwbuf_inv (send_buf (cl_sock c')) \<and>
    (rc = 0 \<and> sys_err (cl_sock c') = sys_err (cl_sock c) \<and> sent_by c' = sent_by c @ out \<and> snd_prompt c' = p \<or>
     rc = -1 \<and> sys_err (cl_sock c'))"

lemma same_input_refl [simp]: "same_input c c"
  by (simp add: same_input_def)

lemma same_input_trans: "same_input c1 c2 \<Longrightarrow> same_input c2 c3 \<Longrightarrow> same_input c1 c3"
  by (simp add: same_input_def)

lemma sock_write_mem_frame:
  assumes "rwbuf_inv (send_buf sock)" "heap_env_ok env" "length m < 2 ^ 62" "sock_write_mem env sock m = (rc, sock')"
  obtains s where "sock' = sock\<lparr> send_buf := s, sys_err := sys_err sock \<or> rc \<noteq> 0 \<rparr>" "rwbuf_inv s" "rc = 0 \<or> rc = -1"
    "rwbuf_content s = rwbuf_content (send_buf sock) @ (if rc = 0 then m else [])"
proof -
  obtain b where w: "rwbuf_write env (send_buf sock) m = (rc, b)"
    using assms(4) by (auto simp: sock_write_mem_def Let_def split: prod.splits)
  then have s: "sock' = sock\<lparr> send_buf := b, sys_err := sys_err sock \<or> rc \<noteq> 0 \<rparr>"
    using assms(4) by (auto simp: sock_write_mem_def Let_def)
  note x = rwbuf_write_spec [OF assms(1-3) w]
  show ?thesis by (rule that [OF s]) (use x in auto)
qed

lemma send_rsp_replied:
  assumes "rwbuf_inv (send_buf (cl_sock c))" "heap_env_ok env" "length rsp < 2 ^ 61" "send_rsp env c (Some rsp) = (rc, c')"
  shows "replied c (rsp @ [13, 10] @ (if snd_prompt c then [62, 32] else [])) (snd_prompt c) rc c'"
proof -
  have l: "length (rsp @ [13, 10]) < 2 ^ 62" "length (slice_bytes (Some rsp)) + 2 < 2 ^ 62" using assms(3) by simp_all
  obtain rc1 sock1 where w: "sock_write_mem env (cl_sock c) (rsp @ [13, 10]) = (rc1, sock1)" by fastforce
  obtain s1 where s1: "sock1 = (cl_sock c)\<lparr> send_buf := s1, sys_err := sys_err (cl_sock c) \<or> rc1 \<noteq> 0 \<rparr>" "rwbuf_inv s1"
    "rc1 = 0 \<or> rc1 = -1" "rwbuf_content s1 = sent_by c @ (if rc1 = 0 then rsp @ [13, 10] else [])"
    by (rule sock_write_mem_frame [OF assms(1,2) l(1) w]) (simp add: sent_by_def)
  have sl: "send_line env c (Some rsp) = (rc1, c\<lparr> cl_sock := sock1 \<rparr>)"
    using sock_write_line_eq [OF assms(1,2) l(2)] w by (simp add: send_line_def)
  show ?thesis
  proof (cases "rc1 = 0 \<and> snd_prompt c")
    case False
    then have "rc = rc1" "c' = c\<lparr> cl_sock := sock1 \<rparr>" using assms(4) sl by (auto simp: send_rsp_def)
    then show ?thesis
      using s1 False by (auto simp: replied_def same_input_def sent_by_def)
  next
    case True
    obtain rc2 sock2 where w2: "sock_write_mem env sock1 [62, 32] = (rc2, sock2)" by fastforce
    obtain s2 where s2: "sock2 = sock1\<lparr> send_buf := s2, sys_err := sys_err sock1 \<or> rc2 \<noteq> 0 \<rparr>" "rwbuf_inv s2" "rc2 = 0 \<or> rc2 = -1"
      "rwbuf_content s2 = rwbuf_content (send_buf sock1) @ (if rc2 = 0 then [62, 32] else [])"
      by (rule sock_write_mem_frame [OF _ assms(2) _ w2]) (use s1 in simp_all)
    have "rc = rc2" "c' = c\<lparr> cl_sock := sock2 \<rparr>"
      using assms(4) sl w2 True by (auto simp: send_rsp_def send_prompt_def)
    then show ?thesis
      using s1 s2 True by (auto simp: replied_def same_input_def sent_by_def)
  qed
qed

lemma reply_replied:
  assumes "rwbuf_inv (send_buf (cl_sock c))" "heap_env_ok (sy_heap sys)" "length rsp < 2 ^ 61"
  obtains rc c' where "reply sys db c (Some rsp) = Some (rc, db, c')"
    "replied c (rsp @ [13, 10] @ (if snd_prompt c then [62, 32] else [])) (snd_prompt c) rc c'"
proof -
  obtain rc c' where r: "send_rsp (sy_heap sys) c (Some rsp) = (rc, c')" by fastforce
  show ?thesis by (rule that [of rc c']) (use r send_rsp_replied [OF assms r] in \<open>simp_all add: reply_def\<close>)
qed

section \<open>Executing a line\<close>

text \<open>
  The store stands for the map \<open>a\<close>, whose keys are among \<open>K\<close>; the keys of \<open>K\<close> are told apart by the comparison
  of the store, which in one bucket takes a key for every key it is the beginning of.
\<close>

definition holds :: "db_env \<Rightarrow> bytes set \<Rightarrow> db \<Rightarrow> (bytes \<Rightarrow> bytes option) \<Rightarrow> bool" where
  "holds env K db a \<longleftrightarrow> malloc_fresh env \<and> told_apart K \<and> dom a \<subseteq> K \<and> db_rel db a \<and> (\<forall>k v. a k = Some v \<longrightarrow> length v < 2 ^ 61)"

lemma holds_set:
  assumes "holds env K db a" "k \<in> K" "length k + length v < 2 ^ 61"
  obtains rc db' where "db_set env db k v = Some (rc, db')" "holds env K db' (if rc = 0 then a(k \<mapsto> v) else a)"
proof -
  have r: "malloc_fresh env \<and> told_apart K \<and> dom a \<subseteq> K \<and> db_rel db a" using assms(1) by (simp add: holds_def)
  have o: "op_key (MPut k v) \<in> K \<and> op_size (MPut k v) < 2 ^ 62" using assms(2,3) by (simp add: op_size_def)
  obtain b db' where d: "set_bool env db k v = Some (b, db')" "db_rel db' (if b then a(k \<mapsto> v) else a)"
    using store.put_law [OF r o] by auto
  obtain rc where "db_set env db k v = Some (rc, db')" "b = (rc = 0)"
    using d(1) by (auto simp: set_bool_def bind_eq_Some_conv)
  then show ?thesis using that [of rc db'] d(2) assms by (auto simp: holds_def split: if_splits)
qed

lemma holds_del:
  assumes "holds env K db a" "k \<in> K" "length k < 2 ^ 61"
  obtains rc db' where "db_del env db k = Some (rc, db')" "rc = 0 \<longleftrightarrow> a k \<noteq> None" "holds env K db' (a(k := None))"
proof -
  have r: "malloc_fresh env \<and> told_apart K \<and> dom a \<subseteq> K \<and> db_rel db a" using assms(1) by (simp add: holds_def)
  have o: "op_key (MDel k) \<in> K \<and> op_size (MDel k) < 2 ^ 62" using assms(2,3) by (simp add: op_size_def)
  obtain b db' where d: "ddel_bool env db k = Some (b, db')" "b \<longleftrightarrow> a k \<noteq> None" "db_rel db' (a(k := None))"
    using store.del_law [OF r o] by auto
  obtain rc where "db_del env db k = Some (rc, db')" "b = (rc = 0)"
    using d(1) by (auto simp: ddel_bool_def bind_eq_Some_conv)
  moreover have "holds env K db' (a(k := None))" using d(3) assms(1) by (auto simp: holds_def split: if_splits)
  ultimately show ?thesis using that [of rc db'] d(2) by simp
qed

lemma holds_get:
  assumes "holds env K db a" "k \<in> K" "length k < 2 ^ 61"
  shows "db_get env db k = Some (a k)" "a k = Some v \<Longrightarrow> length v < 2 ^ 61"
proof -
  have r: "malloc_fresh env \<and> told_apart K \<and> dom a \<subseteq> K \<and> db_rel db a" using assms(1) by (simp add: holds_def)
  have o: "op_key (MGet k) \<in> K \<and> op_size (MGet k) < 2 ^ 62" using assms(2,3) by (simp add: op_size_def)
  show "db_get env db k = Some (a k)" using store.look_law [OF r o] .
  show "a k = Some v \<Longrightarrow> length v < 2 ^ 61" using assms(1) by (simp add: holds_def)
qed

lemma length_trim_white: "length (trim_white s) \<le> length s"
  unfolding trim_white_def by (metis length_dropWhile_le length_rev order_trans)

lemma length_after_sp: "length (after_sp s) \<le> length s"
  unfolding after_sp_def by (metis diff_le_self le_trans length_drop length_dropWhile_le)

text \<open>
  A command: the store is updated as the answer says, and the client gets the answer, or its
  socket is marked as failed.
\<close>

definition executed :: "'w sys \<Rightarrow> bytes set \<Rightarrow> (bytes \<Rightarrow> bytes option) \<Rightarrow> client \<Rightarrow> request \<Rightarrow> cmd_result \<Rightarrow> bool" where
  "executed sys K a c req res \<longleftrightarrow>
    (\<exists>rc db' c' rsp a' p. res = Some (rc, db', c') \<and> answer a req rsp a' \<and> holds (sy_denv sys) K db' a' \<and>
      (p \<longleftrightarrow> snd_prompt c \<and> req \<noteq> ReqQuit) \<and> replied c (rsp @ [13, 10] @ (if p then [62, 32] else [])) p rc c')"

lemma reply_executed:
  assumes "rwbuf_inv (send_buf (cl_sock c))" "heap_env_ok (sy_heap sys)" "length rsp < 2 ^ 61"
    and "answer a req rsp a'" "holds (sy_denv sys) K db a'" "req \<noteq> ReqQuit"
  shows "executed sys K a c req (reply sys db c (Some rsp))"
proof -
  obtain rc c' where "reply sys db c (Some rsp) = Some (rc, db, c')"
    "replied c (rsp @ [13, 10] @ (if snd_prompt c then [62, 32] else [])) (snd_prompt c) rc c'"
    by (rule reply_replied [OF assms(1-3)])
  then show ?thesis unfolding executed_def using assms(4-6) by blast
qed

lemma cmd_set_executed:
  assumes "rwbuf_inv (send_buf (cl_sock c))" "heap_env_ok (sy_heap sys)" "holds (sy_denv sys) K db a"
    and "req = (let key = trim_white (before_sp (slice_bytes args)); val = trim_white (after_sp (slice_bytes args))
      in if key = [] \<or> val = [] then ReqFail else ReqSet key val)"
    and "req_keys req \<subseteq> K" "length (slice_bytes args) < 2 ^ 31"
  shows "executed sys K a c req (cmd_set sys db c args)"
proof -
  define key val where kv: "key = trim_white (before_sp (slice_bytes args))" "val = trim_white (after_sp (slice_bytes args))"
  obtain t r where "slice_splitch args 32 = (t, r)" by fastforce
  note sp = this slice_splitch_args [OF this]
  have eq: "cmd_set sys db c args =
    (if key = [] \<or> val = [] then reply sys db c (Some (ascii ''FAIL''))
     else do {
       (rc, db) \<leftarrow> db_set (sy_denv sys) db key val;
       reply sys db c (Some (if rc \<noteq> 0 then ascii ''FAIL'' else ascii ''OK''))
     })"
    unfolding cmd_set_def sp(1) by (simp add: slice_trim_bytes sp kv)
  show ?thesis
  proof (cases "key = [] \<or> val = []")
    case True
    then have "req = ReqFail" using assms(4) by (auto simp: kv)
    then show ?thesis unfolding eq using True assms(1-3) by (auto intro!: reply_executed)
  next
    case False
    then have req: "req = ReqSet key val" using assms(4) by (auto simp: kv)
    have l: "length key + length val < 2 ^ 61"
      using length_trim_white [of "before_sp (slice_bytes args)"] length_trim_white [of "after_sp (slice_bytes args)"]
        length_before_sp [of "slice_bytes args"] length_after_sp [of "slice_bytes args"] assms(6) by (simp add: kv)
    have k: "key \<in> K" using assms(5) req by simp
    obtain rc db' where d: "db_set (sy_denv sys) db key val = Some (rc, db')"
      "holds (sy_denv sys) K db' (if rc = 0 then a(key \<mapsto> val) else a)"
      by (rule holds_set [OF assms(3) k l])
    show ?thesis unfolding eq using False d req assms(1,2) by (auto intro!: reply_executed)
  qed
qed

lemma cmd_get_executed:
  assumes "rwbuf_inv (send_buf (cl_sock c))" "heap_env_ok (sy_heap sys)" "holds (sy_denv sys) K db a"
    and "slice_bytes key \<in> K" "length (slice_bytes key) < 2 ^ 31"
  shows "executed sys K a c (ReqGet (slice_bytes key)) (cmd_get sys db c key)"
proof -
  let ?k = "slice_bytes key"
  have l: "length ?k < 2 ^ 61" using assms(5) by simp
  note g = holds_get [OF assms(3,4) l]
  have "cmd_get sys db c key = reply sys db c (Some (case a ?k of None \<Rightarrow> ascii ''FAIL'' | Some v \<Rightarrow> v))"
    by (simp add: cmd_get_def g(1) split: option.split)
  moreover have "length (case a ?k of None \<Rightarrow> ascii ''FAIL'' | Some v \<Rightarrow> v) < 2 ^ 61" using g(2) by (simp split: option.split)
  ultimately show ?thesis using assms(1-3) by (auto intro!: reply_executed)
qed

lemma cmd_del_executed:
  assumes "rwbuf_inv (send_buf (cl_sock c))" "heap_env_ok (sy_heap sys)" "holds (sy_denv sys) K db a"
    and "req = (if slice_bytes key = [] then ReqFail else ReqDel (slice_bytes key))"
    and "req_keys req \<subseteq> K" "length (slice_bytes key) < 2 ^ 31"
  shows "executed sys K a c req (cmd_del sys db c key)"
proof (cases "slice_bytes key = []")
  case True
  then show ?thesis using assms(1-4) by (auto simp: cmd_del_def intro!: reply_executed)
next
  case False
  let ?k = "slice_bytes key"
  have k: "?k \<in> K" "length ?k < 2 ^ 61" using assms(4-6) False by simp_all
  obtain rc db' where d: "db_del (sy_denv sys) db ?k = Some (rc, db')" "rc = 0 \<longleftrightarrow> a ?k \<noteq> None"
    "holds (sy_denv sys) K db' (a(?k := None))"
    by (rule holds_del [OF assms(3) k])
  have "cmd_del sys db c key = reply sys db' c (Some (if a ?k = None then ascii ''FAIL'' else ascii ''OK''))"
    using False d(1,2) by (simp add: cmd_del_def)
  then show ?thesis using d(3) assms(1,2,4) False by (auto intro!: reply_executed)
qed

lemma cmd_quit_executed:
  assumes "rwbuf_inv (send_buf (cl_sock c))" "heap_env_ok (sy_heap sys)" "holds (sy_denv sys) K db a"
  shows "executed sys K a c ReqQuit (cmd_quit sys db c args)"
proof -
  obtain rc c1 where r: "send_rsp (sy_heap sys) (c\<lparr> snd_prompt := False \<rparr>) (Some (ascii ''OK'')) = (rc, c1)" by fastforce
  have "replied (c\<lparr> snd_prompt := False \<rparr>) (ascii ''OK'' @ [13, 10]) False rc c1"
    using send_rsp_replied [OF _ assms(2) _ r] assms(1) by simp
  then have "replied c (ascii ''OK'' @ [13, 10]) False rc (client_close c1 (rc = 0))"
    by (auto simp: replied_def same_input_def sent_by_def client_close_def sock_write_close_def Let_def)
  then show ?thesis unfolding executed_def cmd_quit_def using r assms(3) by auto
qed

lemma process_line_executed:
  assumes "rwbuf_inv (send_buf (cl_sock c))" "heap_env_ok (sy_heap sys)" "holds (sy_denv sys) K db a"
    and "req_keys (parse_request l) \<subseteq> K" "length l < 2 ^ 31"
  shows "executed sys K a c (parse_request l) (process_line sys db c (Some l))"
proof -
  obtain t r where "slice_splitch (Some l) 32 = (t, r)" by fastforce
  note sp = this slice_splitch_args [OF this] slice_splitch_sp [OF this]
  define name arg where d: "name = str_toupper (before_sp l)" "arg = slice_trim r"
  have ab: "slice_bytes arg = trim_white (after_sp l)" by (simp add: d slice_trim_bytes sp)
  have al: "length (slice_bytes arg) < 2 ^ 31" using length_trim_white [of "after_sp l"] length_after_sp [of l] assms(5) by (simp add: ab)
  have nl: "length (slice_bytes (Some name)) < 2 ^ 31" using length_before_sp [of l] assms(5) by (simp add: d)
  have "process_line sys db c (Some l) = snd (cli_cmds ! find_cli_cmd (Some name)) sys db c arg"
    using sp by (simp add: process_line_def slice_toupper_def d)
  also have "\<dots> = (if name = ascii ''SET'' then cmd_set sys db c arg else if name = ascii ''GET'' then cmd_get sys db c arg
      else if name = ascii ''DEL'' then cmd_del sys db c arg else if name = ascii ''QUIT'' then cmd_quit sys db c arg
      else cmd_unsupp sys db c arg)"
    by (simp add: find_cli_cmd_eq [OF nl] cli_cmds_def)
  finally have eq: "process_line sys db c (Some l) = \<dots>" .
  have p: "parse_request l = (if name = ascii ''SET'' then
          (let key = trim_white (before_sp (slice_bytes arg)); val = trim_white (after_sp (slice_bytes arg))
           in if key = [] \<or> val = [] then ReqFail else ReqSet key val)
        else if name = ascii ''GET'' then ReqGet (slice_bytes arg)
        else if name = ascii ''DEL'' then (if slice_bytes arg = [] then ReqFail else ReqDel (slice_bytes arg))
        else if name = ascii ''QUIT'' then ReqQuit
        else ReqUnsupp)"
    unfolding parse_request_def Let_def ab d(1) ..
  have u: "executed sys K a c ReqUnsupp (cmd_unsupp sys db c arg)"
    unfolding cmd_unsupp_def by (rule reply_executed [OF assms(1,2) _ _ assms(3)]) simp_all
  consider "name = ascii ''SET''" | "name \<noteq> ascii ''SET''" "name = ascii ''GET''"
    | "name \<noteq> ascii ''SET''" "name \<noteq> ascii ''GET''" "name = ascii ''DEL''"
    | "name \<noteq> ascii ''SET''" "name \<noteq> ascii ''GET''" "name \<noteq> ascii ''DEL''" by blast
  then show ?thesis
  proof cases
    case 1
    show ?thesis unfolding eq using 1 assms(4) cmd_set_executed [OF assms(1-3) _ _ al, of "parse_request l"] p by simp
  next
    case 2
    show ?thesis unfolding eq using 2 assms(4) cmd_get_executed [OF assms(1-3) _ al] p by simp
  next
    case 3
    show ?thesis unfolding eq using 3 assms(4) cmd_del_executed [OF assms(1-3) _ _ al, of "parse_request l"] p by simp
  next
    case 4
    show ?thesis unfolding eq using 4 cmd_quit_executed [OF assms(1-3)] u p by simp
  qed
qed

section \<open>Lines\<close>

text \<open>The complete lines of a text without their terminators, and what follows the last of them.\<close>

function split_lines :: "bytes \<Rightarrow> bytes list \<times> bytes" where
  "split_lines c =
    (case memchr c 10 of
       None \<Rightarrow> ([], c)
     | Some i \<Rightarrow> (case split_lines (drop (i + 1) c) of (ls, rest) \<Rightarrow> (strip_cr (take i c) # ls, rest)))"
  by pat_completeness auto
termination by (relation "measure length") (auto dest: memchr_SomeD)

declare split_lines.simps [simp del]

lemma memchr_append: "memchr c x = Some i \<Longrightarrow> memchr (c @ d) x = Some i"
  by (induction c arbitrary: i) (auto split: if_splits)

lemma split_lines_append:
  assumes "split_lines c = (ls, rest)" "split_lines (rest @ d) = (ls', rest')"
  shows "split_lines (c @ d) = (ls @ ls', rest')"
  using assms
proof (induction c arbitrary: ls rule: split_lines.induct)
  case (1 c)
  show ?case
  proof (cases "memchr c 10")
    case None
    then show ?thesis using 1(2,3) by (simp add: split_lines.simps [of c])
  next
    case (Some i)
    obtain ls1 where ls1: "split_lines (drop (i + 1) c) = (ls1, rest)" "ls = strip_cr (take i c) # ls1"
      using 1(2) Some by (auto simp: split_lines.simps [of c] split: prod.splits)
    have i: "i < length c" using memchr_SomeD [OF Some] by simp
    have "split_lines (drop (i + 1) c @ d) = (ls1 @ ls', rest')" using 1(1) [OF Some ls1(1) 1(3)] .
    then show ?thesis
      using i ls1(2) by (subst split_lines.simps) (simp add: memchr_append [OF Some])
  qed
qed

lemma split_lines_no_nl: "split_lines c = (ls, rest) \<Longrightarrow> 10 \<notin> set rest"
proof (induction c arbitrary: ls rule: split_lines.induct)
  case (1 c)
  then show ?case
    by (cases "memchr c 10") (auto simp: split_lines.simps [of c] memchr_None split: prod.splits)
qed

lemma split_lines_rest: "split_lines c = (ls, rest) \<Longrightarrow> split_lines rest = ([], rest)"
  using split_lines_no_nl [of c ls rest] memchr_None [of rest 10] by (subst split_lines.simps) simp

lemma length_strip_cr: "length (strip_cr l) \<le> length l"
  by (simp add: strip_cr_def)

text \<open>A buffer in which the next block can be received without making space.\<close>

lemma rwbuf_readline_frame:
  assumes "rwbuf_inv buf" "rb_size buf < 2 ^ 31" "rwbuf_readline buf maxlen flags = (rc, line, buf')"
  shows "rb_size buf' = rb_size buf" "rc = 0 \<Longrightarrow> rb_ridx buf' = 0"
proof -
  let ?str = "segment (rb_mem buf) (rb_ridx buf) (rb_ridx buf + rwbuf_used buf)"
  have c: "?str = rwbuf_content buf" using assms(1) rwbuf_invD(1) [OF assms(1)] by (simp add: rwbuf_content_def)
  have p: "rb_size (rwbuf_poke b n d) = rb_size b" for b n d by (simp add: rwbuf_poke_def)
  show "rb_size buf' = rb_size buf"
    using assms(3) by (auto simp: rwbuf_readline_def Let_def p split: option.splits if_splits)
  show "rb_ridx buf' = 0" if "rc = 0"
  proof (cases "memchr (rwbuf_content buf) 10")
    case None
    then show ?thesis using assms(3) that by (auto simp: rwbuf_readline_def Let_def c split: if_splits)
  next
    case (Some i)
    then show ?thesis
      using rwbuf_readline_refines(2) [OF assms] that by (auto simp: readline_spec_def Let_def split: if_splits)
  qed
qed

text \<open>
  \<open>lines_of\<close>: the lines that \<open>line_loop\<close> finds in a text; at the end of the stream the rest is a
  line too, unless it is empty.
\<close>

definition lines_of :: "bytes \<Rightarrow> bool \<Rightarrow> bytes list" where
  "lines_of c eof = (case split_lines c of (ls, rest) \<Rightarrow> if eof \<and> rest \<noteq> [] then ls @ [rest] else ls)"

definition rest_of :: "bytes \<Rightarrow> bool \<Rightarrow> bytes" where
  "rest_of c eof = (if eof then [] else snd (split_lines c))"

lemma readline_lines:
  assumes "readline_spec c maxlen eof = (rc, line, c')"
  shows "rc = -1 \<or> (\<exists>l. rc > 0 \<and> line = Some l \<and> lines_of c eof = l # lines_of c' eof \<and> rest_of c eof = rest_of c' eof \<and>
      length c' < length c \<and> length l \<le> length c) \<or> (rc = 0 \<and> lines_of c eof = [] \<and> c' = rest_of c eof \<and> (maxlen \<noteq> 0 \<longrightarrow> length c' \<le> maxlen))"
proof (cases "memchr c 10")
  case (Some i)
  have i: "i < length c" using memchr_SomeD [OF Some] by simp
  have l: "lines_of c eof = strip_cr (take i c) # lines_of (drop (i + 1) c) eof" "rest_of c eof = rest_of (drop (i + 1) c) eof"
    unfolding lines_of_def rest_of_def by (subst split_lines.simps, simp add: Some split: prod.split)+
  have "(rc, line, c') = (if maxlen \<noteq> 0 \<and> length (strip_cr (take i c)) > maxlen then -1 else int (i + 1),
      Some (strip_cr (take i c)), drop (i + 1) c)"
    using assms Some by (simp add: readline_spec_def Let_def)
  moreover have "length (strip_cr (take i c)) \<le> length c" using length_strip_cr [of "take i c"] i by simp
  ultimately show ?thesis using l i by auto
next
  case None
  have l: "lines_of c eof = (if eof \<and> c \<noteq> [] then [c] else [])" "rest_of c eof = (if eof then [] else c)"
    unfolding lines_of_def rest_of_def by (subst split_lines.simps, simp add: None)+
  have e: "lines_of [] x = []" "rest_of [] x = []" for x
    unfolding lines_of_def rest_of_def by (subst split_lines.simps, simp)+
  show ?thesis using assms None by (auto simp: readline_spec_def l e split: if_splits)
qed

lemma lines_of_append:
  shows "lines_of (c @ d) eof = lines_of c False @ lines_of (rest_of c False @ d) eof"
    "rest_of (c @ d) eof = rest_of (rest_of c False @ d) eof"
proof -
  obtain ls r ls' r' where s: "split_lines c = (ls, r)" "split_lines (r @ d) = (ls', r')" by (meson surj_pair)
  have "split_lines (c @ d) = (ls @ ls', r')" by (rule split_lines_append [OF s])
  then show "lines_of (c @ d) eof = lines_of c False @ lines_of (rest_of c False @ d) eof"
    "rest_of (c @ d) eof = rest_of (rest_of c False @ d) eof"
    using s by (simp_all add: lines_of_def rest_of_def)
qed

lemma lines_of_no_nl: "10 \<notin> set c \<Longrightarrow> lines_of c eof = (if eof \<and> c \<noteq> [] then [c] else [])" "10 \<notin> set c \<Longrightarrow> rest_of c False = c"
  using memchr_None [of c 10] unfolding lines_of_def rest_of_def by (subst split_lines.simps, simp)+

lemma lines_of_append_eof:
  assumes "eof \<longrightarrow> d = []"
  shows "lines_of (c @ d) (eof \<or> eof') = lines_of c eof @ lines_of (rest_of c eof @ d) eof'"
    "rest_of (c @ d) (eof \<or> eof') = rest_of (rest_of c eof @ d) eof'"
proof (atomize(full), cases eof)
  case True
  have "rest_of [] eof' = []" "rest_of c True = []" by (simp_all add: rest_of_def split_lines.simps)
  then show "lines_of (c @ d) (eof \<or> eof') = lines_of c eof @ lines_of (rest_of c eof @ d) eof' \<and>
      rest_of (c @ d) (eof \<or> eof') = rest_of (rest_of c eof @ d) eof'"
    using True assms by (simp add: lines_of_no_nl)
next
  case False
  then show "lines_of (c @ d) (eof \<or> eof') = lines_of c eof @ lines_of (rest_of c eof @ d) eof' \<and>
      rest_of (c @ d) (eof \<or> eof') = rest_of (rest_of c eof @ d) eof'"
    using lines_of_append [of c d eof'] by simp
qed

lemma rest_no_nl: "10 \<notin> set (rest_of c eof)"
  using split_lines_no_nl [of c] by (cases "split_lines c") (auto simp: rest_of_def)

section \<open>The lines of a buffer\<close>

text \<open>The part of a client that neither the lines nor their answers change.\<close>

definition same_limits :: "client \<Rightarrow> client \<Rightarrow> bool" where
  "same_limits c c' \<longleftrightarrow> max_line (cl_sock c') = max_line (cl_sock c) \<and> min_size (cl_sock c') = min_size (cl_sock c) \<and>
    sk_fd (cl_sock c') = sk_fd (cl_sock c) \<and> sk_mode (cl_sock c') = sk_mode (cl_sock c) \<and>
    rb_size (recv_buf (cl_sock c')) = rb_size (recv_buf (cl_sock c))"

definition client_ok :: "client \<Rightarrow> bool" where
  "client_ok c \<longleftrightarrow> rwbuf_inv (send_buf (cl_sock c)) \<and> rwbuf_inv (recv_buf (cl_sock c)) \<and> rb_size (recv_buf (cl_sock c)) < 2 ^ 31"

definition received :: "client \<Rightarrow> bytes" where
  "received c = rwbuf_content (recv_buf (cl_sock c))"

text \<open>
  The result of handling \<open>lines\<close>: all of them are executed, with their answers in the send buffer
  and \<open>rest\<close> in the receive buffer, or some first lines are executed and the socket is marked as
  failed.
\<close>

definition completed :: "'w sys \<Rightarrow> bytes set \<Rightarrow> (bytes \<Rightarrow> bytes option) \<Rightarrow> client \<Rightarrow> bytes list \<Rightarrow> bytes \<Rightarrow> db \<Rightarrow> client \<Rightarrow>
    (bytes \<Rightarrow> bytes option) \<Rightarrow> bool" where
  "completed sys K a c lines rest db' c' a' \<longleftrightarrow>
    holds (sy_denv sys) K db' a' \<and> client_ok c' \<and> same_limits c c' \<and> received c' = rest \<and>
    (\<exists>out. session a (snd_prompt c) lines out a' (snd_prompt c') \<and> sent_by c' = sent_by c @ out)"

definition stopped :: "'w sys \<Rightarrow> bytes set \<Rightarrow> (bytes \<Rightarrow> bytes option) \<Rightarrow> client \<Rightarrow> bytes list \<Rightarrow> db \<Rightarrow> client \<Rightarrow>
    (bytes \<Rightarrow> bytes option) \<Rightarrow> bool" where
  "stopped sys K a c lines db' c' a' \<longleftrightarrow>
    holds (sy_denv sys) K db' a' \<and> client_ok c' \<and> same_limits c c' \<and> sys_err (cl_sock c') \<and>
    (\<exists>n out p'. session a (snd_prompt c) (take n lines) out a' p')"

lemma completed_stopped:
  assumes "completed sys K a c lines rest db' c' a'" "sys_err (cl_sock c')"
  shows "stopped sys K a c (lines @ ls) db' c' a'"
proof -
  obtain out where "session a (snd_prompt c) lines out a' (snd_prompt c')" using assms(1) unfolding completed_def by blast
  then have "session a (snd_prompt c) (take (length lines) (lines @ ls)) out a' (snd_prompt c')" by simp
  then show ?thesis using assms unfolding completed_def stopped_def by blast
qed

lemma completed_trans:
  assumes "completed sys K a c ls rest db1 c1 a1" "completed sys K a1 c1 ls' rest' db2 c2 a2"
  shows "completed sys K a c (ls @ ls') rest' db2 c2 a2"
proof -
  obtain out out' where o: "session a (snd_prompt c) ls out a1 (snd_prompt c1)" "sent_by c1 = sent_by c @ out"
    "session a1 (snd_prompt c1) ls' out' a2 (snd_prompt c2)" "sent_by c2 = sent_by c1 @ out'"
    using assms unfolding completed_def by blast
  have "\<exists>out. session a (snd_prompt c) (ls @ ls') out a2 (snd_prompt c2) \<and> sent_by c2 = sent_by c @ out"
    using session_append [OF o(1,3)] o(2,4) by (intro exI [of _ "out @ out'"]) simp
  then show ?thesis using assms unfolding completed_def same_limits_def by simp
qed

lemma completed_stopped_trans:
  assumes "completed sys K a c ls rest db1 c1 a1" "stopped sys K a1 c1 ls' db2 c2 a2"
  shows "stopped sys K a c (ls @ ls') db2 c2 a2"
proof -
  obtain out n out' p' where o: "session a (snd_prompt c) ls out a1 (snd_prompt c1)" "session a1 (snd_prompt c1) (take n ls') out' a2 p'"
    using assms unfolding completed_def stopped_def by blast
  have "session a (snd_prompt c) (take (length ls + n) (ls @ ls')) (out @ out') a2 p'" using session_append [OF o] by simp
  then have "\<exists>n out p'. session a (snd_prompt c) (take n (ls @ ls')) out a2 p'" by blast
  then show ?thesis using assms unfolding completed_def stopped_def same_limits_def by simp
qed

lemma stopped_append:
  assumes "stopped sys K a c lines db' c' a'"
  shows "stopped sys K a c (lines @ ls) db' c' a'"
proof -
  obtain n out p' where "session a (snd_prompt c) (take n lines) out a' p'" using assms unfolding stopped_def by blast
  moreover have "take (min n (length lines)) (lines @ ls) = take n lines" by (simp add: min_def)
  ultimately have "\<exists>n out p'. session a (snd_prompt c) (take n (lines @ ls)) out a' p'" by metis
  then show ?thesis using assms unfolding stopped_def by blast
qed

lemma sock_recv_line_step:
  assumes "client_ok c" "sock_recv_line (cl_sock c) eof = (rc, line, sock)"
  defines "c1 \<equiv> c\<lparr> cl_sock := sock \<rparr>"
  shows "client_ok c1" "same_limits c c1" "snd_prompt c1 = snd_prompt c" "sent_by c1 = sent_by c"
    "rc < 0 \<Longrightarrow> sys_err (cl_sock c1)" "\<not> rc < 0 \<Longrightarrow> sys_err (cl_sock c1) = sys_err (cl_sock c)"
    "rc = 0 \<Longrightarrow> rb_ridx (recv_buf (cl_sock c1)) = 0"
    "rc < 0 \<or> (\<exists>l. rc > 0 \<and> line = Some l \<and> lines_of (received c) eof = l # lines_of (received c1) eof \<and>
        rest_of (received c) eof = rest_of (received c1) eof \<and> length (received c1) < length (received c) \<and> length l < 2 ^ 31) \<or>
     (rc = 0 \<and> lines_of (received c) eof = [] \<and> received c1 = rest_of (received c) eof \<and>
        (max_line (cl_sock c) \<noteq> 0 \<longrightarrow> length (received c1) \<le> max_line (cl_sock c)))"
    "recv_fin (cl_sock c1) = recv_fin (cl_sock c)"
proof -
  let ?fl = "if eof then RWBUF_NOLOG OR RWBUF_EOF else RWBUF_NOLOG"
  have inv: "rwbuf_inv (recv_buf (cl_sock c))" "rb_size (recv_buf (cl_sock c)) < 2 ^ 31" using assms(1) by (simp_all add: client_ok_def)
  obtain rc0 b where r: "rwbuf_readline (recv_buf (cl_sock c)) (max_line (cl_sock c)) ?fl = (rc0, line, b)"
    using assms(2) by (auto simp: sock_recv_line_def Let_def split: prod.splits if_splits)
  have e: "rc = (if rc0 < 0 then -1 else rc0)" "sock = (if rc0 < 0 then (cl_sock c)\<lparr> recv_buf := b, sys_err := True \<rparr> else (cl_sock c)\<lparr> recv_buf := b \<rparr>)"
    using assms(2) r by (auto simp: sock_recv_line_def Let_def split: if_splits)
  have f: "(?fl AND RWBUF_EOF \<noteq> 0) = eof" by (simp add: RWBUF_EOF_def RWBUF_NOLOG_def)
  note rl = rwbuf_readline_refines [OF inv r, unfolded f] and fr = rwbuf_readline_frame [OF inv r]
  show "client_ok c1" "same_limits c c1" "snd_prompt c1 = snd_prompt c" "sent_by c1 = sent_by c"
    using assms(1) rl(1) fr(1) by (simp_all add: c1_def e client_ok_def same_limits_def sent_by_def)
  show "rc < 0 \<Longrightarrow> sys_err (cl_sock c1)" "\<not> rc < 0 \<Longrightarrow> sys_err (cl_sock c1) = sys_err (cl_sock c)"
    "rc = 0 \<Longrightarrow> rb_ridx (recv_buf (cl_sock c1)) = 0" "recv_fin (cl_sock c1) = recv_fin (cl_sock c)"
    using fr(2) by (auto simp: c1_def e split: if_splits)
  have rcv: "received c1 = rwbuf_content b" "rwbuf_content (recv_buf (cl_sock c)) = received c" by (simp_all add: received_def c1_def e)
  have "length (received c) < 2 ^ 31" using inv length_content [OF inv(1)] rwbuf_invD [OF inv(1)] by (simp add: received_def)
  then show "rc < 0 \<or> (\<exists>l. rc > 0 \<and> line = Some l \<and> lines_of (received c) eof = l # lines_of (received c1) eof \<and>
        rest_of (received c) eof = rest_of (received c1) eof \<and> length (received c1) < length (received c) \<and> length l < 2 ^ 31) \<or>
     (rc = 0 \<and> lines_of (received c) eof = [] \<and> received c1 = rest_of (received c) eof \<and>
        (max_line (cl_sock c) \<noteq> 0 \<longrightarrow> length (received c1) \<le> max_line (cl_sock c)))"
    using readline_lines [OF rl(2) [symmetric]] rcv e(1) by auto
qed

lemma process_line_handled:
  assumes "client_ok c" "heap_env_ok (sy_heap sys)" "holds (sy_denv sys) K db a"
    and "req_keys (parse_request l) \<subseteq> K" "length l < 2 ^ 31"
  obtains rc db' c' a' where "process_line sys db c (Some l) = Some (rc, db', c')" "same_input c c'"
    "rc = 0 \<and> completed sys K a c [l] (received c) db' c' a' \<and> sys_err (cl_sock c') = sys_err (cl_sock c) \<or>
     rc = -1 \<and> stopped sys K a c [l] db' c' a'"
proof -
  have inv: "rwbuf_inv (send_buf (cl_sock c))" using assms(1) by (simp add: client_ok_def)
  from process_line_executed [OF inv assms(2-5)] obtain rc db' c' rsp a' p where e:
    "process_line sys db c (Some l) = Some (rc, db', c')" "answer a (parse_request l) rsp a'" "holds (sy_denv sys) K db' a'"
    "p \<longleftrightarrow> snd_prompt c \<and> parse_request l \<noteq> ReqQuit" "replied c (rsp @ [13, 10] @ (if p then [62, 32] else [])) p rc c'"
    unfolding executed_def by blast
  let ?out = "rsp @ [13, 10] @ (if p then [62, 32] else [])"
  have s: "session a (snd_prompt c) [l] ?out a' p" using session_Cons [OF e(2,4) session_Nil] by simp
  then have s1: "session a (snd_prompt c) (take 1 [l]) ?out a' p" by simp
  have si: "same_input c c'" "client_ok c'" using e(5) assms(1) by (auto simp: replied_def same_input_def client_ok_def)
  then have sl: "same_limits c c'" "received c' = received c" by (simp_all add: same_input_def same_limits_def received_def)
  have "rc = 0 \<and> completed sys K a c [l] (received c) db' c' a' \<and> sys_err (cl_sock c') = sys_err (cl_sock c) \<or>
     rc = -1 \<and> stopped sys K a c [l] db' c' a'"
  proof (cases "rc = 0")
    case True
    then have "sys_err (cl_sock c') = sys_err (cl_sock c)" "sent_by c' = sent_by c @ ?out" "snd_prompt c' = p"
      using e(5) by (auto simp: replied_def)
    then show ?thesis unfolding completed_def using True e(3) si sl s by blast
  next
    case False
    then have "rc = -1" "sys_err (cl_sock c')" using e(5) by (auto simp: replied_def)
    then show ?thesis unfolding stopped_def using e(3) si sl s1 by blast
  qed
  then show ?thesis by (rule that [OF e(1) si(1)])
qed

text \<open>
  The loop over the lines of the buffer ends, with the lines handled.  When it stops early the
  socket is marked as failed; otherwise what is left of the buffer starts at its beginning.
\<close>

lemma line_loop_handled:
  assumes "client_ok c" "heap_env_ok (sy_heap sys)" "holds (sy_denv sys) K db a"
    and "\<forall>l \<in> set (lines_of (received c) eof). req_keys (parse_request l) \<subseteq> K"
  shows "\<exists>rc db' c' a'. line_loop sys db c eof = Some (rc, db', c') \<and> recv_fin (cl_sock c') = recv_fin (cl_sock c) \<and>
    (rc = -1 \<and> stopped sys K a c (lines_of (received c) eof) db' c' a' \<or>
     rc = 0 \<and> completed sys K a c (lines_of (received c) eof) (rest_of (received c) eof) db' c' a' \<and>
      sys_err (cl_sock c') = sys_err (cl_sock c) \<and> rb_ridx (recv_buf (cl_sock c')) = 0 \<and>
      (max_line (cl_sock c) \<noteq> 0 \<longrightarrow> length (received c') \<le> max_line (cl_sock c)))"
  using assms(1,3-)
proof (induction "length (received c)" arbitrary: c db a rule: less_induct)
  case less
  obtain rc line sock where r: "sock_recv_line (cl_sock c) eof = (rc, line, sock)" by (metis prod_cases3)
  define c1 where "c1 = c\<lparr> cl_sock := sock \<rparr>"
  note st = sock_recv_line_step [OF less.prems(1) r, folded c1_def]
  have unfold: "line_loop sys db c eof =
    (if rc > 0 then Option.bind (process_line sys db c1 line) (\<lambda>(rc, db, client).
           if rc \<noteq> 0 then Some (rc, db, client) else line_loop sys db client eof)
     else Some (rc, db, c1))"
    by (subst line_loop.simps) (simp add: r c1_def Let_def)
  have h0: "completed sys K a c [] (received c1) db c1 a"
    unfolding completed_def using session_Nil st(1-4) less.prems(2) by auto
  consider "rc < 0" | l where "rc > 0" "line = Some l" "lines_of (received c) eof = l # lines_of (received c1) eof"
      "rest_of (received c) eof = rest_of (received c1) eof" "length (received c1) < length (received c)" "length l < 2 ^ 31"
    | "rc = 0" "lines_of (received c) eof = []" "received c1 = rest_of (received c) eof"
      "max_line (cl_sock c) \<noteq> 0 \<longrightarrow> length (received c1) \<le> max_line (cl_sock c)"
    using st(8) by blast
  then show ?case
  proof cases
    case 1
    have m1: "rc = -1" using r 1 by (auto simp: sock_recv_line_def Let_def split: prod.splits if_splits)
    have "stopped sys K a c ([] @ lines_of (received c) eof) db c1 a" by (rule completed_stopped [OF h0 st(5) [OF 1]])
    then show ?thesis using unfold 1 m1 st(9) by (intro exI [of _ rc] exI [of _ db] exI [of _ c1] exI [of _ a]) simp
  next
    case 3
    then show ?thesis
      using unfold h0 st(6,7,9) by (intro exI [of _ 0] exI [of _ db] exI [of _ c1] exI [of _ a]) simp
  next
    case (2 l)
    have keys: "req_keys (parse_request l) \<subseteq> K" using less.prems(3) 2(3) by simp
    obtain rc2 db2 c2 a2 where p: "process_line sys db c1 (Some l) = Some (rc2, db2, c2)" "same_input c1 c2"
      "rc2 = 0 \<and> completed sys K a c1 [l] (received c1) db2 c2 a2 \<and> sys_err (cl_sock c2) = sys_err (cl_sock c1) \<or>
       rc2 = -1 \<and> stopped sys K a c1 [l] db2 c2 a2"
      by (rule process_line_handled [OF st(1) assms(2) less.prems(2) keys 2(6)])
    have si: "received c2 = received c1" "recv_fin (cl_sock c2) = recv_fin (cl_sock c)" "max_line (cl_sock c2) = max_line (cl_sock c)"
      using p(2) st(2,9) by (simp_all add: same_input_def received_def same_limits_def)
    show ?thesis
    proof (cases "rc2 = 0")
      case False
      have "line_loop sys db c eof = Some (-1, db2, c2)" using unfold p False 2 by simp
      moreover have "stopped sys K a c ([] @ [l] @ lines_of (received c1) eof) db2 c2 a2"
        using p(3) False by (intro completed_stopped_trans [OF h0] stopped_append) simp
      ultimately show ?thesis using si(2) 2(3) by (intro exI [of _ "-1"] exI [of _ db2] exI [of _ c2] exI [of _ a2]) simp
    next
      case True
      have ll: "line_loop sys db c eof = line_loop sys db2 c2 eof" using unfold p True 2 by simp
      have c2: "completed sys K a c1 [l] (received c1) db2 c2 a2" "sys_err (cl_sock c2) = sys_err (cl_sock c)" using p(3) True st(6) 2(1) by auto
      then have h1: "completed sys K a c [l] (received c1) db2 c2 a2" using completed_trans [OF h0] by fastforce
      have ok: "client_ok c2" "holds (sy_denv sys) K db2 a2" using h1 by (simp_all add: completed_def)
      have "length (received c2) < length (received c)" "\<forall>l\<in>set (lines_of (received c2) eof). req_keys (parse_request l) \<subseteq> K"
        using 2(3,5) si less.prems(3) by simp_all
      from less.hyps [OF this(1) ok this(2)] obtain rc3 db3 c3 a3 where r3: "line_loop sys db2 c2 eof = Some (rc3, db3, c3)"
        "recv_fin (cl_sock c3) = recv_fin (cl_sock c2)"
        "rc3 = -1 \<and> stopped sys K a2 c2 (lines_of (received c2) eof) db3 c3 a3 \<or>
         rc3 = 0 \<and> completed sys K a2 c2 (lines_of (received c2) eof) (rest_of (received c2) eof) db3 c3 a3 \<and>
          sys_err (cl_sock c3) = sys_err (cl_sock c2) \<and> rb_ridx (recv_buf (cl_sock c3)) = 0 \<and>
          (max_line (cl_sock c2) \<noteq> 0 \<longrightarrow> length (received c3) \<le> max_line (cl_sock c2))" by blast
      have "lines_of (received c) eof = [l] @ lines_of (received c2) eof" "rest_of (received c) eof = rest_of (received c2) eof"
        using 2(3,4) si(1) by simp_all
      then show ?thesis unfolding ll r3(1) using r3(2,3) si(2,3) c2(2) completed_trans [OF h1] completed_stopped_trans [OF h1]
        by (intro exI [of _ rc3] exI [of _ db3] exI [of _ c3] exI [of _ a3]) auto
    qed
  qed
qed

section \<open>The input of a client\<close>

text \<open>
  Between events: what is left in the receive buffer is an unfinished line at its beginning, and
  the rest of the buffer is large enough for a block.
\<close>

definition client_ready :: "client \<Rightarrow> bool" where
  "client_ready c \<longleftrightarrow> client_ok c \<and> rb_ridx (recv_buf (cl_sock c)) = 0 \<and> max_line (cl_sock c) \<noteq> 0 \<and>
    length (received c) \<le> max_line (cl_sock c) \<and> 10 \<notin> set (received c) \<and>
    max_line (cl_sock c) + min_size (cl_sock c) \<le> rb_size (recv_buf (cl_sock c))"

lemma sock_recv_step:
  assumes "read_law inp (sk_fd (cl_sock c)) os" "client_ready c" "sock_recv env os w (cl_sock c) = (rc, sock, w1)"
  defines "c1 \<equiv> c\<lparr> cl_sock := sock \<rparr>"
  obtains d where "inp w = d @ inp w1" "client_ok c1" "same_limits c c1" "snd_prompt c1 = snd_prompt c" "sent_by c1 = sent_by c"
    "received c1 = received c @ d" "if d \<noteq> [] then rc = SOCK_DATA else rc \<le> 0"
    "recv_fin (cl_sock c1) \<longrightarrow> recv_fin (cl_sock c) \<or> inp w1 = []" "sys_err (cl_sock c) \<longrightarrow> rc = SOCK_ERROR \<and> sys_err (cl_sock c1)"
    "d = [] \<Longrightarrow> rb_ridx (recv_buf (cl_sock c1)) = 0"
proof -
  have ok: "client_ok c" "rwbuf_inv (recv_buf (cl_sock c))" using assms(2) by (simp_all add: client_ready_def client_ok_def)
  have sp: "min_size (cl_sock c) \<le> rwbuf_space (recv_buf (cl_sock c))"
    using assms(2) ok(2) length_content [OF ok(2)] by (auto simp: client_ready_def received_def)
  obtain d b f s where d: "inp w = d @ inp w1" "rwbuf_inv (recv_buf sock)"
    "rwbuf_content (recv_buf sock) = rwbuf_content (recv_buf (cl_sock c)) @ d" "if d \<noteq> [] then rc = SOCK_DATA else rc \<le> 0"
    "sock = (cl_sock c)\<lparr> sys_err := b, recv_fin := f, recv_buf := s \<rparr>" "rb_size (recv_buf sock) = rb_size (recv_buf (cl_sock c))"
    "recv_fin sock \<longrightarrow> recv_fin (cl_sock c) \<or> inp w1 = []" "sys_err (cl_sock c) \<longrightarrow> rc = SOCK_ERROR \<and> sys_err sock"
    "d = [] \<longrightarrow> recv_buf sock = recv_buf (cl_sock c)"
    using sock_recv_stream [OF assms(1) ok(2) sp assms(3)] by blast
  show ?thesis
    by (rule that [of d]) (use d ok assms(2) in \<open>simp_all add: c1_def client_ok_def same_limits_def received_def sent_by_def client_ready_def\<close>)
qed

text \<open>One round of the loop that receives something.\<close>

lemma recv_round:
  assumes "client_ready c" "heap_env_ok (sy_heap sys)" "holds (sy_denv sys) K db a" "read_law inp (sk_fd (cl_sock c)) (sy_os sys)"
    and "\<forall>l \<in> set (lines_of (received c @ inp w) True). req_keys (parse_request l) \<subseteq> K" "recv_fin (cl_sock c) \<longrightarrow> inp w = []"
    and "sock_recv (sy_heap sys) (sy_os sys) w (cl_sock c) = (SOCK_DATA, sock, w1)"
  obtains d rc db' c' a' where "inp w = d @ inp w1" "d \<noteq> []" "recv_fin sock \<longrightarrow> inp w1 = []" "recv_fin (cl_sock c') = recv_fin sock"
    "line_loop sys db (c\<lparr> cl_sock := sock \<rparr>) (sock_iseof sock) = Some (rc, db', c')"
    "rc = -1 \<and> stopped sys K a c (lines_of (received c @ d) (recv_fin sock)) db' c' a' \<or>
     rc = 0 \<and> completed sys K a c (lines_of (received c @ d) (recv_fin sock)) (rest_of (received c @ d) (recv_fin sock)) db' c' a' \<and>
      client_ready c' \<and> (\<forall>l \<in> set (lines_of (received c' @ inp w1) True). req_keys (parse_request l) \<subseteq> K)"
proof -
  define c1 where "c1 = c\<lparr> cl_sock := sock \<rparr>"
  let ?eof = "recv_fin sock"
  obtain d where d: "inp w = d @ inp w1" "client_ok c1" "same_limits c c1" "snd_prompt c1 = snd_prompt c" "sent_by c1 = sent_by c"
    "received c1 = received c @ d" "if d \<noteq> [] then SOCK_DATA = SOCK_DATA else SOCK_DATA \<le> 0"
    "recv_fin (cl_sock c1) \<longrightarrow> recv_fin (cl_sock c) \<or> inp w1 = []"
    by (rule sock_recv_step [OF assms(4,1,7), folded c1_def]) blast
  have h0: "completed sys K a c [] (received c1) db c1 a"
    unfolding completed_def using session_Nil d(2-5) assms(3) by auto
  have ne: "d \<noteq> []" using d(7) by (auto simp: sock_codes)
  have eofw: "?eof \<longrightarrow> inp w1 = []" using d(8) assms(6) ne d(1) by (auto simp: c1_def)
  have all: "lines_of (received c @ inp w) True = lines_of (received c1) ?eof @ lines_of (rest_of (received c1) ?eof @ inp w1) True"
    using lines_of_append_eof(1) [OF eofw, where c = "received c1" and eof' = True] d(1,6) by simp
  have keys: "\<forall>l \<in> set (lines_of (received c1) ?eof). req_keys (parse_request l) \<subseteq> K" using all assms(5) by simp
  obtain rc2 db2 c2 a2 where l2: "line_loop sys db c1 ?eof = Some (rc2, db2, c2)" "recv_fin (cl_sock c2) = ?eof"
    "rc2 = -1 \<and> stopped sys K a c1 (lines_of (received c1) ?eof) db2 c2 a2 \<or>
     rc2 = 0 \<and> completed sys K a c1 (lines_of (received c1) ?eof) (rest_of (received c1) ?eof) db2 c2 a2 \<and>
      sys_err (cl_sock c2) = sys_err (cl_sock c1) \<and> rb_ridx (recv_buf (cl_sock c2)) = 0 \<and>
      (max_line (cl_sock c1) \<noteq> 0 \<longrightarrow> length (received c2) \<le> max_line (cl_sock c1))"
    using line_loop_handled [OF d(2) assms(2,3) keys] by (auto simp: c1_def)
  have "rc2 = -1 \<and> stopped sys K a c (lines_of (received c @ d) ?eof) db2 c2 a2 \<or>
     rc2 = 0 \<and> completed sys K a c (lines_of (received c @ d) ?eof) (rest_of (received c @ d) ?eof) db2 c2 a2 \<and>
      client_ready c2 \<and> (\<forall>l \<in> set (lines_of (received c2 @ inp w1) True). req_keys (parse_request l) \<subseteq> K)"
  proof (cases "rc2 = 0")
    case False
    have "stopped sys K a c ([] @ lines_of (received c1) ?eof) db2 c2 a2" using l2(3) False by (intro completed_stopped_trans [OF h0]) simp
    then show ?thesis using l2(3) False d(6) by simp
  next
    case True
    have "completed sys K a c ([] @ lines_of (received c1) ?eof) (rest_of (received c1) ?eof) db2 c2 a2"
      using l2(3) True by (intro completed_trans [OF h0]) simp
    then have h2: "completed sys K a c (lines_of (received c @ d) ?eof) (rest_of (received c @ d) ?eof) db2 c2 a2" by (simp add: d(6))
    then have "client_ready c2"
      using assms(1) l2(3) True d(3,6) rest_no_nl [of "received c1" ?eof] by (auto simp: client_ready_def same_limits_def completed_def)
    moreover have "\<forall>l \<in> set (lines_of (received c2 @ inp w1) True). req_keys (parse_request l) \<subseteq> K"
      using all assms(5) h2 d(6) by (simp add: completed_def)
    ultimately show ?thesis using h2 True by blast
  qed
  from that [OF d(1) ne _ l2(2) _ this] show ?thesis using eofw l2(1) by (simp add: sock_iseof_def c1_def)
qed

lemma recv_loop_handled:
  assumes "client_ready c" "heap_env_ok (sy_heap sys)" "holds (sy_denv sys) K db a" "read_law inp (sk_fd (cl_sock c)) (sy_os sys)"
    and "\<forall>l \<in> set (lines_of (received c @ inp w) True). req_keys (parse_request l) \<subseteq> K"
    and "recv_fin (cl_sock c) \<longrightarrow> inp w = []"
  shows "\<exists>rc db' c' w' a' d eof. recv_loop sys w db c = Some (rc, db', c', w') \<and> inp w = d @ inp w' \<and> (eof \<longrightarrow> inp w' = []) \<and>
    (recv_fin (cl_sock c') \<longrightarrow> inp w' = []) \<and>
    (stopped sys K a c (lines_of (received c @ d) eof) db' c' a' \<or>
     completed sys K a c (lines_of (received c @ d) eof) (rest_of (received c @ d) eof) db' c' a' \<and> client_ready c')"
  using assms(1,3-)
proof (induction "length (inp w)" arbitrary: c db a w rule: less_induct)
  case less
  obtain rc sock w1 where r: "sock_recv (sy_heap sys) (sy_os sys) w (cl_sock c) = (rc, sock, w1)" by (metis prod_cases3)
  define c1 where "c1 = c\<lparr> cl_sock := sock \<rparr>"
  have unfold: "recv_loop sys w db c = (if rc = SOCK_DATA then
      Option.bind (line_loop sys db c1 (sock_iseof sock)) (\<lambda>(rc, db, client).
        if rc < 0 then Some (rc, db, client, w1) else recv_loop sys w1 db client)
     else Some (rc, db, c1, w1))"
    by (subst recv_loop.simps) (simp add: r c1_def Let_def)
  show ?case
  proof (cases "rc = SOCK_DATA")
    case False
    obtain d where d: "inp w = d @ inp w1" "client_ok c1" "same_limits c c1" "snd_prompt c1 = snd_prompt c" "sent_by c1 = sent_by c"
      "received c1 = received c @ d" "if d \<noteq> [] then rc = SOCK_DATA else rc \<le> 0"
      "recv_fin (cl_sock c1) \<longrightarrow> recv_fin (cl_sock c) \<or> inp w1 = []" "d = [] \<Longrightarrow> rb_ridx (recv_buf (cl_sock c1)) = 0"
      by (rule sock_recv_step [OF less.prems(3,1) r, folded c1_def]) blast
    have e: "d = []" using d(7) False by (cases "d = []") simp_all
    have "client_ready c1" using less.prems(1) d(2,3,6,9) e by (simp add: client_ready_def same_limits_def)
    moreover have "lines_of (received c @ []) False = []" "rest_of (received c @ []) False = received c1"
      using less.prems(1) d(6) e by (simp_all add: client_ready_def lines_of_no_nl)
    moreover have "completed sys K a c [] (received c1) db c1 a" unfolding completed_def using session_Nil d(2-5) less.prems(2) by auto
    ultimately show ?thesis
      using unfold False d(1,8) e less.prems(5)
      by (intro exI [of _ rc] exI [of _ db] exI [of _ c1] exI [of _ w1] exI [of _ a] exI [of _ "[]"] exI [of _ False]) auto
  next
    case True
    obtain d rc2 db2 c2 a2 where d: "inp w = d @ inp w1" "d \<noteq> []" "recv_fin sock \<longrightarrow> inp w1 = []" "recv_fin (cl_sock c2) = recv_fin sock"
      "line_loop sys db c1 (sock_iseof sock) = Some (rc2, db2, c2)"
      "rc2 = -1 \<and> stopped sys K a c (lines_of (received c @ d) (recv_fin sock)) db2 c2 a2 \<or>
       rc2 = 0 \<and> completed sys K a c (lines_of (received c @ d) (recv_fin sock)) (rest_of (received c @ d) (recv_fin sock)) db2 c2 a2 \<and>
        client_ready c2 \<and> (\<forall>l \<in> set (lines_of (received c2 @ inp w1) True). req_keys (parse_request l) \<subseteq> K)"
      by (rule recv_round [OF less.prems(1) assms(2) less.prems(2-5) r [unfolded True]]) (simp add: c1_def)
    show ?thesis
    proof (cases "rc2 = 0")
      case ne: False
      then have "recv_loop sys w db c = Some (-1, db2, c2, w1)" using unfold True d(5,6) by simp
      then show ?thesis using d ne by blast
    next
      case ok: True
      then have rl: "recv_loop sys w db c = recv_loop sys w1 db2 c2" using unfold True d(5) by simp
      have h2: "completed sys K a c (lines_of (received c @ d) (recv_fin sock)) (rest_of (received c @ d) (recv_fin sock)) db2 c2 a2"
        "client_ready c2" "\<forall>l \<in> set (lines_of (received c2 @ inp w1) True). req_keys (parse_request l) \<subseteq> K" using d(6) ok by auto
      then have f: "holds (sy_denv sys) K db2 a2" "same_limits c c2" and rc2: "received c2 = rest_of (received c @ d) (recv_fin sock)"
        by (simp_all add: completed_def)
      have g: "length (inp w1) < length (inp w)" "read_law inp (sk_fd (cl_sock c2)) (sy_os sys)" "recv_fin (cl_sock c2) \<longrightarrow> inp w1 = []"
        using d(1-4) less.prems(3) f(2) by (simp_all add: same_limits_def)
      obtain rc3 db3 c3 w3 a3 d3 eof3 where r3: "recv_loop sys w1 db2 c2 = Some (rc3, db3, c3, w3)" "inp w1 = d3 @ inp w3"
        "eof3 \<longrightarrow> inp w3 = []" "recv_fin (cl_sock c3) \<longrightarrow> inp w3 = []"
        "stopped sys K a2 c2 (lines_of (received c2 @ d3) eof3) db3 c3 a3 \<or>
         completed sys K a2 c2 (lines_of (received c2 @ d3) eof3) (rest_of (received c2 @ d3) eof3) db3 c3 a3 \<and> client_ready c3"
        using less.hyps [OF g(1) h2(2) f(1) g(2) h2(3) g(3)] by blast
      have e: "recv_fin sock \<longrightarrow> d3 = []" using d(3) r3(2) by simp
      have "stopped sys K a c (lines_of ((received c @ d) @ d3) (recv_fin sock \<or> eof3)) db3 c3 a3 \<or>
         completed sys K a c (lines_of ((received c @ d) @ d3) (recv_fin sock \<or> eof3)) (rest_of ((received c @ d) @ d3) (recv_fin sock \<or> eof3))
          db3 c3 a3 \<and> client_ready c3"
        unfolding lines_of_append_eof [OF e] rc2 [symmetric] using r3(5) completed_trans [OF h2(1)] completed_stopped_trans [OF h2(1)] by blast
      then show ?thesis unfolding rl r3(1) using r3(2-4) d(1,3) e
        by (intro exI [of _ rc3] exI [of _ db3] exI [of _ c3] exI [of _ w3] exI [of _ a3] exI [of _ "d @ d3"] exI [of _ "recv_fin sock \<or> eof3"]) auto
    qed
  qed
qed

lemma client_close_handled:
  "completed sys K a c ls r db' (client_close c' b) a' \<longleftrightarrow> completed sys K a c ls r db' c' a'"
  "stopped sys K a c ls db' (client_close c' b) a' \<longleftrightarrow> stopped sys K a c ls db' c' a'"
  "client_ready (client_close c' b) \<longleftrightarrow> client_ready c'"
  by (simp_all add: completed_def stopped_def client_ready_def client_ok_def same_limits_def received_def sent_by_def
    client_close_def sock_write_close_def Let_def)

text \<open>
  C2. Handling the input of a client ends, and is a session on the finite map the store stands for, as
  long as the keys are told apart: there is a set \<open>K\<close> that has every key of the store and every key the
  received lines ask for, and in which no key is the beginning of another one of the same bucket.
  One of two things happens.  Either the complete lines of everything received, however the system
  cuts it into blocks, have all been executed in order, their answers are appended to what is to be
  sent, what follows the last line stays in the buffer for the next time (at the end of the stream it
  may be taken as a line), and the client is ready for more.  Or the socket is marked as failed,
  because a line is too long or the answers do not fit or reading fails, and some first part of
  the lines, possibly none of them, has been executed.
\<close>

theorem do_client_recv_session:
  assumes "client_ready c" "heap_env_ok (sy_heap sys)" "holds (sy_denv sys) K db a" "read_law inp (sk_fd (cl_sock c)) (sy_os sys)"
    and "\<forall>l \<in> set (lines_of (received c @ inp w) True). req_keys (parse_request l) \<subseteq> K"
    and "recv_fin (cl_sock c) \<longrightarrow> inp w = []"
  shows "\<exists>db' c' w' a' d eof. do_client_recv sys w db c = Some (db', c', w') \<and> inp w = d @ inp w' \<and> (eof \<longrightarrow> inp w' = []) \<and>
    (stopped sys K a c (lines_of (received c @ d) eof) db' c' a' \<or>
     completed sys K a c (lines_of (received c @ d) eof) (rest_of (received c @ d) eof) db' c' a' \<and> client_ready c')"
proof -
  obtain rc db' c' w' a' d eof where r: "recv_loop sys w db c = Some (rc, db', c', w')" "inp w = d @ inp w'" "eof \<longrightarrow> inp w' = []"
    "stopped sys K a c (lines_of (received c @ d) eof) db' c' a' \<or>
     completed sys K a c (lines_of (received c @ d) eof) (rest_of (received c @ d) eof) db' c' a' \<and> client_ready c'"
    using recv_loop_handled [OF assms] by blast
  define c2 where "c2 = (if rc < 0 \<and> rc \<noteq> SOCK_AGAIN then client_close c' (rc \<noteq> SOCK_CLOSED) else c')"
  have "do_client_recv sys w db c = Some (db', c2, w')" by (simp add: do_client_recv_def r(1) c2_def)
  moreover have "stopped sys K a c (lines_of (received c @ d) eof) db' c2 a' \<or>
     completed sys K a c (lines_of (received c @ d) eof) (rest_of (received c @ d) eof) db' c2 a' \<and> client_ready c2"
    using r(4) by (simp add: c2_def client_close_handled)
  ultimately show ?thesis using r(2,3) by blast
qed

text \<open>A system whose state is what it has to deliver, five bytes at a time, and a client that has sent two lines.\<close>

definition feed_os :: "bytes os" where
  "feed_os = drip_os\<lparr> os_read := (\<lambda>w fd n. if w = [] then (RdErr EAGAIN, w) else (Got (take (min 5 n) w), drop (min 5 n) w)) \<rparr>"

definition feed_sys :: "bytes sys" where
  "feed_sys = \<lparr> sy_heap = no_heap, sy_denv = bump_env, sy_os = feed_os, sy_epoll_ctl = (\<lambda>w fd b e. (None, w)),
    sy_epoll_wait = (\<lambda>w. (Inr [], w)), sy_malloc = (\<lambda>w. (True, w)), sy_epoll_create = (\<lambda>w. (4, w)),
    sy_resolv = (\<lambda>w f h p. (Inr [], w)), sy_dns_init = (\<lambda>w. (0, w)), sy_signals = (\<lambda>w. (0, w)), sy_calloc_ok = True,
    sy_file = (\<lambda>p. \<lparr> fs_create = (\<lambda>w. ((-1, False), w)), fs_open = (\<lambda>w. (-1, w)), fs_stat = (\<lambda>w fd. (None, w)),
      fs_truncate = (\<lambda>w fd n. (False, w)), fs_mmap = (\<lambda>w fd n. (None, w)), fs_close = (\<lambda>w fd. w) \<rparr>), sy_run = (\<lambda>w. True) \<rparr>"

definition feed_client :: client where
  "feed_client = \<lparr> cl_sock = sample_sock\<lparr> recv_buf := RWBUF_INIT (replicate 1024 0), min_size := 512 \<rparr>, log_line = False,
    snd_prompt = True \<rparr>"

definition two_lines :: bytes where
  "two_lines = ascii ''SET a 1'' @ [13, 10] @ ascii ''get a'' @ [10]"

lemma two_lines_split: "lines_of two_lines True = [ascii ''SET a 1'', ascii ''get a'']"
  by (simp add: lines_of_def two_lines_def split_lines.simps strip_cr_def)

theorem do_client_recv_session_witness:
  "\<exists>db' c' w' a' d eof. do_client_recv feed_sys two_lines (snd (hash_init True empty_db)) feed_client = Some (db', c', w') \<and>
    two_lines = d @ w' \<and> (eof \<longrightarrow> w' = []) \<and>
    (stopped feed_sys {ascii ''a''} Map.empty feed_client (lines_of d eof) db' c' a' \<or>
     completed feed_sys {ascii ''a''} Map.empty feed_client (lines_of d eof) (rest_of d eof) db' c' a' \<and> client_ready c')"
proof -
  have b: "rwbuf_inv (recv_buf (cl_sock feed_client))" "received feed_client = []"
    using RWBUF_INIT_inv [of "replicate 1024 0"] by (simp_all add: feed_client_def received_def)
  have s: "rb_size (recv_buf (cl_sock feed_client)) = 1024" "rb_ridx (recv_buf (cl_sock feed_client)) = 0"
    by (simp_all add: feed_client_def RWBUF_INIT_def)
  have "client_ready feed_client"
    using b s sample_bufs(1) by (simp add: client_ready_def client_ok_def) (simp add: feed_client_def sample_sock_def)
  moreover have "holds (sy_denv feed_sys) {ascii ''a''} (snd (hash_init True empty_db)) Map.empty"
    using db_rel_fresh [of "snd (hash_init True empty_db)"] bump_fresh
    by (simp add: holds_def feed_sys_def hash_init_def empty_db_def told_apart_def)
  moreover have "read_law id (sk_fd (cl_sock feed_client)) (sy_os feed_sys)"
    by (auto simp: read_law_def feed_sys_def feed_os_def min_def)
  moreover have "\<forall>l \<in> set (lines_of (received feed_client @ id two_lines) True). req_keys (parse_request l) \<subseteq> {ascii ''a''}"
    by (simp add: b two_lines_split parse_request_def before_sp_def after_sp_def trim_white_def is_white_def Let_def)
  moreover have "heap_env_ok (sy_heap feed_sys)" "\<not> recv_fin (cl_sock feed_client)"
    by (simp_all add: feed_sys_def no_heap_ok feed_client_def sample_sock_def)
  ultimately show ?thesis using do_client_recv_session [of feed_client feed_sys "{ascii ''a''}" _ Map.empty id two_lines] b(2) by simp
qed

end
