(* ===== verification/Server_State.thy ===== *)
theory Server_State
  imports Server
begin

text \<open>
  The state of the server over the whole program: the linked list holds exactly the clients that
  exist, every open descriptor of the program belongs to the listener, to \<open>epoll\<close> or to one client, and
  no client waits for the system to accept more output.  Hence freeing the server returns, and the
  program ends with the descriptors it started with.
\<close>

section \<open>Descriptors and their owners\<close>

text \<open>
  What the program relies on: a call that makes a descriptor returns one that was not open, \<open>close\<close>
  releases it, and the other calls leave the open descriptors as they are.
\<close>

definition makes_fd :: "('w \<Rightarrow> int set) \<Rightarrow> 'w \<Rightarrow> int \<Rightarrow> 'w \<Rightarrow> bool" where
  "makes_fd opened w fd w' \<longleftrightarrow>
    (if fd = -1 then opened w' = opened w else fd \<notin> opened w \<and> opened w' = insert fd (opened w))"

definition file_law :: "('w \<Rightarrow> int set) \<Rightarrow> 'w file_sys \<Rightarrow> bool" where
  "file_law opened fs \<longleftrightarrow>
    (\<forall>w fd e w'. fs_create fs w = ((fd, e), w') \<longrightarrow> makes_fd opened w fd w') \<and>
    (\<forall>w fd w'. fs_open fs w = (fd, w') \<longrightarrow> makes_fd opened w fd w') \<and>
    (\<forall>w fd r w'. fs_stat fs w fd = (r, w') \<longrightarrow> opened w' = opened w) \<and>
    (\<forall>w fd n ok w'. fs_truncate fs w fd n = (ok, w') \<longrightarrow> opened w' = opened w) \<and>
    (\<forall>w fd n m w'. fs_mmap fs w fd n = (m, w') \<longrightarrow> opened w' = opened w) \<and>
    (\<forall>w fd. opened (fs_close fs w fd) = opened w - {fd})"

definition sys_law :: "('w \<Rightarrow> int set) \<Rightarrow> 'w sys \<Rightarrow> bool" where
  "sys_law opened sys \<longleftrightarrow> fd_law opened (sy_os sys) \<and> resolver_law opened (sy_resolv sys) \<and>
    (\<forall>w fd n r w'. os_read (sy_os sys) w fd n = (r, w') \<longrightarrow> opened w' = opened w) \<and>
    (\<forall>w fd bs r w'. os_write (sy_os sys) w fd bs = (r, w') \<longrightarrow> opened w' = opened w) \<and>
    (\<forall>w fd s ok w'. os_sockopt (sy_os sys) w fd s = (ok, w') \<longrightarrow> opened w' = opened w) \<and>
    (\<forall>w fd a ok w'. os_bind (sy_os sys) w fd a = (ok, w') \<longrightarrow> opened w' = opened w) \<and>
    (\<forall>w fd ok w'. os_listen (sy_os sys) w fd = (ok, w') \<longrightarrow> opened w' = opened w) \<and>
    (\<forall>w fd b fd' a w'. os_accept (sy_os sys) w fd b = ((fd', a), w') \<longrightarrow> makes_fd opened w fd' w') \<and>
    (\<forall>w fd w'. sy_epoll_create sys w = (fd, w') \<longrightarrow> makes_fd opened w fd w') \<and>
    (\<forall>w fd b ev e w'. sy_epoll_ctl sys w fd b ev = (e, w') \<longrightarrow> opened w' = opened w) \<and>
    (\<forall>w evs w'. sy_epoll_wait sys w = (evs, w') \<longrightarrow> opened w' = opened w) \<and>
    (\<forall>w ok w'. sy_malloc sys w = (ok, w') \<longrightarrow> opened w' = opened w) \<and>
    (\<forall>w rc w'. sy_dns_init sys w = (rc, w') \<longrightarrow> opened w' = opened w) \<and>
    (\<forall>w rc w'. sy_signals sys w = (rc, w') \<longrightarrow> opened w' = opened w) \<and>
    (\<forall>path. file_law opened (sy_file sys path))"

lemma sys_lawD:
  assumes "sys_law opened sys"
  shows "fd_law opened (sy_os sys)" "resolver_law opened (sy_resolv sys)"
    and "os_read (sy_os sys) w fd n = (r, w') \<Longrightarrow> opened w' = opened w"
    and "os_write (sy_os sys) w fd bs = (r2, w') \<Longrightarrow> opened w' = opened w"
    and "os_sockopt (sy_os sys) w fd s = (ok, w') \<Longrightarrow> opened w' = opened w"
    and "os_bind (sy_os sys) w fd a = (ok, w') \<Longrightarrow> opened w' = opened w"
    and "os_listen (sy_os sys) w fd = (ok, w') \<Longrightarrow> opened w' = opened w"
    and "os_accept (sy_os sys) w fd b = ((fd', a'), w') \<Longrightarrow> makes_fd opened w fd' w'"
    and "sy_epoll_create sys w = (fd', w') \<Longrightarrow> makes_fd opened w fd' w'"
    and "sy_epoll_ctl sys w fd b ev = (e, w') \<Longrightarrow> opened w' = opened w"
    and "sy_epoll_wait sys w = (evs, w') \<Longrightarrow> opened w' = opened w"
    and "sy_malloc sys w = (ok, w') \<Longrightarrow> opened w' = opened w"
    and "sy_dns_init sys w = (rc, w') \<Longrightarrow> opened w' = opened w"
    and "sy_signals sys w = (rc, w') \<Longrightarrow> opened w' = opened w"
    and "file_law opened (sy_file sys path)"
  using assms unfolding sys_law_def by auto

text \<open>Opening the database leaves no descriptor open, on any of its paths.\<close>

lemma map_file_closes:
  assumes "file_law opened fs" "map_file fs w fd = (m, w')"
  shows "opened w' = opened w - {fd}"
  using assms unfolding file_law_def map_file_def by (fastforce split: prod.splits option.splits if_splits)

lemma open_file_makes:
  assumes "file_law opened fs" "open_file fs w = (fd, new, w')"
  shows "makes_fd opened w fd w'"
proof -
  obtain fd1 e w1 where c: "fs_create fs w = ((fd1, e), w1)" by (metis prod.exhaust)
  then have m: "makes_fd opened w fd1 w1" using assms(1) by (simp add: file_law_def)
  obtain fd2 w2 where o: "fs_open fs w1 = (fd2, w2)" by fastforce
  then have "makes_fd opened w1 fd2 w2" using assms(1) by (simp add: file_law_def)
  then show ?thesis using assms(2) c o m by (auto simp: open_file_def makes_fd_def split: if_splits)
qed

lemma file_init_no_leak:
  assumes law: "file_law opened fs" and i: "file_init fs w s = Some (rc, s', w')"
  shows "opened w' = opened w"
proof -
  obtain fd new w1 where o: "open_file fs w = (fd, new, w1)" by (metis prod_cases3)
  obtain m w2 where f: "map_file fs w1 fd = (m, w2)" by fastforce
  have "w' = (if fd = -1 then w1 else w2)"
    using i by (auto simp: file_init_def o f Let_def bind_eq_Some_conv split: if_splits option.splits)
  then show ?thesis using open_file_makes [OF law o] map_file_closes [OF law f] by (auto simp: makes_fd_def split: if_splits)
qed

lemma db_init_no_leak:
  assumes "\<And>fs. f = Some fs \<Longrightarrow> file_law opened fs" "db_init ok f w s = Some (rc, s', w')"
  shows "opened w' = opened w"
proof (cases "init_done s")
  case False
  show ?thesis
  proof (cases f)
    case None
    then show ?thesis using False assms(2) by (auto simp: db_init_def split: prod.splits if_splits)
  next
    case (Some fs)
    then obtain rc1 s1 where "file_init fs w s = Some (rc1, s1, w')"
      using False assms(2) by (auto simp: db_init_def bind_eq_Some_conv split: if_splits)
    then show ?thesis by (rule file_init_no_leak [OF assms(1) [OF Some]])
  qed
qed (use assms in \<open>simp add: db_init_def\<close>)

lemma sys_law_close: "sys_law opened sys \<Longrightarrow> opened (snd (os_close (sy_os sys) w fd)) = opened w - {fd}"
  using fd_lawD(2) [of opened "sy_os sys" w fd] sys_lawD(1) by (cases "os_close (sy_os sys) w fd") auto

datatype owner = Listen | Epoll | Conn nat

definition fd_opt :: "int \<Rightarrow> int option" where
  "fd_opt fd = (if fd = -1 then None else Some fd)"

fun owns :: "int \<Rightarrow> int \<Rightarrow> (nat \<Rightarrow> client option) \<Rightarrow> owner \<Rightarrow> int option" where
  "owns l e cs Listen = fd_opt l"
| "owns l e cs Epoll = fd_opt e"
| "owns l e cs (Conn i) = Option.bind (cs i) (\<lambda>c. fd_opt (sk_fd (cl_sock c)))"

lemma owns_upd:
  "owns l e (cs(i := None)) = (owns l e cs)(Conn i := None)"
  "owns l e (cs(i \<mapsto> c)) = (owns l e cs)(Conn i := fd_opt (sk_fd (cl_sock c)))"
proof -
  have "owns l e (cs(i := x)) z = ((owns l e cs)(Conn i := Option.bind x (\<lambda>c. fd_opt (sk_fd (cl_sock c))))) z" for x z
    by (cases z) auto
  then show "owns l e (cs(i := None)) = (owns l e cs)(Conn i := None)"
    "owns l e (cs(i \<mapsto> c)) = (owns l e cs)(Conn i := fd_opt (sk_fd (cl_sock c)))" by (auto simp: fun_eq_iff)
qed

lemma owns_listen: "owns l' e cs = (owns l e cs)(Listen := fd_opt l')" "owns l e' cs = (owns l e cs)(Epoll := fd_opt e')"
proof -
  have "owns l' e cs z = ((owns l e cs)(Listen := fd_opt l')) z" "owns l e' cs z = ((owns l e cs)(Epoll := fd_opt e')) z" for z
    by (cases z; simp)+
  then show "owns l' e cs = (owns l e cs)(Listen := fd_opt l')" "owns l e' cs = (owns l e cs)(Epoll := fd_opt e')" by auto
qed

text \<open>The open descriptors are those of \<open>base\<close> and, apart from them, one for each owner.\<close>

definition owned :: "int set \<Rightarrow> int set \<Rightarrow> (owner \<Rightarrow> int option) \<Rightarrow> bool" where
  "owned base S f \<longleftrightarrow> (\<forall>a b x. f a = Some x \<and> f b = Some x \<longrightarrow> a = b) \<and> base \<inter> ran f = {} \<and> S = base \<union> ran f"

lemma owned_close:
  assumes "owned base S f" "f a = Some x"
  shows "owned base (S - {x}) (f(a := None))"
proof -
  have "x \<notin> base" using assms by (auto simp: owned_def ran_def)
  moreover have "ran (f(a := None)) = ran f - {x}"
  proof
    show "ran (f(a := None)) \<subseteq> ran f - {x}" using assms by (auto simp: owned_def ran_def split: if_splits)
    show "ran f - {x} \<subseteq> ran (f(a := None))"
    proof
      fix y
      assume "y \<in> ran f - {x}"
      then obtain b where "f b = Some y" "y \<noteq> x" by (auto simp: ran_def)
      then have "(f(a := None)) b = Some y" using assms(2) by auto
      then show "y \<in> ran (f(a := None))" by (rule ranI)
    qed
  qed
  ultimately show ?thesis using assms by (auto simp: owned_def split: if_splits)
qed

lemma owned_open: "owned base S f \<Longrightarrow> x \<notin> S \<Longrightarrow> f a = None \<Longrightarrow> owned base (insert x S) (f(a \<mapsto> x))"
  unfolding owned_def by (auto simp: ran_map_upd ranI split: if_splits)

lemma owned_makes:
  assumes "owned base (opened w) f" "makes_fd opened w fd w'" "f a = None"
  shows "owned base (opened w') (f(a := fd_opt fd))"
proof (cases "fd = -1")
  case True
  then show ?thesis using assms by (simp add: makes_fd_def fd_opt_def fun_upd_idem)
next
  case False
  then have "fd \<notin> opened w" "opened w' = insert fd (opened w)" using assms(2) by (simp_all add: makes_fd_def)
  then show ?thesis using owned_open [OF assms(1) _ assms(3)] False by (simp add: fd_opt_def)
qed

section \<open>What handling a client leaves as it is\<close>

definition sock_kind :: "simple_sock \<Rightarrow> bool \<times> bool \<times> int" where
  "sock_kind sock = (is_server sock, wait_write sock, sk_fd sock)"

lemma sock_kind_upd [simp]:
  "sock_kind (s\<lparr> sys_err := b \<rparr>) = sock_kind s" "sock_kind (s\<lparr> recv_fin := b \<rparr>) = sock_kind s"
  "sock_kind (s\<lparr> send_buf := x \<rparr>) = sock_kind s" "sock_kind (s\<lparr> recv_buf := x \<rparr>) = sock_kind s"
  "sock_kind (s\<lparr> send_fin := b \<rparr>) = sock_kind s" "sock_kind (s\<lparr> close_now := b \<rparr>) = sock_kind s"
  "sock_kind (s\<lparr> is_epoll := b \<rparr>) = sock_kind s"
  by (simp_all add: sock_kind_def)

lemma io_fail_kind [simp]: "sock_kind (io_fail e s) = sock_kind s"
  by (simp add: io_fail_def)

lemma read_loop_kind: "read_loop os w sock len acc = (ec, d, sock', w') \<Longrightarrow> sock_kind sock' = sock_kind sock"
proof (induction os w sock len acc arbitrary: ec d sock' w' rule: read_loop.induct)
  case (1 os w sock len acc)
  then show ?case by (subst (asm) read_loop.simps) (auto split: if_splits prod.splits rd_res.splits)
qed

lemma write_loop_kind: "write_loop os w sock d n = (ec, m, sock', w') \<Longrightarrow> sock_kind sock' = sock_kind sock"
proof (induction os w sock d n arbitrary: ec m sock' w' rule: write_loop.induct)
  case (1 os w sock d n)
  then show ?case by (subst (asm) write_loop.simps) (auto split: if_splits prod.splits wr_res.splits)
qed

lemma sock_send_kind: "sock_send os w sock = (rc, sock', w') \<Longrightarrow> sock_kind sock' = sock_kind sock"
  by (auto simp: sock_send_def sock_write_data_def Let_def split: if_splits prod.splits dest: write_loop_kind)

lemma sock_recv_kind: "sock_recv env os w sock = (rc, sock', w') \<Longrightarrow> sock_kind sock' = sock_kind sock"
  by (auto simp: sock_recv_def sock_read_data_def Let_def split: if_splits prod.splits dest!: read_loop_kind)

lemma sock_recv_line_kind: "sock_recv_line sock eof = (rc, l, sock') \<Longrightarrow> sock_kind sock' = sock_kind sock"
  by (auto simp: sock_recv_line_def Let_def split: if_splits prod.splits)

lemma sock_write_mem_kind: "sock_write_mem env sock m = (rc, sock') \<Longrightarrow> sock_kind sock' = sock_kind sock"
  by (auto simp: sock_write_mem_def Let_def split: if_splits prod.splits)

lemma sock_write_line_kind: "sock_write_line env sock l = (rc, sock') \<Longrightarrow> sock_kind sock' = sock_kind sock"
  by (auto simp: sock_write_line_def Let_def split: if_splits prod.splits)

lemma send_rsp_kind: "send_rsp env c r = (rc, c') \<Longrightarrow> sock_kind (cl_sock c') = sock_kind (cl_sock c)"
  by (auto simp: send_rsp_def send_line_def send_prompt_def split: if_splits prod.splits
    dest!: sock_write_mem_kind sock_write_line_kind)

lemma reply_kind: "reply sys db c r = Some (rc, db', c') \<Longrightarrow> sock_kind (cl_sock c') = sock_kind (cl_sock c)"
  by (auto simp: reply_def split: prod.splits dest: send_rsp_kind)

lemma client_close_kind [simp]: "sock_kind (cl_sock (client_close c f)) = sock_kind (cl_sock c)"
  by (simp add: client_close_def sock_write_close_def Let_def)

lemma process_line_kind: "process_line sys db c l = Some (rc, db', c') \<Longrightarrow> sock_kind (cl_sock c') = sock_kind (cl_sock c)"
proof -
  have u: "cmd_unsupp sys db c a = Some (rc, db', c') \<Longrightarrow> sock_kind (cl_sock c') = sock_kind (cl_sock c)" for a
    by (auto simp: cmd_unsupp_def dest: reply_kind)
  have st: "cmd_set sys db c a = Some (rc, db', c') \<Longrightarrow> sock_kind (cl_sock c') = sock_kind (cl_sock c)" for a
    by (auto simp: cmd_set_def Let_def bind_eq_Some_conv split: prod.splits if_splits dest: reply_kind)
  have g: "cmd_get sys db c a = Some (rc, db', c') \<Longrightarrow> sock_kind (cl_sock c') = sock_kind (cl_sock c)" for a
    by (auto simp: cmd_get_def bind_eq_Some_conv dest: reply_kind)
  have d: "cmd_del sys db c a = Some (rc, db', c') \<Longrightarrow> sock_kind (cl_sock c') = sock_kind (cl_sock c)" for a
    by (auto simp: cmd_del_def bind_eq_Some_conv split: prod.splits if_splits dest: reply_kind)
  have q: "cmd_quit sys db c a = Some (rc, db', c') \<Longrightarrow> sock_kind (cl_sock c') = sock_kind (cl_sock c)" for a
    by (auto simp: cmd_quit_def split: prod.splits dest!: send_rsp_kind)
  have f: "find_cli_cmd n \<in> {0, 1, 2, 3, 4}" for n
    by (auto simp: find_cli_cmd_def cli_names_def upt_rec)
  assume "process_line sys db c l = Some (rc, db', c')"
  then obtain n a where "snd (cli_cmds ! find_cli_cmd n) sys db c a = Some (rc, db', c')"
    by (auto simp: process_line_def Let_def split: prod.splits)
  moreover have "find_cli_cmd n = 0 \<or> find_cli_cmd n = 1 \<or> find_cli_cmd n = 2 \<or> find_cli_cmd n = 3 \<or> find_cli_cmd n = 4"
    using f [of n] by simp
  ultimately show ?thesis using u st g d q by (elim disjE) (simp_all add: cli_cmds_def)
qed

lemma line_loop_kind:
  assumes "line_loop sys db c eof = Some r"
  shows "sock_kind (cl_sock (snd (snd r))) = sock_kind (cl_sock c)"
proof (rule line_loop.raw_induct [OF _ assms, where P = "\<lambda>sys db c eof r. sock_kind (cl_sock (snd (snd r))) = sock_kind (cl_sock c)"])
  fix loop :: "'a sys \<Rightarrow> db \<Rightarrow> client \<Rightarrow> bool \<Rightarrow> (int \<times> db \<times> client) option" and sys db c eof r
  assume ih: "\<And>sys db c eof r. loop sys db c eof = Some r \<Longrightarrow> sock_kind (cl_sock (snd (snd r))) = sock_kind (cl_sock c)"
    and b: "(case sock_recv_line (cl_sock c) eof of (rc, line, sock) \<Rightarrow> let c = c\<lparr> cl_sock := sock \<rparr> in
      if rc > 0 then Option.bind (process_line sys db c line)
        (\<lambda>(rc, db, c). if rc \<noteq> 0 then Some (rc, db, c) else loop sys db c eof)
      else Some (rc, db, c)) = Some r"
  obtain rc line sock where l: "sock_recv_line (cl_sock c) eof = (rc, line, sock)" by (metis prod_cases3)
  note k = sock_recv_line_kind [OF l]
  show "sock_kind (cl_sock (snd (snd r))) = sock_kind (cl_sock c)"
  proof (cases "rc > 0")
    case True
    with b obtain rc2 db2 c2 where p: "process_line sys db (c\<lparr> cl_sock := sock \<rparr>) line = Some (rc2, db2, c2)"
      and r: "(if rc2 \<noteq> 0 then Some (rc2, db2, c2) else loop sys db2 c2 eof) = Some r"
      by (auto simp: l Let_def bind_eq_Some_conv)
    then show ?thesis using process_line_kind [OF p] ih [of sys db2 c2 eof r] k by (cases "rc2 = 0") auto
  qed (use b k in \<open>auto simp: l Let_def\<close>)
qed

lemma recv_loop_kind:
  assumes "recv_loop sys w db c = Some r"
  shows "sock_kind (cl_sock (fst (snd (snd r)))) = sock_kind (cl_sock c)"
proof (rule recv_loop.raw_induct [OF _ assms, where P = "\<lambda>sys w db c r. sock_kind (cl_sock (fst (snd (snd r)))) = sock_kind (cl_sock c)"])
  fix loop :: "'a sys \<Rightarrow> 'a \<Rightarrow> db \<Rightarrow> client \<Rightarrow> (int \<times> db \<times> client \<times> 'a) option" and sys w db c r
  assume ih: "\<And>sys w db c r. loop sys w db c = Some r \<Longrightarrow> sock_kind (cl_sock (fst (snd (snd r)))) = sock_kind (cl_sock c)"
    and b: "(case sock_recv (sy_heap sys) (sy_os sys) w (cl_sock c) of (rc, sock, w) \<Rightarrow> let c = c\<lparr> cl_sock := sock \<rparr> in
      if rc = SOCK_DATA then Option.bind (line_loop sys db c (sock_iseof sock))
        (\<lambda>(rc, db, c). if rc < 0 then Some (rc, db, c, w) else loop sys w db c)
      else Some (rc, db, c, w)) = Some r"
  obtain rc sock w2 where l: "sock_recv (sy_heap sys) (sy_os sys) w (cl_sock c) = (rc, sock, w2)" by (metis prod_cases3)
  note k = sock_recv_kind [OF l]
  show "sock_kind (cl_sock (fst (snd (snd r)))) = sock_kind (cl_sock c)"
  proof (cases "rc = SOCK_DATA")
    case True
    with b obtain rc2 db2 c2 where p: "line_loop sys db (c\<lparr> cl_sock := sock \<rparr>) (sock_iseof sock) = Some (rc2, db2, c2)"
      and r: "(if rc2 < 0 then Some (rc2, db2, c2, w2) else loop sys w2 db2 c2) = Some r"
      by (auto simp: l Let_def bind_eq_Some_conv)
    then show ?thesis using line_loop_kind [OF p] ih [of sys w2 db2 c2 r] k by (cases "rc2 < 0") auto
  qed (use b k in \<open>auto simp: l Let_def\<close>)
qed

lemma poll_ctrl_kind: "poll_ctrl sys w sock ev = Some (rc, sock', w') \<Longrightarrow> sock_kind sock' = sock_kind sock"
  by (auto simp: poll_ctrl_def bind_eq_Some_conv split: prod.splits if_splits)

lemma do_client_recv_kind:
  "do_client_recv sys w db c = Some (db', c', w') \<Longrightarrow> sock_kind (cl_sock c') = sock_kind (cl_sock c)"
  by (auto simp: do_client_recv_def bind_eq_Some_conv split: if_splits dest!: recv_loop_kind)

text \<open>Without \<open>wait_write\<close> no events are requested after sending, and it stays unset.\<close>

lemma do_client_send_kind:
  assumes "do_client_send sys w c = Some (c', w')" and "sock_kind (cl_sock c) = (b, False, fd)"
  shows "sock_kind (cl_sock c') = (b, False, fd)"
proof -
  obtain rc sock w2 where s: "sock_send (sy_os sys) w (cl_sock c) = (rc, sock, w2)" by (metis prod_cases3)
  from sock_send_kind [OF s] assms(2) have "sock_kind sock = (b, False, fd)" by simp
  then show ?thesis using assms(1) by (auto simp: do_client_send_def s sock_kind_def Let_def split: if_splits)
qed

section \<open>What handling a client leaves open\<close>

lemma read_loop_keeps:
  fixes g :: "'w \<Rightarrow> 'b"
  assumes law: "\<And>w fd n r w'. os_read os w fd n = (r, w') \<Longrightarrow> g w' = g w"
    and "read_loop os w sock len acc = (ec, d, sock', w')"
  shows "g w' = g w"
  using assms(2)
proof (induction len arbitrary: w acc ec d sock' w' rule: less_induct)
  case (less len)
  obtain r w1 where r: "os_read os w (sk_fd sock) len = (r, w1)" by fastforce
  have "w' = w \<or> w' = w1 \<or> (\<exists>bs. bs \<noteq> [] \<and> len \<noteq> 0 \<and> read_loop os w1 sock (len - length bs) (acc @ bs) = (ec, d, sock', w'))"
    using less.prems by (subst (asm) read_loop.simps) (auto simp: r split: if_splits rd_res.splits)
  then show ?case using law [OF r] less.IH by (metis diff_less length_greater_0_conv neq0_conv)
qed

lemma write_loop_keeps:
  fixes g :: "'w \<Rightarrow> 'b"
  assumes law: "\<And>w fd bs r w'. os_write os w fd bs = (r, w') \<Longrightarrow> g w' = g w"
    and "write_loop os w sock bs n = (ec, m, sock', w')"
  shows "g w' = g w"
  using assms(2)
proof (induction bs arbitrary: w n ec m sock' w' rule: length_induct)
  case (1 bs)
  obtain r w1 where r: "os_write os w (sk_fd sock) bs = (r, w1)" by fastforce
  have "w' = w \<or> w' = w1 \<or> (\<exists>k. k \<noteq> 0 \<and> bs \<noteq> [] \<and> write_loop os w1 sock (drop k bs) (n + k) = (ec, m, sock', w'))"
    using 1(2) by (subst (asm) write_loop.simps) (auto simp: r split: if_splits wr_res.splits)
  moreover have "length (drop k bs) < length bs" if "k \<noteq> 0" "bs \<noteq> []" for k using that by simp
  ultimately show ?case using law [OF r] 1(1) by metis
qed

lemma sock_send_opened:
  assumes "sys_law opened sys" "sock_send (sy_os sys) w sock = (rc, sock', w')"
  shows "opened w' = opened w"
proof -
  have "w' = w \<or> (\<exists>bs ec m sock1. write_loop (sy_os sys) w sock bs 0 = (ec, m, sock1, w'))"
    using assms(2) by (auto simp: sock_send_def sock_write_data_def Let_def split: if_splits prod.splits)
  moreover have "opened v' = opened v" if "write_loop (sy_os sys) v sock bs 0 = (ec, m, sock1, v')" for v bs ec m sock1 v'
    by (rule write_loop_keeps [OF _ that]) (rule sys_lawD(4) [OF assms(1)])
  ultimately show ?thesis by metis
qed

lemma sock_recv_opened:
  assumes "sys_law opened sys" "sock_recv env (sy_os sys) w sock = (rc, sock', w')"
  shows "opened w' = opened w"
proof -
  have "w' = w \<or> (\<exists>sock0 len ec d sock1. read_loop (sy_os sys) w sock0 len [] = (ec, d, sock1, w'))"
    using assms(2) by (auto simp: sock_recv_def sock_read_data_def Let_def split: if_splits prod.splits)
  moreover have "opened v' = opened v" if "read_loop (sy_os sys) v sock0 len [] = (ec, d, sock1, v')" for v sock0 len ec d sock1 v'
    by (rule read_loop_keeps [OF _ that]) (rule sys_lawD(3) [OF assms(1)])
  ultimately show ?thesis by metis
qed

lemma recv_loop_opened:
  assumes "recv_loop sys w db c = Some r"
  shows "sys_law opened sys \<longrightarrow> opened (snd (snd (snd r))) = opened w"
proof (rule recv_loop.raw_induct [OF _ assms, where P = "\<lambda>sys w db c r. sys_law opened sys \<longrightarrow> opened (snd (snd (snd r))) = opened w"])
  fix loop :: "'a sys \<Rightarrow> 'a \<Rightarrow> db \<Rightarrow> client \<Rightarrow> (int \<times> db \<times> client \<times> 'a) option" and sys w db c r
  assume ih: "\<And>sys w db c r. loop sys w db c = Some r \<Longrightarrow> sys_law opened sys \<longrightarrow> opened (snd (snd (snd r))) = opened w"
    and b: "(case sock_recv (sy_heap sys) (sy_os sys) w (cl_sock c) of (rc, sock, w) \<Rightarrow> let c = c\<lparr> cl_sock := sock \<rparr> in
      if rc = SOCK_DATA then Option.bind (line_loop sys db c (sock_iseof sock))
        (\<lambda>(rc, db, c). if rc < 0 then Some (rc, db, c, w) else loop sys w db c)
      else Some (rc, db, c, w)) = Some r"
  obtain rc sock w2 where l: "sock_recv (sy_heap sys) (sy_os sys) w (cl_sock c) = (rc, sock, w2)" by (metis prod_cases3)
  show "sys_law opened sys \<longrightarrow> opened (snd (snd (snd r))) = opened w"
  proof
    assume law: "sys_law opened sys"
    note k = sock_recv_opened [OF law l]
    show "opened (snd (snd (snd r))) = opened w"
    proof (cases "rc = SOCK_DATA")
      case True
      then obtain rc2 db2 c2 where p: "line_loop sys db (c\<lparr> cl_sock := sock \<rparr>) (sock_iseof sock) = Some (rc2, db2, c2)"
        using b by (cases "line_loop sys db (c\<lparr> cl_sock := sock \<rparr>) (sock_iseof sock)") (auto simp: l Let_def)
      have x: "(if rc2 < 0 then Some (rc2, db2, c2, w2) else loop sys w2 db2 c2) = Some r"
        using b unfolding l prod.case Let_def True p by (simp only: if_True bind.simps prod.case simp_thms)
      show ?thesis
      proof (cases "rc2 < 0")
        case True
        then have "r = (rc2, db2, c2, w2)" using x by simp
        then show ?thesis using k by simp
      next
        case False
        then have "loop sys w2 db2 c2 = Some r" using x by simp
        from ih [OF this] law k show ?thesis by simp
      qed
    next
      case False
      then have "r = (rc, db, c\<lparr> cl_sock := sock \<rparr>, w2)" using b by (simp add: l Let_def)
      then show ?thesis using k by simp
    qed
  qed
qed

lemma epoll_loop_opened:
  assumes "epoll_loop sys w fd add ev = Some r"
  shows "sys_law opened sys \<longrightarrow> opened (snd r) = opened w"
proof (rule epoll_loop.raw_induct [OF _ assms, where P = "\<lambda>sys w fd add ev r. sys_law opened sys \<longrightarrow> opened (snd r) = opened w"])
  fix loop :: "'a sys \<Rightarrow> 'a \<Rightarrow> int \<Rightarrow> bool \<Rightarrow> u32 \<Rightarrow> (io_err option \<times> 'a) option" and sys w fd add ev r
  assume ih: "\<And>sys w fd add ev r. loop sys w fd add ev = Some r \<Longrightarrow> sys_law opened sys \<longrightarrow> opened (snd r) = opened w"
    and b: "(case sy_epoll_ctl sys w fd add ev of (e, w) \<Rightarrow> if e = Some EINTR then loop sys w fd add ev else Some (e, w)) = Some r"
  obtain e w1 where e: "sy_epoll_ctl sys w fd add ev = (e, w1)" by fastforce
  show "sys_law opened sys \<longrightarrow> opened (snd r) = opened w"
  proof (cases "e = Some EINTR")
    case True
    then have "loop sys w1 fd add ev = Some r" using b e by simp
    from ih [OF this] show ?thesis using sys_lawD(10) [OF _ e, of opened] by simp
  next
    case False
    then have "r = (e, w1)" using b e by simp
    then show ?thesis using sys_lawD(10) [OF _ e, of opened] by simp
  qed
qed

lemma poll_ctrl_opened:
  assumes "sys_law opened sys" "poll_ctrl sys w sock ev = Some (rc, sock', w')"
  shows "opened w' = opened w"
proof -
  obtain e where "epoll_loop sys w (sk_fd sock) (\<not> is_epoll sock) ev = Some (e, w')"
    using assms(2) by (auto simp: poll_ctrl_def bind_eq_Some_conv split: if_splits)
  from epoll_loop_opened [OF this, of opened] assms(1) show ?thesis by simp
qed

lemma do_client_send_opened:
  assumes law: "sys_law opened sys" and s: "do_client_send sys w c = Some (c', w')"
  shows "opened w' = opened w"
proof -
  obtain rc sock w1 where k: "sock_send (sy_os sys) w (cl_sock c) = (rc, sock, w1)" by (metis prod_cases3)
  have "w' = w1 \<or> (\<exists>ev rc2 sock2. poll_ctrl sys w1 sock ev = Some (rc2, sock2, w'))"
    using s by (auto simp: do_client_send_def k Let_def bind_eq_Some_conv split: if_splits)
  then show ?thesis using sock_send_opened [OF law k] poll_ctrl_opened [OF law] by metis
qed

lemma do_client_recv_opened:
  assumes "sys_law opened sys" "do_client_recv sys w db c = Some (db', c', w')"
  shows "opened w' = opened w"
proof -
  obtain rc c1 where "recv_loop sys w db c = Some (rc, db', c1, w')"
    using assms(2) by (auto simp: do_client_recv_def bind_eq_Some_conv)
  from recv_loop_opened [OF this, of opened] assms(1) show ?thesis by simp
qed

section \<open>The invariant\<close>

lemma owned_adopt: "owned (insert x base) S f \<Longrightarrow> x \<notin> base \<Longrightarrow> f a = None \<Longrightarrow> owned base S (f(a \<mapsto> x))"
  unfolding owned_def by (auto simp: ran_map_upd ranI)

lemma owned_drop: "owned (insert x base) S f \<Longrightarrow> x \<notin> base \<Longrightarrow> owned base (S - {x}) f"
  unfolding owned_def by auto

definition server_owns :: "'w server \<Rightarrow> owner \<Rightarrow> int option" where
  "server_owns sv = owns (sk_fd (sv_sock sv)) (sv_epoll_fd sv) (sv_client sv)"

definition listed :: "'w server \<Rightarrow> nat list \<Rightarrow> bool" where
  "listed sv xs \<longleftrightarrow> ring (sv_nodes sv) 0 (map Suc xs) \<and> set xs = dom (sv_client sv)"

definition server_inv :: "('w \<Rightarrow> int set) \<Rightarrow> int set \<Rightarrow> 'w server \<Rightarrow> bool" where
  "server_inv opened base sv \<longleftrightarrow> owned base (opened (sv_w sv)) (server_owns sv) \<and> is_server (sv_sock sv) \<and>
    (\<forall>i c. sv_client sv i = Some c \<longrightarrow> i < next_id sv \<and> \<not> is_server (cl_sock c) \<and> \<not> wait_write (cl_sock c) \<and> sk_fd (cl_sock c) \<noteq> -1) \<and>
    (\<exists>xs. listed sv xs)"

lemma server_invI:
  assumes "owned base (opened (sv_w sv)) (server_owns sv)" "is_server (sv_sock sv)"
    "\<And>i c. sv_client sv i = Some c \<Longrightarrow> i < next_id sv \<and> \<not> is_server (cl_sock c) \<and> \<not> wait_write (cl_sock c) \<and> sk_fd (cl_sock c) \<noteq> -1"
    "listed sv xs"
  shows "server_inv opened base sv"
  using assms unfolding server_inv_def by blast

lemma server_invD:
  assumes "server_inv opened base sv"
  shows "owned base (opened (sv_w sv)) (server_owns sv)" "is_server (sv_sock sv)"
    "sv_client sv i = Some c \<Longrightarrow> i < next_id sv \<and> \<not> is_server (cl_sock c) \<and> \<not> wait_write (cl_sock c) \<and> sk_fd (cl_sock c) \<noteq> -1"
  using assms unfolding server_inv_def by blast+

lemma server_inv_world:
  assumes "server_inv opened base sv" "opened w = opened (sv_w sv)"
  shows "server_inv opened base (sv\<lparr> sv_w := w \<rparr>)"
  using assms by (simp add: server_inv_def server_owns_def listed_def)

lemma server_inv_client:
  assumes inv: "server_inv opened base sv" and c: "sv_client sv i = Some c" and k: "sock_kind (cl_sock c') = sock_kind (cl_sock c)"
    and w: "opened w = opened (sv_w sv)"
  shows "server_inv opened base (sv\<lparr> sv_client := (sv_client sv)(i \<mapsto> c'), sv_db := db, sv_w := w \<rparr>)"
proof -
  obtain xs where l: "listed sv xs" using inv by (auto simp: server_inv_def)
  have f: "sk_fd (cl_sock c') = sk_fd (cl_sock c)" "is_server (cl_sock c') = is_server (cl_sock c)"
    "wait_write (cl_sock c') = wait_write (cl_sock c)" using k by (simp_all add: sock_kind_def)
  have "server_owns (sv\<lparr> sv_client := (sv_client sv)(i \<mapsto> c'), sv_db := db, sv_w := w \<rparr>) = server_owns sv"
    using c by (simp add: server_owns_def owns_upd fun_upd_idem f)
  then show ?thesis
    using server_invD [OF inv] l c w
    by (intro server_invI [of _ _ _ xs]) (auto simp: listed_def f split: if_splits)
qed

section \<open>Destroying a client\<close>

lemma ring_other:
  assumes "ring m h xs" "a \<notin> set (h # xs)"
  shows "ring (m(a := v)) h xs"
  using assms unfolding ring_def by (auto elim!: links_frame)

text \<open>The state after client \<open>i\<close> is freed, where \<open>nodes\<close> are the elements once it is taken out of its list.\<close>

definition without :: "'w sys \<Rightarrow> 'w server \<Rightarrow> nat \<Rightarrow> client \<Rightarrow> nodes \<Rightarrow> 'w server" where
  "without sys sv i c nodes = sv\<lparr> sv_client := (sv_client sv)(i := None), sv_nodes := nodes(Suc i := None),
    sv_w := snd (snd (sock_close (sy_os sys) (sv_w sv) (cl_sock c) 0)) \<rparr>"

lemma sock_close_world: "snd (snd (sock_close os w sock rc)) = (if sk_fd sock = -1 then w else snd (os_close os w (sk_fd sock)))"
  by (simp add: sock_close_def split: prod.split)

lemma sock_deinit_world:
  obtains s where "sock_deinit os w sock rc = (s, snd (snd (sock_close os w sock 0)))"
proof -
  have "snd (sock_deinit os w sock rc) = snd (snd (sock_close os w sock 0))"
    by (simp add: sock_deinit_def sock_close_def split: prod.split)
  then show ?thesis using that [of "fst (sock_deinit os w sock rc)"] by (metis prod.collapse)
qed

lemma client_destroy_used:
  assumes "sv_client sv i = Some c" "nx (sv_nodes sv) (Suc i) = Some (Some n)" "list_remove (sv_nodes sv) (Suc i) = Some nodes"
  shows "client_destroy sys sv i rc = Some (without sys sv i c nodes)"
proof -
  obtain s where "sock_deinit (sy_os sys) (sv_w sv) (cl_sock c) rc = (s, snd (snd (sock_close (sy_os sys) (sv_w sv) (cl_sock c) 0)))"
    by (rule sock_deinit_world)
  moreover obtain e where "sv_nodes sv (Suc i) = Some e" "le_next e = Some n" using assms(2) by (auto simp: nx_def)
  ultimately show ?thesis
    using assms by (simp add: client_destroy_def list_inuse_def without_def)
qed

lemma client_destroy_unused:
  assumes "sv_client sv i = Some c" "nx (sv_nodes sv) (Suc i) = Some None"
  shows "client_destroy sys sv i rc = Some (without sys sv i c (sv_nodes sv))"
proof -
  obtain s where "sock_deinit (sy_os sys) (sv_w sv) (cl_sock c) rc = (s, snd (snd (sock_close (sy_os sys) (sv_w sv) (cl_sock c) 0)))"
    by (rule sock_deinit_world)
  moreover obtain e where "sv_nodes sv (Suc i) = Some e" "le_next e = None" using assms(2) by (auto simp: nx_def)
  ultimately show ?thesis
    using assms by (simp add: client_destroy_def list_inuse_def without_def)
qed

text \<open>The client may be in the list of the server or not in any list yet.\<close>

lemma without_inv:
  assumes law: "sys_law opened sys" and own: "owned base (opened (sv_w sv)) (server_owns sv)" and s: "is_server (sv_sock sv)"
    and cs: "\<And>j d. sv_client sv j = Some d \<Longrightarrow> j < next_id sv \<and> \<not> is_server (cl_sock d) \<and> \<not> wait_write (cl_sock d) \<and> sk_fd (cl_sock d) \<noteq> -1"
    and c: "sv_client sv i = Some c" and r: "ring nodes 0 (map Suc ys)" "set ys = dom (sv_client sv) - {i}"
  shows "server_inv opened base (without sys sv i c nodes)"
proof (rule server_invI)
  have fd: "sk_fd (cl_sock c) \<noteq> -1" using cs [OF c] by simp
  have o: "server_owns sv (Conn i) = Some (sk_fd (cl_sock c))" using c fd by (simp add: server_owns_def fd_opt_def)
  have "opened (sv_w (without sys sv i c nodes)) = opened (sv_w sv) - {sk_fd (cl_sock c)}"
    using fd by (simp add: without_def sock_close_world sys_law_close [OF law])
  moreover have "server_owns (without sys sv i c nodes) = (server_owns sv)(Conn i := None)"
    by (simp add: server_owns_def without_def owns_upd)
  ultimately show "owned base (opened (sv_w (without sys sv i c nodes))) (server_owns (without sys sv i c nodes))"
    using owned_close [OF own o] by simp
  show "is_server (sv_sock (without sys sv i c nodes))" using s by (simp add: without_def)
  show "j < next_id (without sys sv i c nodes) \<and> \<not> is_server (cl_sock d) \<and> \<not> wait_write (cl_sock d) \<and> sk_fd (cl_sock d) \<noteq> -1"
    if "sv_client (without sys sv i c nodes) j = Some d" for j d
    using that cs [of j d] by (simp add: without_def split: if_splits)
  have "ring (nodes(Suc i := None)) 0 (map Suc ys)" by (rule ring_other [OF r(1)]) (use r(2) in auto)
  then show "listed (without sys sv i c nodes) ys" using r(2) by (auto simp: listed_def without_def)
qed

lemma client_destroy_inv:
  assumes law: "sys_law opened sys" and inv: "server_inv opened base sv" and c: "sv_client sv i = Some c"
  obtains sv' where "client_destroy sys sv i rc = Some sv'" "server_inv opened base sv'"
proof -
  obtain xs where l: "ring (sv_nodes sv) 0 (map Suc xs)" "set xs = dom (sv_client sv)"
    using inv by (auto simp: server_inv_def listed_def)
  have "i \<in> set xs" using c l(2) by auto
  then obtain us vs where xs: "xs = us @ i # vs" by (meson split_list)
  then have rg: "ring (sv_nodes sv) 0 (map Suc us @ Suc i # map Suc vs)" using l(1) by simp
  have nx: "nx (sv_nodes sv) (Suc i) = Some (Some (hd (map Suc vs @ [0])))"
    using ring_at(2) [OF rg] by (simp add: linked_views)
  obtain nodes where n: "list_remove (sv_nodes sv) (Suc i) = Some nodes" "ring nodes 0 (map Suc us @ map Suc vs)"
    using list_remove_ring [OF rg] by metis
  have d: "distinct xs" using l(1) by (simp add: ring_def distinct_map)
  show ?thesis
  proof (rule that [OF client_destroy_used [OF c nx n(1)]])
    show "server_inv opened base (without sys sv i c nodes)"
      by (rule without_inv [OF law server_invD [OF inv] c, of _ "us @ vs"]) (use n(2) l(2) xs d in auto)
  qed
qed

lemma bind_SomeE: "Option.bind x f = Some y \<Longrightarrow> (\<And>z. x = Some z \<Longrightarrow> f z = Some y \<Longrightarrow> P) \<Longrightarrow> P"
  by (cases x) auto

section \<open>Events of a client\<close>

lemma do_client_send_frame:
  assumes "sys_law opened sys" "do_client_send sys w c = Some (c', w')" "\<not> wait_write (cl_sock c)"
  shows "sock_kind (cl_sock c') = sock_kind (cl_sock c)" "opened w' = opened w"
proof -
  have k: "sock_kind (cl_sock c) = (is_server (cl_sock c), False, sk_fd (cl_sock c))" using assms(3) by (simp add: sock_kind_def)
  show "sock_kind (cl_sock c') = sock_kind (cl_sock c)" using do_client_send_kind [OF assms(2) k] k by simp
  show "opened w' = opened w" by (rule do_client_send_opened [OF assms(1,2)])
qed

lemma do_client_recv_frame:
  assumes "sys_law opened sys" "do_client_recv sys w db c = Some (db', c', w')"
  shows "sock_kind (cl_sock c') = sock_kind (cl_sock c)" "opened w' = opened w"
  by (rule do_client_recv_kind [OF assms(2)], rule do_client_recv_opened [OF assms])

lemma wait_write_kind: "sock_kind s = sock_kind t \<Longrightarrow> wait_write s = wait_write t"
  by (simp add: sock_kind_def)

lemma client_recv_event_inv:
  assumes law: "sys_law opened sys" and inv: "server_inv opened base sv" and e: "client_recv_event sys sv i ev = Some sv'"
  shows "server_inv opened base sv'"
proof -
  let ?upd = "\<lambda>c db w. sv\<lparr> sv_client := (sv_client sv)(i \<mapsto> c), sv_db := db, sv_w := w \<rparr>"
  obtain c where c: "sv_client sv i = Some c" using e by (auto simp: client_recv_event_def bind_eq_Some_conv)
  have ww: "\<not> wait_write (cl_sock c)" using server_invD(3) [OF inv c] by simp
  obtain c1 w1 where s1: "(if ev AND (EPOLLOUT OR EPOLLHUP OR EPOLLERR) \<noteq> 0 then do_client_send sys (sv_w sv) c else Some (c, sv_w sv)) = Some (c1, w1)"
    using e c by (auto simp: client_recv_event_def bind_eq_Some_conv)
  obtain db c2 w2 where s2: "(if ev AND (EPOLLIN OR EPOLLHUP OR EPOLLRDHUP OR EPOLLERR) \<noteq> 0 then
        Option.bind (do_client_recv sys w1 (sv_db sv) c1) (\<lambda>(db, c, w). Option.bind (do_client_send sys w c) (\<lambda>(c, w). Some (db, c, w)))
        else Some (sv_db sv, c1, w1)) = Some (db, c2, w2)"
    and r: "(if client_must_close c2 then client_destroy sys (?upd c2 db w2) i 1 else Some (?upd c2 db w2)) = Some sv'"
  proof -
    obtain x where "(if ev AND (EPOLLIN OR EPOLLHUP OR EPOLLRDHUP OR EPOLLERR) \<noteq> 0 then
        Option.bind (do_client_recv sys w1 (sv_db sv) c1) (\<lambda>(db, c, w). Option.bind (do_client_send sys w c) (\<lambda>(c, w). Some (db, c, w)))
        else Some (sv_db sv, c1, w1)) = Some x"
      "(case x of (db, c, w) \<Rightarrow> if client_must_close c then client_destroy sys (?upd c db w) i 1 else Some (?upd c db w)) = Some sv'"
      using e c s1 unfolding client_recv_event_def Let_def by (auto elim: bind_SomeE)
    then show ?thesis by (cases x) (auto intro: that)
  qed
  have k1: "sock_kind (cl_sock c1) = sock_kind (cl_sock c)" "opened w1 = opened (sv_w sv)"
    using s1 do_client_send_frame [OF law _ ww] by (simp_all split: if_splits)
  then have ww1: "\<not> wait_write (cl_sock c1)" using ww wait_write_kind by blast
  have k2: "sock_kind (cl_sock c2) = sock_kind (cl_sock c1) \<and> opened w2 = opened w1"
  proof (cases "ev AND (EPOLLIN OR EPOLLHUP OR EPOLLRDHUP OR EPOLLERR) = 0")
    case False
    then obtain c3 w3 where rv: "do_client_recv sys w1 (sv_db sv) c1 = Some (db, c3, w3)" and sd: "do_client_send sys w3 c3 = Some (c2, w2)"
      using s2 unfolding bind_eq_Some_conv by (auto simp: bind_eq_Some_conv)
    note f = do_client_recv_frame [OF law rv]
    have "\<not> wait_write (cl_sock c3)" using wait_write_kind [OF f(1)] ww1 by simp
    from do_client_send_frame [OF law sd this] f show ?thesis by simp
  qed (use s2 in simp)
  have inv1: "server_inv opened base (?upd c2 db w2)"
    by (rule server_inv_client [OF inv c]) (use k1 k2 in simp_all)
  show ?thesis
  proof (cases "client_must_close c2")
    case True
    have "sv_client (?upd c2 db w2) i = Some c2" by simp
    from client_destroy_inv [OF law inv1 this, of 1] show ?thesis using r True by auto
  qed (use r inv1 in simp)
qed

section \<open>Accepting clients\<close>

lemma sock_accept_makes:
  assumes law: "sys_law opened sys" and a: "sock_accept (sy_os sys) w sock = ((fd, a), w')"
  shows "makes_fd opened w fd w'"
proof -
  obtain fd1 sa w1 where ac: "os_accept (sy_os sys) w (sk_fd sock) (bit (sk_mode sock) SOCK_NONBLK) = ((fd1, sa), w1)"
    by (metis prod.collapse)
  obtain k ad where ld: "sock_addr_load sa = (k, ad)" by fastforce
  obtain ok w2 where so: "os_sockopt (sy_os sys) w1 fd1 (TCP_NODELAY 1) = (ok, w2)" by fastforce
  have m: "makes_fd opened w fd1 w1" by (rule sys_lawD(8) [OF law ac])
  consider "fd1 = -1" | "fd1 \<noteq> -1" "k = None" | "fd1 \<noteq> -1" "k \<noteq> None" by blast
  then show ?thesis
  proof cases
    case 1
    then have "fd = -1" "w' = w1" using a by (simp_all add: sock_accept_def ac)
    then show ?thesis using m 1 by simp
  next
    case 2
    then have "fd = -1" "w' = snd (os_close (sy_os sys) w1 fd1)" using a by (simp_all add: sock_accept_def ac ld)
    then show ?thesis using m 2 by (simp add: makes_fd_def sys_law_close [OF law])
  next
    case 3
    then have "fd = fd1" "w' = w2" using a by (auto simp: sock_accept_def ac ld so)
    then show ?thesis using m sys_lawD(5) [OF law so] by (simp add: makes_fd_def)
  qed
qed

text \<open>A new client: it has the descriptor \<open>fd\<close>, and its element is a list of its own.\<close>

lemma sock_init_kind: "sock_kind (snd (sock_init env sock fd a m b s x)) = (is_server sock, wait_write sock, fd)"
  by (simp add: sock_init_def sock_kind_def Let_def split: prod.split option.split)

definition with_client :: "'w server \<Rightarrow> client \<Rightarrow> nodes \<Rightarrow> 'w \<Rightarrow> 'w server" where
  "with_client sv c nodes w = sv\<lparr> next_id := next_id sv + 1, sv_nodes := nodes, sv_client := (sv_client sv)(next_id sv \<mapsto> c), sv_w := w \<rparr>"

lemma client_create_cases:
  assumes law: "sys_law opened sys" and r: "client_create sys sv fd a = Some (x, sv')"
  obtains (none) w where "x = None" "sv' = sv\<lparr> sv_w := w \<rparr>" "opened w = opened (sv_w sv)"
  | (new) c nodes w where "x = Some (next_id sv)" "sv' = with_client sv c nodes w" "opened w = opened (sv_w sv)"
      "sock_kind (cl_sock c) = (False, False, fd)" "ring nodes (Suc (next_id sv)) []" "\<And>b. b \<noteq> Suc (next_id sv) \<Longrightarrow> nodes b = sv_nodes sv b"
proof -
  obtain ok w where m: "sy_malloc sys (sv_w sv) = (ok, w)" by fastforce
  note w = sys_lawD(12) [OF law m]
  let ?s = "snd (sock_init (sy_heap sys) sock_zero fd (Some a) MAX_LINE SOCK_INIT_BUFSIZE SOCK_MIN_BUFSIZE SOCK_MAX_BUFSIZE)"
  let ?m = "(sv_nodes sv)(Suc (next_id sv) \<mapsto> \<lparr> le_next = None, le_prev = None \<rparr>)"
  obtain nodes where n: "list_init ?m (Suc (next_id sv)) = Some nodes" "ring nodes (Suc (next_id sv)) []"
    "\<And>b. b \<noteq> Suc (next_id sv) \<Longrightarrow> nodes b = ?m b"
    by (rule list_init_ring [of ?m "Suc (next_id sv)"]) simp_all
  show ?thesis
  proof (cases ok)
    case True
    then have "x = Some (next_id sv)" "sv' = with_client sv \<lparr> cl_sock = ?s, log_line = False, snd_prompt = False \<rparr> nodes w"
      using r n(1) by (auto simp: client_create_def m with_client_def Let_def)
    then show ?thesis using new w n(2,3) by (simp add: sock_init_kind sock_zero_def)
  next
    case False
    then have "x = None" "sv' = sv\<lparr> sv_w := w \<rparr>" using r by (auto simp: client_create_def m)
    then show ?thesis using none w by blast
  qed
qed

lemma with_client_owned:
  assumes inv: "server_inv opened (insert fd base) sv" and fd: "fd \<notin> base" "fd \<noteq> -1"
    and k: "sock_kind (cl_sock c) = (False, False, fd)" and w: "opened w = opened (sv_w sv)"
  shows "owned base (opened (sv_w (with_client sv c nodes w))) (server_owns (with_client sv c nodes w))"
    and "is_server (sv_sock (with_client sv c nodes w))"
    and "sv_client (with_client sv c nodes w) j = Some d \<Longrightarrow>
      j < next_id (with_client sv c nodes w) \<and> \<not> is_server (cl_sock d) \<and> \<not> wait_write (cl_sock d) \<and> sk_fd (cl_sock d) \<noteq> -1"
proof -
  have f: "sk_fd (cl_sock c) = fd" using k by (simp add: sock_kind_def)
  have new: "sv_client sv (next_id sv) = None" using server_invD(3) [OF inv, of "next_id sv"] by (cases "sv_client sv (next_id sv)") auto
  then have "server_owns sv (Conn (next_id sv)) = None" by (simp add: server_owns_def)
  from owned_adopt [OF server_invD(1) [OF inv] fd(1) this]
  show "owned base (opened (sv_w (with_client sv c nodes w))) (server_owns (with_client sv c nodes w))"
    using f fd(2) w by (simp add: with_client_def server_owns_def owns_upd fd_opt_def)
  show "is_server (sv_sock (with_client sv c nodes w))" using server_invD(2) [OF inv] by (simp add: with_client_def)
  show "sv_client (with_client sv c nodes w) j = Some d \<Longrightarrow>
      j < next_id (with_client sv c nodes w) \<and> \<not> is_server (cl_sock d) \<and> \<not> wait_write (cl_sock d) \<and> sk_fd (cl_sock d) \<noteq> -1"
    using server_invD(3) [OF inv, of j d] k fd(2) by (auto simp: with_client_def sock_kind_def split: if_splits)
qed

lemma send_prompt_kind: "sock_kind (cl_sock (snd (send_prompt env c))) = sock_kind (cl_sock c)"
  using sock_write_mem_kind [of env "cl_sock c"] by (auto simp: send_prompt_def split: prod.split)

lemma with_client_ring:
  assumes inv: "server_inv opened base sv" and n: "\<And>b. b \<noteq> Suc (next_id sv) \<Longrightarrow> nodes b = sv_nodes sv b"
  obtains xs where "ring nodes 0 (map Suc xs)" "\<And>c w. set xs = dom (sv_client (with_client sv c nodes w)) - {next_id sv}"
proof -
  obtain xs where l: "ring (sv_nodes sv) 0 (map Suc xs)" "set xs = dom (sv_client sv)"
    using inv by (auto simp: server_inv_def listed_def)
  have lt: "\<forall>j \<in> set xs. j < next_id sv" using server_invD(3) [OF inv] l(2) by auto
  have e: "nodes a = sv_nodes sv a" if "a \<in> set (0 # map Suc xs)" for a by (rule n) (use that lt in auto)
  have "links nodes (0 # map Suc xs @ [0])"
  proof (rule links_frame)
    show "links (sv_nodes sv) (0 # map Suc xs @ [0])" using l(1) by (simp add: ring_def)
    show "map_option le_next (nodes a) = map_option le_next (sv_nodes sv a)" if "a \<in> set (butlast (0 # map Suc xs @ [0]))" for a
      using e [of a] that by (simp add: butlast_append split: if_splits)
    show "map_option le_prev (nodes a) = map_option le_prev (sv_nodes sv a)" if "a \<in> set (List.tl (0 # map Suc xs @ [0]))" for a
      using e [of a] that by auto
  qed
  then have "ring nodes 0 (map Suc xs)" using l(1) by (simp add: ring_def)
  then show ?thesis using that [of xs] lt l(2) by (auto simp: with_client_def)
qed

lemma links_self: "ring nodes a [] \<Longrightarrow> linked nodes a a"
  by (simp add: ring_def)

text \<open>A client that is not in the list of the server yet.\<close>

lemma client_destroy_new:
  assumes law: "sys_law opened sys" and r: "ring (sv_nodes sv) 0 (map Suc xs)" "set xs = dom (sv_client sv) - {i}"
    and self: "ring (sv_nodes sv) (Suc i) []"
    and own: "owned base (opened (sv_w sv)) (server_owns sv)" "is_server (sv_sock sv)"
    and cs: "\<And>j d. sv_client sv j = Some d \<Longrightarrow> j < next_id sv \<and> \<not> is_server (cl_sock d) \<and> \<not> wait_write (cl_sock d) \<and> sk_fd (cl_sock d) \<noteq> -1"
    and c: "sv_client sv i = Some c"
  obtains sv' where "client_destroy sys sv i rc = Some sv'" "server_inv opened base sv'"
proof -
  let ?n = "sv_nodes sv"
  have l: "nx ?n (Suc i) = Some (Some (Suc i))" "pv ?n (Suc i) = Some (Some (Suc i))"
    using links_self [OF self] by (simp_all add: linked_views)
  then have e: "?n (Suc i) = Some \<lparr> le_next = Some (Suc i), le_prev = Some (Suc i) \<rparr>" by (rule node_views)
  have rm: "list_remove ?n (Suc i) = Some (?n(Suc i \<mapsto> \<lparr> le_next = None, le_prev = None \<rparr>))"
    by (simp add: list_remove_def set_le_next_def set_le_prev_def e)
  have "ring (?n(Suc i \<mapsto> \<lparr> le_next = None, le_prev = None \<rparr>)) 0 (map Suc xs)"
    by (rule ring_other [OF r(1)]) (use r(2) in auto)
  from that [OF client_destroy_used [OF c l(1) rm] without_inv [OF law own cs c this r(2)]] show ?thesis .
qed

lemma server_inv_append:
  assumes "ring (sv_nodes sv) 0 (map Suc xs)" "set xs = dom (sv_client sv) - {i}" "ring (sv_nodes sv) (Suc i) []"
    and own: "owned base (opened (sv_w sv)) (server_owns sv)" "is_server (sv_sock sv)"
    and cs: "\<And>j d. sv_client sv j = Some d \<Longrightarrow> j < next_id sv \<and> \<not> is_server (cl_sock d) \<and> \<not> wait_write (cl_sock d) \<and> sk_fd (cl_sock d) \<noteq> -1"
    and c: "sv_client sv i = Some c" and n: "list_append (sv_nodes sv) 0 (Suc i) = Some nodes"
  shows "server_inv opened base (sv\<lparr> sv_nodes := nodes \<rparr>)"
proof -
  have "nx (sv_nodes sv) (Suc i) \<noteq> None" using links_self [OF assms(3)] by (simp add: linked_views)
  moreover have "Suc i \<notin> set (0 # map Suc xs)" using assms(2) by auto
  ultimately have "ring nodes 0 (map Suc xs @ [Suc i])" using list_append_ring [OF assms(1)] n by (metis option.inject)
  then have "listed (sv\<lparr> sv_nodes := nodes \<rparr>) (xs @ [i])" using assms(2) c by (auto simp: listed_def)
  then show ?thesis using own cs by (intro server_invI [of _ _ _ "xs @ [i]"]) (simp_all add: server_owns_def)
qed

lemma server_accept_inv:
  assumes law: "sys_law opened sys" and inv: "server_inv opened base sv" and a: "server_accept sys sv = Some (x, sv')"
  shows "server_inv opened base sv'"
proof -
  obtain fd ad w0 where ac: "sock_accept (sy_os sys) (sv_w sv) (sv_sock sv) = ((fd, ad), w0)" by (metis prod.collapse)
  note m = sock_accept_makes [OF law ac]
  let ?sv = "sv\<lparr> sv_w := w0 \<rparr>"
  show ?thesis
  proof (cases "fd = -1")
    case True
    then have "sv' = ?sv" using a by (simp add: server_accept_def ac)
    then show ?thesis using server_inv_world [OF inv, of w0] m True by (simp add: makes_fd_def)
  next
    case fd: False
    then have o: "fd \<notin> opened (sv_w sv)" "opened w0 = insert fd (opened (sv_w sv))" using m by (simp_all add: makes_fd_def)
    have nb: "fd \<notin> base" using o(1) server_invD(1) [OF inv] by (auto simp: owned_def)
    have inv0: "server_inv opened (insert fd base) ?sv"
      using inv o by (auto simp: server_inv_def owned_def server_owns_def listed_def)
    obtain y sv1 where cr: "client_create sys ?sv fd ad = Some (y, sv1)"
      using a fd by (auto simp: server_accept_def ac Let_def bind_eq_Some_conv)
    from law cr show ?thesis
    proof (cases rule: client_create_cases)
      case (none w)
      then have "sv' = ?sv\<lparr> sv_w := snd (os_close (sy_os sys) w fd) \<rparr>" using a fd cr by (simp add: server_accept_def ac)
      moreover have "owned base (opened (snd (os_close (sy_os sys) w fd))) (server_owns ?sv)"
        using owned_drop [OF server_invD(1) [OF inv0] nb] none(3) by (simp add: sys_law_close [OF law])
      ultimately show ?thesis using inv by (simp add: server_inv_def server_owns_def listed_def)
    next
      case (new c nodes w)
      let ?i = "next_id sv"
      obtain xs where xs: "ring nodes 0 (map Suc xs)" "\<And>c w. set xs = dom (sv_client (with_client ?sv c nodes w)) - {?i}"
        using with_client_ring [OF inv0, of nodes] new(6) by auto
      obtain rc sock w2 where p: "poll_ctrl sys w (cl_sock c) RD_EVENTS = Some (rc, sock, w2)"
        using a fd cr new(1,2) by (auto simp: server_accept_def ac Let_def with_client_def bind_eq_Some_conv)
      define c2 where "c2 = c\<lparr> cl_sock := sock, log_line := sv_log_line sv \<rparr>"
      have k2: "sock_kind (cl_sock c2) = (False, False, fd)" "opened w2 = opened (sv_w ?sv)"
        using poll_ctrl_kind [OF p] poll_ctrl_opened [OF law p] new(3,4) by (simp_all add: c2_def)
      have sv2: "(with_client ?sv c nodes w)\<lparr> sv_client := (sv_client (with_client ?sv c nodes w))(?i \<mapsto> c2), sv_w := w2 \<rparr> =
        with_client ?sv c2 nodes w2" by (simp add: with_client_def)
      have q: "ring (sv_nodes (with_client ?sv d nodes v)) 0 (map Suc xs)" "set xs = dom (sv_client (with_client ?sv d nodes v)) - {?i}"
        "ring (sv_nodes (with_client ?sv d nodes v)) (Suc ?i) []" "sv_client (with_client ?sv d nodes v) ?i = Some d" for d v
        using xs(1) xs(2) [of d v] new(5) by (simp_all add: with_client_def)
      show ?thesis
      proof (cases "rc = 0")
        case False
        obtain sv3 where "client_destroy sys (with_client ?sv c2 nodes w2) ?i 1 = Some sv3" "server_inv opened base sv3"
          using client_destroy_new [OF law q(1-3) with_client_owned [OF inv0 nb fd k2] q(4)] by blast
        moreover from this have "sv' = sv3"
          using a fd cr new(1,2) p False sv2 by (simp add: server_accept_def ac with_client_def c2_def)
        ultimately show ?thesis by simp
      next
        case True
        obtain nodes2 c3 w3 where n: "list_append nodes 0 (Suc ?i) = Some nodes2"
          and s: "do_client_send sys w2 (snd (send_prompt (sy_heap sys) (c2\<lparr> snd_prompt := True \<rparr>))) = Some (c3, w3)"
          and sv': "sv' = (with_client ?sv c3 nodes w3)\<lparr> sv_nodes := nodes2 \<rparr>"
          using a fd cr new(1,2) p True by (auto simp: server_accept_def ac Let_def with_client_def c2_def bind_eq_Some_conv)
        have "sock_kind (cl_sock (snd (send_prompt (sy_heap sys) (c2\<lparr> snd_prompt := True \<rparr>)))) = (False, False, fd)"
          using k2(1) by (simp add: send_prompt_kind)
        then have k3: "sock_kind (cl_sock c3) = (False, False, fd)" "opened w3 = opened (sv_w ?sv)"
          using do_client_send_frame [OF law s] k2(2) by (simp_all add: sock_kind_def)
        show ?thesis unfolding sv'
          by (rule server_inv_append [where opened = opened, OF q(1-3) with_client_owned [OF inv0 nb fd k3] q(4)]) (use n in \<open>simp_all add: with_client_def\<close>)
      qed
    qed
  qed
qed

section \<open>Events of the server\<close>

lemma accept_loop_inv:
  assumes law: "sys_law opened sys"
  shows "server_inv opened base sv \<Longrightarrow> accept_loop n sys sv = Some sv' \<Longrightarrow> server_inv opened base sv'"
proof (induction n arbitrary: sv)
  case (Suc n)
  obtain x sv1 where a: "server_accept sys sv = Some (x, sv1)" and r: "(if x = None then Some sv1 else accept_loop n sys sv1) = Some sv'"
    using Suc.prems(2) by (auto simp: bind_eq_Some_conv)
  note i1 = server_accept_inv [OF law Suc.prems(1) a]
  show ?case using r Suc.IH [OF i1] i1 by (cases "x = None") auto
qed simp

lemma do_server_err_inv:
  assumes "sys_law opened sys" "server_inv opened base sv"
  shows "server_inv opened base (do_server_err sys sv)"
proof -
  obtain ok w where o: "os_sockopt (sy_os sys) (sv_w sv) (sk_fd (sv_sock sv)) SO_ERROR = (ok, w)" by fastforce
  have "opened w = opened (sv_w sv)" by (rule sys_lawD(5) [OF assms(1) o])
  then show ?thesis using assms(2) o by (simp add: do_server_err_def server_inv_def server_owns_def listed_def)
qed

lemma do_server_check_inv:
  assumes law: "sys_law opened sys" and inv: "server_inv opened base sv"
  shows "server_inv opened base (do_server_check sys sv)"
proof -
  obtain rc sock w where c: "sock_close (sy_os sys) (sv_w sv) (sv_sock sv) (-1) = (rc, sock, w)" by (metis prod_cases3)
  have "owned base (opened w) (owns (sk_fd sock) (sv_epoll_fd sv) (sv_client sv))"
  proof (cases "sk_fd (sv_sock sv) = -1")
    case True
    then have "sock = sv_sock sv" "w = sv_w sv" using c by (simp_all add: sock_close_def)
    then show ?thesis using server_invD(1) [OF inv] by (simp add: server_owns_def)
  next
    case False
    then have s: "sk_fd sock = -1" "w = snd (os_close (sy_os sys) (sv_w sv) (sk_fd (sv_sock sv)))"
      using c by (auto simp: sock_close_def split: prod.splits)
    have "server_owns sv Listen = Some (sk_fd (sv_sock sv))" using False by (simp add: server_owns_def fd_opt_def)
    from owned_close [OF server_invD(1) [OF inv] this] show ?thesis
      using s by (simp add: sys_law_close [OF law] server_owns_def fd_opt_def
        owns_listen(1) [of "-1" "sv_epoll_fd sv" "sv_client sv" "sk_fd (sv_sock sv)"])
  qed
  moreover have "is_server sock = is_server (sv_sock sv)" using c by (auto simp: sock_close_def split: if_splits prod.splits)
  ultimately show ?thesis using inv c
    by (simp add: do_server_check_def server_inv_def server_owns_def listed_def)
qed

lemma server_event_inv:
  assumes law: "sys_law opened sys" and inv: "server_inv opened base sv" and e: "server_event sys sv t ev = Some sv'"
  shows "server_inv opened base sv'"
proof (cases t)
  case Listener
  let ?sv = "if ev AND (EPOLLERR OR EPOLLHUP) \<noteq> 0 then do_server_err sys sv else sv"
  have i1: "server_inv opened base ?sv" using inv do_server_err_inv [OF law inv] by simp
  have r: "server_recv_event sys sv ev = Some sv'" using e Listener server_invD(2) [OF inv] by (simp add: server_event_def)
  then obtain sv2 where a: "(if ev AND EPOLLIN \<noteq> 0 then do_server_accept sys ?sv else Some ?sv) = Some sv2" and s: "sv' = do_server_check sys sv2"
    unfolding server_recv_event_def Let_def by (auto elim: bind_SomeE)
  have "server_inv opened base sv2"
    using a i1 accept_loop_inv [OF law i1] by (cases "ev AND EPOLLIN = 0") (simp_all add: do_server_accept_def)
  then show ?thesis unfolding s by (rule do_server_check_inv [OF law])
next
  case (Client i)
  then obtain c where c: "sv_client sv i = Some c" using e by (auto simp: server_event_def bind_eq_Some_conv)
  then have "client_recv_event sys sv i ev = Some sv'" using e Client server_invD(3) [OF inv c] by (simp add: server_event_def)
  then show ?thesis by (rule client_recv_event_inv [OF law inv])
qed

lemma server_events_inv:
  assumes law: "sys_law opened sys"
  shows "server_inv opened base sv \<Longrightarrow> server_events sys sv evs = Some sv' \<Longrightarrow> server_inv opened base sv'"
proof (induction evs arbitrary: sv)
  case (Cons e evs)
  obtain t ev where e: "e = (t, ev)" by (cases e)
  then obtain sv1 where s: "server_event sys sv t ev = Some sv1" "server_events sys sv1 evs = Some sv'"
    using Cons.prems(2) by (auto elim: bind_SomeE)
  show ?case by (rule Cons.IH [OF server_event_inv [OF law Cons.prems(1) s(1)] s(2)])
qed simp

lemma server_poll_keeps:
  assumes law: "sys_law opened sys" and inv: "server_inv opened base sv" and p: "server_poll sys sv = Some (rc, sv')"
  shows "server_inv opened base sv'"
proof -
  obtain r w where e: "sy_epoll_wait sys (sv_w sv) = (r, w)" by fastforce
  note i1 = server_inv_world [OF inv sys_lawD(11) [OF law e]]
  show ?thesis
  proof (cases r)
    case (Inl x)
    then show ?thesis using p e i1 by (auto simp: server_poll_def)
  next
    case (Inr evs)
    then show ?thesis using p e server_events_inv [OF law i1] by (auto simp: server_poll_def bind_eq_Some_conv)
  qed
qed

lemma server_run_keeps:
  assumes "server_run sys sv = Some r"
  shows "sys_law opened sys \<and> server_inv opened base sv \<longrightarrow> server_inv opened base (snd r)"
proof (rule server_run.raw_induct [OF _ assms, where P = "\<lambda>sys sv r. sys_law opened sys \<and> server_inv opened base sv \<longrightarrow> server_inv opened base (snd r)"])
  fix run :: "'a sys \<Rightarrow> 'a server \<Rightarrow> (int \<times> 'a server) option" and sys sv r
  assume ih: "\<And>sys sv r. run sys sv = Some r \<Longrightarrow> sys_law opened sys \<and> server_inv opened base sv \<longrightarrow> server_inv opened base (snd r)"
    and b: "(if sv_run sv \<and> sy_run sys (sv_w sv) then
       Option.bind (server_poll sys sv) (\<lambda>(rc, sv). if rc \<noteq> 0 then Some (-1, sv) else run sys sv) else Some (0, sv)) = Some r"
  show "sys_law opened sys \<and> server_inv opened base sv \<longrightarrow> server_inv opened base (snd r)"
  proof (cases "sv_run sv \<and> sy_run sys (sv_w sv)")
    case True
    then obtain rc sv1 where p: "server_poll sys sv = Some (rc, sv1)" and x: "(if rc \<noteq> 0 then Some (-1, sv1) else run sys sv1) = Some r"
      using b by (auto elim: bind_SomeE)
    show ?thesis using server_poll_keeps [OF _ _ p] ih [of sys sv1 r] x by (cases "rc = 0") auto
  qed (use b in auto)
qed

section \<open>Ending\<close>

lemma owned_release:
  assumes "sys_law opened sys" "owned base (opened w) f" "f a = fd_opt x"
  shows "owned base (opened (if x \<noteq> -1 then snd (os_close (sy_os sys) w x) else w)) (f(a := None))"
proof (cases "x = -1")
  case True
  then show ?thesis using assms(2,3) by (simp add: fd_opt_def fun_upd_idem)
next
  case False
  then show ?thesis using owned_close [OF assms(2), of a x] assms(3) by (simp add: fd_opt_def sys_law_close [OF assms(1)])
qed

lemma ring_second:
  assumes "ring m h xs"
  obtains e n where "m (hd (xs @ [h])) = Some e" "le_next e = Some n" "xs \<noteq> [] \<longrightarrow> n = hd (List.tl xs @ [h])"
proof (cases xs)
  case Nil
  have "linked m h (hd (xs @ [h]))" by (rule ring_head(2) [OF assms])
  then obtain e where "m h = Some e" "le_next e = Some h" using Nil by (auto simp: linked_def)
  then show ?thesis by (intro that [of e h]) (simp_all add: Nil)
next
  case (Cons j ys)
  have "linked m j (hd (ys @ [h]))" by (rule ring_at(2) [of m h "[]"]) (use assms Cons in simp)
  then obtain e where "m j = Some e" "le_next e = Some (hd (ys @ [h]))" by (auto simp: linked_def)
  then show ?thesis by (intro that [of e "hd (ys @ [h])"]) (simp_all add: Cons)
qed

lemma free_clients_done:
  assumes law: "sys_law opened sys"
  shows "server_inv opened base sv \<Longrightarrow> listed sv xs \<Longrightarrow>
    e = hd (map Suc xs @ [0]) \<Longrightarrow> (xs \<noteq> [] \<Longrightarrow> n = hd (List.tl (map Suc xs) @ [0])) \<Longrightarrow>
    \<exists>sv'. free_clients sys sv e n = Some sv' \<and> server_inv opened base sv' \<and> sv_client sv' = Map.empty"
proof (induction xs arbitrary: sv e n)
  case Nil
  then show ?case by (intro exI [of _ sv]) (auto simp: listed_def free_clients.simps)
next
  case (Cons i xs)
  obtain c where c: "sv_client sv i = Some c" using Cons.prems(2) by (auto simp: listed_def)
  have n: "e = Suc i" "n = hd (map Suc xs @ [0])" using Cons.prems(3,4) by simp_all
  have rg: "ring (sv_nodes sv) 0 ([] @ Suc i # map Suc xs)" using Cons.prems(2) by (simp add: listed_def)
  obtain nodes where rm: "list_remove (sv_nodes sv) (Suc i) = Some nodes" "ring nodes 0 ([] @ map Suc xs)" "nx nodes (Suc i) = Some None"
    using list_remove_ring [OF rg] by metis
  let ?sv = "sv\<lparr> sv_nodes := nodes \<rparr>"
  let ?sv1 = "without sys ?sv i c nodes"
  have d: "i \<notin> set xs" "set xs = dom (sv_client sv) - {i}"
    using Cons.prems(2) by (auto simp: listed_def ring_def distinct_map)
  have cd: "client_destroy sys ?sv i 0 = Some ?sv1"
    using client_destroy_unused [of ?sv i c] c rm(3) by simp
  have i1: "server_inv opened base ?sv1"
    by (rule without_inv [OF law, of _ _ i c _ xs])
      (use server_invD [OF Cons.prems(1)] c rm(2) d(2) in \<open>simp_all add: server_owns_def\<close>)
  have l1: "listed ?sv1 xs"
    using ring_other [OF rm(2), of "Suc i" None] d by (auto simp: listed_def without_def)
  have rg1: "ring (sv_nodes ?sv1) 0 (map Suc xs)" using l1 by (simp add: listed_def)
  obtain el n' where el: "sv_nodes ?sv1 n = Some el" "le_next el = Some n'" "xs \<noteq> [] \<longrightarrow> n' = hd (List.tl (map Suc xs) @ [0])"
    by (rule ring_second [OF rg1]) (auto simp: n(2))
  obtain sv' where "free_clients sys ?sv1 n n' = Some sv'" "server_inv opened base sv'" "sv_client sv' = Map.empty"
    using Cons.IH [OF i1 l1 n(2)] el(3) by blast
  then show ?case using n(1) rm(1) cd el by (subst free_clients.simps) simp
qed

lemma server_free_done:
  assumes law: "sys_law opened sys" and inv: "server_inv opened base sv"
  obtains sv' where "server_free sys sv = Some sv'" "opened (sv_w sv') = base" "sv_client sv' = Map.empty"
proof -
  obtain xs where l: "listed sv xs" using inv by (auto simp: server_inv_def)
  have "linked (sv_nodes sv) 0 (hd (map Suc xs @ [0]))" using ring_head(2) l by (auto simp: listed_def)
  then obtain e0 where e0: "sv_nodes sv 0 = Some e0" "le_next e0 = Some (hd (map Suc xs @ [0]))" by (auto simp: linked_def)
  have rg: "ring (sv_nodes sv) 0 (map Suc xs)" using l by (simp add: listed_def)
  obtain e1 n where e1: "sv_nodes sv (hd (map Suc xs @ [0])) = Some e1" "le_next e1 = Some n"
    "xs \<noteq> [] \<longrightarrow> n = hd (List.tl (map Suc xs) @ [0])"
    by (rule ring_second [OF rg]) auto
  obtain sv1 where f: "free_clients sys sv (hd (map Suc xs @ [0])) n = Some sv1" "server_inv opened base sv1" "sv_client sv1 = Map.empty"
    using free_clients_done [OF law inv l refl] e1(3) by blast
  let ?l = "sk_fd (sv_sock sv1)" and ?e = "sv_epoll_fd sv1"
  let ?w1 = "if ?l \<noteq> -1 then snd (os_close (sy_os sys) (sv_w sv1) ?l) else sv_w sv1"
  let ?w2 = "if ?e \<noteq> -1 then snd (os_close (sy_os sys) ?w1 ?e) else ?w1"
  have own: "owned base (opened (sv_w sv1)) (owns ?l ?e Map.empty)" using server_invD(1) [OF f(2)] f(3) by (simp add: server_owns_def)
  have o1: "owned base (opened ?w1) ((owns ?l ?e Map.empty)(Listen := None))" by (rule owned_release [OF law own]) simp
  have o2: "owned base (opened ?w2) ((owns ?l ?e Map.empty)(Listen := None, Epoll := None))" by (rule owned_release [OF law o1]) simp
  have "((owns ?l ?e Map.empty)(Listen := None, Epoll := None)) z = None" for z by (cases z) simp_all
  then have "opened ?w2 = base" using o2 by (simp add: owned_def ran_def)
  then show ?thesis
    using that [of "sv1\<lparr> sv_w := ?w2, sv_hostname := None, sv_port := None, sv_database := None \<rparr>"] e0 e1(1,2) f(1,3)
    by (simp add: server_free_def)
qed

section \<open>Starting\<close>

lemma makes_fd_same: "makes_fd opened w fd v \<Longrightarrow> opened w' = opened v \<Longrightarrow> makes_fd opened w fd w'"
  by (simp add: makes_fd_def)

lemma makes_fd_close: "sys_law opened sys \<Longrightarrow> makes_fd opened w fd v \<Longrightarrow> fd \<noteq> -1 \<Longrightarrow> opened u = opened v \<Longrightarrow>
    makes_fd opened w (-1) (snd (os_close (sy_os sys) u fd))"
  by (simp add: makes_fd_def sys_law_close)

lemma listen_addr_makes:
  assumes law: "sys_law opened sys" and fd: "sk_fd sock = -1" and l: "listen_addr (sy_os sys) w sock addr = (rc, sock', w')"
  shows "makes_fd opened w (sk_fd sock') w'" "is_server sock' = is_server sock"
proof -
  let ?os = "sy_os sys"
  obtain k a where a: "sock_addr_load addr = (k, a)" by fastforce
  obtain fd1 w1 where s: "os_socket ?os w (da_family addr) (da_sock_type addr) (bit (sk_mode sock) SOCK_NONBLK) = (fd1, w1)" by fastforce
  have m: "makes_fd opened w fd1 w1" using fd_lawD(1) [OF sys_lawD(1) [OF law] s] by (simp add: makes_fd_def)
  define w2 where "w2 = (if bit (sk_mode sock) SOCK_ANY then snd (os_sockopt ?os w1 fd1 (IPV6_V6ONLY 0)) else w1)"
  define w3 where "w3 = (if bit (sk_mode sock) SOCK_REUSE then snd (os_sockopt ?os w2 fd1 (SO_REUSEADDR 1)) else w2)"
  obtain b w4 where bd: "os_bind ?os w3 fd1 addr = (b, w4)" by fastforce
  obtain c w5 where ls: "os_listen ?os w4 fd1 = (c, w5)" by fastforce
  have so: "opened (snd (os_sockopt ?os v f x)) = opened v" for v f x
    using sys_lawD(5) [OF law, of v f x] by (cases "os_sockopt ?os v f x") simp
  have eq: "opened w3 = opened w1" "opened w4 = opened w1" "opened w5 = opened w1"
    using so sys_lawD(6) [OF law bd] sys_lawD(7) [OF law ls] by (simp_all add: w3_def w2_def)
  let ?t = "sock\<lparr> sk_addr := a, sk_fd := fd1 \<rparr>"
  have cl: "sock_close ?os v ?t (-1) = (-1, ?t\<lparr> sk_fd := -1 \<rparr>, snd (os_close ?os v fd1))" if "fd1 \<noteq> -1" for v
    using that by (simp add: sock_close_def split: prod.split)
  have step: "(rc, sock', w') = (if k = None then (-1, sock\<lparr> sk_addr := a \<rparr>, w) else if fd1 = -1 then (-1, ?t, w1)
    else if bit (sk_mode sock) SOCK_PASSIVE then
      if \<not> b then sock_close ?os w4 ?t (-1) else if \<not> c then sock_close ?os w5 ?t (-1) else (0, ?t, w5)
    else (0, ?t, w3))"
    unfolding l [symmetric] w3_def w2_def using bd ls unfolding w3_def w2_def
    by (simp add: listen_addr_def a s Let_def)
  consider (bad) "k = None" | (fail) "k \<noteq> None" "fd1 = -1"
    | (plain) "k \<noteq> None" "fd1 \<noteq> -1" "\<not> bit (sk_mode sock) SOCK_PASSIVE"
    | (nobind) "k \<noteq> None" "fd1 \<noteq> -1" "bit (sk_mode sock) SOCK_PASSIVE" "\<not> b"
    | (nolisten) "k \<noteq> None" "fd1 \<noteq> -1" "bit (sk_mode sock) SOCK_PASSIVE" "b" "\<not> c"
    | (ok) "k \<noteq> None" "fd1 \<noteq> -1" "bit (sk_mode sock) SOCK_PASSIVE" "b" "c" by blast
  then have "makes_fd opened w (sk_fd sock') w' \<and> is_server sock' = is_server sock"
  proof cases
    case bad
    then show ?thesis using fd step by (simp add: makes_fd_def)
  next
    case fail
    then show ?thesis using m step by (auto split: if_splits)
  next
    case plain
    then show ?thesis using makes_fd_same [OF m eq(1)] step by (auto split: if_splits)
  next
    case nobind
    then show ?thesis using makes_fd_close [OF law m nobind(2) eq(2)] cl [OF nobind(2), of w4] step by (auto split: if_splits)
  next
    case nolisten
    then show ?thesis using makes_fd_close [OF law m nolisten(2) eq(3)] cl [OF nolisten(2), of w5] step by (auto split: if_splits)
  next
    case ok
    then show ?thesis using makes_fd_same [OF m eq(3)] step by (auto split: if_splits)
  qed
  then show "makes_fd opened w (sk_fd sock') w'" "is_server sock' = is_server sock" by simp_all
qed

lemma sock_server_makes:
  assumes law: "sys_law opened sys" and fd: "sk_fd sock = -1"
    and s: "sock_server (sy_os sys) (sy_resolv sys) w sock mode host port = (rc, sock', w')"
  shows "makes_fd opened w (sk_fd sock') w' \<and> is_server sock' = is_server sock"
proof -
  obtain r w0 where r: "sock_resolv (sy_resolv sys) w mode host port = (r, w0)" by fastforce
  have o: "opened w0 = opened w" by (rule sock_resolv_law(1) [OF sys_lawD(2) [OF law] r])
  have "(sock' = sock \<and> w' = w0) \<or> (\<exists>a. listen_addr (sy_os sys) w0 (sock\<lparr> sk_mode := mode, sk_fd := -1 \<rparr>) a = (rc, sock', w'))"
    using s by (auto simp: sock_server_def r split: sum.splits if_splits)
  then show ?thesis
  proof
    assume "sock' = sock \<and> w' = w0"
    then show ?thesis using fd o by (simp add: makes_fd_def)
  next
    assume "\<exists>a. listen_addr (sy_os sys) w0 (sock\<lparr> sk_mode := mode, sk_fd := -1 \<rparr>) a = (rc, sock', w')"
    then obtain a where "listen_addr (sy_os sys) w0 (sock\<lparr> sk_mode := mode, sk_fd := -1 \<rparr>) a = (rc, sock', w')" by blast
    from listen_addr_makes [OF law _ this] show ?thesis using o by (cases "sk_fd sock' = -1") (simp_all add: makes_fd_def)
  qed
qed

definition idle :: "'w server \<Rightarrow> bool" where
  "idle sv \<longleftrightarrow> sk_fd (sv_sock sv) = -1 \<and> sv_epoll_fd sv = -1"

lemma server_inv_listen:
  assumes inv: "server_inv opened base sv" and fd: "sk_fd (sv_sock sv) = -1" and m: "makes_fd opened (sv_w sv) (sk_fd sock) w"
    and s: "is_server sock = is_server (sv_sock sv)"
  shows "server_inv opened base (sv\<lparr> sv_sock := sock, sv_w := w \<rparr>)"
proof -
  have "server_owns sv Listen = None" using fd by (simp add: server_owns_def fd_opt_def)
  from owned_makes [OF server_invD(1) [OF inv] m this]
  have "owned base (opened w) (owns (sk_fd sock) (sv_epoll_fd sv) (sv_client sv))"
    unfolding server_owns_def by (metis owns_listen(1))
  then show ?thesis using inv s by (simp add: server_inv_def server_owns_def listed_def)
qed

lemma server_inv_epoll:
  assumes inv: "server_inv opened base sv" and fd: "sv_epoll_fd sv = -1" and m: "makes_fd opened (sv_w sv) fd w"
  shows "server_inv opened base (sv\<lparr> sv_epoll_fd := fd, sv_w := w \<rparr>)"
proof -
  have "server_owns sv Epoll = None" using fd by (simp add: server_owns_def fd_opt_def)
  from owned_makes [OF server_invD(1) [OF inv] m this]
  have "owned base (opened w) (owns (sk_fd (sv_sock sv)) fd (sv_client sv))"
    unfolding server_owns_def by (metis owns_listen(2))
  then show ?thesis using inv by (simp add: server_inv_def server_owns_def listed_def)
qed

lemma setup_listener_inv:
  assumes law: "sys_law opened sys" and inv: "server_inv opened base sv" and i: "idle sv" and r: "setup_listener sys sv = Some (rc, sv')"
  shows "server_inv opened base sv'"
proof -
  let ?mode = "SOCK_LISTEN OR push_bit SOCK_NONBLK 1 OR push_bit SOCK_TCP 1"
  obtain rc1 sock w where s: "sock_server (sy_os sys) (sy_resolv sys) (sv_w sv) (sv_sock sv) ?mode (sv_hostname sv) (sv_port sv) = (rc1, sock, w)"
    by (metis prod_cases3)
  have "sk_fd (sv_sock sv) = -1" using i by (simp add: idle_def)
  note sm = sock_server_makes [OF law this s]
  let ?sv1 = "sv\<lparr> sv_sock := sock, sv_w := w \<rparr>"
  have i1: "server_inv opened base ?sv1" by (rule server_inv_listen [OF inv]) (use i sm in \<open>simp_all add: idle_def\<close>)
  obtain fd w2 where e: "sy_epoll_create sys w = (fd, w2)" by fastforce
  let ?sv2 = "?sv1\<lparr> sv_epoll_fd := fd, sv_w := w2 \<rparr>"
  have i2: "server_inv opened base ?sv2" by (rule server_inv_epoll [OF i1]) (use i sys_lawD(9) [OF law e] in \<open>simp_all add: idle_def\<close>)
  consider "rc1 \<noteq> 0" | "rc1 = 0" "fd = -1" | "rc1 = 0" "fd \<noteq> -1" by blast
  then show ?thesis
  proof cases
    case 1
    then show ?thesis using r s i1 by (simp add: setup_listener_def)
  next
    case 2
    then have "sv' = ?sv2" using r s e by (auto simp: setup_listener_def)
    then show ?thesis using i2 by simp
  next
    case 3
    then obtain rc2 sock2 w3 where p: "poll_ctrl sys w2 sock EPOLLIN = Some (rc2, sock2, w3)" and sv': "sv' = ?sv2\<lparr> sv_sock := sock2, sv_w := w3 \<rparr>"
      using r s e by (auto simp: setup_listener_def Let_def bind_eq_Some_conv)
    have "is_server sock2 = is_server sock" "sk_fd sock2 = sk_fd sock" using poll_ctrl_kind [OF p] by (simp_all add: sock_kind_def)
    then show ?thesis using i2 poll_ctrl_opened [OF law p] unfolding sv' by (simp add: server_inv_def server_owns_def listed_def)
  qed
qed

text \<open>The options change neither descriptors nor clients.\<close>

lemma server_opt_frame:
  assumes "server_opt ok sv p code = Some (Inr (rc, sv'))"
  shows "sv_sock sv' = sv_sock sv \<and> sv_epoll_fd sv' = sv_epoll_fd sv \<and> sv_client sv' = sv_client sv \<and> sv_nodes sv' = sv_nodes sv \<and>
    next_id sv' = next_id sv \<and> sv_w sv' = sv_w sv"
  using assms by (auto simp: server_opt_def bind_eq_Some_conv split: if_splits)

definition started :: "('w \<Rightarrow> int set) \<Rightarrow> int set \<Rightarrow> 'w server \<Rightarrow> bool" where
  "started opened base sv \<longleftrightarrow> server_inv opened base sv \<and> idle sv \<and> opened (sv_w sv) = base"

lemma server_inv_cong:
  assumes "server_inv opened base sv" "sv_sock sv' = sv_sock sv" "sv_epoll_fd sv' = sv_epoll_fd sv" "sv_client sv' = sv_client sv"
    "sv_nodes sv' = sv_nodes sv" "next_id sv' = next_id sv" "opened (sv_w sv') = opened (sv_w sv)"
  shows "server_inv opened base sv'"
  using assms(1) unfolding server_inv_def server_owns_def listed_def by (simp add: assms(2-7))

lemma argv_loop_started:
  assumes "argv_loop sys sv p = Some r"
  shows "sys_law opened sys \<and> started opened base sv \<longrightarrow>
    (case r of Inl (ec, w) \<Rightarrow> opened w = base | Inr (rc, sv') \<Rightarrow> started opened base sv')"
proof (rule argv_loop.raw_induct [OF _ assms, where P = "\<lambda>sys sv p r. sys_law opened sys \<and> started opened base sv \<longrightarrow>
    (case r of Inl (ec, w) \<Rightarrow> opened w = base | Inr (rc, sv') \<Rightarrow> started opened base sv')"])
  fix loop :: "'a sys \<Rightarrow> 'a server \<Rightarrow> cmd_argv \<Rightarrow> (int \<times> 'a + int \<times> 'a server) option" and sys sv p r
  assume ih: "\<And>sys sv p r. loop sys sv p = Some r \<Longrightarrow> sys_law opened sys \<and> started opened base sv \<longrightarrow>
      (case r of Inl (ec, w) \<Rightarrow> opened w = base | Inr (rc, sv') \<Rightarrow> started opened base sv')"
    and b: "(case cmd_argv_next p of (rc, p) \<Rightarrow> if rc \<ge> 0 then (case sy_malloc sys (sv_w sv) of (ok, w) \<Rightarrow>
          Option.bind (server_opt ok (sv\<lparr> sv_w := w \<rparr>) p rc) (\<lambda>r. case r of
             Inl ec \<Rightarrow> Some (Inl (ec, w))
           | Inr (rc, sv) \<Rightarrow> if rc < 0 then Some (Inr (rc, sv)) else loop sys sv p))
       else Some (Inr (rc, sv))) = Some r"
  obtain rc q where n: "cmd_argv_next p = (rc, q)" by fastforce
  obtain ok w where m: "sy_malloc sys (sv_w sv) = (ok, w)" by fastforce
  show "sys_law opened sys \<and> started opened base sv \<longrightarrow>
      (case r of Inl (ec, w) \<Rightarrow> opened w = base | Inr (rc, sv') \<Rightarrow> started opened base sv')"
  proof (intro impI, elim conjE)
    assume law: "sys_law opened sys" and st: "started opened base sv"
    have w: "opened w = base" using sys_lawD(12) [OF law m] st by (simp add: started_def)
    show "case r of Inl (ec, w) \<Rightarrow> opened w = base | Inr (rc, sv') \<Rightarrow> started opened base sv'"
    proof (cases "rc \<ge> 0")
      case False
      then show ?thesis using b n st by auto
    next
      case True
      then obtain z where z: "server_opt ok (sv\<lparr> sv_w := w \<rparr>) q rc = Some z"
        and rz: "(case z of Inl ec \<Rightarrow> Some (Inl (ec, w)) | Inr (rc, sv) \<Rightarrow> if rc < 0 then Some (Inr (rc, sv)) else loop sys sv q) = Some r"
        using b n m by (auto elim: bind_SomeE)
      show ?thesis
      proof (cases z)
        case (Inl ec)
        then have "r = Inl (ec, w)" using rz by simp
        then show ?thesis using w by simp
      next
        case (Inr x)
        obtain rc2 sv2 where x: "x = (rc2, sv2)" by fastforce
        have "started opened base sv2"
          using server_opt_frame [OF z [unfolded Inr x]] st w server_inv_cong [of opened base sv sv2] by (auto simp: started_def idle_def)
        then show ?thesis using rz Inr x ih [of sys sv2 q r] law by (cases "rc2 < 0") auto
      qed
    qed
  qed
qed

lemma serve_started:
  assumes law: "sys_law opened sys" and st: "started opened base sv" and r: "serve sys sv args = Some r"
  shows "case r of Inl (ec, w) \<Rightarrow> opened w = base | Inr (ec, sv') \<Rightarrow> server_inv opened base sv'"
proof -
  obtain a where a: "server_argv sys sv args = Some a" using r by (auto simp: serve_def elim: bind_SomeE)
  then obtain y where y: "argv_loop sys sv \<lparr> argv = args, opts = server_opts, argv_idx = 0, opt_idx = 0, arg_name = None, arg_value = None \<rparr> = Some y"
    and ay: "a = (case y of Inl ec \<Rightarrow> Inl ec | Inr (rc, sv) \<Rightarrow> Inr (if rc = OPT_EOF then 0 else -1, sv))"
    by (auto simp: server_argv_def elim: bind_SomeE)
  note s = argv_loop_started [OF y, of opened base]
  show ?thesis
  proof (cases y)
    case (Inl x)
    then have "r = Inl x" using r a ay by (simp add: serve_def)
    then show ?thesis using s law st Inl by simp
  next
    case (Inr x)
    obtain rc0 sv1 where x: "x = (rc0, sv1)" by fastforce
    have st1: "started opened base sv1" using s law st Inr x by simp
    have a1: "a = Inr (if rc0 = OPT_EOF then 0 else -1, sv1)" using ay Inr x by simp
    obtain rc1 w1 where sg: "sy_signals sys (sv_w sv1) = (rc1, w1)" by fastforce
    obtain rc2 w2 where dn: "sy_dns_init sys w1 = (rc2, w2)" by fastforce
    have o: "opened w1 = base" "opened w2 = base"
      using sys_lawD(14) [OF law sg] sys_lawD(13) [OF law dn] st1 by (simp_all add: started_def)
    let ?sv2 = "sv1\<lparr> sv_run := True, sv_w := w2 \<rparr>"
    have i2: "server_inv opened base ?sv2" "idle ?sv2" "server_inv opened base (sv1\<lparr> sv_w := w1 \<rparr>)"
      using st1 o by (auto simp: started_def idle_def elim!: server_inv_cong)
    have sdb: "server_inv opened base sv3 \<and> idle sv3" if sd: "setup_database sys ?sv2 = Some (rc3, sv3)" for rc3 sv3
    proof -
      obtain db w3 where d: "db_init (sy_calloc_ok sys) (map_option (sy_file sys) (sv_database ?sv2)) (sv_w ?sv2) (sv_db ?sv2) = Some (rc3, db, w3)"
        and s3: "sv3 = ?sv2\<lparr> sv_db := db, sv_w := w3 \<rparr>"
        using sd unfolding setup_database_def by (auto simp: bind_eq_Some_conv)
      have "opened w3 = opened w2" using db_init_no_leak [OF _ d, of opened] sys_lawD(15) [OF law] by auto
      then show ?thesis using i2 s3 by (auto simp: idle_def elim!: server_inv_cong)
    qed
    have run: "server_inv opened base sv5" if "server_inv opened base sv4" "server_run sys sv4 = Some (rc5, sv5)" for sv4 rc5 sv5
      using server_run_keeps [OF that(2), of opened base] law that(1) by simp
    show ?thesis
    proof (cases "rc0 = OPT_EOF \<and> rc1 = 0 \<and> rc2 = 0")
      case False
      then have "r = Inr (2, sv1) \<or> r = Inr (3, sv1\<lparr> sv_w := w1 \<rparr>) \<or> r = Inr (4, ?sv2)"
        using r by (auto simp: serve_def a a1 sg dn Let_def split: if_splits)
      then show ?thesis using st1 i2 by (auto simp: started_def)
    next
      case True
      then obtain rc3 sv3 where d: "setup_database sys ?sv2 = Some (rc3, sv3)" and r3: "(if rc3 \<noteq> 0 then Some (Inr (5, sv3)) else
          Option.bind (setup_listener sys sv3) (\<lambda>(rc, sv). if rc \<noteq> 0 then Some (Inr (6, sv)) else
            Option.bind (server_run sys sv) (\<lambda>(rc, sv). Some (Inr (if rc \<noteq> 0 then 7 else 0, sv))))) = Some r"
        using r unfolding serve_def a by (auto simp: a1 sg dn Let_def elim!: bind_SomeE)
      note i3 = sdb [OF d]
      show ?thesis
      proof (cases "rc3 = 0")
        case True
        then obtain rc4 sv4 where l: "setup_listener sys sv3 = Some (rc4, sv4)" and r4: "(if rc4 \<noteq> 0 then Some (Inr (6, sv4)) else
            Option.bind (server_run sys sv4) (\<lambda>(rc, sv). Some (Inr (if rc \<noteq> 0 then 7 else 0, sv)))) = Some r"
          using r3 by (auto elim!: bind_SomeE)
        have i4: "server_inv opened base sv4" using setup_listener_inv [OF law _ _ l] i3 by blast
        show ?thesis using r4 i4 run [OF i4] by (cases "rc4 = 0") (auto elim!: bind_SomeE)
      qed (use r3 i3 in auto)
    qed
  qed
qed

lemma server_create_started:
  assumes law: "sys_law opened sys" and c: "server_create sys w = Some (c, w')"
  shows "opened w' = opened w \<and> (\<forall>sv. c = Some sv \<longrightarrow> started opened (opened w) sv)"
proof -
  obtain ok w1 where m1: "sy_malloc sys w = (ok, w1)" by fastforce
  obtain ok2 w2 where m2: "sy_malloc sys w1 = (ok2, w2)" by fastforce
  note o = sys_lawD(12) [OF law m1] sys_lawD(12) [OF law m2]
  let ?m = "(\<lambda>_. None)(0 \<mapsto> \<lparr> le_next = None, le_prev = None \<rparr>)"
  obtain nodes where n: "list_init ?m 0 = Some nodes" "ring nodes 0 []" by (rule list_init_ring [of ?m 0]) simp_all
  show ?thesis
  proof (cases "ok \<and> ok2")
    case False
    then have "c = None" "w' = w1 \<or> w' = w2" using c n(1) by (auto simp: server_create_def m1 m2 split: if_splits)
    then show ?thesis using o by auto
  next
    case True
    then have w': "w' = w2" using c n(1) by (simp add: server_create_def m1 m2)
    have "started opened (opened w) sv" if "c = Some sv" for sv
    proof -
      have sv: "sk_fd (sv_sock sv) = -1" "is_server (sv_sock sv)" "sv_epoll_fd sv = -1" "sv_client sv = Map.empty"
        "sv_nodes sv = nodes" "sv_w sv = w2" using c n(1) True that by (auto simp: server_create_def m1 m2)
      have "owns (-1) (-1) Map.empty z = None" for z by (cases z) (simp_all add: fd_opt_def)
      then have "owned (opened w) (opened w2) (owns (-1) (-1) Map.empty)" using o by (simp add: owned_def ran_def)
      then show ?thesis using sv n(2) o by (simp add: started_def server_inv_def server_owns_def listed_def idle_def)
    qed
    then show ?thesis using w' o by simp
  qed
qed

section \<open>The program\<close>

text \<open>
  C3. The program leaks no descriptor.  For any arguments, any behaviour of the clients and any failures
  of system calls, whenever \<open>main\<close> returns, the open descriptors are those from before: the
  database file, the listener, the \<open>epoll\<close> descriptor and the descriptor of every client that was
  accepted have been closed.  The law asks of the system that descriptors which are made are fresh, that \<open>close\<close>
  releases its argument, and that the other calls leave the set of open descriptors as it is.
\<close>

theorem server_main_no_leak:
  assumes law: "sys_law opened sys" and m: "server_main sys w args = Some (ec, w')"
  shows "opened w' = opened w"
proof -
  obtain c w1 where c: "server_create sys w = Some (c, w1)" using m by (auto simp: server_main_def elim: bind_SomeE)
  note st = server_create_started [OF law c]
  show ?thesis
  proof (cases c)
    case None
    then show ?thesis using m c st by (simp add: server_main_def)
  next
    case (Some sv)
    then obtain r where s: "serve sys sv args = Some r" and r: "(case r of Inl x \<Rightarrow> Some x
        | Inr (ec, sv) \<Rightarrow> Option.bind (server_destroy sys sv) (\<lambda>sv. Some (ec, sv_w sv))) = Some (ec, w')"
      using m c by (cases "serve sys sv args") (auto simp: server_main_def)
    have sv: "case r of Inl (ec, w1) \<Rightarrow> opened w1 = opened w | Inr (ec, sv') \<Rightarrow> server_inv opened (opened w) sv'"
      by (rule serve_started [OF law _ s]) (use st Some in blast)
    show ?thesis
    proof (cases r)
      case (Inl x)
      then show ?thesis using r sv by (cases x) simp
    next
      case (Inr x)
      obtain ec1 sv1 where x: "x = (ec1, sv1)" by fastforce
      obtain db sv2 where f: "server_free sys (sv1\<lparr> sv_db := db \<rparr>) = Some sv2" and w': "w' = sv_w sv2"
        using r Inr x by (auto simp: server_destroy_def elim!: bind_SomeE)
      have "server_inv opened (opened w) (sv1\<lparr> sv_db := db \<rparr>)" using sv Inr x by (auto elim: server_inv_cong)
      from server_free_done [OF law this] show ?thesis using f w' by auto
    qed
  qed
qed

definition set_files :: "bytes \<Rightarrow> int set file_sys" where
  "set_files path = \<lparr> fs_create = (\<lambda>w. if 6 \<in> w then ((-1, False), w) else ((6, False), insert 6 w)), fs_open = (\<lambda>w. (-1, w)),
    fs_stat = (\<lambda>w fd. (Some 0, w)), fs_truncate = (\<lambda>w fd n. (True, w)), fs_mmap = (\<lambda>w fd n. (Some db_zero, w)),
    fs_close = (\<lambda>w fd. w - {fd}) \<rparr>"

text \<open>
  A system whose state is the set of open descriptors: 3 is free for a socket and 4 for \<open>epoll\<close>, every
  wait reports the listener, no client connects, and the run is stopped when 5 is open.
\<close>

definition quiet_sys :: "int set sys" where
  "quiet_sys = \<lparr> sy_heap = no_heap, sy_denv = bump_env, sy_os = set_os,
    sy_epoll_ctl = (\<lambda>w fd b ev. (None, w)), sy_epoll_wait = (\<lambda>w. (Inr [(Listener, EPOLLIN)], w)), sy_malloc = (\<lambda>w. (True, w)),
    sy_epoll_create = (\<lambda>w. if 4 \<in> w then (-1, w) else (4, insert 4 w)), sy_resolv = two_addrs, sy_dns_init = (\<lambda>w. (0, w)),
    sy_signals = (\<lambda>w. (0, w)), sy_calloc_ok = True, sy_file = set_files, sy_run = (\<lambda>w. 5 \<in> w) \<rparr>"

lemma quiet_law: "sys_law id quiet_sys"
  unfolding sys_law_def using set_os_law two_addrs_law
  by (auto simp: quiet_sys_def set_os_def set_files_def file_law_def makes_fd_def split: if_splits)

definition quiet_server :: "int set server" where
  "quiet_server = \<lparr> sv_sock = sock_zero\<lparr> sk_fd := -1, is_server := True \<rparr>, sv_run = False, sv_log_line = False,
     sv_log_level = LOG_INFO, sv_hostname = None, sv_port = Some (ascii ''6379''), sv_database = None, sv_epoll_fd = -1,
     sv_nodes = (\<lambda>_. None)(0 \<mapsto> \<lparr> le_next = Some 0, le_prev = Some 0 \<rparr>), sv_client = (\<lambda>_. None), next_id = 0, sv_db = db_zero,
     sv_w = {0, 1, 2} \<rparr>"

lemma quiet_create: "server_create quiet_sys {0, 1, 2} = Some (Some quiet_server, {0, 1, 2})"
  by (simp add: server_create_def quiet_sys_def quiet_server_def list_init_def set_le_next_def set_le_prev_def)

lemma quiet_serve: "\<exists>sv. serve quiet_sys quiet_server [] = Some (Inr (0, sv)) \<and> sv_w sv = {4, 3, 0, 1, 2} \<and>
    sv_db sv = db_zero\<lparr> db_ready := True, init_done := True \<rparr>"
proof -
  have a: "server_argv quiet_sys quiet_server [] = Some (Inr (0, quiet_server))"
    by (simp add: server_argv_def argv_loop.simps cmd_argv_next_def OPT_EOF_def)
  show ?thesis
    unfolding serve_def a
    by (simp add: quiet_server_def db_zero_def quiet_sys_def setup_database_def db_init_def hash_init_def setup_listener_def
      sock_server_def sock_resolv_def two_addrs_def Let_def listen_addr_def sample_addr_def sock_addr_load_def set_os_def
      poll_ctrl_def epoll_loop.simps server_run.simps)
qed

lemma quiet_main: "\<exists>ec w'. server_main quiet_sys {0, 1, 2} [] = Some (ec, w')"
proof -
  obtain sv where s: "serve quiet_sys quiet_server [] = Some (Inr (0, sv))" "sv_db sv = db_zero\<lparr> db_ready := True, init_done := True \<rparr>"
    using quiet_serve by blast
  have "started id (id {0, 1, 2}) quiet_server" using server_create_started [OF quiet_law quiet_create] by blast
  from serve_started [OF quiet_law this s(1)] have inv: "server_inv id {0, 1, 2} sv" by simp
  let ?db = "db_zero\<lparr> db_ready := True, init_done := True \<rparr>"
  have "free_buckets ?db [0 ..< DB_NUM_BUCKETS] = Some (?db\<lparr> db_buckets := (\<lambda>i. if i \<in> set [0 ..< DB_NUM_BUCKETS] then 0 else db_buckets ?db i),
      db_heap := (\<lambda>l. if \<exists>i \<in> set [0 ..< DB_NUM_BUCKETS]. l \<in> set ((\<lambda>_. []) i) then None else db_heap ?db l) \<rparr>)"
    by (rule free_buckets_frees) (simp_all add: db_zero_def)
  then obtain db where db: "db_deinit (sv_db sv) = Some db" unfolding s(2) by (simp add: db_deinit_def hash_deinit_def db_zero_def)
  have "server_inv id {0, 1, 2} (sv\<lparr> sv_db := db \<rparr>)" using inv by (auto elim: server_inv_cong)
  then obtain sv' where "server_free quiet_sys (sv\<lparr> sv_db := db \<rparr>) = Some sv'" using server_free_done [OF quiet_law] by blast
  then show ?thesis using quiet_create s(1) db by (simp add: server_main_def server_destroy_def)
qed

theorem server_main_no_leak_witness:
  "(\<exists>sv. serve quiet_sys quiet_server [] = Some (Inr (0, sv)) \<and> sv_w sv = {4, 3, 0, 1, 2}) \<and>
   (\<exists>ec w'. server_main quiet_sys {0, 1, 2} [] = Some (ec, w') \<and> w' = {0, 1, 2})"
proof -
  obtain ec w' where m: "server_main quiet_sys {0, 1, 2} [] = Some (ec, w')" using quiet_main by blast
  from server_main_no_leak [OF quiet_law m] m quiet_serve show ?thesis by auto
qed

text \<open>
  C7. Every turn of the event loop keeps the invariant of the server: the list holds exactly the clients
  that exist, each open descriptor belongs to exactly one of the listener, \<open>epoll\<close> and the clients, a
  client's socket is never taken for the listener's, and no client ever waits for output.  After
  any turn the server can be freed: that takes every client out of the list and leaves the
  descriptors from before the server.
\<close>

theorem server_poll_invariant:
  assumes law: "sys_law opened sys" and inv: "server_inv opened base sv" and p: "server_poll sys sv = Some (rc, sv')"
  shows "server_inv opened base sv' \<and> (\<forall>i c. sv_client sv' i = Some c \<longrightarrow> \<not> wait_write (cl_sock c)) \<and>
    (\<exists>sv''. server_free sys sv' = Some sv'' \<and> sv_client sv'' = Map.empty \<and> opened (sv_w sv'') = base)"
proof -
  have i: "server_inv opened base sv'" by (rule server_poll_keeps [OF law inv p])
  obtain sv'' where "server_free sys sv' = Some sv''" "opened (sv_w sv'') = base" "sv_client sv'' = Map.empty"
    by (rule server_free_done [OF law i])
  then show ?thesis using i server_invD(3) [OF i] by blast
qed

theorem server_poll_invariant_witness:
  "\<exists>rc sv'. server_poll quiet_sys quiet_server = Some (rc, sv') \<and> server_inv id {0, 1, 2} sv' \<and>
    (\<exists>sv''. server_free quiet_sys sv' = Some sv'' \<and> sv_w sv'' = {0, 1, 2})"
proof -
  have "started id (id {0, 1, 2}) quiet_server" using server_create_started [OF quiet_law quiet_create] by blast
  then have inv: "server_inv id {0, 1, 2} quiet_server" by (simp add: started_def)
  have p: "server_poll quiet_sys quiet_server = Some (0, quiet_server)"
    by (simp add: server_poll_def quiet_sys_def server_event_def quiet_server_def server_recv_event_def EPOLLIN_def EPOLLERR_def
      EPOLLHUP_def do_server_accept_def eval_nat_numeral server_accept_def sock_accept_def set_os_def do_server_check_def sock_zero_def)
  from server_poll_invariant [OF quiet_law inv p] p show ?thesis by auto
qed

end
