(* ===== verification/Resolv_Result.thy ===== *)
theory Resolv_Result
  imports Sock
begin

text \<open>
  The result of a resolution in \<open>src/src/dns_resolv.c\<close>: an array of addresses that is filled with IPv6
  addresses from its start and with IPv4 addresses from its end, and put together at the end.  A
  store outside the array goes into a memory of its own, beside the array, from which it can be read
  again, so that a missing check shows in the result; a result \<open>None\<close> is a read of a place outside
  the array that was never written, or outside the memory of an address.
\<close>

section \<open>Addresses\<close>

text \<open>\<open>SOCK_STREAM\<close> and \<open>SOCK_DGRAM\<close> are the values of the system.\<close>

definition SOCK_STREAM :: nat where "SOCK_STREAM = 1"
definition SOCK_DGRAM :: nat where "SOCK_DGRAM = 2"

definition sockaddr_zero :: dns_sockaddr where
  "sockaddr_zero = \<lparr> da_family = AF_OTHER, da_len = 0, da_port = 0, da_ip = [], da_sock_type = 0 \<rparr>"

text \<open>The kind of the address, or 0, and the memory \<open>dst\<close> after decoding.\<close>

definition ipstr_decode :: "slice \<Rightarrow> bytes \<Rightarrow> (u32 \<times> bytes) option" where
  "ipstr_decode str dst = do {
    (n, dst) \<leftarrow> ip4_str_decode (slice_bytes str) dst 0;
    if n \<noteq> 0 then Some (DNS_IPV4, dst)
    else do {
      (n, dst) \<leftarrow> ip6_str_decode (slice_bytes str) dst;
      Some (if n \<noteq> 0 then DNS_IPV6 else 0, dst)
    }
  }"

text \<open>The address is not null at any call; it is cleared even when the kind is not supported.\<close>

definition sockaddr_load :: "u32 \<Rightarrow> bytes \<Rightarrow> u32 \<Rightarrow> u16 \<Rightarrow> bool \<times> dns_sockaddr" where
  "sockaddr_load type ip ptype port =
    (let sock_type = (if ptype = DNS_TCP then SOCK_STREAM else if ptype = DNS_UDP then SOCK_DGRAM else 0)
     in if type = DNS_IPV4 then
          (True, \<lparr> da_family = AF_INET, da_len = 16, da_port = bswap16 port, da_ip = take 4 ip, da_sock_type = sock_type \<rparr>)
        else if type = DNS_IPV6 then
          (True, \<lparr> da_family = AF_INET6, da_len = 28, da_port = bswap16 port, da_ip = take 16 ip, da_sock_type = sock_type \<rparr>)
        else (False, sockaddr_zero))"

section \<open>The result\<close>

record dns_result =
  r_flags :: u32
  r_host :: slice
  r_port :: slice
  udp_port :: int
  tcp_port :: int
  num_ip4 :: nat
  num_ip6 :: nat
  num_addr :: nat
  max_addr :: nat
  r_addrs :: "dns_sockaddr list"
  r_stray :: "(int \<times> dns_sockaddr) list"
  need_ip4 :: bool
  need_ip6 :: bool

text \<open>
  \<open>res->addrs[i]\<close>, read and written: \<open>r_stray\<close> holds what was stored outside the array, with the
  index.  \<open>res_mem\<close> is the memory that was written, which is the array itself as long as every
  store was inside.
\<close>

definition res_get :: "dns_result \<Rightarrow> int \<Rightarrow> dns_sockaddr option" where
  "res_get res i =
    (if 0 \<le> i \<and> i < int (length (r_addrs res)) then Some (r_addrs res ! nat i) else map_of (r_stray res) i)"

definition res_put :: "dns_result \<Rightarrow> int \<Rightarrow> dns_sockaddr \<Rightarrow> dns_result" where
  "res_put res i addr =
    (if 0 \<le> i \<and> i < int (length (r_addrs res)) then res\<lparr> r_addrs := (r_addrs res)[nat i := addr] \<rparr>
     else res\<lparr> r_stray := (i, addr) # r_stray res \<rparr>)"

definition res_mem :: "dns_result \<Rightarrow> dns_sockaddr list" where
  "res_mem res = r_addrs res @ map snd (r_stray res)"

definition res_isfull :: "dns_result \<Rightarrow> bool" where
  "res_isfull res \<longleftrightarrow> num_addr res \<ge> max_addr res"

definition res_add_ip_port :: "dns_result \<Rightarrow> u32 \<Rightarrow> bytes \<Rightarrow> u32 \<Rightarrow> u16 \<Rightarrow> (int \<times> dns_result) option" where
  "res_add_ip_port res type ip ptype port =
    (if res_isfull res then Some (0, res)
     else if type \<noteq> DNS_IPV4 \<and> type \<noteq> DNS_IPV6 then Some (-1, res)
     else
       let idx = (if type = DNS_IPV4 then int (max_addr res) - int (num_ip4 res) - 1 else int (num_ip6 res))
       in if length ip < (if type = DNS_IPV4 then 4 else 16) then None
          else
            let (ok, addr) = sockaddr_load type ip ptype port;
                res = res_put res idx addr
            in if ok then
                 Some (idx, (if type = DNS_IPV4 then res\<lparr> num_ip4 := num_ip4 res + 1, num_addr := num_addr res + 1 \<rparr>
                   else res\<lparr> num_ip6 := num_ip6 res + 1, num_addr := num_addr res + 1 \<rparr>))
               else Some (-1, res))"

definition res_add_ip :: "dns_result \<Rightarrow> u32 \<Rightarrow> bytes \<Rightarrow> (int \<times> dns_result) option" where
  "res_add_ip res type ip = do {
    let add_tcp = (r_flags res AND DNS_TCP \<noteq> 0);
    let add_udp = (r_flags res AND DNS_UDP \<noteq> 0);
    (idx, res) \<leftarrow> (if add_tcp then res_add_ip_port res type ip DNS_TCP (of_int (tcp_port res)) else Some (-1, res));
    (rc, res) \<leftarrow> (if add_udp then res_add_ip_port res type ip DNS_UDP (of_int (udp_port res)) else Some (-1, res));
    Some (if rc \<noteq> -1 then rc else idx, res)
  }"

definition res_add_addr :: "dns_result \<Rightarrow> dns_sockaddr \<Rightarrow> (int \<times> dns_result) option" where
  "res_add_addr res addr =
    (case da_family addr of
       AF_INET \<Rightarrow> if da_len addr \<noteq> 16 then Some (-1, res) else res_add_ip res DNS_IPV4 (da_ip addr)
     | AF_INET6 \<Rightarrow> if da_len addr \<noteq> 28 then Some (-1, res) else res_add_ip res DNS_IPV6 (da_ip addr)
     | AF_OTHER \<Rightarrow> Some (-1, res))"

text \<open>
  The member \<open>v4.sin_addr\<close> of an address.  In an IPv6 address it shares its place with the flow
  information, which is zero in every address that is loaded.
\<close>

definition v4_ip :: "dns_sockaddr \<Rightarrow> bytes" where
  "v4_ip sa = (if da_family sa = AF_INET then da_ip sa else [0, 0, 0, 0])"

definition v4_mapped :: "dns_sockaddr \<Rightarrow> dns_sockaddr" where
  "v4_mapped src = \<lparr> da_family = AF_INET6, da_len = 28, da_port = da_port src,
    da_ip = replicate 10 0 @ [0xff, 0xff] @ v4_ip src, da_sock_type = da_sock_type src \<rparr>"

text \<open>The loop of \<open>fixup_addrs\<close> from \<open>i\<close> on, with \<open>n\<close> addresses to go.\<close>

fun fixup_loop :: "nat \<Rightarrow> nat \<Rightarrow> dns_result \<Rightarrow> dns_result option" where
  "fixup_loop 0 i res = Some res"
| "fixup_loop (Suc n) i res =
    (case res_get res (int (max_addr res) - 1 - int i) of
       None \<Rightarrow> None
     | Some src \<Rightarrow> fixup_loop n (i + 1) (res_put res (int (num_ip6 res + i))
         (if r_flags res AND DNS_V4MAPPED \<noteq> 0 then v4_mapped src else src)))"

definition fixup_addrs :: "dns_result \<Rightarrow> dns_result option" where
  "fixup_addrs res =
    (let keep_ip4 = (r_flags res AND (DNS_V4MAPPED OR DNS_ALL) = DNS_V4MAPPED OR DNS_ALL);
         res = (if num_ip6 res > 0 \<and> \<not> keep_ip4 then res\<lparr> num_addr := num_addr res - num_ip4 res, num_ip4 := 0 \<rparr> else res)
     in fixup_loop (num_ip4 res) 0 res)"

section \<open>The invariant of a result\<close>

definition addr4_ok :: "dns_sockaddr \<Rightarrow> bool" where
  "addr4_ok a \<longleftrightarrow> da_family a = AF_INET \<and> da_len a = 16 \<and> length (da_ip a) = 4 \<and> da_sock_type a \<in> {SOCK_STREAM, SOCK_DGRAM}"

definition addr6_ok :: "dns_sockaddr \<Rightarrow> bool" where
  "addr6_ok a \<longleftrightarrow> da_family a = AF_INET6 \<and> da_len a = 28 \<and> length (da_ip a) = 16 \<and> da_sock_type a \<in> {SOCK_STREAM, SOCK_DGRAM}"

definition res_ok :: "dns_result \<Rightarrow> bool" where
  "res_ok res \<longleftrightarrow> length (r_addrs res) = max_addr res \<and> r_stray res = [] \<and> num_addr res = num_ip4 res + num_ip6 res \<and> num_addr res \<le> max_addr res \<and>
    (\<forall>i < num_ip6 res. addr6_ok (r_addrs res ! i)) \<and> (\<forall>i < num_ip4 res. addr4_ok (r_addrs res ! (max_addr res - 1 - i)))"

lemma res_okD:
  assumes "res_ok res"
  shows "length (r_addrs res) = max_addr res" "num_addr res = num_ip4 res + num_ip6 res" "num_addr res \<le> max_addr res"
    "r_stray res = []" "i < num_ip6 res \<Longrightarrow> addr6_ok (r_addrs res ! i)" "i < num_ip4 res \<Longrightarrow> addr4_ok (r_addrs res ! (max_addr res - 1 - i))"
  using assms by (auto simp: res_ok_def)

text \<open>What adding an address leaves as it is.\<close>

definition same_request :: "dns_result \<Rightarrow> dns_result \<Rightarrow> bool" where
  "same_request res res' \<longleftrightarrow> r_flags res' = r_flags res \<and> r_host res' = r_host res \<and> r_port res' = r_port res \<and>
    udp_port res' = udp_port res \<and> tcp_port res' = tcp_port res \<and> max_addr res' = max_addr res"

lemma same_request_refl [simp]: "same_request res res"
  by (simp add: same_request_def)

lemma same_request_trans: "same_request a b \<Longrightarrow> same_request b c \<Longrightarrow> same_request a c"
  by (simp add: same_request_def)

lemma dns_flags_distinct: "DNS_IPV4 \<noteq> DNS_IPV6" "DNS_TCP \<noteq> DNS_UDP"
  by (simp_all add: dns_flag_defs)

lemma res_add_ip_port_ok:
  assumes ok: "res_ok res" and ip: "type = DNS_IPV4 \<Longrightarrow> 4 \<le> length ip" "type = DNS_IPV6 \<Longrightarrow> 16 \<le> length ip" and p: "ptype \<in> {DNS_TCP, DNS_UDP}"
  shows "\<exists>rc res'. res_add_ip_port res type ip ptype port = Some (rc, res') \<and> res_ok res' \<and> same_request res res' \<and>
    (rc = -1 \<or> 0 \<le> rc \<and> rc < int (max_addr res) \<or> res_isfull res)"
proof (cases "res_isfull res \<or> type \<noteq> DNS_IPV4 \<and> type \<noteq> DNS_IPV6")
  case True
  then show ?thesis using ok by (auto simp: res_add_ip_port_def)
next
  case False
  note r = res_okD [OF ok]
  have lt: "num_ip4 res + num_ip6 res < max_addr res" using False r(2) by (simp add: res_isfull_def)
  show ?thesis
  proof (cases "type = DNS_IPV4")
    case True
    define a where "a = snd (sockaddr_load type ip ptype port)"
    have a: "addr4_ok a" "sockaddr_load type ip ptype port = (True, a)"
      using True ip(1) p dns_flags_distinct by (auto simp: a_def sockaddr_load_def addr4_ok_def)
    let ?res = "res\<lparr> r_addrs := (r_addrs res)[max_addr res - 1 - num_ip4 res := a], num_ip4 := num_ip4 res + 1, num_addr := num_addr res + 1 \<rparr>"
    have n: "nat (int (max_addr res) - int (num_ip4 res) - 1) = max_addr res - 1 - num_ip4 res" using lt by simp
    have "res_add_ip_port res type ip ptype port = Some (int (max_addr res) - int (num_ip4 res) - 1, ?res)"
      using False True lt a(2) r(1) n ip(1) by (auto simp: res_add_ip_port_def res_put_def)
    moreover have "res_ok ?res"
      using r lt a(1) by (auto simp: res_ok_def nth_list_update less_Suc_eq)
    ultimately show ?thesis using lt by (auto simp: same_request_def)
  next
    case v6: False
    then have t: "type = DNS_IPV6" using False by simp
    define a where "a = snd (sockaddr_load type ip ptype port)"
    have a: "addr6_ok a" "sockaddr_load type ip ptype port = (True, a)"
      using t ip(2) p dns_flags_distinct by (auto simp: a_def sockaddr_load_def addr6_ok_def)
    let ?res = "res\<lparr> r_addrs := (r_addrs res)[num_ip6 res := a], num_ip6 := num_ip6 res + 1, num_addr := num_addr res + 1 \<rparr>"
    have "res_add_ip_port res type ip ptype port = Some (int (num_ip6 res), ?res)"
      using False v6 lt a(2) r(1) t ip(2) by (auto simp: res_add_ip_port_def res_put_def)
    moreover have "res_ok ?res" using r lt a(1) by (auto simp: res_ok_def nth_list_update less_Suc_eq)
    ultimately show ?thesis using lt by (auto simp: same_request_def)
  qed
qed

lemma res_add_ip_ok:
  assumes ok: "res_ok res" and ip: "type = DNS_IPV4 \<Longrightarrow> 4 \<le> length ip" "type = DNS_IPV6 \<Longrightarrow> 16 \<le> length ip"
  shows "\<exists>rc res'. res_add_ip res type ip = Some (rc, res') \<and> res_ok res' \<and> same_request res res' \<and>
    (0 < max_addr res \<longrightarrow> rc = -1 \<or> 0 \<le> rc \<and> rc < int (max_addr res))"
proof -
  have step: "\<exists>rc res'. (if b then res_add_ip_port r type ip pt port else Some (-1, r)) = Some (rc, res') \<and> res_ok res' \<and>
      same_request r res' \<and> (0 < max_addr r \<longrightarrow> rc = -1 \<or> 0 \<le> rc \<and> rc < int (max_addr r))"
    if r: "res_ok r" and p: "pt \<in> {DNS_TCP, DNS_UDP}" for b r pt port
  proof (cases b)
    case True
    obtain rc res' where a: "res_add_ip_port r type ip pt port = Some (rc, res')" "res_ok res'" "same_request r res'"
      "rc = -1 \<or> 0 \<le> rc \<and> rc < int (max_addr r) \<or> res_isfull r"
      using res_add_ip_port_ok [OF r ip p] by blast
    have "rc = 0" if "res_isfull r" using a(1) that by (simp add: res_add_ip_port_def)
    then show ?thesis using True a by auto
  qed (use r in simp)
  obtain rc1 r1 where 1: "(if r_flags res AND DNS_TCP \<noteq> 0 then res_add_ip_port res type ip DNS_TCP (of_int (tcp_port res)) else Some (-1, res)) = Some (rc1, r1)"
    "res_ok r1" "same_request res r1" "0 < max_addr res \<longrightarrow> rc1 = -1 \<or> 0 \<le> rc1 \<and> rc1 < int (max_addr res)"
    using step [OF ok, of DNS_TCP "r_flags res AND DNS_TCP \<noteq> 0"] by blast
  obtain rc2 r2 where 2: "(if r_flags res AND DNS_UDP \<noteq> 0 then res_add_ip_port r1 type ip DNS_UDP (of_int (udp_port r1)) else Some (-1, r1)) = Some (rc2, r2)"
    "res_ok r2" "same_request r1 r2" "0 < max_addr r1 \<longrightarrow> rc2 = -1 \<or> 0 \<le> rc2 \<and> rc2 < int (max_addr r1)"
    using step [OF 1(2), of DNS_UDP "r_flags res AND DNS_UDP \<noteq> 0"] by blast
  have m: "max_addr r1 = max_addr res" using 1(3) by (simp add: same_request_def)
  have "res_add_ip res type ip = Some (if rc2 \<noteq> -1 then rc2 else rc1, r2)"
    unfolding res_add_ip_def Let_def 1(1) by (simp add: 2(1))
  then show ?thesis using 1(3,4) 2(2-4) m same_request_trans by (cases "rc2 = -1") auto
qed

lemma res_add_addr_ok:
  assumes ok: "res_ok res" and a: "da_family addr = AF_INET \<Longrightarrow> 4 \<le> length (da_ip addr)" "da_family addr = AF_INET6 \<Longrightarrow> 16 \<le> length (da_ip addr)"
  shows "\<exists>rc res'. res_add_addr res addr = Some (rc, res') \<and> res_ok res' \<and> same_request res res'"
proof (cases "da_family addr")
  case AF_INET
  have "DNS_IPV4 = DNS_IPV6 \<Longrightarrow> 16 \<le> length (da_ip addr)" using dns_flags_distinct by simp
  then show ?thesis
    using res_add_ip_ok [OF ok, of DNS_IPV4 "da_ip addr"] a(1) ok AF_INET by (cases "da_len addr = 16") (auto simp: res_add_addr_def)
next
  case AF_INET6
  have "DNS_IPV6 = DNS_IPV4 \<Longrightarrow> 4 \<le> length (da_ip addr)" using dns_flags_distinct by simp
  then show ?thesis
    using res_add_ip_ok [OF ok, of DNS_IPV6 "da_ip addr"] a(2) ok AF_INET6 by (cases "da_len addr = 28") (auto simp: res_add_addr_def)
qed (use ok in \<open>simp add: res_add_addr_def\<close>)

section \<open>Putting the addresses together\<close>

definition addr_ok :: "dns_sockaddr \<Rightarrow> bool" where
  "addr_ok a \<longleftrightarrow> addr4_ok a \<or> addr6_ok a"

lemma v4_mapped_ok: "addr_ok a \<Longrightarrow> addr6_ok (v4_mapped a)"
  by (auto simp: addr_ok_def addr4_ok_def addr6_ok_def v4_mapped_def v4_ip_def)

text \<open>Every address of the final result is well-formed, whatever the array holds.\<close>

lemma fixup_loop_ok:
  assumes "length (r_addrs res) = max_addr res" "num_ip6 res + (i + n) \<le> max_addr res"
    and "\<And>k. k < num_ip6 res + i \<Longrightarrow> addr_ok (r_addrs res ! k)"
    and "\<And>k. k < i + n \<Longrightarrow> addr_ok (r_addrs res ! (max_addr res - 1 - k))"
  shows "\<exists>as. fixup_loop n i res = Some (res\<lparr> r_addrs := as \<rparr>) \<and> length as = max_addr res \<and>
    (\<forall>k < num_ip6 res + (i + n). addr_ok (as ! k))"
  using assms
proof (induction n arbitrary: i res)
  case 0
  then show ?case by (intro exI [of _ "r_addrs res"]) simp
next
  case (Suc n)
  let ?s = "max_addr res - 1 - i" and ?d = "num_ip6 res + i"
  let ?a = "if r_flags res AND DNS_V4MAPPED \<noteq> 0 then v4_mapped (r_addrs res ! ?s) else r_addrs res ! ?s"
  let ?res = "res\<lparr> r_addrs := (r_addrs res)[?d := ?a] \<rparr>"
  have a: "addr_ok ?a" using Suc.prems(4) [of i] v4_mapped_ok by (auto simp: addr_ok_def)
  have lt: "i < max_addr res" "?d < max_addr res" using Suc.prems(2) by simp_all
  have n: "nat (int (max_addr res) - 1 - int i) = ?s" using lt by simp
  have ih: "\<exists>as. fixup_loop n (Suc i) ?res = Some (?res\<lparr> r_addrs := as \<rparr>) \<and> length as = max_addr ?res \<and>
      (\<forall>k < num_ip6 ?res + (Suc i + n). addr_ok (as ! k))"
  proof (rule Suc.IH)
    show "addr_ok (r_addrs ?res ! k)" if "k < num_ip6 ?res + Suc i" for k
      using that a Suc.prems(1) Suc.prems(3) [of k] lt by (cases "k = ?d") auto
    show "addr_ok (r_addrs ?res ! (max_addr ?res - 1 - k))" if "k < Suc i + n" for k
      using that a Suc.prems(1) Suc.prems(4) [of k] lt by (cases "max_addr res - 1 - k = ?d") auto
  qed (use Suc.prems(1,2) in auto)
  have "fixup_loop (Suc n) i res = fixup_loop n (Suc i) ?res"
    using lt Suc.prems(1) n by (simp add: res_get_def res_put_def nat_int_add)
  then show ?case using ih by simp
qed

lemma fixup_addrs_start:
  assumes "num_addr res = num_ip4 res + num_ip6 res"
  obtains res1 where "fixup_addrs res = fixup_loop (num_ip4 res1) 0 res1" "r_addrs res1 = r_addrs res" "r_stray res1 = r_stray res" "num_ip6 res1 = num_ip6 res"
    "same_request res res1" "num_ip4 res1 \<le> num_ip4 res" "num_addr res1 = num_ip6 res + num_ip4 res1" "num_addr res1 = 0 \<longleftrightarrow> num_addr res = 0"
    "need_ip4 res1 = need_ip4 res" "need_ip6 res1 = need_ip6 res"
proof (cases "num_ip6 res > 0 \<and> r_flags res AND (DNS_V4MAPPED OR DNS_ALL) \<noteq> DNS_V4MAPPED OR DNS_ALL")
  case True
  then have "fixup_addrs res = fixup_loop 0 0 (res\<lparr> num_addr := num_addr res - num_ip4 res, num_ip4 := 0 \<rparr>)"
    by (simp add: fixup_addrs_def)
  then show ?thesis using that [of "res\<lparr> num_addr := num_addr res - num_ip4 res, num_ip4 := 0 \<rparr>"] True assms by (simp add: same_request_def)
next
  case False
  then have "fixup_addrs res = fixup_loop (num_ip4 res) 0 res" by (auto simp: fixup_addrs_def Let_def)
  then show ?thesis using that [of res] assms by simp
qed

lemma fixup_addrs_ok:
  assumes ok: "res_ok res"
  obtains res' where "fixup_addrs res = Some res'" "same_request res res'" "length (r_addrs res') = max_addr res"
    "num_addr res' \<le> num_addr res" "\<And>k. k < num_addr res' \<Longrightarrow> addr_ok (r_addrs res' ! k)"
    "need_ip4 res' = need_ip4 res" "need_ip6 res' = need_ip6 res" "num_addr res' = 0 \<longleftrightarrow> num_addr res = 0" "r_stray res' = []"
proof -
  note r = res_okD [OF ok]
  obtain res1 where f: "fixup_addrs res = fixup_loop (num_ip4 res1) 0 res1" and stray: "r_stray res1 = r_stray res" and same: "r_addrs res1 = r_addrs res" "num_ip6 res1 = num_ip6 res"
    "same_request res res1" "num_ip4 res1 \<le> num_ip4 res" "num_addr res1 = num_ip6 res + num_ip4 res1" "num_addr res1 = 0 \<longleftrightarrow> num_addr res = 0"
    "need_ip4 res1 = need_ip4 res" "need_ip6 res1 = need_ip6 res"
    by (rule fixup_addrs_start [OF r(2)])
  have m: "max_addr res1 = max_addr res" using same(3) by (simp add: same_request_def)
  have "\<exists>as. fixup_loop (num_ip4 res1) 0 res1 = Some (res1\<lparr> r_addrs := as \<rparr>) \<and> length as = max_addr res1 \<and>
    (\<forall>k < num_ip6 res1 + (0 + num_ip4 res1). addr_ok (as ! k))"
    by (rule fixup_loop_ok) (use r same m in \<open>simp_all add: addr_ok_def\<close>)
  then obtain as where as: "fixup_loop (num_ip4 res1) 0 res1 = Some (res1\<lparr> r_addrs := as \<rparr>)" "length as = max_addr res"
    "\<forall>k < num_ip6 res + num_ip4 res1. addr_ok (as ! k)" using same m by auto
  show ?thesis
    by (rule that [of "res1\<lparr> r_addrs := as \<rparr>"]) (use f as same stray r(2,4) in \<open>simp_all add: same_request_def\<close>)
qed

text \<open>The IPv4 addresses of a result in the order they were added.\<close>

definition v4_addrs :: "dns_result \<Rightarrow> dns_sockaddr list" where
  "v4_addrs res = map (\<lambda>i. r_addrs res ! (max_addr res - 1 - i)) [0..<num_ip4 res]"

lemma fixup_loop_moves:
  assumes "length (r_addrs res) = max_addr res" "num_ip6 res + (i + n) \<le> max_addr res" "2 * (i + n) + num_ip6 res \<le> max_addr res + 1"
    and "\<And>k. k < max_addr res \<Longrightarrow> k < num_ip6 res \<or> num_ip6 res + i \<le> k \<Longrightarrow> r_addrs res ! k = as ! k"
    and "\<And>k. k < i \<Longrightarrow> r_addrs res ! (num_ip6 res + k) = g (as ! (max_addr res - 1 - k))"
    and g: "g = (if r_flags res AND DNS_V4MAPPED \<noteq> 0 then v4_mapped else id)"
  shows "\<exists>bs. fixup_loop n i res = Some (res\<lparr> r_addrs := bs \<rparr>) \<and> length bs = max_addr res \<and>
    (\<forall>k < num_ip6 res. bs ! k = as ! k) \<and> (\<forall>k < i + n. bs ! (num_ip6 res + k) = g (as ! (max_addr res - 1 - k)))"
  using assms
proof (induction n arbitrary: i res)
  case 0
  then show ?case by (intro exI [of _ "r_addrs res"]) auto
next
  case (Suc n)
  let ?s = "max_addr res - 1 - i" and ?d = "num_ip6 res + i"
  let ?res = "res\<lparr> r_addrs := (r_addrs res)[?d := g (r_addrs res ! ?s)] \<rparr>"
  have lt: "i < max_addr res" "?d < max_addr res" "?d \<le> ?s" using Suc.prems(2,3) by simp_all
  have n: "nat (int (max_addr res) - 1 - int i) = ?s" using lt by simp
  have src: "r_addrs res ! ?s = as ! ?s" using Suc.prems(4) [of ?s] lt by simp
  have ih: "\<exists>bs. fixup_loop n (Suc i) ?res = Some (?res\<lparr> r_addrs := bs \<rparr>) \<and> length bs = max_addr ?res \<and>
    (\<forall>k < num_ip6 ?res. bs ! k = as ! k) \<and> (\<forall>k < Suc i + n. bs ! (num_ip6 ?res + k) = g (as ! (max_addr ?res - 1 - k)))"
  proof (rule Suc.IH)
    show "r_addrs ?res ! k = as ! k" if "k < max_addr ?res" "k < num_ip6 ?res \<or> num_ip6 ?res + Suc i \<le> k" for k
      using that Suc.prems(4) [of k] by auto
    show "r_addrs ?res ! (num_ip6 ?res + k) = g (as ! (max_addr ?res - 1 - k))" if "k < Suc i" for k
      using that Suc.prems(1) Suc.prems(5) [of k] src lt by (cases "k = i") auto
  qed (use Suc.prems(1-3,6) in auto)
  have "fixup_loop (Suc n) i res = fixup_loop n (Suc i) ?res"
    using lt Suc.prems(1,6) n by (simp add: res_get_def res_put_def nat_int_add)
  then show ?case using ih by simp
qed

text \<open>
  C22. Putting the results together.  When the array has room (\<open>2 * num_ip4 + num_ip6 \<le> max_addr + 1\<close>),
  \<open>fixup_addrs\<close> returns and the result is the IPv6 addresses in the order they were added, followed
  by the IPv4 addresses in the order they were added, mapped to IPv6 under \<open>DNS_V4MAPPED\<close>; the IPv4
  addresses are left out when there are IPv6 addresses and not both \<open>DNS_V4MAPPED\<close> and \<open>DNS_ALL\<close> are set.
\<close>

theorem fixup_addrs_result:
  assumes ok: "res_ok res" and room: "2 * num_ip4 res + num_ip6 res \<le> max_addr res + 1"
    and keep: "keep = (num_ip6 res = 0 \<or> r_flags res AND (DNS_V4MAPPED OR DNS_ALL) = DNS_V4MAPPED OR DNS_ALL)"
  shows "\<exists>res'. fixup_addrs res = Some res' \<and> take (num_addr res') (r_addrs res') = take (num_ip6 res) (r_addrs res) @
    (if keep then map (if r_flags res AND DNS_V4MAPPED \<noteq> 0 then v4_mapped else id) (v4_addrs res) else [])"
proof -
  note r = res_okD [OF ok]
  let ?g = "if r_flags res AND DNS_V4MAPPED \<noteq> 0 then v4_mapped else id"
  show ?thesis
  proof (cases keep)
    case False
    then have "fixup_addrs res = Some (res\<lparr> num_addr := num_addr res - num_ip4 res, num_ip4 := 0 \<rparr>)"
      using keep by (auto simp: fixup_addrs_def Let_def)
    then show ?thesis using False r(2) by simp
  next
    case True
    have "\<exists>bs. fixup_loop (num_ip4 res) 0 res = Some (res\<lparr> r_addrs := bs \<rparr>) \<and> length bs = max_addr res \<and>
      (\<forall>k < num_ip6 res. bs ! k = r_addrs res ! k) \<and>
      (\<forall>k < 0 + num_ip4 res. bs ! (num_ip6 res + k) = ?g (r_addrs res ! (max_addr res - 1 - k)))"
      by (rule fixup_loop_moves) (use r room in simp_all)
    then obtain bs where bs: "fixup_loop (num_ip4 res) 0 res = Some (res\<lparr> r_addrs := bs \<rparr>)" "length bs = max_addr res"
      "\<forall>k < num_ip6 res. bs ! k = r_addrs res ! k"
      "\<forall>k < num_ip4 res. bs ! (num_ip6 res + k) = ?g (r_addrs res ! (max_addr res - 1 - k))" by auto
    have f: "fixup_addrs res = Some (res\<lparr> r_addrs := bs \<rparr>)" using True keep bs(1) by (auto simp: fixup_addrs_def Let_def)
    have "take (num_addr res) bs = take (num_ip6 res) (r_addrs res) @ map ?g (v4_addrs res)"
    proof (rule nth_equalityI)
      show "length (take (num_addr res) bs) = length (take (num_ip6 res) (r_addrs res) @ map ?g (v4_addrs res))"
        using r(1-3) bs(2) by (simp add: v4_addrs_def)
      fix k
      assume "k < length (take (num_addr res) bs)"
      then have k: "k < num_ip4 res + num_ip6 res" using r(2) by simp
      show "take (num_addr res) bs ! k = (take (num_ip6 res) (r_addrs res) @ map ?g (v4_addrs res)) ! k"
      proof (cases "k < num_ip6 res")
        case True
        then show ?thesis using bs(3) r(1-3) k by (simp add: nth_append)
      next
        case False
        then obtain j where j: "k = num_ip6 res + j" "j < num_ip4 res" using k by (metis add_less_cancel_left add.commute le_add_diff_inverse not_less)
        then show ?thesis using bs(4) r(1-3) by (simp add: nth_append v4_addrs_def)
      qed
    qed
    then show ?thesis using f True by simp
  qed
qed

definition sample_res :: "nat \<Rightarrow> u32 \<Rightarrow> dns_result" where
  "sample_res n flags = \<lparr> r_flags = flags, r_host = Some (ascii ''10.0.0.1''), r_port = Some (ascii ''53''), udp_port = 53, tcp_port = 53, num_ip4 = 2,
    num_ip6 = 0, num_addr = 2, max_addr = n, r_addrs = replicate (n - 2) sockaddr_zero @
      [snd (sockaddr_load DNS_IPV4 [10, 0, 0, 1] DNS_UDP 53), snd (sockaddr_load DNS_IPV4 [10, 0, 0, 1] DNS_TCP 53)],
    r_stray = [], need_ip4 = True, need_ip6 = False \<rparr>"

theorem fixup_addrs_result_witness:
  "\<exists>res'. fixup_addrs (sample_res 3 DNS_IPV4) = Some res' \<and> take (num_addr res') (r_addrs res') =
    [snd (sockaddr_load DNS_IPV4 [10, 0, 0, 1] DNS_TCP 53), snd (sockaddr_load DNS_IPV4 [10, 0, 0, 1] DNS_UDP 53)]"
proof -
  have "res_ok (sample_res 3 DNS_IPV4)"
    by (auto simp: res_ok_def sample_res_def addr4_ok_def sockaddr_load_def less_Suc_eq numeral_eq_Suc dns_flag_defs)
  from fixup_addrs_result [OF this _ refl] show ?thesis
    by (simp add: sample_res_def v4_addrs_def upt_rec dns_flag_defs)
qed

text \<open>
  Without that room addresses are lost: in an array of two addresses that holds two IPv4
  addresses, \<open>fixup_addrs\<close> copies the first over the second before it has read the second, and
  the result holds the first address twice.
\<close>

theorem fixup_addrs_loses:
  assumes "num_ip4 res = 2" "num_ip6 res = 0" "max_addr res = 2" "r_addrs res = [b, a]" "r_flags res AND DNS_V4MAPPED = 0"
  shows "v4_addrs res = [a, b] \<and> (\<exists>res'. fixup_addrs res = Some res' \<and> num_addr res' = num_addr res \<and> r_addrs res' = [a, a])"
  using assms by (simp add: res_get_def res_put_def fixup_addrs_def v4_addrs_def numeral_2_eq_2 Let_def upt_rec)

theorem fixup_addrs_loses_witness:
  "\<exists>res'. fixup_addrs (sample_res 2 (DNS_IPV4 OR DNS_TCP OR DNS_UDP)) = Some res' \<and> num_addr res' = 2 \<and>
    r_addrs res' = replicate 2 (snd (sockaddr_load DNS_IPV4 [10, 0, 0, 1] DNS_TCP 53))"
  using fixup_addrs_loses [of "sample_res 2 (DNS_IPV4 OR DNS_TCP OR DNS_UDP)"]
  by (auto simp: sample_res_def dns_flag_defs numeral_2_eq_2)

end
