(* ===== verification/Resolv_Conf.thy ===== *)
theory Resolv_Conf
  imports Resolv_Result Hashmap_Ops Dns_Query
begin

text \<open>
  The tables of the resolver in \<open>src/src/dns_resolv.c\<close>: the configuration from \<open>resolv.conf\<close>, the host
  and service tables, and the cache of answers.  A result \<open>None\<close> is a loop that does not end or an
  access out of bounds.  The names of hosts, services and search domains are copied into a store
  that is only appended to, each with its terminator, so that they are values here; the names of
  the cache are copied without their terminator, so that they are offsets of its store.
\<close>

section \<open>The system\<close>

datatype conn_res = Connected | InProgress | ConnFailed

text \<open>
  \<open>re_poll\<close> returns the result of \<open>poll\<close> and whether \<open>errno\<close> is \<open>EINTR\<close> after it; \<open>re_sockerr\<close> is the
  option \<open>SO_ERROR\<close>; \<open>re_now_ms\<close> is the monotonic clock, the largest value when it fails; \<open>re_tid\<close> is
  \<open>getpid() ^ time(NULL)\<close>; \<open>re_run\<close> says whether \<open>glob_sig\<close> is set and still runs.  \<open>re_un\<close>, \<open>re_uz\<close> and
  \<open>re_junk\<close> are the values of union members that were not written last.
\<close>

record 'w renv =
  re_open :: "'w \<Rightarrow> string \<Rightarrow> int \<times> 'w"
  re_read :: "'w \<Rightarrow> int \<Rightarrow> nat \<Rightarrow> rd_res \<times> 'w"
  re_write :: "'w \<Rightarrow> int \<Rightarrow> bytes \<Rightarrow> wr_res \<times> 'w"
  re_close :: "'w \<Rightarrow> int \<Rightarrow> 'w"
  re_socket :: "'w \<Rightarrow> sa_family \<Rightarrow> nat \<Rightarrow> int \<times> 'w"
  re_connect :: "'w \<Rightarrow> int \<Rightarrow> dns_sockaddr \<Rightarrow> conn_res \<times> 'w"
  re_sockerr :: "'w \<Rightarrow> int \<Rightarrow> int option \<times> 'w"
  re_poll :: "'w \<Rightarrow> int \<Rightarrow> int \<Rightarrow> int \<Rightarrow> (int \<times> bool) \<times> 'w"
  re_now_ms :: "'w \<Rightarrow> int \<times> 'w"
  re_tid :: "'w \<Rightarrow> u16 \<times> 'w"
  re_run :: "'w \<Rightarrow> bool"
  re_calloc :: "nat \<Rightarrow> bool"
  re_un :: "nat dns_rdata \<Rightarrow> nat"
  re_uz :: "nat dns_rdata \<Rightarrow> u16"
  re_junk :: bytes

section \<open>Reading a file by lines\<close>

text \<open>\<open>rs\<close> is the label \<open>read_block\<close> with \<open>read_state\<close> set; otherwise the block is skipped.\<close>

partial_function (option) read_block :: "'w renv \<Rightarrow> 'w \<Rightarrow> int \<Rightarrow> rwbuf \<Rightarrow> bool \<Rightarrow> (int \<times> slice \<times> rwbuf \<times> 'w) option" where
  "read_block env w fd buf rs =
    (if rs \<and> rwbuf_space buf = 0 then Some (-1, None, buf, w)
     else
       (case (if rs then re_read env w fd (rwbuf_space buf) else (Got [], w)) of
          (RdErr e, w) \<Rightarrow> Some (-1, None, buf, w)
        | (Got bs, w) \<Rightarrow>
            let buf = (rwbuf_poke buf (rb_widx buf) bs)\<lparr> rb_widx := sz_add (rb_widx buf) (length bs) \<rparr>
            in case rwbuf_readline buf (rb_size buf) (if rs \<and> bs = [] then RWBUF_EOF else 0) of (rc, line, buf) \<Rightarrow>
              if rc \<noteq> 0 \<or> rwbuf_used buf = 0 then Some (rc, line, buf, w)
              else read_block env w fd buf True))"

definition read_line :: "'w renv \<Rightarrow> 'w \<Rightarrow> int \<Rightarrow> rwbuf \<Rightarrow> (int \<times> slice \<times> rwbuf \<times> 'w) option" where
  "read_line env w fd buf = (if fd = -1 then Some (0, None, buf, w) else read_block env w fd buf (rwbuf_used buf = 0))"

text \<open>
  The loop of the three files: \<open>f\<close> handles a line that is not blank after its comment is cut off.
  The buffer of 1024 bytes starts with unknown contents.
\<close>

partial_function (option) file_lines ::
    "'w renv \<Rightarrow> (slice \<Rightarrow> 's \<Rightarrow> 's option) \<Rightarrow> 'w \<Rightarrow> int \<Rightarrow> rwbuf \<Rightarrow> 's \<Rightarrow> ('s \<times> 'w) option" where
  "file_lines env f w fd buf s =
    Option.bind (read_line env w fd buf) (\<lambda>(rc, line, buf, w).
      if rc \<le> 0 then Some (s, w)
      else
        let line = slice_trim (slice_chop line 35) in
        if slice_bytes line = [] then file_lines env f w fd buf s
        else Option.bind (f line s) (\<lambda>s. file_lines env f w fd buf s))"

definition load_file :: "'w renv \<Rightarrow> (slice \<Rightarrow> 's \<Rightarrow> 's option) \<Rightarrow> string \<Rightarrow> bytes \<Rightarrow> 'w \<Rightarrow> 's \<Rightarrow> ('s \<times> 'w) option" where
  "load_file env f path tmp w s =
    (case re_open env w path of (fd, w) \<Rightarrow> do {
       (s, w) \<leftarrow> file_lines env f w fd (RWBUF_INIT tmp) s;
       Some (s, if fd \<noteq> -1 then re_close env w fd else w)
     })"

abbreviation blanks :: bytes where "blanks \<equiv> ascii '' '' @ [9]"

section \<open>The configuration\<close>

record dns_config =
  cf_attempts :: u32
  timeout_secs :: u32
  cf_ndots :: u32
  cf_use_tcp :: bool
  cf_store_len :: nat
  cf_search :: "bytes list"
  ns_addrs :: "dns_sockaddr list"

definition str_toopt :: "slice \<Rightarrow> nat" where
  "str_toopt str =
    (if slice_cmpmem str (ascii ''ndots'') = 0 then 1 else if slice_cmpmem str (ascii ''timeout'') = 0 then 2
     else if slice_cmpmem str (ascii ''attempts'') = 0 then 3 else if slice_cmpmem str (ascii ''use-vc'') = 0 then 4 else 0)"

text \<open>Every turn of the loops takes a word and the blanks behind it, or a blank at the front.\<close>

lemma splitset_shorter:
  assumes "slice_splitset s d = (w, r)" "slice_bytes s \<noteq> []"
  shows "length (slice_bytes r) < length (slice_bytes s)"
proof -
  obtain c b where s: "s = Some (c # b)" using assms(2) by (cases s; cases "slice_bytes s") auto
  show ?thesis
  proof (cases "memchr d c = None")
    case True
    let ?k = "length (takeWhile (\<lambda>c. memchr d c = None) b)"
    have "length (dropWhile (\<lambda>c. memchr d c \<noteq> None) (drop ?k b)) \<le> length b"
      using length_dropWhile_le [of "\<lambda>c. memchr d c \<noteq> None" "drop ?k b"] by simp
    then show ?thesis using True assms(1) s by (auto simp: slice_splitset_def Let_def less_Suc_eq_le)
  next
    case False
    then show ?thesis using assms(1) s length_dropWhile_le [of "\<lambda>c. memchr d c \<noteq> None" b] by (auto simp: slice_splitset_def Let_def)
  qed
qed

function cfg_add_options :: "dns_config \<Rightarrow> slice \<Rightarrow> dns_config" where
  "cfg_add_options cfg str =
    (if slice_bytes str = [] then cfg
     else case slice_splitset str blanks of (val, str) \<Rightarrow>
       case slice_splitch val 58 of (key, val) \<Rightarrow>
         let opt = str_toopt key in
         cfg_add_options
           (if opt = 1 then cfg\<lparr> cf_ndots := slice_tou32 val \<rparr>
            else if opt = 2 then cfg\<lparr> timeout_secs := slice_tou32 val \<rparr>
            else if opt = 3 then cfg\<lparr> cf_attempts := slice_tou32 val \<rparr>
            else if opt = 4 then cfg\<lparr> cf_use_tcp := True \<rparr>
            else cfg) str)"
  by pat_completeness auto
termination by (relation "measure (\<lambda>(cfg, str). length (slice_bytes str))") (auto intro: splitset_shorter [OF sym])

declare cfg_add_options.simps [simp del]

function cfg_add_search :: "dns_config \<Rightarrow> slice \<Rightarrow> dns_config" where
  "cfg_add_search cfg search =
    (if slice_bytes search = [] \<or> length (cf_search cfg) \<ge> 8 then cfg
     else case slice_splitset search blanks of (name, search) \<Rightarrow>
       let len = length (slice_bytes name) + 1
       in if len > 256 - cf_store_len cfg then cfg
          else cfg_add_search (cfg\<lparr> cf_store_len := cf_store_len cfg + len,
            cf_search := cf_search cfg @ [str_tolower (slice_bytes name)] \<rparr>) search)"
  by pat_completeness auto
termination by (relation "measure (\<lambda>(cfg, str). length (slice_bytes str))") (auto intro: splitset_shorter [OF sym])

declare cfg_add_search.simps [simp del]

text \<open>The 16 bytes of the address are on the stack.\<close>

definition cfg_add_nameserver :: "bytes \<Rightarrow> dns_config \<Rightarrow> slice \<Rightarrow> dns_config option" where
  "cfg_add_nameserver stk cfg ip_str =
    (if length (ns_addrs cfg) \<ge> 3 then Some cfg
     else do {
       (type, ip) \<leftarrow> ipstr_decode ip_str stk;
       let (ok, addr) = sockaddr_load type ip 0 53;
       Some (if type = 0 \<or> \<not> ok then cfg else cfg\<lparr> ns_addrs := ns_addrs cfg @ [addr] \<rparr>)
     })"

definition str_tocfg :: "slice \<Rightarrow> nat" where
  "str_tocfg str =
    (if slice_cmpmem str (ascii ''nameserver'') = 0 then 1 else if slice_cmpmem str (ascii ''search'') = 0 then 2
     else if slice_cmpmem str (ascii ''options'') = 0 then 3 else 0)"

definition cfg_line :: "bytes \<Rightarrow> slice \<Rightarrow> dns_config \<Rightarrow> dns_config option" where
  "cfg_line stk line cfg =
    (case slice_splitset line blanks of (key, line) \<Rightarrow>
       let k = str_tocfg key in
       if k = 1 then cfg_add_nameserver stk cfg line
       else if k = 2 then Some (cfg_add_search cfg line)
       else if k = 3 then Some (cfg_add_options cfg line)
       else Some cfg)"

definition init_config :: "'w renv \<Rightarrow> bytes \<Rightarrow> bytes \<Rightarrow> 'w \<Rightarrow> dns_config \<Rightarrow> (dns_config \<times> 'w) option" where
  "init_config env tmp stk w cfg = do {
    (cfg, w) \<leftarrow> load_file env (cfg_line stk) ''/etc/resolv.conf'' tmp w cfg;
    let cfg = (if cf_attempts cfg = 0 then cfg\<lparr> cf_attempts := 2 \<rparr> else cfg);
    let cfg = (if timeout_secs cfg = 0 then cfg\<lparr> timeout_secs := 5 \<rparr> else cfg);
    let cfg = (if cf_ndots cfg = 0 then cfg\<lparr> cf_ndots := 1 \<rparr> else cfg);
    cfg \<leftarrow> (if ns_addrs cfg = [] then cfg_add_nameserver stk cfg (Some (ascii ''127.0.0.1'')) else Some cfg);
    Some (cfg, w)
  }"

section \<open>Tables of names\<close>

text \<open>
  A name in lower case, copied with its terminator into an array of \<open>n\<close> characters: the string
  there, or nothing when it does not fit.
\<close>

definition lower_cstr :: "slice \<Rightarrow> nat \<Rightarrow> bytes option" where
  "lower_cstr s n = (if length (slice_bytes s) + 1 > n then None else Some (takeWhile (\<lambda>c. c \<noteq> 0) (str_tolower (slice_bytes s))))"

text \<open>The values of the host table are pointers into its array: \<open>Suc i\<close> is the address of element \<open>i\<close>.\<close>

record dns_hosts =
  h_store_len :: nat
  h_num_addr :: nat
  h_max_addr :: nat
  h_map :: "(strkey, u64) hashmap"
  h_addrs :: "dns_sockaddr list"

definition ptr_at :: "dns_sockaddr list \<Rightarrow> u64 \<Rightarrow> nat option" where
  "ptr_at addrs p = (if p = 0 \<or> unat p > length addrs then None else Some (unat p - 1))"

definition hosts_get :: "dns_hosts \<Rightarrow> slice \<Rightarrow> dns_sockaddr option option" where
  "hosts_get hosts hostname =
    (case lower_cstr hostname 256 of
       None \<Rightarrow> Some None
     | Some name \<Rightarrow> do {
         idx \<leftarrow> map_get map64s_ops (h_map hosts) (Str name);
         if idx = hm_capacity (h_map hosts) then Some None
         else do { i \<leftarrow> ptr_at (h_addrs hosts) (map_val map64s_ops (h_map hosts) idx); Some (Some (h_addrs hosts ! i)) }
       })"

definition hosts_put :: "'w renv \<Rightarrow> dns_hosts \<Rightarrow> slice \<Rightarrow> dns_sockaddr \<Rightarrow> (bool \<times> dns_hosts) option" where
  "hosts_put env hosts hostname addr =
    (if h_num_addr hosts \<ge> h_max_addr hosts then Some (False, hosts)
     else case lower_cstr hostname 256 of
       None \<Rightarrow> Some (False, hosts)
     | Some name \<Rightarrow>
         let update = (\<lambda>hosts idx. do {
           i \<leftarrow> ptr_at (h_addrs hosts) (map_val map64s_ops (h_map hosts) idx);
           Some (True, hosts\<lparr> h_addrs := (h_addrs hosts)[i := addr] \<rparr>)
         }) in do {
         idx \<leftarrow> map_get map64s_ops (h_map hosts) (Str name);
         if idx \<noteq> hm_capacity (h_map hosts) then update hosts idx
         else
           let len = length (slice_bytes hostname) + 1
           in if h_store_len hosts + len > 8192 then Some (False, hosts)
              else do {
                (idx, m) \<leftarrow> map_put map64s_ops (re_calloc env) (h_map hosts) (Str name) (of_nat (Suc (h_num_addr hosts)));
                let hosts = hosts\<lparr> h_map := m \<rparr>;
                if idx = hm_capacity m then Some (False, hosts)
                else update (hosts\<lparr> h_store_len := h_store_len hosts + len, h_num_addr := h_num_addr hosts + 1 \<rparr>) idx
              }
         })"

function hosts_aliases :: "'w renv \<Rightarrow> dns_hosts \<Rightarrow> slice \<Rightarrow> dns_sockaddr \<Rightarrow> dns_hosts option" where
  "hosts_aliases env hosts aliases addr =
    (if slice_bytes aliases = [] then Some hosts
     else case slice_splitset aliases blanks of (alias, aliases) \<Rightarrow>
       Option.bind (hosts_put env hosts alias addr) (\<lambda>(_, hosts). hosts_aliases env hosts aliases addr))"
  by pat_completeness auto
termination by (relation "measure (\<lambda>(env, hosts, str, addr). length (slice_bytes str))") (auto intro: splitset_shorter [OF sym])

declare hosts_aliases.simps [simp del]

text \<open>The address is loaded into the first free element, where the name is put when it is new.\<close>

definition hosts_add :: "'w renv \<Rightarrow> bytes \<Rightarrow> dns_hosts \<Rightarrow> slice \<Rightarrow> slice \<Rightarrow> slice \<Rightarrow> dns_hosts option" where
  "hosts_add env stk hosts ip hostname aliases =
    (if h_num_addr hosts \<ge> length (h_addrs hosts) then Some hosts
     else do {
       (type, ip) \<leftarrow> ipstr_decode ip stk;
       let (ok, addr) = sockaddr_load type ip 0 0;
       if type = 0 then Some hosts
       else
         let hosts = hosts\<lparr> h_addrs := (h_addrs hosts)[h_num_addr hosts := addr] \<rparr>
         in if \<not> ok then Some hosts
            else do {
              (b, hosts) \<leftarrow> hosts_put env hosts hostname addr;
              if b then hosts_aliases env hosts aliases addr else Some hosts
            }
     })"

definition hosts_line :: "'w renv \<Rightarrow> bytes \<Rightarrow> slice \<Rightarrow> dns_hosts \<Rightarrow> dns_hosts option" where
  "hosts_line env stk line hosts =
    (case slice_splitset line blanks of (addr, line) \<Rightarrow>
     case slice_splitset line blanks of (name, line) \<Rightarrow>
       if slice_bytes addr = [] \<or> slice_bytes name = [] then Some hosts else hosts_add env stk hosts addr name line)"

definition init_hosts :: "'w renv \<Rightarrow> bytes \<Rightarrow> bytes \<Rightarrow> 'w \<Rightarrow> dns_hosts \<Rightarrow> (dns_hosts \<times> 'w) option" where
  "init_hosts env tmp stk w hosts =
    load_file env (hosts_line env stk) ''/etc/hosts'' tmp w (hosts\<lparr> h_max_addr := length (h_addrs hosts) \<rparr>)"

record dns_services =
  s_store_len :: nat
  num_svc :: nat
  max_svc :: nat
  s_map :: "(strkey, u32) hashmap"

definition services_get :: "dns_services \<Rightarrow> slice \<Rightarrow> u32 option" where
  "services_get svcs service =
    (case lower_cstr service 32 of
       None \<Rightarrow> Some 0
     | Some name \<Rightarrow> do {
         idx \<leftarrow> map_get map32s_ops (s_map svcs) (Str name);
         Some (if idx = hm_capacity (s_map svcs) then 0 else map_val map32s_ops (s_map svcs) idx)
       })"

text \<open>\<open>port\<close> is an \<open>int16_t\<close>, which is extended with its sign.\<close>

definition services_put :: "'w renv \<Rightarrow> dns_services \<Rightarrow> slice \<Rightarrow> u32 \<Rightarrow> u16 \<Rightarrow> (bool \<times> dns_services) option" where
  "services_put env svcs service protocol port =
    (case lower_cstr service 32 of
       None \<Rightarrow> Some (False, svcs)
     | Some name \<Rightarrow>
         let update = (\<lambda>svcs idx.
           let val = map_val map32s_ops (s_map svcs) idx;
               val = (if protocol = DNS_TCP then val OR scast port else val);
               val = (if protocol = DNS_UDP then val OR push_bit 16 (scast port) else val)
           in (True, svcs\<lparr> s_map := snd (map_set map32s_ops (s_map svcs) idx val) \<rparr>)) in do {
         idx \<leftarrow> map_get map32s_ops (s_map svcs) (Str name);
         if idx \<noteq> hm_capacity (s_map svcs) then Some (update svcs idx)
         else
           let len = length (slice_bytes service) + 1
           in if s_store_len svcs + len > 8192 then Some (False, svcs)
              else do {
                (idx, m) \<leftarrow> map_put map32s_ops (re_calloc env) (s_map svcs) (Str name) 0;
                let svcs = svcs\<lparr> s_map := m \<rparr>;
                Some (if idx = hm_capacity m then (False, svcs)
                  else update (svcs\<lparr> s_store_len := s_store_len svcs + len, num_svc := num_svc svcs + 1 \<rparr>) idx)
              }
         })"

text \<open>A comparison is not 0 when the texts differ.\<close>

definition services_add :: "'w renv \<Rightarrow> dns_services \<Rightarrow> slice \<Rightarrow> slice \<Rightarrow> (bool \<times> dns_services) option" where
  "services_add env svcs name pp =
    (if num_svc svcs \<ge> max_svc svcs then Some (False, svcs)
     else case slice_splitch pp 47 of (port_str, pp) \<Rightarrow>
       let port = ucast (slice_tou32 port_str) :: u16;
           ptype = (if slice_cmpmem pp (ascii ''tcp'') \<noteq> 0 then DNS_TCP else 0);
           ptype = (if slice_cmpmem pp (ascii ''udp'') \<noteq> 0 then DNS_UDP else ptype)
       in if ptype = 0 \<or> port = 0 then Some (False, svcs) else services_put env svcs name ptype port)"

definition services_line :: "'w renv \<Rightarrow> slice \<Rightarrow> dns_services \<Rightarrow> dns_services option" where
  "services_line env line svcs =
    (case slice_splitset line blanks of (name, line) \<Rightarrow>
     case slice_splitset line blanks of (pp, line) \<Rightarrow>
       if slice_bytes name = [] \<or> slice_bytes pp = [] then Some svcs
       else map_option snd (services_add env svcs name pp))"

text \<open>The buffer of the map has 341 entries, of which the first 256 are attached and used.\<close>

definition init_services :: "'w renv \<Rightarrow> bytes \<Rightarrow> 'w \<Rightarrow> dns_services \<Rightarrow> (dns_services \<times> 'w) option" where
  "init_services env tmp w svcs =
    (case map_attach (s_map svcs) (replicate 256 (k_zero map32s_ops, v_zero map32s_ops)) 256 of (ok, m) \<Rightarrow>
       if ok = 0 then Some (svcs\<lparr> s_map := m \<rparr>, w)
       else load_file env (services_line env) ''/etc/services'' tmp w (svcs\<lparr> s_map := m, max_svc := 256 \<rparr>))"

section \<open>The cache\<close>

text \<open>A key of the map: a name on the stack of the caller, or the offset of a name in the store.\<close>

datatype ckey = CNull | CMinusOne | CName bytes | CStored nat

fun ckey_str :: "bytes \<Rightarrow> ckey \<Rightarrow> strkey" where
  "ckey_str mem CNull = Null"
| "ckey_str mem CMinusOne = MinusOne"
| "ckey_str mem (CName s) = Str s"
| "ckey_str mem (CStored off) = Str (cstr mem off)"

definition cache_ops :: "bytes \<Rightarrow> (ckey, u64) key_ops" where
  "cache_ops mem = \<lparr> k_zero = CNull, k_minus1 = CMinusOne, v_zero = 0, k_hash = (\<lambda>k. map_hashstr (ckey_str mem k)),
    k_eq = (\<lambda>a b. map_streq (ckey_str mem a) (ckey_str mem b)) \<rparr>"

record dns_cache =
  c_store :: bytes
  c_store_len :: nat
  c_num_addr :: nat
  c_max_addr :: nat
  c_map :: "(ckey, u64) hashmap"
  c_addrs :: "dns_sockaddr list"

text \<open>The name that is looked up: the digit of the family and the host in lower case.\<close>

definition cache_name :: "u32 \<Rightarrow> slice \<Rightarrow> bytes option" where
  "cache_name family hostname =
    (if length (slice_bytes hostname) + 1 > 255 then None
     else Some ((if family AND DNS_IPV4 \<noteq> 0 then 52 else 54) # str_tolower (slice_bytes hostname)))"

definition DNS_TIME_GEQ :: "u32 \<Rightarrow> u32 \<Rightarrow> bool" where
  "DNS_TIME_GEQ a b \<longleftrightarrow> sint (a - b) \<ge> 0"

definition cache_get :: "'w renv \<Rightarrow> 'w \<Rightarrow> dns_cache \<Rightarrow> u32 \<Rightarrow> slice \<Rightarrow> (dns_sockaddr option \<times> dns_cache \<times> 'w) option" where
  "cache_get env w cache family hostname =
    (case cache_name family hostname of
       None \<Rightarrow> Some (None, cache, w)
     | Some name \<Rightarrow>
         let ops = cache_ops (c_store cache) in do {
         idx \<leftarrow> map_get ops (c_map cache) (CName (takeWhile (\<lambda>c. c \<noteq> 0) name));
         if idx = hm_capacity (c_map cache) then Some (None, cache, w)
         else do {
           i \<leftarrow> ptr_at (c_addrs cache) (map_val ops (c_map cache) idx);
           let addr = c_addrs cache ! i;
           let (now, w) = re_now_ms env w;
           if DNS_TIME_GEQ (of_int (now div 1000)) (of_nat (da_sock_type addr)) then do {
             (_, m) \<leftarrow> map_rem ops (c_map cache) idx;
             Some (None, cache\<lparr> c_map := m, c_addrs := (c_addrs cache)[i := addr\<lparr> da_sock_type := 0 \<rparr>],
               c_num_addr := sz_sub (c_num_addr cache) 1 \<rparr>, w)
           } else Some (Some addr, cache, w)
         }
       })"

definition free_addr :: "dns_cache \<Rightarrow> nat option" where
  "free_addr cache = find (\<lambda>i. da_sock_type (c_addrs cache ! i) = 0) [0..<c_max_addr cache]"

text \<open>The name is copied without its terminator; the expiry is kept in \<open>sock_type\<close>.\<close>

definition cache_put ::
    "'w renv \<Rightarrow> 'w \<Rightarrow> dns_cache \<Rightarrow> u32 \<Rightarrow> slice \<Rightarrow> dns_sockaddr \<Rightarrow> u32 \<Rightarrow> (bool \<times> dns_cache \<times> 'w) option" where
  "cache_put env w cache family hostname addr ttl =
    (if c_num_addr cache \<ge> c_max_addr cache \<or> ttl = 0 \<or> bit ttl 31 then Some (False, cache, w)
     else case cache_name family hostname of
       None \<Rightarrow> Some (False, cache, w)
     | Some name \<Rightarrow>
         let update = (\<lambda>cache idx. do {
           i \<leftarrow> ptr_at (c_addrs cache) (map_val (cache_ops (c_store cache)) (c_map cache) idx);
           let (now, w) = re_now_ms env w;
           Some (True, cache\<lparr> c_addrs := (c_addrs cache)[i := addr\<lparr> da_sock_type := unat (of_int (now div 1000) + ttl :: u32) \<rparr>] \<rparr>, w)
         }) in do {
         idx \<leftarrow> map_get (cache_ops (c_store cache)) (c_map cache) (CName (takeWhile (\<lambda>c. c \<noteq> 0) name));
         if idx \<noteq> hm_capacity (c_map cache) then update cache idx
         else
           let len = length (slice_bytes hostname) + 1; off = c_store_len cache
           in if off + len > 8192 then Some (False, cache, w)
              else
                let cache = cache\<lparr> c_store := write_at (c_store cache) off name \<rparr>
                in case free_addr cache of
                  None \<Rightarrow> Some (False, cache, w)
                | Some i \<Rightarrow> do {
                    (idx, m) \<leftarrow> map_put (cache_ops (c_store cache)) (re_calloc env) (c_map cache) (CStored off) (of_nat (Suc i));
                    let cache = cache\<lparr> c_map := m \<rparr>;
                    if idx = hm_capacity m then Some (False, cache, w)
                    else update (cache\<lparr> c_store_len := off + len, c_num_addr := c_num_addr cache + 1 \<rparr>) idx
                  }
         })"

definition init_cache :: "dns_cache \<Rightarrow> dns_cache" where
  "init_cache cache = cache\<lparr> c_max_addr := length (c_addrs cache) \<rparr>"

end
