(* ===== verification/Resolv_Query.thy ===== *)
theory Resolv_Query
  imports Resolv_Conf
begin

text \<open>
  The queries of the resolver in \<open>src/src/dns_resolv.c\<close>: the socket to a nameserver, its two queries for
  IPv4 and IPv6 addresses, the loop over \<open>poll\<close>, the attempts over the nameservers and the search list,
  and the entry points \<open>dns_init\<close> and \<open>dns_resolv\<close>.  A result \<open>None\<close> is a loop that does not end or an access
  out of bounds.
\<close>

section \<open>Codes\<close>

definition DNS_OK :: int where "DNS_OK = 0"
definition DNS_ERR :: int where "DNS_ERR = -1"
definition DNS_EBADHDR :: int where "DNS_EBADHDR = -2"
definition DNS_ENOTRSP :: int where "DNS_ENOTRSP = -3"
definition DNS_ETID :: int where "DNS_ETID = -4"
definition DNS_EBADMSG :: int where "DNS_EBADMSG = -5"
definition DNS_EQUEST :: int where "DNS_EQUEST = -6"
definition R_ETRUNC :: int where "R_ETRUNC = -7"
definition DNS_EPROTO :: int where "DNS_EPROTO = -8"
definition DNS_ETIMEOUT :: int where "DNS_ETIMEOUT = -10"
definition DNS_EAGAIN :: int where "DNS_EAGAIN = -11"
definition DNS_NODATA :: int where "DNS_NODATA = -12"
definition DNS_FORMERR :: int where "DNS_FORMERR = -13"
definition DNS_SERVFAIL :: int where "DNS_SERVFAIL = -14"
definition DNS_NXDOMAIN :: int where "DNS_NXDOMAIN = -15"
definition DNS_NOTIMP :: int where "DNS_NOTIMP = -16"
definition DNS_REFUSED :: int where "DNS_REFUSED = -17"

lemmas resolv_codes = DNS_OK_def DNS_ERR_def DNS_EBADHDR_def DNS_ENOTRSP_def DNS_ETID_def DNS_EBADMSG_def DNS_EQUEST_def
  R_ETRUNC_def DNS_EPROTO_def DNS_ETIMEOUT_def DNS_EAGAIN_def DNS_NODATA_def DNS_FORMERR_def DNS_SERVFAIL_def DNS_NXDOMAIN_def
  DNS_NOTIMP_def DNS_REFUSED_def

definition DNS_PKTSIZE :: nat where "DNS_PKTSIZE = 1232"

section \<open>State\<close>

datatype dns_state = DNS_IDLE | DNS_SEND | DNS_RECV | DNS_DONE

record dns_sock =
  ds_fd :: int
  tx_off :: nat
  tx_len :: nat
  rx_off :: nat
  rx_len :: nat
  tx_buf :: bytes
  rx_buf :: bytes
  is_open :: bool
  is_tcp :: bool
  in_progress :: bool
  is_connect :: bool
  has_error :: bool

record dns_query =
  q_name :: slice
  q_type :: u16
  q_class :: u16
  q_tid :: u16
  last_rc :: int
  q_state :: dns_state

record dns_ns =
  ns_name :: slice
  ns_addr :: dns_sockaddr
  ns_sock :: dns_sock
  timeout_ms :: u32
  active :: int
  v4_query :: dns_query
  v6_query :: dns_query
  ns_msg :: dns_msg
  use_tcp :: bool
  use_esdn :: bool
  have_ans :: bool
  have_ip4 :: bool
  have_ip6 :: bool

text \<open>The static variables of the file; \<open>g_tid\<close> is \<open>next_tid\<close> once it is initialised.\<close>

record globs =
  glob_cfg :: dns_config
  glob_hosts :: dns_hosts
  glob_svcs :: dns_services
  glob_cache :: dns_cache
  g_tid :: "u16 option"

text \<open>They are zero before \<open>dns_init\<close>.\<close>

definition globs_zero :: globs where
  "globs_zero = \<lparr>
    glob_cfg = \<lparr> cf_attempts = 0, timeout_secs = 0, cf_ndots = 0, cf_use_tcp = False, cf_store_len = 0, cf_search = [], ns_addrs = [] \<rparr>,
    glob_hosts = \<lparr> h_store_len = 0, h_num_addr = 0, h_max_addr = 0, h_map = hm_zero, h_addrs = replicate 128 sockaddr_zero \<rparr>,
    glob_svcs = \<lparr> s_store_len = 0, num_svc = 0, max_svc = 0, s_map = hm_zero \<rparr>,
    glob_cache = \<lparr> c_store = replicate 8192 0, c_store_len = 0, c_num_addr = 0, c_max_addr = 0, c_map = hm_zero,
      c_addrs = replicate 128 sockaddr_zero \<rparr>,
    g_tid = None \<rparr>"

record pollfd =
  pfd_fd :: int
  pfd_events :: nat

text \<open>\<open>POLLIN\<close> and \<open>POLLOUT\<close> are the values of the system.\<close>

definition POLLIN :: nat where "POLLIN = 1"
definition POLLOUT :: nat where "POLLOUT = 4"

definition gen_tid :: "'w renv \<Rightarrow> 'w \<Rightarrow> globs \<Rightarrow> u16 \<times> globs \<times> 'w" where
  "gen_tid env w g =
    (case (case g_tid g of None \<Rightarrow> re_tid env w | Some t \<Rightarrow> (t, w)) of (t, w) \<Rightarrow> (t, g\<lparr> g_tid := Some (t + 1) \<rparr>, w))"

section \<open>The socket\<close>

definition dns_sock_is_ready :: "dns_sock \<Rightarrow> bool" where
  "dns_sock_is_ready s = (if \<not> is_open s \<or> has_error s then False else if \<not> is_tcp s then True else \<not> in_progress s)"

definition dns_sock_close :: "'w renv \<Rightarrow> 'w \<Rightarrow> dns_sock \<Rightarrow> dns_sock \<times> 'w" where
  "dns_sock_close env w s =
    (s\<lparr> is_open := False, is_tcp := False, in_progress := False, is_connect := False, has_error := False \<rparr>,
     if is_open s then re_close env w (ds_fd s) else w)"

definition check_error :: "'w renv \<Rightarrow> 'w \<Rightarrow> dns_sock \<Rightarrow> int \<times> dns_sock \<times> 'w" where
  "check_error env w s =
    (case re_sockerr env w (ds_fd s) of (ec, w) \<Rightarrow>
       case ec of
         None \<Rightarrow> (-1, s, w)
       | Some ec \<Rightarrow> if ec \<noteq> 0 then (-1, s\<lparr> has_error := False \<rparr>, w) else (0, s, w))"

text \<open>The read is repeated while it is interrupted.\<close>

partial_function (option) read_again :: "'w renv \<Rightarrow> 'w \<Rightarrow> int \<Rightarrow> nat \<Rightarrow> (rd_res \<times> 'w) option" where
  "read_again env w fd len =
    (case re_read env w fd len of (r, w) \<Rightarrow> if r = RdErr EINTR then read_again env w fd len else Some (r, w))"

definition rcv_dnspkt :: "'w renv \<Rightarrow> 'w \<Rightarrow> dns_sock \<Rightarrow> (int \<times> dns_sock \<times> 'w) option" where
  "rcv_dnspkt env w s = do {
    (r, w) \<leftarrow> read_again env w (ds_fd s) (sz_sub DNS_PKTSIZE (rx_off s));
    case r of
      RdErr e \<Rightarrow> Some (if e = EAGAIN then DNS_EAGAIN else -1, s, w)
    | Got bs \<Rightarrow>
        if bs = [] then Some (DNS_ERR, s, w)
        else if rx_off s + length bs > length (rx_buf s) then None
        else
          let s = s\<lparr> rx_buf := write_at (rx_buf s) (rx_off s) bs, rx_off := rx_off s + length bs \<rparr>
          in if \<not> is_tcp s then Some (0, s\<lparr> rx_len := rx_off s \<rparr>, w)
             else
               let prefix = (rx_len s = 0 \<and> rx_off s \<ge> 2);
                   s = (if prefix then s\<lparr> rx_len := unat (dec_u16 (rx_buf s) 0) \<rparr> else s)
               in if prefix \<and> rx_len s + 2 > DNS_PKTSIZE then Some (-1, s, w)
                  else Some (if rx_off s \<ge> 2 + rx_len s then 0 else DNS_EAGAIN, s, w)
  }"

partial_function (option) write_again :: "'w renv \<Rightarrow> 'w \<Rightarrow> int \<Rightarrow> bytes \<Rightarrow> (wr_res \<times> 'w) option" where
  "write_again env w fd bs =
    (case re_write env w fd bs of (r, w) \<Rightarrow> if r = WrErr EINTR then write_again env w fd bs else Some (r, w))"

definition snd_dnspkt :: "'w renv \<Rightarrow> 'w \<Rightarrow> dns_sock \<Rightarrow> (int \<times> dns_sock \<times> 'w) option" where
  "snd_dnspkt env w s = do {
    (r, w) \<leftarrow> write_again env w (ds_fd s) (segment (tx_buf s) (tx_off s) (tx_len s));
    case r of
      WrErr e \<Rightarrow> Some (if e = EAGAIN then DNS_EAGAIN else -1, s, w)
    | Wrote n \<Rightarrow>
        let s = s\<lparr> tx_off := tx_off s + n \<rparr>
        in if tx_off s = tx_len s then Some (0, s\<lparr> tx_len := 0, tx_off := 0 \<rparr>, w)
           else Some (if is_tcp s then DNS_EAGAIN else DNS_ERR, s, w)
  }"

text \<open>
  The bytes of the message in the receive buffer.  For TCP the length, which does not count the
  prefix, is reduced by 2 again; below 2 it wraps around and the message reaches out of the buffer.
\<close>

definition rx_msg :: "dns_sock \<Rightarrow> bytes option" where
  "rx_msg s =
    (let start = (if is_tcp s then 2 else 0); len = (if is_tcp s then sz_sub (rx_len s) 2 else rx_len s)
     in if start + len > length (rx_buf s) then None else Some (take len (drop start (rx_buf s))))"

definition dec_dnsmsg :: "'w renv \<Rightarrow> dns_sock \<Rightarrow> dns_msg \<Rightarrow> (int \<times> dns_msg) option" where
  "dec_dnsmsg env s msg = do { pkt \<leftarrow> rx_msg s; dns_msg_decode (re_un env) msg pkt }"

definition dns_sock_pending :: "dns_sock \<Rightarrow> bool" where
  "dns_sock_pending s \<longleftrightarrow> tx_len s > 0"

definition dns_sock_flush :: "dns_sock \<Rightarrow> dns_sock" where
  "dns_sock_flush s = s\<lparr> rx_off := 0, rx_len := 0 \<rparr>"

text \<open>\<open>hdr\<close> is the header on the stack; only its 12 bytes are read.\<close>

definition dec_dnshdr :: "dns_sock \<Rightarrow> dns_hdr \<Rightarrow> (int \<times> dns_hdr) option" where
  "dec_dnshdr s hdr =
    (let start = (if is_tcp s then 2 else 0); len = (if is_tcp s then sz_sub (rx_len s) 2 else rx_len s)
     in map_option (\<lambda>(rc, hdr). (if rc \<noteq> 0 then DNS_EBADHDR else 0, hdr)) (dns_hdr_decode hdr (take len (drop start (rx_buf s)))))"

definition enc_dnspkt :: "dns_sock \<Rightarrow> dns_msg \<Rightarrow> (int \<times> dns_sock \<times> dns_msg) option" where
  "enc_dnspkt s msg = do {
    let start = (if is_tcp s then 2 else 0);
    (len, msg, buf) \<leftarrow> dns_msg_encode msg (drop start (tx_buf s));
    let s = s\<lparr> tx_buf := take start (tx_buf s) @ buf \<rparr>;
    if len \<le> 0 then Some (-1, s, msg)
    else Some (0, if is_tcp s then s\<lparr> tx_buf := write_at (tx_buf s) 0 (enc_u16 (of_int len)), tx_len := nat len + 2 \<rparr>
      else s\<lparr> tx_len := nat len \<rparr>, msg)
  }"

section \<open>Queries\<close>

text \<open>The queries of a nameserver, by record type.\<close>

definition ns_query :: "dns_ns \<Rightarrow> bool \<Rightarrow> dns_query" where
  "ns_query ns v6 = (if v6 then v6_query ns else v4_query ns)"

definition set_query :: "dns_ns \<Rightarrow> bool \<Rightarrow> dns_query \<Rightarrow> dns_ns" where
  "set_query ns v6 q = (if v6 then ns\<lparr> v6_query := q \<rparr> else ns\<lparr> v4_query := q \<rparr>)"

definition get_query :: "dns_result \<Rightarrow> u16 \<Rightarrow> bool option" where
  "get_query res type =
    (if type = DNS_TYPE_A \<and> need_ip4 res then Some False else if type = DNS_TYPE_AAAA \<and> need_ip6 res then Some True else None)"

definition find_query :: "dns_ns \<Rightarrow> dns_result \<Rightarrow> u16 \<Rightarrow> bool option" where
  "find_query ns res tid =
    (if need_ip4 res \<and> q_tid (v4_query ns) = tid then Some False
     else if need_ip6 res \<and> q_tid (v6_query ns) = tid then Some True else None)"

definition opt_rr :: "bytes dns_rr" where
  "opt_rr = \<lparr> rr_name = None, rr_type = DNS_TYPE_OPT, rr_class = 0, rr_ttl = 0, rr_rdlen = 0, rr_rdata = RD_opt 1232 0 0 False 0 \<rparr>"

definition set_dnsreq :: "'w renv \<Rightarrow> 'w \<Rightarrow> globs \<Rightarrow> dns_ns \<Rightarrow> bool \<Rightarrow> (int \<times> dns_ns \<times> globs \<times> 'w) option" where
  "set_dnsreq env w g ns v6 =
    (case gen_tid env w g of (tid, g, w) \<Rightarrow>
     let q = (ns_query ns v6)\<lparr> q_tid := tid, q_name := ns_name ns, q_class := DNS_CLASS_IN \<rparr>;
         ns = set_query ns v6 q;
         msg = dns_msg_init (dns_msg_reset (ns_msg ns)) tid 0x100
     in case dns_add_qdn msg (slice_bytes (ns_name ns)) (q_type q) (q_class q) of (rc, msg) \<Rightarrow>
       if rc \<noteq> 0 then Some (rc, ns\<lparr> ns_msg := msg \<rparr>, g, w)
       else if use_esdn ns then do {
         (rc, msg) \<leftarrow> dns_add_rr (re_un env) (re_uz env) msg 3 (Some opt_rr);
         Some (rc, ns\<lparr> ns_msg := msg \<rparr>, g, w)
       }
       else Some (0, ns\<lparr> ns_msg := msg \<rparr>, g, w))"

text \<open>The first \<open>n\<close> bytes of the data of a record.\<close>

definition rd_octets :: "'w renv \<Rightarrow> nat dns_rdata \<Rightarrow> nat \<Rightarrow> bytes" where
  "rd_octets env rd n = take n ((case rd of RD_a b \<Rightarrow> b | RD_aaaa b \<Rightarrow> b | _ \<Rightarrow> []) @ re_junk env)"

text \<open>The loop over the answers, from \<open>i\<close> on; the index of the result is the address of \<open>addrs[idx]\<close>.\<close>

fun ans_loop :: "'w renv \<Rightarrow> nat \<Rightarrow> nat \<Rightarrow> 'w \<Rightarrow> globs \<Rightarrow> dns_ns \<Rightarrow> dns_result \<Rightarrow> (dns_ns \<times> dns_result \<times> globs \<times> 'w) option" where
  "ans_loop env 0 i w g ns res = Some (ns, res, g, w)"
| "ans_loop env (Suc n) i w g ns res =
    (if res_isfull res then Some (ns, res, g, w)
     else
       let rr = msg_an (ns_msg ns) ! i;
           type = (if rr_type rr = DNS_TYPE_A then DNS_IPV4 else if rr_type rr = DNS_TYPE_AAAA then DNS_IPV6 else 0)
       in if type = 0 then ans_loop env n (i + 1) w g ns res
          else do {
            (idx, res) \<leftarrow> res_add_ip res type (rd_octets env (rr_rdata rr) (if type = DNS_IPV4 then 4 else 16));
            if idx = -1 then ans_loop env n (i + 1) w g ns res
            else do {
              addr \<leftarrow> res_get res idx;
              let ns = (if type = DNS_IPV4 then ns\<lparr> have_ip4 := True \<rparr> else ns\<lparr> have_ip6 := True \<rparr>);
              (_, cache, w) \<leftarrow> cache_put env w (glob_cache g) type (ns_name ns) addr (rr_ttl rr);
              ans_loop env n (i + 1) w (g\<lparr> glob_cache := cache \<rparr>) ns res
            }
          })"

definition add_dnsans :: "'w renv \<Rightarrow> 'w \<Rightarrow> globs \<Rightarrow> dns_ns \<Rightarrow> dns_result \<Rightarrow> (dns_ns \<times> dns_result \<times> globs \<times> 'w) option" where
  "add_dnsans env w g ns res = ans_loop env (an_len (ns_msg ns)) 0 w g (ns\<lparr> have_ans := True \<rparr>) res"

text \<open>The address is never null; the type of the socket has the flags of a non-blocking descriptor.\<close>

definition do_connect :: "'w renv \<Rightarrow> 'w \<Rightarrow> dns_sock \<Rightarrow> bool \<Rightarrow> dns_sockaddr \<Rightarrow> int \<times> dns_sock \<times> 'w" where
  "do_connect env w s tcp addr =
    (case re_socket env w (da_family addr) (if tcp then SOCK_STREAM else SOCK_DGRAM) of (fd, w) \<Rightarrow>
     let s = s\<lparr> ds_fd := fd \<rparr> in
     if fd = -1 then (-1, s, w)
     else
       let s = s\<lparr> is_open := True, is_tcp := tcp \<rparr>
       in case re_connect env w fd addr of (r, w) \<Rightarrow>
         if r = ConnFailed then (-1, s, w)
         else (0, s\<lparr> in_progress := (if r = InProgress then True else in_progress s), is_connect := True \<rparr>, w))"

text \<open>The code of the last call is noted in the query.\<close>

definition note_rc :: "dns_ns \<Rightarrow> bool \<Rightarrow> int \<Rightarrow> dns_ns" where
  "note_rc ns v6 rc = set_query ns v6 ((ns_query ns v6)\<lparr> last_rc := rc \<rparr>)"

definition note_state :: "dns_ns \<Rightarrow> bool \<Rightarrow> dns_state \<Rightarrow> dns_ns" where
  "note_state ns v6 st = set_query ns v6 ((ns_query ns v6)\<lparr> q_state := st \<rparr>)"

text \<open>The case \<open>DNS_SEND\<close> of a query, and what follows its \<open>switch\<close>.\<close>

definition query_send :: "'w renv \<Rightarrow> 'w \<Rightarrow> globs \<Rightarrow> dns_ns \<Rightarrow> bool \<Rightarrow> (dns_ns \<times> globs \<times> 'w) option" where
  "query_send env w g ns v6 = do {
    (rc, s, w) \<leftarrow> snd_dnspkt env w (ns_sock ns);
    let ns = note_rc (ns\<lparr> ns_sock := s \<rparr>) v6 rc;
    Some (if rc = 0 then note_state ns v6 DNS_RECV else ns, g, w)
  }"

definition query_finish :: "dns_ns \<Rightarrow> bool \<Rightarrow> dns_ns" where
  "query_finish ns v6 =
    (let rc = last_rc (ns_query ns v6)
     in if rc \<noteq> 0 \<and> rc \<noteq> DNS_EAGAIN then (note_state ns v6 DNS_DONE)\<lparr> active := active ns - 1 \<rparr> else ns)"

text \<open>One step of the query for a record type, with the state it is left in.\<close>

definition try_query :: "'w renv \<Rightarrow> 'w \<Rightarrow> globs \<Rightarrow> dns_ns \<Rightarrow> dns_result \<Rightarrow> u16 \<Rightarrow> (dns_state \<times> dns_ns \<times> globs \<times> 'w) option" where
  "try_query env w g ns res type =
    (case get_query res type of
       None \<Rightarrow> Some (DNS_IDLE, ns, g, w)
     | Some v6 \<Rightarrow> do {
         (ns, g, w) \<leftarrow>
           (case q_state (ns_query ns v6) of
              DNS_IDLE \<Rightarrow>
                if dns_sock_pending (ns_sock ns) then Some (ns, g, w)
                else do {
                  let ns = (set_query ns v6 ((ns_query ns v6)\<lparr> q_type := type, q_state := DNS_SEND \<rparr>))\<lparr> active := active ns + 1 \<rparr>;
                  (rc, ns, g, w) \<leftarrow> set_dnsreq env w g ns v6;
                  let ns = note_rc ns v6 rc;
                  if rc \<noteq> 0 then Some (ns, g, w)
                  else do {
                    (rc, s, msg) \<leftarrow> enc_dnspkt (ns_sock ns) (ns_msg ns);
                    let ns = note_rc (ns\<lparr> ns_sock := s, ns_msg := msg \<rparr>) v6 rc;
                    if rc \<noteq> 0 then Some (ns, g, w) else query_send env w g ns v6
                  }
                }
            | DNS_SEND \<Rightarrow> query_send env w g ns v6
            | DNS_RECV \<Rightarrow> Some (ns, g, w)
            | DNS_DONE \<Rightarrow> Some (ns, g, w));
         let ns = query_finish ns v6;
         Some (q_state (ns_query ns v6), ns, g, w)
       })"

section \<open>Responses\<close>

text \<open>
  The result of the comparison of the names is not used in the code: its statement is \<open>false;\<close>.
\<close>

definition chk_dnsqd :: "dns_query \<Rightarrow> dns_msg \<Rightarrow> bool" where
  "chk_dnsqd q rsp =
    (if qd_len rsp \<noteq> 1 then False
     else let qd = msg_qd rsp ! 0 in if q_class q \<noteq> qclass qd then False else if q_type q \<noteq> qtype qd then False else True)"

text \<open>The byte \<open>opt.ext_rcode\<close> of the data of a record.\<close>

definition rd_ext_rcode :: "'w renv \<Rightarrow> nat dns_rdata \<Rightarrow> u8" where
  "rd_ext_rcode env rd = (case rd of RD_opt sz rc ver dobit z \<Rightarrow> rc | _ \<Rightarrow> (case re_junk env of [] \<Rightarrow> 0 | c # _ \<Rightarrow> c))"

definition chk_dnsopt :: "'w renv \<Rightarrow> dns_query \<Rightarrow> dns_msg \<Rightarrow> bool \<times> dns_query" where
  "chk_dnsopt env q rsp =
    (case find (\<lambda>rr. rr_type rr = DNS_TYPE_OPT) (take (ar_len rsp) (msg_ar rsp)) of
       None \<Rightarrow> (False, q)
     | Some rr \<Rightarrow> (True, q\<lparr> last_rc := push_bit 4 (uint (rd_ext_rcode env (rr_rdata rr))) OR (last_rc q AND 15) \<rparr>))"

definition chk_dnsrsp :: "'w renv \<Rightarrow> dns_ns \<Rightarrow> dns_hdr \<Rightarrow> bool \<Rightarrow> (int \<times> dns_ns) option" where
  "chk_dnsrsp env ns hdr v6 =
    (let rcode = uint (hdr_flags hdr AND 0xf);
         ns = (set_query ns v6 ((ns_query ns v6)\<lparr> q_state := DNS_DONE, last_rc := rcode \<rparr>))\<lparr> active := active ns - 1 \<rparr>
     in if hdr_flags hdr AND 0x200 \<noteq> 0 then Some (if use_tcp ns then DNS_EPROTO else R_ETRUNC, ns)
        else if rcode \<noteq> 0 then Some (rcode, ns)
        else do {
          (rc, msg) \<leftarrow> dec_dnsmsg env (ns_sock ns) (ns_msg ns);
          let ns = ns\<lparr> ns_msg := msg \<rparr>;
          if rc \<noteq> 0 then Some (DNS_EBADMSG, ns)
          else if \<not> chk_dnsqd (ns_query ns v6) msg then Some (DNS_EQUEST, ns)
          else case chk_dnsopt env (ns_query ns v6) msg of (opt, q) \<Rightarrow> Some (if opt then last_rc q else 0, set_query ns v6 q)
        })"

text \<open>The header on the stack is written before it is read.\<close>

definition chk_dnspkt :: "'w renv \<Rightarrow> dns_ns \<Rightarrow> dns_result \<Rightarrow> (int \<times> dns_ns) option" where
  "chk_dnspkt env ns res =
    (case dec_dnshdr (ns_sock ns) dns_hdr_reset of None \<Rightarrow> None | Some (rc, hdr) \<Rightarrow>
       if rc \<noteq> 0 then Some (DNS_EBADHDR, ns)
       else if hdr_flags hdr AND 0x8000 = 0 then Some (DNS_ENOTRSP, ns)
       else case find_query ns res (hdr_id hdr) of None \<Rightarrow> Some (DNS_ETID, ns) | Some v6 \<Rightarrow> chk_dnsrsp env ns hdr v6)"

definition do_resp :: "'w renv \<Rightarrow> 'w \<Rightarrow> globs \<Rightarrow> dns_ns \<Rightarrow> dns_result \<Rightarrow> (int \<times> dns_ns \<times> dns_result \<times> globs \<times> 'w) option" where
  "do_resp env w g ns res = do {
    (rc, s, w) \<leftarrow> rcv_dnspkt env w (ns_sock ns);
    let ns = ns\<lparr> ns_sock := s \<rparr>;
    if rc \<noteq> 0 then Some (rc, ns, res, g, w)
    else do {
      (rc, ns) \<leftarrow> chk_dnspkt env ns res;
      if rc \<noteq> 0 then Some (rc, ns, res, g, w)
      else do { (ns, res, g, w) \<leftarrow> add_dnsans env w g ns res; Some (0, ns, res, g, w) }
    }
  }"

definition recv_resp ::
    "'w renv \<Rightarrow> 'w \<Rightarrow> globs \<Rightarrow> dns_ns \<Rightarrow> dns_result \<Rightarrow> pollfd \<Rightarrow> (dns_ns \<times> dns_result \<times> pollfd \<times> globs \<times> 'w) option" where
  "recv_resp env w g ns res pfd = do {
    (rc, ns, res, g, w) \<leftarrow> do_resp env w g ns res;
    if rc = DNS_EAGAIN then Some (ns, res, pfd, g, w)
    else
      let fail = (rc = DNS_ERR \<or> rc = DNS_EBADHDR \<and> is_tcp (ns_sock ns));
          ns = (if fail then ns\<lparr> active := 0 \<rparr> else ns);
          pfd = (if fail then pfd\<lparr> pfd_fd := -1 \<rparr> else pfd)
      in Some (ns\<lparr> ns_sock := dns_sock_flush (ns_sock ns) \<rparr>, res, pfd, g, w)
  }"

definition send_query ::
    "'w renv \<Rightarrow> 'w \<Rightarrow> globs \<Rightarrow> dns_ns \<Rightarrow> dns_result \<Rightarrow> pollfd \<Rightarrow> (dns_ns \<times> pollfd \<times> globs \<times> 'w) option" where
  "send_query env w g ns res pfd =
    (let wait = in_progress (ns_sock ns);
         ns = (if wait then ns\<lparr> ns_sock := (ns_sock ns)\<lparr> in_progress := False \<rparr>, active := active ns - 1 \<rparr> else ns);
         (rc, s, w) = (if wait then check_error env w (ns_sock ns) else (0, ns_sock ns, w));
         ns = ns\<lparr> ns_sock := s \<rparr>
     in if rc \<noteq> 0 then Some (ns, pfd, g, w)
        else do {
          (do_ip4, ns, g, w) \<leftarrow> try_query env w g ns res DNS_TYPE_A;
          (do_ip6, ns, g, w) \<leftarrow> try_query env w g ns res DNS_TYPE_AAAA;
          let events = (if do_ip4 = DNS_SEND \<or> do_ip6 = DNS_SEND then POLLOUT else 0) OR
            (if do_ip4 = DNS_RECV \<or> do_ip6 = DNS_RECV then POLLIN else 0);
          Some (ns, \<lparr> pfd_fd = ds_fd (ns_sock ns), pfd_events = events \<rparr>, g, w)
        })"

definition connect_now :: "'w renv \<Rightarrow> 'w \<Rightarrow> dns_ns \<Rightarrow> pollfd \<Rightarrow> bool \<times> dns_ns \<times> pollfd \<times> 'w" where
  "connect_now env w ns pfd =
    (case do_connect env w (ns_sock ns) (use_tcp ns) (ns_addr ns) of (rc, s, w) \<Rightarrow>
     let ns = ns\<lparr> ns_sock := s \<rparr>
     in if rc \<noteq> 0 then (False, ns, pfd, w)
        else if in_progress s then (False, ns\<lparr> active := active ns + 1 \<rparr>, \<lparr> pfd_fd = ds_fd s, pfd_events = POLLOUT \<rparr>, w)
        else (True, ns, pfd, w))"

section \<open>A nameserver\<close>

definition get_rcode :: "dns_ns \<Rightarrow> dns_result \<Rightarrow> u16 \<Rightarrow> int" where
  "get_rcode ns res type =
    (case get_query res type of
       None \<Rightarrow> 0
     | Some v6 \<Rightarrow>
         let rc = last_rc (ns_query ns v6) in
         if rc = 0 then DNS_OK else if rc = 1 then DNS_FORMERR else if rc = 2 then DNS_SERVFAIL else if rc = 3 then DNS_NXDOMAIN
         else if rc = 4 then DNS_NOTIMP else if rc = 5 then DNS_REFUSED
         else if rc \<noteq> R_ETRUNC then DNS_ERR else rc)"

definition get_deadline_ms :: "'w renv \<Rightarrow> 'w \<Rightarrow> dns_ns \<Rightarrow> int \<times> 'w" where
  "get_deadline_ms env w ns = (case re_now_ms env w of (now, w) \<Rightarrow> (now + uint (timeout_ms ns), w))"

text \<open>The remaining time is cut to the 32 bits of an \<open>int\<close>.\<close>

definition get_rem_ms :: "'w renv \<Rightarrow> 'w \<Rightarrow> int \<Rightarrow> int \<times> 'w" where
  "get_rem_ms env w deadline_ms = (case re_now_ms env w of (now, w) \<Rightarrow> (sint (of_int (deadline_ms - now) :: u32), w))"

definition ns_getrc :: "dns_ns \<Rightarrow> dns_result \<Rightarrow> int \<Rightarrow> int" where
  "ns_getrc ns res rc =
    (if rc = DNS_ETIMEOUT then rc
     else if have_ip4 ns \<or> have_ip6 ns then DNS_OK
     else if have_ans ns then DNS_NODATA
     else
       let ip4_rc = get_rcode ns res DNS_TYPE_A; ip6_rc = get_rcode ns res DNS_TYPE_AAAA
       in if ip4_rc = ip6_rc then ip4_rc else if ip4_rc = DNS_NXDOMAIN then ip6_rc else if ip6_rc = DNS_NXDOMAIN then ip4_rc
          else ip4_rc)"

text \<open>The body of the loop after a result of \<open>poll\<close> that is positive.\<close>

definition poll_step ::
    "'w renv \<Rightarrow> 'w \<Rightarrow> globs \<Rightarrow> dns_ns \<Rightarrow> dns_result \<Rightarrow> pollfd \<Rightarrow> (dns_ns \<times> dns_result \<times> pollfd \<times> globs \<times> 'w) option" where
  "poll_step env w g ns res pfd = do {
    (ns, pfd, g, w) \<leftarrow> (if pfd_events pfd = POLLOUT then send_query env w g ns res pfd else Some (ns, pfd, g, w));
    if pfd_events pfd = POLLIN then recv_resp env w g ns res pfd else Some (ns, res, pfd, g, w)
  }"

partial_function (option) poll_loop ::
    "'w renv \<Rightarrow> int \<Rightarrow> int \<Rightarrow> 'w \<Rightarrow> globs \<Rightarrow> dns_ns \<Rightarrow> dns_result \<Rightarrow> pollfd \<Rightarrow> (int \<times> dns_ns \<times> dns_result \<times> globs \<times> 'w) option" where
  "poll_loop env deadline rc w g ns res pfd =
    (if active ns = 0 then Some (rc, ns, res, g, w)
     else
       case get_rem_ms env w deadline of (ms, w) \<Rightarrow>
       case re_poll env w (pfd_fd pfd) (int (pfd_events pfd)) ms of ((rc, eintr), w) \<Rightarrow>
         if rc \<le> 0 then
           let rc = (if rc = 0 then DNS_ETIMEOUT else rc)
           in if eintr \<and> re_run env w then poll_loop env deadline rc w g ns res pfd else Some (rc, ns, res, g, w)
         else Option.bind (poll_step env w g ns res pfd) (\<lambda>(ns, res, pfd, g, w). poll_loop env deadline rc w g ns res pfd))"

definition sock_zero :: dns_sock where
  "sock_zero = \<lparr> ds_fd = 0, tx_off = 0, tx_len = 0, rx_off = 0, rx_len = 0, tx_buf = replicate DNS_PKTSIZE 0,
    rx_buf = replicate DNS_PKTSIZE 0, is_open = False, is_tcp = False, in_progress = False, is_connect = False, has_error = False \<rparr>"

definition query_zero :: dns_query where
  "query_zero = \<lparr> q_name = None, q_type = 0, q_class = 0, q_tid = 0, last_rc = 0, q_state = DNS_IDLE \<rparr>"

definition ns_init :: "slice \<Rightarrow> dns_sockaddr \<Rightarrow> u32 \<Rightarrow> bool \<Rightarrow> dns_ns" where
  "ns_init name addr secs tcp = \<lparr> ns_name = name, ns_addr = addr, ns_sock = sock_zero, timeout_ms = secs * 1000, active = 0,
    v4_query = query_zero, v6_query = query_zero, ns_msg = msg_zero, use_tcp = tcp, use_esdn = True, have_ans = False,
    have_ip4 = False, have_ip6 = False \<rparr>"

text \<open>\<open>fd\<close> is on the stack and set before it is polled.\<close>

definition try_nameserver ::
    "'w renv \<Rightarrow> 'w \<Rightarrow> globs \<Rightarrow> slice \<Rightarrow> dns_sockaddr \<Rightarrow> u32 \<Rightarrow> bool \<Rightarrow> dns_result \<Rightarrow> (int \<times> dns_result \<times> globs \<times> 'w) option" where
  "try_nameserver env w g name addr secs tcp res =
    (case connect_now env w (ns_init name addr secs tcp) \<lparr> pfd_fd = 0, pfd_events = 0 \<rparr> of (go, ns, pfd, w) \<Rightarrow> do {
       (ns, pfd, g, w) \<leftarrow> (if go then send_query env w g ns res pfd else Some (ns, pfd, g, w));
       let (deadline, w) = get_deadline_ms env w ns;
       (rc, ns, res, g, w) \<leftarrow> poll_loop env deadline DNS_OK w g ns res pfd;
       let (s, w) = dns_sock_close env w (ns_sock ns);
       Some (ns_getrc ns res rc, res, g, w)
     })"

section \<open>Attempts and search list\<close>

definition stop_query :: "int \<Rightarrow> bool" where
  "stop_query rc \<longleftrightarrow> rc = DNS_OK \<or> rc = DNS_NODATA \<or> rc = DNS_NXDOMAIN"

definition stop_search :: "int \<Rightarrow> bool" where
  "stop_search rc \<longleftrightarrow> rc = DNS_OK \<or> rc = DNS_NODATA"

definition build_name :: "sbuf \<Rightarrow> slice \<Rightarrow> slice \<Rightarrow> slice \<times> sbuf" where
  "build_name buf name sfx =
    (let buf = sbuf_reset buf;
         buf = snd (if slice_startswith sfx dot then sbuf_putm buf (slice_bytes name) else sbuf_putmc buf (slice_bytes name) dot);
         buf = snd (if slice_endswith sfx dot then sbuf_putm buf (slice_bytes sfx) else sbuf_putmc buf (slice_bytes sfx) dot)
     in (Some (take (sbuf_pos buf) (sb_mem buf)), buf))"

text \<open>The name is not used by the code: the cache is asked for the host of the request.\<close>

definition try_cache :: "'w renv \<Rightarrow> 'w \<Rightarrow> globs \<Rightarrow> slice \<Rightarrow> dns_result \<Rightarrow> (bool \<times> dns_result \<times> globs \<times> 'w) option" where
  "try_cache env w g name res = do {
    (res, g, w) \<leftarrow> (if need_ip4 res then do {
        (addr, cache, w) \<leftarrow> cache_get env w (glob_cache g) DNS_IPV4 (r_host res);
        (idx, res) \<leftarrow> (case addr of None \<Rightarrow> Some (-1, res) | Some a \<Rightarrow> res_add_addr res a);
        Some (if idx \<noteq> -1 then res\<lparr> need_ip4 := False \<rparr> else res, g\<lparr> glob_cache := cache \<rparr>, w)
      } else Some (res, g, w));
    (res, g, w) \<leftarrow> (if need_ip6 res then do {
        (addr, cache, w) \<leftarrow> cache_get env w (glob_cache g) DNS_IPV6 (r_host res);
        (idx, res) \<leftarrow> (case addr of None \<Rightarrow> Some (-1, res) | Some a \<Rightarrow> res_add_addr res a);
        Some (if idx \<noteq> -1 then res\<lparr> need_ip6 := False \<rparr> else res, g\<lparr> glob_cache := cache \<rparr>, w)
      } else Some (res, g, w));
    Some (need_ip4 res \<or> need_ip6 res, res, g, w)
  }"

text \<open>The loop over the nameservers; the first component says whether the code returns in it.\<close>

fun query_round ::
    "'w renv \<Rightarrow> slice \<Rightarrow> dns_config \<Rightarrow> dns_sockaddr list \<Rightarrow> int \<Rightarrow> 'w \<Rightarrow> globs \<Rightarrow> dns_result \<Rightarrow>
      (bool \<times> int \<times> dns_result \<times> globs \<times> 'w) option" where
  "query_round env name cfg [] rc w g res = Some (False, rc, res, g, w)"
| "query_round env name cfg (addr # addrs) rc w g res = do {
    (rc, res, g, w) \<leftarrow> try_nameserver env w g name addr (timeout_secs cfg) (cf_use_tcp cfg) res;
    (rc, res, g, w) \<leftarrow> (if rc = R_ETRUNC then try_nameserver env w g name addr (timeout_secs cfg) True res else Some (rc, res, g, w));
    if stop_query rc then Some (True, rc, res, g, w) else query_round env name cfg addrs rc w g res
  }"

fun query_attempts ::
    "'w renv \<Rightarrow> slice \<Rightarrow> dns_config \<Rightarrow> nat \<Rightarrow> int \<Rightarrow> 'w \<Rightarrow> globs \<Rightarrow> dns_result \<Rightarrow> (int \<times> dns_result \<times> globs \<times> 'w) option" where
  "query_attempts env name cfg 0 rc w g res = Some (rc, res, g, w)"
| "query_attempts env name cfg (Suc n) rc w g res = do {
    (stop, rc, res, g, w) \<leftarrow> query_round env name cfg (ns_addrs cfg) rc w g res;
    if stop then Some (rc, res, g, w) else query_attempts env name cfg n rc w g res
  }"

definition query_name ::
    "'w renv \<Rightarrow> slice \<Rightarrow> dns_config \<Rightarrow> 'w \<Rightarrow> globs \<Rightarrow> dns_result \<Rightarrow> (int \<times> dns_result \<times> globs \<times> 'w) option" where
  "query_name env name cfg w g res = do {
    (need, res, g, w) \<leftarrow> try_cache env w g name res;
    if \<not> need then Some (0, res, g, w) else query_attempts env name cfg (unat (cf_attempts cfg)) DNS_ERR w g res
  }"

fun search_loop ::
    "'w renv \<Rightarrow> slice \<Rightarrow> dns_config \<Rightarrow> sbuf \<Rightarrow> bytes list \<Rightarrow> int \<Rightarrow> 'w \<Rightarrow> globs \<Rightarrow> dns_result \<Rightarrow>
      (int \<times> dns_result \<times> globs \<times> 'w) option" where
  "search_loop env name cfg buf [] rc w g res = Some (rc, res, g, w)"
| "search_loop env name cfg buf (sfx # search) rc w g res =
    (case build_name buf name (Some sfx) of (full, buf) \<Rightarrow> do {
       (rc, res, g, w) \<leftarrow> query_name env full cfg w g res;
       if stop_search rc then Some (rc, res, g, w) else search_loop env name cfg buf search rc w g res
     })"

text \<open>\<open>tmp\<close> is the array of \<open>DNS_HOSTS_MAXNAME\<close> characters on the stack.\<close>

definition query_search ::
    "'w renv \<Rightarrow> bytes \<Rightarrow> slice \<Rightarrow> dns_config \<Rightarrow> 'w \<Rightarrow> globs \<Rightarrow> dns_result \<Rightarrow> (int \<times> dns_result \<times> globs \<times> 'w) option" where
  "query_search env tmp name cfg w g res = search_loop env name cfg (sbuf_init (Some tmp)) (cf_search cfg) DNS_NXDOMAIN w g res"

definition try_nameservers ::
    "'w renv \<Rightarrow> bytes \<Rightarrow> 'w \<Rightarrow> globs \<Rightarrow> dns_result \<Rightarrow> (int \<times> dns_result \<times> globs \<times> 'w) option" where
  "try_nameservers env tmp w g res =
    (let cfg = glob_cfg g; name = r_host res in
     if slice_bytes name = [] then Some (0, res, g, w)
     else do {
       (rc, res, g, w) \<leftarrow>
         (if slice_endswith name dot then query_name env name cfg w g res
          else if slice_countch name dot \<ge> unat (cf_ndots cfg) then do {
            (rc, res, g, w) \<leftarrow> query_name env name cfg w g res;
            if rc \<noteq> 0 then query_search env tmp name cfg w g res else Some (rc, res, g, w)
          }
          else do {
            (rc, res, g, w) \<leftarrow> query_search env tmp name cfg w g res;
            if rc \<noteq> 0 then query_name env name cfg w g res else Some (rc, res, g, w)
          });
       res \<leftarrow> fixup_addrs res;
       Some (if rc \<noteq> 0 then rc else int (num_addr res), res, g, w)
     })"

section \<open>Ports and hosts\<close>

definition try_port :: "globs \<Rightarrow> dns_result \<Rightarrow> (int \<times> dns_result) option" where
  "try_port g res =
    (let any = (r_flags res AND (DNS_TCP OR DNS_UDP) = 0);
         res = (if any then res\<lparr> r_flags := r_flags res OR (DNS_TCP OR DNS_UDP) \<rparr> else res);
         tcp = (r_flags res AND DNS_TCP \<noteq> 0); udp = (r_flags res AND DNS_UDP \<noteq> 0);
         port = r_port res
     in if slice_bytes port = [] then Some (0, res)
        else if slice_isnumeric port then
          let portno = slice_tou32 port
          in if portno > 65535 then Some (-1, res)
             else
               let res = (if tcp then res\<lparr> tcp_port := uint portno \<rparr> else res);
                   res = (if udp then res\<lparr> udp_port := uint portno \<rparr> else res)
               in Some (0, res)
        else if r_flags res AND DNS_NUMPORT \<noteq> 0 then Some (-1, res)
        else do {
          pp \<leftarrow> services_get (glob_svcs g) port;
          let tport = (ucast pp :: u16);
          let uport = (ucast (drop_bit 16 pp) :: u16);
          let got_tcp = (tcp \<and> tport \<noteq> 0);
          let got_udp = (udp \<and> uport \<noteq> 0);
          let res = (if got_tcp then res\<lparr> tcp_port := uint tport \<rparr> else res);
          let res = (if got_udp then res\<lparr> udp_port := uint uport \<rparr> else res);
          Some (if \<not> got_tcp \<and> \<not> got_udp then -1 else if \<not> any \<and> (tcp, udp) \<noteq> (got_tcp, got_udp) then -1 else 0, res)
        })"

definition ip4_any :: bytes where "ip4_any = replicate 4 0"
definition ip4_loopback :: bytes where "ip4_loopback = [127, 0, 0, 1]"
definition ip6_any :: bytes where "ip6_any = replicate 16 0"
definition ip6_loopback :: bytes where "ip6_loopback = replicate 15 0 @ [1]"

text \<open>The number of addresses, or -1 when there is none.\<close>

definition found :: "dns_result \<Rightarrow> (int \<times> dns_result) option" where
  "found res = do { res \<leftarrow> fixup_addrs res; Some (if num_addr res = 0 then -1 else int (num_addr res), res) }"

definition try_hostname :: "bytes \<Rightarrow> dns_result \<Rightarrow> (int \<times> dns_result) option" where
  "try_hostname stk res =
    (let res = (if r_flags res AND (DNS_IPV4 OR DNS_IPV6) = 0 then res\<lparr> r_flags := r_flags res OR (DNS_IPV4 OR DNS_IPV6) \<rparr> else res);
         res = (if r_flags res AND DNS_IPV6 \<noteq> 0 then res\<lparr> need_ip6 := True \<rparr> else res);
         res = (if r_flags res AND DNS_IPV4 \<noteq> 0 then res\<lparr> need_ip4 := True \<rparr> else res);
         res = (if r_flags res AND (DNS_IPV6 OR DNS_V4MAPPED) \<noteq> 0 then res\<lparr> need_ip4 := True \<rparr> else res);
         host = r_host res
     in if slice_bytes host = [] then do {
          let passive = (r_flags res AND DNS_PASSIVE \<noteq> 0);
          (_, res) \<leftarrow> (if need_ip4 res then res_add_ip res DNS_IPV4 (if passive then ip4_any else ip4_loopback) else Some (0, res));
          (_, res) \<leftarrow> (if need_ip6 res then res_add_ip res DNS_IPV6 (if passive then ip6_any else ip6_loopback) else Some (0, res));
          found res
        }
        else do {
          (type, ip) \<leftarrow> ipstr_decode host stk;
          if type = 0 then Some (0, res)
          else
            let allow = r_flags res AND (DNS_IPV4 OR DNS_IPV6 OR DNS_V4MAPPED);
                allow = (if allow AND DNS_V4MAPPED \<noteq> 0 then allow OR DNS_IPV4 else allow)
            in if allow AND type = 0 then Some (-1, res)
               else do { (_, res) \<leftarrow> res_add_ip res type ip; found res }
        })"

definition try_hosts :: "globs \<Rightarrow> dns_result \<Rightarrow> (int \<times> dns_result) option" where
  "try_hosts g res = do {
    addr \<leftarrow> hosts_get (glob_hosts g) (r_host res);
    case addr of
      None \<Rightarrow> Some (0, res)
    | Some a \<Rightarrow> do { (_, res) \<leftarrow> res_add_addr res a; found res }
  }"

section \<open>The entry points\<close>

text \<open>\<open>tmp\<close> and \<open>stk\<close> are the arrays on the stack of the readers; \<open>sig\<close> is part of the system.\<close>

definition dns_init :: "'w renv \<Rightarrow> bytes \<Rightarrow> bytes \<Rightarrow> 'w \<Rightarrow> globs \<Rightarrow> (int \<times> globs \<times> 'w) option" where
  "dns_init env tmp stk w g = do {
    (cfg, w) \<leftarrow> init_config env tmp stk w (glob_cfg g);
    (hosts, w) \<leftarrow> init_hosts env tmp stk w (glob_hosts g);
    (svcs, w) \<leftarrow> init_services env tmp w (glob_svcs g);
    Some (0, g\<lparr> glob_cfg := cfg, glob_hosts := hosts, glob_svcs := svcs, glob_cache := init_cache (glob_cache g) \<rparr>, w)
  }"

definition res_init :: "u32 \<Rightarrow> slice \<Rightarrow> slice \<Rightarrow> dns_sockaddr list \<Rightarrow> dns_result" where
  "res_init flags host port addrs = \<lparr> r_flags = flags, r_host = host, r_port = port, udp_port = 0, tcp_port = 0, num_ip4 = 0,
    num_ip6 = 0, num_addr = 0, max_addr = length addrs, r_addrs = addrs, r_stray = [], need_ip4 = False, need_ip6 = False \<rparr>"

text \<open>
  The result: the return value, the array of the caller, with whatever was stored outside of it
  behind it, and the state.
\<close>

definition dns_resolv ::
    "'w renv \<Rightarrow> bytes \<Rightarrow> bytes \<Rightarrow> 'w \<Rightarrow> globs \<Rightarrow> u32 \<Rightarrow> slice \<Rightarrow> slice \<Rightarrow> dns_sockaddr list \<Rightarrow>
      (int \<times> dns_sockaddr list \<times> globs \<times> 'w) option" where
  "dns_resolv env tmp stk w g flags host port addrs =
    (if addrs = [] then Some (0, addrs, g, w)
     else do {
       (rc, res) \<leftarrow> try_port g (res_init flags host port addrs);
       if rc \<noteq> 0 then Some (rc, res_mem res, g, w)
       else do {
         (rc, res) \<leftarrow> try_hostname stk res;
         if rc \<noteq> 0 then Some (rc, res_mem res, g, w)
         else do {
           (rc, res) \<leftarrow> try_hosts g res;
           if rc \<noteq> 0 then Some (rc, res_mem res, g, w)
           else do {
             (rc, res, g, w) \<leftarrow> try_nameservers env tmp w g res;
             Some (rc, res_mem res, g, w)
           }
         }
       }
     })"

end
