(* ===== verification/Resolv_Safety.thy ===== *)
theory Resolv_Safety
  imports Resolv_Query
begin

text \<open>
  What holds of the resolver whenever it returns, for every system that keeps its descriptors in
  order: the addresses it reports are well-formed and within the array of the caller, no descriptor
  is left open, and a truncated response is not repeated over TCP.  The proofs are by a calculus of
  postconditions of partial results.
\<close>

section \<open>Postconditions\<close>

definition post :: "'a option \<Rightarrow> ('a \<Rightarrow> bool) \<Rightarrow> bool" where
  "post m P \<longleftrightarrow> (\<forall>x. m = Some x \<longrightarrow> P x)"

named_theorems post_simps

lemma post_Some [post_simps]: "post (Some x) P = P x"
  by (simp add: post_def)

lemma post_None [post_simps]: "post None P"
  by (simp add: post_def)

lemma post_bind [post_simps]: "post (Option.bind m f) P = post m (\<lambda>x. post (f x) P)"
  by (cases m) (simp_all add: post_def)

lemma post_map [post_simps]: "post (map_option f m) P = post m (\<lambda>x. P (f x))"
  by (cases m) (simp_all add: post_def)

lemma post_Let [post_simps]: "post (let x = a in f x) P = post (f a) P"
  by simp

lemma post_if: "(b \<Longrightarrow> post m P) \<Longrightarrow> (\<not> b \<Longrightarrow> post n P) \<Longrightarrow> post (if b then m else n) P"
  by simp

lemma post_step: "(\<And>x. m = Some x \<Longrightarrow> post (f x) P) \<Longrightarrow> post (Option.bind m f) P"
  by (cases m) (simp_all add: post_def)

lemma post_bindI: "post m Q \<Longrightarrow> (\<And>x. Q x \<Longrightarrow> post (f x) P) \<Longrightarrow> post (Option.bind m f) P"
  by (cases m) (simp_all add: post_def)

lemma post_bind2:
  "post m (\<lambda>(a, b). Q a b) \<Longrightarrow> (\<And>a b. Q a b \<Longrightarrow> post (f a b) P) \<Longrightarrow> post (Option.bind m (\<lambda>(a, b). f a b)) P"
  by (cases m) (auto simp: post_def)

lemma post_bind3:
  "post m (\<lambda>(a, b, c). Q a b c) \<Longrightarrow> (\<And>a b c. Q a b c \<Longrightarrow> post (f a b c) P) \<Longrightarrow> post (Option.bind m (\<lambda>(a, b, c). f a b c)) P"
  by (cases m) (auto simp: post_def)

lemma post_bind4:
  "post m (\<lambda>(a, b, c, d). Q a b c d) \<Longrightarrow> (\<And>a b c d. Q a b c d \<Longrightarrow> post (f a b c d) P) \<Longrightarrow>
    post (Option.bind m (\<lambda>(a, b, c, d). f a b c d)) P"
  by (cases m) (auto simp: post_def)

lemma post_bind5:
  "post m (\<lambda>(a, b, c, d, e). Q a b c d e) \<Longrightarrow> (\<And>a b c d e. Q a b c d e \<Longrightarrow> post (f a b c d e) P) \<Longrightarrow>
    post (Option.bind m (\<lambda>(a, b, c, d, e). f a b c d e)) P"
  by (cases m) (auto simp: post_def)

lemma post_prod: "(\<And>a b. x = (a, b) \<Longrightarrow> post (f a b) P) \<Longrightarrow> post (case x of (a, b) \<Rightarrow> f a b) P"
  by (cases x) simp

lemma post_let: "post (f a) P \<Longrightarrow> post (let x = a in f x) P"
  by simp

lemma post_option: "(x = None \<Longrightarrow> post m P) \<Longrightarrow> (\<And>a. x = Some a \<Longrightarrow> post (f a) P) \<Longrightarrow> post (case x of None \<Rightarrow> m | Some a \<Rightarrow> f a) P"
  by (cases x) simp_all

lemma post_ret: "P x \<Longrightarrow> post (Some x) P"
  by (simp add: post_def)

lemmas post_intros = post_ret post_None post_if post_step post_prod post_let post_option

lemma post_mono: "post m P \<Longrightarrow> (\<And>x. P x \<Longrightarrow> Q x) \<Longrightarrow> post m Q"
  by (simp add: post_def)

lemma postI: "(\<And>x. m = Some x \<Longrightarrow> P x) \<Longrightarrow> post m P"
  by (simp add: post_def)

lemma postD: "post m P \<Longrightarrow> m = Some x \<Longrightarrow> P x"
  by (simp add: post_def)

section \<open>The system\<close>

text \<open>
  The descriptors are in order: \<open>socket\<close> fails or returns a descriptor that was not open, \<open>close\<close>
  releases its descriptor, and the other calls leave the open descriptors as they are.
\<close>

definition renv_law :: "('w \<Rightarrow> int set) \<Rightarrow> 'w renv \<Rightarrow> bool" where
  "renv_law opened env \<longleftrightarrow>
    (\<forall>w fd n. opened (snd (re_read env w fd n)) = opened w) \<and>
    (\<forall>w fd bs. opened (snd (re_write env w fd bs)) = opened w) \<and>
    (\<forall>w fd a. opened (snd (re_connect env w fd a)) = opened w) \<and>
    (\<forall>w fd. opened (snd (re_sockerr env w fd)) = opened w) \<and>
    (\<forall>w fd ev ms. opened (snd (re_poll env w fd ev ms)) = opened w) \<and>
    (\<forall>w. opened (snd (re_now_ms env w)) = opened w) \<and>
    (\<forall>w. opened (snd (re_tid env w)) = opened w) \<and>
    (\<forall>w fd. opened (re_close env w fd) = opened w - {fd}) \<and>
    (\<forall>w f t fd w'. re_socket env w f t = (fd, w') \<longrightarrow> (if fd = -1 then opened w' = opened w else fd \<notin> opened w \<and> opened w' = insert fd (opened w)))"

lemma renv_lawD:
  assumes "renv_law opened env"
  shows "re_read env w fd n = (r, w') \<Longrightarrow> opened w' = opened w"
    and "re_write env w fd bs = (r2, w') \<Longrightarrow> opened w' = opened w"
    and "re_connect env w fd a = (r3, w') \<Longrightarrow> opened w' = opened w"
    and "re_sockerr env w fd = (r4, w') \<Longrightarrow> opened w' = opened w"
    and "re_poll env w fd ev ms = (r5, w') \<Longrightarrow> opened w' = opened w"
    and "re_now_ms env w = (r6, w') \<Longrightarrow> opened w' = opened w"
    and "re_tid env w = (r7, w') \<Longrightarrow> opened w' = opened w"
    and "opened (re_close env w fd) = opened w - {fd}"
    and "re_socket env w f t = (fd, w') \<Longrightarrow> fd = -1 \<Longrightarrow> opened w' = opened w"
    and "re_socket env w f t = (fd, w') \<Longrightarrow> fd \<noteq> -1 \<Longrightarrow> fd \<notin> opened w \<and> opened w' = insert fd (opened w)"
  using assms unfolding renv_law_def by (metis snd_conv)+

text \<open>A call between two states of the system leaves the open descriptors as they are.\<close>

definition fds_same :: "('w \<Rightarrow> int set) \<Rightarrow> 'w \<Rightarrow> 'w \<Rightarrow> bool" where
  "fds_same opened w w' \<longleftrightarrow> opened w' = opened w"

lemma fds_same_refl [simp]: "fds_same opened w w"
  by (simp add: fds_same_def)

lemma fds_same_trans [trans]: "fds_same opened a b \<Longrightarrow> fds_same opened b c \<Longrightarrow> fds_same opened a c"
  by (simp add: fds_same_def)

lemma renv_law_same:
  assumes "renv_law opened env"
  shows "re_connect env w fd a = (r3, w') \<Longrightarrow> fds_same opened w w'"
    and "re_sockerr env w fd = (r4, w') \<Longrightarrow> fds_same opened w w'"
    and "re_poll env w fd ev ms = (r5, w') \<Longrightarrow> fds_same opened w w'"
    and "re_now_ms env w = (r6, w') \<Longrightarrow> fds_same opened w w'"
    and "re_tid env w = (r7, w') \<Longrightarrow> fds_same opened w w'"
  using renv_lawD(3-7) [OF assms] unfolding fds_same_def by simp_all

lemma read_again_opened:
  assumes law: "renv_law opened env"
  shows "post (read_again env w fd len) (\<lambda>(r, w'). fds_same opened w w')"
proof (rule postI)
  fix x
  assume "read_again env w fd len = Some x"
  then have "renv_law opened env \<longrightarrow> opened (snd x) = opened w"
  proof (rule read_again.raw_induct [where P = "\<lambda>env w fd len x. renv_law opened env \<longrightarrow> opened (snd x) = opened w", rotated])
    fix loop :: "'a renv \<Rightarrow> 'a \<Rightarrow> int \<Rightarrow> nat \<Rightarrow> (rd_res \<times> 'a) option" and env w fd len x
    assume ih: "\<And>env w fd len x. loop env w fd len = Some x \<Longrightarrow> renv_law opened env \<longrightarrow> opened (snd x) = opened w"
      and b: "(case re_read env w fd len of (r, w) \<Rightarrow> if r = RdErr EINTR then loop env w fd len else Some (r, w)) = Some x"
    obtain r w1 where r: "re_read env w fd len = (r, w1)" by fastforce
    show "renv_law opened env \<longrightarrow> opened (snd x) = opened w"
    proof
      assume law: "renv_law opened env"
      show "opened (snd x) = opened w"
      proof (cases "r = RdErr EINTR")
        case True
        then have "loop env w1 fd len = Some x" using b r by simp
        then show ?thesis using ih law renv_lawD(1) [OF law r] by simp
      next
        case False
        then have "x = (r, w1)" using b r by simp
        then show ?thesis using renv_lawD(1) [OF law r] by simp
      qed
    qed
  qed
  then show "case x of (r, w') \<Rightarrow> fds_same opened w w'" using law by (cases x) (simp add: fds_same_def)
qed

lemma write_again_opened:
  assumes law: "renv_law opened env"
  shows "post (write_again env w fd bs) (\<lambda>(r, w'). fds_same opened w w')"
proof (rule postI)
  fix x
  assume "write_again env w fd bs = Some x"
  then have "renv_law opened env \<longrightarrow> opened (snd x) = opened w"
  proof (rule write_again.raw_induct [where P = "\<lambda>env w fd len x. renv_law opened env \<longrightarrow> opened (snd x) = opened w", rotated])
    fix loop :: "'a renv \<Rightarrow> 'a \<Rightarrow> int \<Rightarrow> bytes \<Rightarrow> (wr_res \<times> 'a) option" and env w fd bs x
    assume ih: "\<And>env w fd bs x. loop env w fd bs = Some x \<Longrightarrow> renv_law opened env \<longrightarrow> opened (snd x) = opened w"
      and b: "(case re_write env w fd bs of (r, w) \<Rightarrow> if r = WrErr EINTR then loop env w fd bs else Some (r, w)) = Some x"
    obtain r w1 where r: "re_write env w fd bs = (r, w1)" by fastforce
    show "renv_law opened env \<longrightarrow> opened (snd x) = opened w"
    proof
      assume law: "renv_law opened env"
      show "opened (snd x) = opened w"
      proof (cases "r = WrErr EINTR")
        case True
        then have "loop env w1 fd bs = Some x" using b r by simp
        then show ?thesis using ih law renv_lawD(2) [OF law r] by simp
      next
        case False
        then have "x = (r, w1)" using b r by simp
        then show ?thesis using renv_lawD(2) [OF law r] by simp
      qed
    qed
  qed
  then show "case x of (r, w') \<Rightarrow> fds_same opened w w'" using law by (cases x) (simp add: fds_same_def)
qed

section \<open>Addresses and tables\<close>

text \<open>An address has the bytes of its family.\<close>

definition addr_sane :: "dns_sockaddr \<Rightarrow> bool" where
  "addr_sane a \<longleftrightarrow> (da_family a = AF_INET \<longrightarrow> 4 \<le> length (da_ip a)) \<and> (da_family a = AF_INET6 \<longrightarrow> 16 \<le> length (da_ip a))"

definition cache_sane :: "dns_cache \<Rightarrow> bool" where
  "cache_sane c \<longleftrightarrow> (\<forall>a \<in> set (c_addrs c). addr_sane a)"

definition res_inv :: "dns_result \<Rightarrow> dns_result \<Rightarrow> bool" where
  "res_inv res0 res \<longleftrightarrow> res_ok res \<and> same_request res0 res \<and> (\<forall>a \<in> set (r_addrs res). addr_sane a)"

lemma sane_list_update: "\<forall>a \<in> set as. addr_sane a \<Longrightarrow> addr_sane b \<Longrightarrow> \<forall>a \<in> set (as[i := b]). addr_sane a"
  using set_update_subset_insert [of as i b] by blast

lemma addr_sane_zero [simp]: "addr_sane sockaddr_zero"
  by (simp add: addr_sane_def sockaddr_zero_def)

lemma addr_sane_sock_type [simp]: "addr_sane (a\<lparr> da_sock_type := t \<rparr>) = addr_sane a"
  by (simp add: addr_sane_def)

lemma sockaddr_load_sane:
  assumes "type = DNS_IPV4 \<Longrightarrow> 4 \<le> length ip" "type = DNS_IPV6 \<Longrightarrow> 16 \<le> length ip"
  shows "addr_sane (snd (sockaddr_load type ip ptype port))"
  using assms by (simp add: sockaddr_load_def Let_def addr_sane_def sockaddr_zero_def)

lemma ptr_at_lt: "ptr_at as v = Some i \<Longrightarrow> i < length as"
  using unat_gt_0 [of v] by (auto simp: ptr_at_def split: if_splits)

lemma post_triv: "(\<And>x. P x) \<Longrightarrow> post m P"
  by (simp add: post_def)

lemma cache_sane_update: "cache_sane c \<Longrightarrow> addr_sane a \<Longrightarrow> cache_sane (c\<lparr> c_addrs := (c_addrs c)[i := a] \<rparr>)"
  using sane_list_update [of "c_addrs c" a i] by (simp add: cache_sane_def)

lemma cache_sane_more [simp]:
  "cache_sane (c\<lparr> c_map := m \<rparr>) = cache_sane c" "cache_sane (c\<lparr> c_store := st \<rparr>) = cache_sane c"
  "cache_sane (c\<lparr> c_store_len := n \<rparr>) = cache_sane c" "cache_sane (c\<lparr> c_num_addr := n \<rparr>) = cache_sane c"
  by (simp_all add: cache_sane_def)

lemma cache_sane_addrs: "cache_sane (c\<lparr> c_addrs := as \<rparr>) = (\<forall>a \<in> set as. addr_sane a)"
  by (simp add: cache_sane_def)

lemma cache_get_keeps:
  assumes law: "renv_law opened env" and c: "cache_sane cache"
  shows "post (cache_get env w cache family host)
    (\<lambda>(a, cache', w'). fds_same opened w w' \<and> cache_sane cache' \<and> (\<forall>x. a = Some x \<longrightarrow> addr_sane x))"
proof (cases "cache_name family host")
  case (Some name)
  obtain now w1 where n: "re_now_ms env w = (now, w1)" by fastforce
  note same = renv_law_same(4) [OF law n]
  have a: "addr_sane (c_addrs cache ! i)" if "ptr_at (c_addrs cache) v = Some i" for v i
    using c ptr_at_lt [OF that] by (simp add: cache_sane_def)
  have u: "cache_sane (cache\<lparr> c_map := m, c_addrs := (c_addrs cache)[i := (c_addrs cache ! i)\<lparr> da_sock_type := 0 \<rparr>], c_num_addr := k \<rparr>)"
    if "ptr_at (c_addrs cache) v = Some i" for v i m k
    using c a [OF that] cache_sane_update [of "cache\<lparr> c_map := m \<rparr>"] by simp
  show ?thesis
    unfolding cache_get_def Some n option.case Let_def prod.case
    by (intro post_intros) (use same c a u in simp_all)
qed (simp add: cache_get_def post_simps c)

lemma cache_put_keeps:
  assumes law: "renv_law opened env" and c: "cache_sane cache" and a: "addr_sane addr"
  shows "post (cache_put env w cache family host addr ttl) (\<lambda>(b, cache', w'). fds_same opened w w' \<and> cache_sane cache')"
proof (cases "cache_name family host")
  case (Some name)
  obtain now w1 where n: "re_now_ms env w = (now, w1)" by fastforce
  note same = renv_law_same(4) [OF law n]
  have u: "\<forall>x \<in> set ((c_addrs cache)[i := addr\<lparr> da_sock_type := t \<rparr>]). addr_sane x" for i t
    by (rule sane_list_update) (use c a in \<open>simp_all add: cache_sane_def\<close>)
  show ?thesis
    unfolding cache_put_def Some n option.case Let_def prod.case
    by (intro post_intros) (simp_all add: same c u cache_sane_addrs)
qed (simp add: cache_put_def post_simps c)

section \<open>The result\<close>

lemma res_put_sane:
  "addr_sane addr \<Longrightarrow> \<forall>a \<in> set (r_addrs res). addr_sane a \<Longrightarrow> \<forall>a \<in> set (r_addrs (res_put res i addr)). addr_sane a"
  using sane_list_update [of "r_addrs res" addr] by (simp add: res_put_def)

lemma res_get_sane: "res_inv res0 res \<Longrightarrow> post (res_get res i) addr_sane"
  by (simp add: post_simps res_get_def res_inv_def res_ok_def nat_less_iff)

lemma res_add_ip_port_sane:
  assumes "\<forall>a \<in> set (r_addrs res). addr_sane a" "type = DNS_IPV4 \<Longrightarrow> 4 \<le> length ip" "type = DNS_IPV6 \<Longrightarrow> 16 \<le> length ip"
  shows "post (res_add_ip_port res type ip ptype port) (\<lambda>(rc, res'). \<forall>a \<in> set (r_addrs res'). addr_sane a)"
proof -
  obtain ok addr where l: "sockaddr_load type ip ptype port = (ok, addr)" by fastforce
  have "addr_sane addr" using sockaddr_load_sane [OF assms(2,3)] l by (metis snd_conv)
  then have u: "\<forall>a \<in> set (r_addrs (res_put res i addr)). addr_sane a" for i using res_put_sane assms(1) by blast
  show ?thesis unfolding res_add_ip_port_def Let_def l prod.case
    by (intro post_intros) (use assms(1) u in simp_all)
qed

lemma res_add_ip_inv:
  assumes "res_inv res0 res" and ip: "type = DNS_IPV4 \<Longrightarrow> 4 \<le> length ip" "type = DNS_IPV6 \<Longrightarrow> 16 \<le> length ip"
  shows "post (res_add_ip res type ip) (\<lambda>(rc, res'). res_inv res0 res')"
proof (rule postI, clarify)
  fix rc res'
  assume r: "res_add_ip res type ip = Some (rc, res')"
  have sane: "\<forall>a \<in> set (r_addrs res). addr_sane a" and ok: "res_ok res" and same: "same_request res0 res"
    using assms(1) by (simp_all add: res_inv_def)
  have "post (res_add_ip res type ip) (\<lambda>(rc, res'). \<forall>a \<in> set (r_addrs res'). addr_sane a)"
    unfolding res_add_ip_def Let_def
    apply (rule post_bindI [where Q = "\<lambda>(rc, res'). \<forall>a \<in> set (r_addrs res'). addr_sane a"])
    subgoal by (rule post_if) (use res_add_ip_port_sane [OF sane ip] sane in \<open>simp_all add: post_simps\<close>)
    apply clarify
    apply (rule post_bindI [where Q = "\<lambda>(rc, res'). \<forall>a \<in> set (r_addrs res'). addr_sane a"])
    subgoal by (rule post_if) (use res_add_ip_port_sane [OF _ ip] in \<open>simp_all add: post_simps\<close>)
    by (auto simp: post_simps)
  from postD [OF this r] have "\<forall>a \<in> set (r_addrs res'). addr_sane a" by simp
  moreover have "res_ok res'" "same_request res res'" using res_add_ip_ok [OF ok, of type ip] ip r by auto
  ultimately show "res_inv res0 res'" using same same_request_trans unfolding res_inv_def by blast
qed

lemma res_add_addr_inv:
  assumes "res_inv res0 res" "addr_sane addr"
  shows "post (res_add_addr res addr) (\<lambda>(rc, res'). res_inv res0 res')"
proof -
  have d: "DNS_IPV4 \<noteq> DNS_IPV6" "DNS_IPV6 \<noteq> DNS_IPV4" using dns_flags_distinct by simp_all
  show ?thesis
    unfolding res_add_addr_def
    using assms res_add_ip_inv [OF assms(1), of DNS_IPV4 "da_ip addr"] res_add_ip_inv [OF assms(1), of DNS_IPV6 "da_ip addr"] d
    by (cases "da_family addr") (simp_all add: addr_sane_def post_simps)
qed

section \<open>The socket of a nameserver\<close>

text \<open>The descriptors that are open are \<open>fds\<close> and that of the socket, if it is open.\<close>

definition fd_inv :: "('w \<Rightarrow> int set) \<Rightarrow> int set \<Rightarrow> 'w \<Rightarrow> dns_sock \<Rightarrow> bool" where
  "fd_inv opened fds w s \<longleftrightarrow>
    (if is_open s then ds_fd s \<notin> fds \<and> opened w = insert (ds_fd s) fds else opened w = fds)"

definition sock_same :: "dns_sock \<Rightarrow> dns_sock \<Rightarrow> bool" where
  "sock_same s s' \<longleftrightarrow> is_open s' = is_open s \<and> ds_fd s' = ds_fd s"

lemma fd_inv_frame: "fd_inv opened fds w s \<Longrightarrow> fds_same opened w w' \<Longrightarrow> sock_same s s' \<Longrightarrow> fd_inv opened fds w' s'"
  by (simp add: fd_inv_def fds_same_def sock_same_def)

lemma sock_same_refl [simp]: "sock_same s s"
  by (simp add: sock_same_def)

lemma rcv_dnspkt_keeps:
  assumes "renv_law opened env"
  shows "post (rcv_dnspkt env w s) (\<lambda>(rc, s', w'). fds_same opened w w' \<and> sock_same s s')"
  unfolding rcv_dnspkt_def
proof (rule post_bindI [OF read_again_opened [OF assms]], clarify)
  fix r w1
  assume "fds_same opened w w1"
  then show "post (case r of RdErr e \<Rightarrow> Some (if e = EAGAIN then DNS_EAGAIN else -1, s, w1)
    | Got bs \<Rightarrow>
        if bs = [] then Some (DNS_ERR, s, w1)
        else if rx_off s + length bs > length (rx_buf s) then None
        else
          let s = s\<lparr> rx_buf := write_at (rx_buf s) (rx_off s) bs, rx_off := rx_off s + length bs \<rparr>
          in if \<not> is_tcp s then Some (0, s\<lparr> rx_len := rx_off s \<rparr>, w1)
             else
               let prefix = (rx_len s = 0 \<and> rx_off s \<ge> 2);
                   s = (if prefix then s\<lparr> rx_len := unat (dec_u16 (rx_buf s) 0) \<rparr> else s)
               in if prefix \<and> rx_len s + 2 > DNS_PKTSIZE then Some (-1, s, w1)
                  else Some (if rx_off s \<ge> 2 + rx_len s then 0 else DNS_EAGAIN, s, w1))
    (\<lambda>(rc, s', w'). fds_same opened w w' \<and> sock_same s s')"
    by (cases r) (simp_all add: post_simps sock_same_def Let_def)
qed

lemma snd_dnspkt_keeps:
  assumes "renv_law opened env"
  shows "post (snd_dnspkt env w s) (\<lambda>(rc, s', w'). fds_same opened w w' \<and> sock_same s s' \<and> rc \<noteq> R_ETRUNC)"
  unfolding snd_dnspkt_def
proof (rule post_bindI [OF write_again_opened [OF assms]], clarify)
  fix r w1
  assume "fds_same opened w w1"
  then show "post (case r of WrErr e \<Rightarrow> Some (if e = EAGAIN then DNS_EAGAIN else -1, s, w1)
    | Wrote n \<Rightarrow>
        let s = s\<lparr> tx_off := tx_off s + n \<rparr>
        in if tx_off s = tx_len s then Some (0, s\<lparr> tx_len := 0, tx_off := 0 \<rparr>, w1)
           else Some (if is_tcp s then DNS_EAGAIN else DNS_ERR, s, w1))
    (\<lambda>(rc, s', w'). fds_same opened w w' \<and> sock_same s s' \<and> rc \<noteq> R_ETRUNC)"
    by (cases r) (simp_all add: post_simps sock_same_def Let_def resolv_codes)
qed

lemma enc_dnspkt_keeps: "post (enc_dnspkt s msg) (\<lambda>(rc, s', msg'). sock_same s s' \<and> rc \<noteq> R_ETRUNC)"
  unfolding enc_dnspkt_def by (intro post_intros) (simp_all add: sock_same_def R_ETRUNC_def)

section \<open>Queries\<close>

definition rc_ok :: "dns_ns \<Rightarrow> bool" where
  "rc_ok ns \<longleftrightarrow> last_rc (v4_query ns) \<noteq> R_ETRUNC \<and> last_rc (v6_query ns) \<noteq> R_ETRUNC"

definition g_inv :: "globs \<Rightarrow> globs \<Rightarrow> bool" where
  "g_inv g0 g \<longleftrightarrow> glob_cfg g = glob_cfg g0 \<and> glob_hosts g = glob_hosts g0 \<and> glob_svcs g = glob_svcs g0 \<and> cache_sane (glob_cache g)"

definition ns_inv :: "('w \<Rightarrow> int set) \<Rightarrow> int set \<Rightarrow> globs \<Rightarrow> 'w \<Rightarrow> globs \<Rightarrow> dns_ns \<Rightarrow> bool" where
  "ns_inv opened fds g0 w g ns \<longleftrightarrow> fd_inv opened fds w (ns_sock ns) \<and> rc_ok ns \<and> g_inv g0 g"

lemma set_query_simps [simp]:
  "ns_query (set_query ns v6 q) v6 = q" "ns_sock (set_query ns v6 q) = ns_sock ns" "ns_msg (set_query ns v6 q) = ns_msg ns"
  "active (set_query ns v6 q) = active ns" "use_tcp (set_query ns v6 q) = use_tcp ns" "ns_name (set_query ns v6 q) = ns_name ns"
  by (simp_all add: ns_query_def set_query_def)

lemma ns_query_frame [simp]:
  "ns_query (ns\<lparr> ns_sock := s \<rparr>) v6 = ns_query ns v6" "ns_query (ns\<lparr> ns_msg := m \<rparr>) v6 = ns_query ns v6"
  "ns_query (ns\<lparr> active := a \<rparr>) v6 = ns_query ns v6"
  by (simp_all add: ns_query_def)

lemma rc_ok_frame [simp]:
  "rc_ok (ns\<lparr> ns_sock := s \<rparr>) = rc_ok ns" "rc_ok (ns\<lparr> ns_msg := m \<rparr>) = rc_ok ns" "rc_ok (ns\<lparr> active := a \<rparr>) = rc_ok ns"
  "rc_ok (ns\<lparr> have_ans := b \<rparr>) = rc_ok ns" "rc_ok (ns\<lparr> have_ip4 := b \<rparr>) = rc_ok ns" "rc_ok (ns\<lparr> have_ip6 := b \<rparr>) = rc_ok ns"
  by (simp_all add: rc_ok_def)

lemma rc_ok_set_query: "rc_ok ns \<Longrightarrow> last_rc q \<noteq> R_ETRUNC \<Longrightarrow> rc_ok (set_query ns v6 q)"
  by (simp add: rc_ok_def set_query_def)

lemma rc_ok_query: "rc_ok ns \<Longrightarrow> last_rc (ns_query ns v6) \<noteq> R_ETRUNC"
  by (simp add: rc_ok_def ns_query_def)

lemma gen_tid_keeps:
  assumes "renv_law opened env" "g_inv g0 g" "gen_tid env w g = (tid, g', w')"
  shows "fds_same opened w w'" "g_inv g0 g'"
  using assms renv_law_same(5) [OF assms(1)] by (auto simp: gen_tid_def g_inv_def split: option.splits prod.splits)

lemma dns_add_qdn_rc: "fst (dns_add_qdn msg name type cls) \<noteq> R_ETRUNC"
  by (simp add: dns_add_qdn_def Let_def R_ETRUNC_def split: prod.split)

lemma add_opt_rc: "post (dns_add_rr un uz msg 3 (Some opt_rr)) (\<lambda>(rc, m). rc \<noteq> R_ETRUNC)"
  unfolding dns_add_rr_def dns_sect_add_rr_def Let_def option.case
  by (simp add: post_simps opt_rr_def add_rdata_def dns_type_defs R_ETRUNC_def split: prod.split)

lemma set_dnsreq_keeps:
  assumes law: "renv_law opened env" and g: "g_inv g0 g" and rc: "rc_ok ns"
  shows "post (set_dnsreq env w g ns v6)
    (\<lambda>(rc, ns', g', w'). fds_same opened w w' \<and> g_inv g0 g' \<and> ns_sock ns' = ns_sock ns \<and> rc_ok ns' \<and> rc \<noteq> R_ETRUNC)"
proof -
  obtain tid g1 w1 where t: "gen_tid env w g = (tid, g1, w1)" by (metis prod_cases3)
  note k = gen_tid_keeps [OF law g t]
  have q: "rc_ok (set_query ns v6 ((ns_query ns v6)\<lparr> q_tid := tid, q_name := n, q_class := c \<rparr>))" for n c
    using rc_ok_set_query [OF rc] rc_ok_query [OF rc] by simp
  show ?thesis
    unfolding set_dnsreq_def t prod.case Let_def
    apply (rule post_prod, rule post_if)
    subgoal using k q dns_add_qdn_rc by (simp add: post_simps) (metis fst_conv)
    apply (rule post_if)
    subgoal by (rule post_bindI [OF add_opt_rc]) (use k q in \<open>auto simp: post_simps\<close>)
    subgoal using k q by (simp add: post_simps R_ETRUNC_def)
    done
qed

lemma rc_ok_note [simp]:
  "rc_ok ns \<Longrightarrow> rc \<noteq> R_ETRUNC \<Longrightarrow> rc_ok (note_rc ns v6 rc)" "rc_ok ns \<Longrightarrow> rc_ok (note_state ns v6 st)"
  by (simp_all add: note_rc_def note_state_def rc_ok_set_query rc_ok_query)

lemma note_sock [simp]: "ns_sock (note_rc ns v6 rc) = ns_sock ns" "ns_sock (note_state ns v6 st) = ns_sock ns"
  by (simp_all add: note_rc_def note_state_def)

lemma ns_inv_frame:
  assumes "ns_inv opened fds g0 w g ns" "fds_same opened w w'" "sock_same (ns_sock ns) (ns_sock ns')" "rc_ok ns'" "g_inv g0 g'"
  shows "ns_inv opened fds g0 w' g' ns'"
  using assms fd_inv_frame [of opened fds w "ns_sock ns" w' "ns_sock ns'"] by (simp add: ns_inv_def)

lemma ns_invD:
  assumes "ns_inv opened fds g0 w g ns"
  shows "fd_inv opened fds w (ns_sock ns)" "rc_ok ns" "g_inv g0 g"
  using assms by (simp_all add: ns_inv_def)

lemma query_send_inv:
  assumes law: "renv_law opened env" and i: "ns_inv opened fds g0 w g ns"
  shows "post (query_send env w g ns v6) (\<lambda>(ns', g', w'). ns_inv opened fds g0 w' g' ns')"
  unfolding query_send_def
  by (rule post_bindI [OF snd_dnspkt_keeps [OF law]], clarify)
    (use ns_invD [OF i] in \<open>auto simp: post_simps Let_def intro!: ns_inv_frame [OF i]\<close>)

lemma query_finish_inv: "ns_inv opened fds g0 w g ns \<Longrightarrow> ns_inv opened fds g0 w g (query_finish ns v6)"
  by (rule ns_inv_frame) (auto simp: query_finish_def Let_def dest: ns_invD)

lemma try_query_inv:
  assumes law: "renv_law opened env" and i: "ns_inv opened fds g0 w g ns"
  shows "post (try_query env w g ns res type) (\<lambda>(st, ns', g', w'). ns_inv opened fds g0 w' g' ns')"
proof (cases "get_query res type")
  case (Some v6)
  note d = ns_invD [OF i]
  let ?ns = "(set_query ns v6 ((ns_query ns v6)\<lparr> q_type := type, q_state := DNS_SEND \<rparr>))\<lparr> active := active ns + 1 \<rparr>"
  have q: "rc_ok ?ns" using d(2) by (simp add: rc_ok_set_query rc_ok_query)
  have idle: "post (do {
      (rc, ns, g, w) \<leftarrow> set_dnsreq env w g ?ns v6;
      let ns = note_rc ns v6 rc;
      if rc \<noteq> 0 then Some (ns, g, w)
      else do {
        (rc, s, msg) \<leftarrow> enc_dnspkt (ns_sock ns) (ns_msg ns);
        let ns = note_rc (ns\<lparr> ns_sock := s, ns_msg := msg \<rparr>) v6 rc;
        if rc \<noteq> 0 then Some (ns, g, w) else query_send env w g ns v6
      }
    }) (\<lambda>(ns', g', w'). ns_inv opened fds g0 w' g' ns')"
    apply (rule post_bind4 [OF set_dnsreq_keeps [OF law d(3) q]])
    apply (rule post_let, rule post_if)
    subgoal by (auto simp: post_simps intro!: ns_inv_frame [OF i])
    apply (rule post_bind3 [OF enc_dnspkt_keeps])
    apply (rule post_let, rule post_if)
    subgoal by (auto simp: post_simps intro!: ns_inv_frame [OF i])
    subgoal by (rule query_send_inv [OF law]) (auto intro!: ns_inv_frame [OF i])
    done
  show ?thesis
    unfolding try_query_def Some option.case
    apply (rule post_bindI [where Q = "\<lambda>(ns', g', w'). ns_inv opened fds g0 w' g' ns'"])
    subgoal using idle i query_send_inv [OF law i] by (cases "q_state (ns_query ns v6)") (simp_all add: post_simps)
    by (auto simp: post_simps intro: query_finish_inv)
qed (use i in \<open>simp add: try_query_def post_simps\<close>)

section \<open>Responses\<close>

lemma g_inv_cache: "g_inv g0 g \<Longrightarrow> cache_sane c \<Longrightarrow> g_inv g0 (g\<lparr> glob_cache := c \<rparr>)"
  by (simp add: g_inv_def)

lemma ans_loop_inv:
  assumes law: "renv_law opened env" and junk: "16 \<le> length (re_junk env)"
    and "ns_inv opened fds g0 w g ns" "res_inv res0 res"
  shows "post (ans_loop env n i w g ns res) (\<lambda>(ns', res', g', w'). ns_inv opened fds g0 w' g' ns' \<and> res_inv res0 res')"
  using assms(3,4)
proof (induction n arbitrary: i w g ns res)
  case 0
  then show ?case by (simp add: post_simps)
next
  case (Suc n)
  define rr where "rr = msg_an (ns_msg ns) ! i"
  define type where "type = (if rr_type rr = DNS_TYPE_A then DNS_IPV4 else if rr_type rr = DNS_TYPE_AAAA then DNS_IPV6 else 0)"
  define ip where "ip = rd_octets env (rr_rdata rr) (if type = DNS_IPV4 then 4 else 16)"
  have l4: "type = DNS_IPV4 \<Longrightarrow> 4 \<le> length ip" and l6: "type = DNS_IPV6 \<Longrightarrow> 16 \<le> length ip"
    using junk dns_flags_distinct by (simp_all add: ip_def rd_octets_def)
  note d = ns_invD [OF Suc.prems(1)]
  show ?case
    unfolding ans_loop.simps rr_def [symmetric] Let_def type_def [symmetric] ip_def [symmetric]
    apply (rule post_if)
    subgoal using Suc.prems by (simp add: post_simps)
    apply (rule post_if)
    subgoal by (rule Suc.IH) (use Suc.prems in simp_all)
    apply (rule post_bind2 [OF res_add_ip_inv [OF Suc.prems(2) l4 l6]], assumption, assumption)
    apply (rule post_if)
    subgoal by (rule Suc.IH) (use Suc.prems in simp_all)
    apply (rule post_bindI [OF res_get_sane], assumption)
    subgoal for idx res1
      apply (rule post_bind3)
       apply (rule cache_put_keeps [OF law])
      subgoal using d(3) by (simp add: g_inv_def)
      subgoal by assumption
      apply (rule Suc.IH)
      subgoal by (rule ns_inv_frame [OF Suc.prems(1)]) (use d in \<open>auto intro: g_inv_cache\<close>)
      by simp
    done
qed

lemma chk_dnsrsp_inv:
  assumes "ns_inv opened fds g0 w g ns"
  shows "post (chk_dnsrsp env ns hdr v6) (\<lambda>(rc, ns'). ns_inv opened fds g0 w g ns')"
proof -
  note d = ns_invD [OF assms]
  have nn: "0 \<le> x \<Longrightarrow> x \<noteq> R_ETRUNC" for x :: int by (simp add: R_ETRUNC_def)
  let ?ns = "(set_query ns v6 ((ns_query ns v6)\<lparr> q_state := DNS_DONE, last_rc := uint (hdr_flags hdr AND 0xf) \<rparr>))\<lparr> active := active ns - 1 \<rparr>"
  have q: "rc_ok ?ns" using d(2) nn by (simp add: rc_ok_set_query)
  have opt: "last_rc (snd (chk_dnsopt env (ns_query ?ns v6) msg)) \<noteq> R_ETRUNC" for msg
    using nn by (simp add: chk_dnsopt_def split: option.split)
  have i: "ns_inv opened fds g0 w g ?ns" by (rule ns_inv_frame [OF assms]) (use q d in simp_all)
  show ?thesis
    unfolding chk_dnsrsp_def Let_def
    apply (rule post_if)
    subgoal using i by (simp add: post_simps)
    apply (rule post_if)
    subgoal using i by (simp add: post_simps)
    apply (rule post_step, rule post_prod, rule post_if)
    subgoal by (simp add: post_simps, rule ns_inv_frame [OF i]) (use q d in simp_all)
    apply (rule post_if)
    subgoal by (simp add: post_simps, rule ns_inv_frame [OF i]) (use q d in simp_all)
    apply (rule post_prod)
    subgoal for x rc msg b q'
      using opt [of msg] by (simp add: post_simps, intro ns_inv_frame [OF i]) (use q d in \<open>auto intro: rc_ok_set_query\<close>)
    done
qed

lemma do_resp_inv:
  assumes law: "renv_law opened env" and junk: "16 \<le> length (re_junk env)"
    and i: "ns_inv opened fds g0 w g ns" and r: "res_inv res0 res"
  shows "post (do_resp env w g ns res) (\<lambda>(rc, ns', res', g', w'). ns_inv opened fds g0 w' g' ns' \<and> res_inv res0 res')"
proof -
  note d = ns_invD [OF i]
  have chk: "post (chk_dnspkt env ns1 res) (\<lambda>(rc, ns'). ns_inv opened fds g0 w1 g ns')" if "ns_inv opened fds g0 w1 g ns1" for ns1 w1
    unfolding chk_dnspkt_def by (intro post_option post_prod post_if chk_dnsrsp_inv) (use that in \<open>simp_all add: post_simps\<close>)
  show ?thesis
    unfolding do_resp_def
    apply (rule post_bind3 [OF rcv_dnspkt_keeps [OF law]])
    subgoal premises p for rc s w1
    proof -
      have i1: "ns_inv opened fds g0 w1 g (ns\<lparr> ns_sock := s \<rparr>)" by (rule ns_inv_frame [OF i]) (use p d in simp_all)
      show ?thesis
        apply (rule post_let, rule post_if)
        subgoal using i1 r by (simp add: post_simps)
        apply (rule post_bind2 [OF chk [OF i1]], rule post_if)
        subgoal using r by (simp add: post_simps)
        unfolding add_dnsans_def
        subgoal premises p for rc ns2
        proof -
          have i2: "ns_inv opened fds g0 w1 g (ns2\<lparr> have_ans := True \<rparr>)"
            by (rule ns_inv_frame [OF p(2)]) (use ns_invD [OF p(2)] in simp_all)
          show ?thesis by (rule post_bind4 [OF ans_loop_inv [OF law junk i2 r]]) (simp add: post_simps)
        qed
        done
    qed
    done
qed

lemma recv_resp_inv:
  assumes law: "renv_law opened env" and junk: "16 \<le> length (re_junk env)"
    and i: "ns_inv opened fds g0 w g ns" and r: "res_inv res0 res"
  shows "post (recv_resp env w g ns res pfd) (\<lambda>(ns', res', pfd', g', w'). ns_inv opened fds g0 w' g' ns' \<and> res_inv res0 res')"
  unfolding recv_resp_def
  apply (rule post_bind5 [OF do_resp_inv [OF law junk i r]], rule post_if)
  subgoal by (simp add: post_simps)
  subgoal for rc ns1 res1 g1 w1
    using ns_invD [of opened fds g0 w1 g1 ns1]
    by (auto simp: post_simps Let_def dns_sock_flush_def sock_same_def intro!: ns_inv_frame [of opened fds g0 w1 g1 ns1])
  done

lemma send_query_inv:
  assumes law: "renv_law opened env" and i: "ns_inv opened fds g0 w g ns"
  shows "post (send_query env w g ns res pfd) (\<lambda>(ns', pfd', g', w'). ns_inv opened fds g0 w' g' ns')"
proof -
  note d = ns_invD [OF i]
  define ns1 where "ns1 = (if in_progress (ns_sock ns) then ns\<lparr> ns_sock := (ns_sock ns)\<lparr> in_progress := False \<rparr>, active := active ns - 1 \<rparr> else ns)"
  obtain rc s w1 where c: "(if in_progress (ns_sock ns) then check_error env w (ns_sock ns1) else (0, ns_sock ns1, w)) = (rc, s, w1)"
    by (metis prod_cases3)
  have "fds_same opened w w1 \<and> sock_same (ns_sock ns) s"
    using c renv_law_same(2) [OF law] by (auto simp: check_error_def ns1_def sock_same_def split: if_splits prod.splits option.splits)
  moreover have "rc_ok ns1" using d(2) by (simp add: ns1_def rc_ok_def)
  ultimately have i1: "ns_inv opened fds g0 w1 g (ns1\<lparr> ns_sock := s \<rparr>)"
    by (intro ns_inv_frame [OF i]) (use d in simp_all)
  show ?thesis
    unfolding send_query_def Let_def ns1_def [symmetric] c prod.case
    apply (rule post_if)
    subgoal using i1 by (simp add: post_simps)
    apply (rule post_bind4 [OF try_query_inv [OF law i1]])
    apply (rule post_bind4 [OF try_query_inv [OF law]], assumption)
    by (simp add: post_simps)
qed

lemma poll_step_inv:
  assumes law: "renv_law opened env" and junk: "16 \<le> length (re_junk env)"
    and i: "ns_inv opened fds g0 w g ns" and r: "res_inv res0 res"
  shows "post (poll_step env w g ns res pfd) (\<lambda>(ns', res', pfd', g', w'). ns_inv opened fds g0 w' g' ns' \<and> res_inv res0 res')"
  unfolding poll_step_def
  apply (rule post_bind4 [where Q = "\<lambda>ns' pfd' g' w'. ns_inv opened fds g0 w' g' ns'"])
  subgoal using send_query_inv [OF law i] i by (simp add: post_simps)
  by (rule post_if) (simp_all add: post_simps recv_resp_inv [OF law junk _ r] r)

section \<open>Nameservers\<close>

lemma poll_loop_inv:
  assumes "renv_law opened env" "16 \<le> length (re_junk env)" "ns_inv opened fds g0 w g ns" "res_inv res0 res"
  shows "post (poll_loop env deadline rc w g ns res pfd) (\<lambda>(rc', ns', res', g', w'). ns_inv opened fds g0 w' g' ns' \<and> res_inv res0 res')"
proof (rule postI)
  let ?I = "\<lambda>(rc', ns', res', g', w'). ns_inv opened fds g0 w' g' ns' \<and> res_inv res0 res'"
  fix x
  assume "poll_loop env deadline rc w g ns res pfd = Some x"
  then have "renv_law opened env \<longrightarrow> 16 \<le> length (re_junk env) \<longrightarrow> ns_inv opened fds g0 w g ns \<longrightarrow> res_inv res0 res \<longrightarrow> ?I x"
  proof (rule poll_loop.raw_induct [where P = "\<lambda>env dl rc w g ns res pfd x. renv_law opened env \<longrightarrow> 16 \<le> length (re_junk env) \<longrightarrow>
      ns_inv opened fds g0 w g ns \<longrightarrow> res_inv res0 res \<longrightarrow> ?I x", rotated], intro impI)
    fix loop :: "'a renv \<Rightarrow> int \<Rightarrow> int \<Rightarrow> 'a \<Rightarrow> globs \<Rightarrow> dns_ns \<Rightarrow> dns_result \<Rightarrow> pollfd \<Rightarrow> (int \<times> dns_ns \<times> dns_result \<times> globs \<times> 'a) option"
      and env dl rc w g ns res pfd x
    assume ih: "\<And>env dl rc w g ns res pfd x. loop env dl rc w g ns res pfd = Some x \<Longrightarrow> renv_law opened env \<longrightarrow>
        16 \<le> length (re_junk env) \<longrightarrow> ns_inv opened fds g0 w g ns \<longrightarrow> res_inv res0 res \<longrightarrow> ?I x"
      and b: "(if active ns = 0 then Some (rc, ns, res, g, w)
        else case get_rem_ms env w dl of (ms, w) \<Rightarrow>
          case re_poll env w (pfd_fd pfd) (int (pfd_events pfd)) ms of ((rc, eintr), w) \<Rightarrow>
            if rc \<le> 0 then
              let rc = (if rc = 0 then DNS_ETIMEOUT else rc)
              in if eintr \<and> re_run env w then loop env dl rc w g ns res pfd else Some (rc, ns, res, g, w)
            else Option.bind (poll_step env w g ns res pfd) (\<lambda>(ns, res, pfd, g, w). loop env dl rc w g ns res pfd)) = Some x"
      and law: "renv_law opened env" and junk: "16 \<le> length (re_junk env)" and i: "ns_inv opened fds g0 w g ns" and r: "res_inv res0 res"
    have ih': "post (loop env dl rc w g ns res pfd) ?I" if "ns_inv opened fds g0 w g ns" "res_inv res0 res" for rc w g ns res pfd
      by (rule postI) (rule ih [THEN mp, THEN mp, THEN mp, THEN mp, OF _ law junk that])
    have i': "ns_inv opened fds g0 w2 g ns"
      if "get_rem_ms env w dl = (ms, w1)" "re_poll env w1 (pfd_fd pfd) (int (pfd_events pfd)) ms = (p, w2)" for ms w1 p w2
    proof -
      have "fds_same opened w w1" using that(1) renv_law_same(4) [OF law] by (auto simp: get_rem_ms_def split: prod.splits)
      from fds_same_trans [OF this renv_law_same(3) [OF law that(2)]] have "fds_same opened w w2" .
      then show ?thesis by (intro ns_inv_frame [OF i]) (use ns_invD [OF i] in simp_all)
    qed
    have "post (if active ns = 0 then Some (rc, ns, res, g, w)
        else case get_rem_ms env w dl of (ms, w) \<Rightarrow>
          case re_poll env w (pfd_fd pfd) (int (pfd_events pfd)) ms of ((rc, eintr), w) \<Rightarrow>
            if rc \<le> 0 then
              let rc = (if rc = 0 then DNS_ETIMEOUT else rc)
              in if eintr \<and> re_run env w then loop env dl rc w g ns res pfd else Some (rc, ns, res, g, w)
            else Option.bind (poll_step env w g ns res pfd) (\<lambda>(ns, res, pfd, g, w). loop env dl rc w g ns res pfd)) ?I"
      apply (rule post_if)
      subgoal using i r by (simp add: post_simps)
      apply (rule post_prod, rule post_prod, rule post_prod, rule post_if)
      subgoal by (rule post_let, rule post_if) (use i' r ih' in \<open>simp_all add: post_simps\<close>)
      subgoal by (rule post_bind5 [OF poll_step_inv [OF law junk i' r]]) (use ih' in auto)
      done
    from postD [OF this b] show "?I x" .
  qed
  from this [THEN mp, THEN mp, THEN mp, THEN mp, OF assms] show "?I x" .
qed

lemma ns_getrc_code:
  assumes "rc_ok ns"
  shows "ns_getrc ns res rc \<noteq> R_ETRUNC" "ns_getrc ns res rc \<le> 0"
proof -
  have "get_rcode ns res t \<noteq> R_ETRUNC \<and> get_rcode ns res t \<le> 0" for t
    using rc_ok_query [OF assms] by (simp add: get_rcode_def Let_def resolv_codes split: option.split)
  then show "ns_getrc ns res rc \<noteq> R_ETRUNC" "ns_getrc ns res rc \<le> 0"
    by (simp_all add: ns_getrc_def Let_def) (simp_all add: resolv_codes)
qed

lemma connect_now_inv:
  assumes law: "renv_law opened env" and c: "connect_now env w (ns_init name addr secs tcp) pfd = (go, ns, pfd', w')"
    and g: "g_inv g0 g"
  shows "ns_inv opened (opened w) g0 w' g ns"
proof -
  obtain fd w1 where s: "re_socket env w (da_family addr) (if tcp then SOCK_STREAM else SOCK_DGRAM) = (fd, w1)" by fastforce
  obtain r w2 where k: "re_connect env w1 fd addr = (r, w2)" by fastforce
  obtain rc sk w3 where dc: "do_connect env w sock_zero tcp addr = (rc, sk, w3)" by (metis prod_cases3)
  have "fd_inv opened (opened w) w3 sk"
  proof (cases "fd = -1")
    case True
    then have "w3 = w1" "\<not> is_open sk" using dc s by (auto simp: do_connect_def Let_def sock_zero_def)
    then show ?thesis using renv_lawD(9) [OF law s True] by (simp add: fd_inv_def)
  next
    case False
    have "w3 = w2 \<and> is_open sk \<and> ds_fd sk = fd" using dc s k False by (auto simp: do_connect_def Let_def split: if_splits)
    then show ?thesis using renv_lawD(10) [OF law s False] renv_lawD(3) [OF law k] by (simp add: fd_inv_def)
  qed
  moreover have "ns_sock ns = sk \<and> w' = w3 \<and> rc_ok ns"
    using c dc by (auto simp: connect_now_def ns_init_def rc_ok_def query_zero_def R_ETRUNC_def Let_def split: if_splits)
  ultimately show ?thesis using g by (simp add: ns_inv_def)
qed

lemma dns_sock_close_fds:
  assumes "renv_law opened env" "fd_inv opened fds w s" "dns_sock_close env w s = (s', w')"
  shows "opened w' = fds"
proof (cases "is_open s")
  case True
  then have "w' = re_close env w (ds_fd s)" using assms(3) by (simp add: dns_sock_close_def)
  then show ?thesis using renv_lawD(8) [OF assms(1)] assms(2) True by (simp add: fd_inv_def)
next
  case False
  then have "w' = w" using assms(3) by (simp add: dns_sock_close_def)
  then show ?thesis using assms(2) False by (simp add: fd_inv_def)
qed

text \<open>What every attempt keeps, whatever its outcome.\<close>

definition attempt :: "('w \<Rightarrow> int set) \<Rightarrow> globs \<Rightarrow> dns_result \<Rightarrow> 'w \<Rightarrow> dns_result \<Rightarrow> globs \<Rightarrow> 'w \<Rightarrow> bool" where
  "attempt opened g0 res0 w0 res g w \<longleftrightarrow> fds_same opened w0 w \<and> g_inv g0 g \<and> res_inv res0 res"

lemma try_nameserver_inv:
  assumes law: "renv_law opened env" and junk: "16 \<le> length (re_junk env)" and a: "attempt opened g0 res0 w0 res g w"
  shows "post (try_nameserver env w g name addr secs tcp res) (\<lambda>(rc, res', g', w'). rc \<noteq> R_ETRUNC \<and> rc \<le> 0 \<and> attempt opened g0 res0 w0 res' g' w')"
proof -
  have g: "g_inv g0 g" and r: "res_inv res0 res" and f: "fds_same opened w0 w" using a by (simp_all add: attempt_def)
  obtain go ns1 pfd1 w1 where c: "connect_now env w (ns_init name addr secs tcp) \<lparr> pfd_fd = 0, pfd_events = 0 \<rparr> = (go, ns1, pfd1, w1)"
    by (metis prod_cases4)
  note i1 = connect_now_inv [OF law c g]
  have send: "post (if go then send_query env w1 g ns1 res pfd1 else Some (ns1, pfd1, g, w1))
      (\<lambda>(ns', pfd', g', w'). ns_inv opened (opened w) g0 w' g' ns')"
    using send_query_inv [OF law i1] i1 by (simp add: post_simps)
  show ?thesis
    unfolding try_nameserver_def c prod.case
    apply (rule post_bind4 [OF send], rule post_let, rule post_prod)
    subgoal premises p for ns2 pfd2 g2 w2 dl w3
    proof -
      have "fds_same opened w2 w3" using p(2) renv_law_same(4) [OF law] by (auto simp: get_deadline_ms_def split: prod.splits)
      then have i3: "ns_inv opened (opened w) g0 w3 g2 ns2" by (intro ns_inv_frame [OF p(1)]) (use ns_invD [OF p(1)] in simp_all)
      show ?thesis
        apply (rule post_bind5 [OF poll_loop_inv [OF law junk i3 r]], rule post_let, rule post_prod, rule post_ret)
        subgoal premises q for rc ns4 res4 g4 w4 s5 w5
        proof -
          have "opened w5 = opened w" using dns_sock_close_fds [OF law _ q(2)] q(1) by (simp add: ns_inv_def)
          moreover have "rc_ok ns4" using q(1) by (simp add: ns_inv_def)
          ultimately show ?thesis using ns_getrc_code [of ns4 res4 rc] q(1) f by (simp add: attempt_def ns_inv_def fds_same_def)
        qed
        done
    qed
    done
qed

lemma query_round_inv:
  assumes law: "renv_law opened env" and junk: "16 \<le> length (re_junk env)" and "attempt opened g0 res0 w0 res g w" "rc \<le> 0"
  shows "post (query_round env name cfg addrs rc w g res) (\<lambda>(stop, rc', res', g', w'). rc' \<le> 0 \<and> attempt opened g0 res0 w0 res' g' w')"
  using assms(3,4)
proof (induction addrs arbitrary: rc w g res)
  case (Cons a addrs)
  show ?case
    unfolding query_round.simps
    apply (rule post_bind4 [OF try_nameserver_inv [OF law junk Cons.prems(1)]])
    subgoal premises p for rc1 res1 g1 w1
      using p Cons.IH [of res1 g1 w1 rc1] by (simp add: post_simps)
    done
qed (use assms in \<open>simp add: post_simps\<close>)

lemma query_attempts_inv:
  assumes law: "renv_law opened env" and junk: "16 \<le> length (re_junk env)" and "attempt opened g0 res0 w0 res g w" "rc \<le> 0"
  shows "post (query_attempts env name cfg n rc w g res) (\<lambda>(rc', res', g', w'). rc' \<le> 0 \<and> attempt opened g0 res0 w0 res' g' w')"
  using assms(3,4)
proof (induction n arbitrary: rc w g res)
  case (Suc n)
  show ?case
    unfolding query_attempts.simps
    apply (rule post_bind5 [OF query_round_inv [OF law junk Suc.prems]], rule post_if)
    using Suc.IH by (simp_all add: post_simps)
qed (use assms in \<open>simp add: post_simps\<close>)

lemma res_inv_need [simp]:
  "res_inv res0 (res\<lparr> need_ip4 := b \<rparr>) = res_inv res0 res" "res_inv res0 (res\<lparr> need_ip6 := b \<rparr>) = res_inv res0 res"
  by (simp_all add: res_inv_def res_ok_def same_request_def)

lemma cache_step_inv:
  assumes law: "renv_law opened env" and a: "attempt opened g0 res0 w0 res g w"
    and upd: "\<And>res. res_inv res0 res \<Longrightarrow> res_inv res0 (upd res)"
  shows "post (if b then do {
        (addr, cache, w) \<leftarrow> cache_get env w (glob_cache g) family (r_host res);
        (idx, res) \<leftarrow> (case addr of None \<Rightarrow> Some (-1, res) | Some a \<Rightarrow> res_add_addr res a);
        Some (if idx \<noteq> -1 then upd res else res, g\<lparr> glob_cache := cache \<rparr>, w)
      } else Some (res, g, w)) (\<lambda>(res', g', w'). attempt opened g0 res0 w0 res' g' w')"
proof -
  have g: "g_inv g0 g" and r: "res_inv res0 res" and f: "fds_same opened w0 w" using a by (simp_all add: attempt_def)
  have c: "cache_sane (glob_cache g)" using g by (simp add: g_inv_def)
  have add: "post (case x of None \<Rightarrow> Some (-1, res) | Some a \<Rightarrow> res_add_addr res a) (\<lambda>(idx, res'). res_inv res0 res')"
    if "\<forall>y. x = Some y \<longrightarrow> addr_sane y" for x
    using that r res_add_addr_inv [OF r] by (cases x) (simp_all add: post_simps)
  show ?thesis
    apply (rule post_if)
    subgoal
      apply (rule post_bind3 [OF cache_get_keeps [OF law c]])
      subgoal premises p for x cache w1
      proof -
        have "fds_same opened w0 w1" by (rule fds_same_trans [OF f]) (use p in simp)
        moreover have "g_inv g0 (g\<lparr> glob_cache := cache \<rparr>)" using g p by (simp add: g_inv_cache)
        ultimately show ?thesis
          by (intro post_bind2 [OF add]) (use p upd in \<open>simp_all add: post_simps attempt_def\<close>)
      qed
      done
    subgoal using a by (simp add: post_simps)
    done
qed

lemma query_name_inv:
  assumes law: "renv_law opened env" and junk: "16 \<le> length (re_junk env)" and a: "attempt opened g0 res0 w0 res g w"
  shows "post (query_name env name cfg w g res) (\<lambda>(rc', res', g', w'). rc' \<le> 0 \<and> attempt opened g0 res0 w0 res' g' w')"
proof -
  have "post (try_cache env w g name res) (\<lambda>(need, res', g', w'). attempt opened g0 res0 w0 res' g' w')"
    unfolding try_cache_def
    apply (rule post_bind3 [OF cache_step_inv [OF law a]], simp)
    apply (rule post_bind3 [OF cache_step_inv [OF law]], assumption, simp)
    by (simp add: post_simps)
  then show ?thesis
    unfolding query_name_def
    apply (rule post_bind4)
    apply (rule post_if)
    subgoal by (simp add: post_simps)
    subgoal by (rule query_attempts_inv [OF law junk]) (simp_all add: DNS_ERR_def)
    done
qed

lemma query_search_inv:
  assumes law: "renv_law opened env" and junk: "16 \<le> length (re_junk env)" and a: "attempt opened g0 res0 w0 res g w"
  shows "post (query_search env tmp name cfg w g res) (\<lambda>(rc', res', g', w'). rc' \<le> 0 \<and> attempt opened g0 res0 w0 res' g' w')"
proof -
  have "post (search_loop env name cfg buf search rc w g res) (\<lambda>(rc', res', g', w'). rc' \<le> 0 \<and> attempt opened g0 res0 w0 res' g' w')"
    if "attempt opened g0 res0 w0 res g w" "rc \<le> 0" for buf search rc w g res
    using that
  proof (induction search arbitrary: buf rc w g res)
    case (Cons sfx search)
    show ?case
      unfolding search_loop.simps
      apply (rule post_prod, rule post_bind4 [OF query_name_inv [OF law junk Cons.prems(1)]], rule post_if)
      subgoal by (simp add: post_simps)
      subgoal by (rule Cons.IH) simp_all
      done
  qed (simp add: post_simps)
  then show ?thesis using a by (simp add: query_search_def DNS_NXDOMAIN_def)
qed

section \<open>The answer\<close>

text \<open>What the caller of \<open>dns_resolv\<close> gets: \<open>rc\<close> well-formed addresses in its array of \<open>n\<close>, or a code that is not positive.\<close>

definition answer :: "nat \<Rightarrow> int \<Rightarrow> dns_sockaddr list \<Rightarrow> bool" where
  "answer n rc as \<longleftrightarrow> length as = n \<and> rc \<le> int n \<and> (\<forall>k. int k < rc \<longrightarrow> addr_ok (as ! k))"

lemma answer_fixup:
  assumes "res_ok res"
  obtains res' where "fixup_addrs res = Some res'" "max_addr res' = max_addr res" "answer (max_addr res) (int (num_addr res')) (res_mem res')"
proof -
  obtain res' where f: "fixup_addrs res = Some res'" and p: "same_request res res'" "length (r_addrs res') = max_addr res" "r_stray res' = []"
    "num_addr res' \<le> num_addr res" "\<forall>k < num_addr res'. addr_ok (r_addrs res' ! k)"
    using fixup_addrs_ok [OF assms] by metis
  show ?thesis
    by (rule that [OF f]) (use p res_okD(3) [OF assms] in \<open>simp_all add: answer_def same_request_def res_mem_def\<close>)
qed

lemma answer_le_0: "length as = n \<Longrightarrow> rc \<le> 0 \<Longrightarrow> answer n rc as"
  by (simp add: answer_def)

lemma found_answer:
  assumes "res_ok res"
  shows "post (found res) (\<lambda>(rc, res'). rc \<noteq> 0 \<and> answer (max_addr res) rc (res_mem res'))"
proof -
  obtain res' where f: "fixup_addrs res = Some res'" "max_addr res' = max_addr res" "answer (max_addr res) (int (num_addr res')) (res_mem res')"
    by (rule answer_fixup [OF assms])
  have "length (res_mem res') = max_addr res" using f(3) by (simp add: answer_def)
  then show ?thesis using f answer_le_0 [of "res_mem res'" _ "-1"] by (simp add: found_def post_simps)
qed

lemma try_nameservers_answer:
  assumes law: "renv_law opened env" and junk: "16 \<le> length (re_junk env)" and a: "attempt opened g0 res0 w0 res g w"
  shows "post (try_nameservers env tmp w g res) (\<lambda>(rc, res', g', w'). answer (max_addr res0) rc (res_mem res') \<and> fds_same opened w0 w' \<and> g_inv g0 g')"
proof -
  have m: "res_ok res'" "max_addr res' = max_addr res0" "length (res_mem res') = max_addr res0" if "attempt opened g0 res0 w0 res' g' w'" for res' g' w'
    using that res_okD(1,4) [of res'] by (simp_all add: res_mem_def attempt_def res_inv_def same_request_def)
  note q = query_name_inv [OF law junk] and t = query_search_inv [OF law junk]
  let ?Q = "\<lambda>rc' res' g' w'. rc' \<le> 0 \<and> attempt opened g0 res0 w0 res' g' w'"
  show ?thesis
    unfolding try_nameservers_def Let_def
    apply (rule post_if)
    subgoal using a m [OF a] by (simp add: post_simps answer_le_0 attempt_def)
    apply (rule post_bind4 [where Q = ?Q])
    subgoal
      apply (intro post_if)
      subgoal by (rule q [OF a])
      subgoal by (rule post_bind4 [OF q [OF a]], rule post_if) (use t in \<open>simp_all add: post_simps\<close>)
      subgoal by (rule post_bind4 [OF t [OF a]], rule post_if) (use q in \<open>simp_all add: post_simps\<close>)
      done
    subgoal premises p for rc1 res1 g1 w1
    proof -
      have a1: "attempt opened g0 res0 w0 res1 g1 w1" using p by simp
      note m1 = m [OF a1]
      obtain res' where f: "fixup_addrs res1 = Some res'" "max_addr res' = max_addr res1" "answer (max_addr res1) (int (num_addr res')) (res_mem res')"
        by (rule answer_fixup [OF m1(1)])
      have "length (res_mem res') = max_addr res0" using f(3) m1 by (simp add: answer_def)
      then show ?thesis using p f m1 a1 by (simp add: post_simps answer_le_0 attempt_def)
    qed
    done
qed

definition fresh :: "nat \<Rightarrow> dns_result \<Rightarrow> bool" where
  "fresh n res \<longleftrightarrow> res_ok res \<and> max_addr res = n \<and> (\<forall>a \<in> set (r_addrs res). addr_sane a)"

lemma fresh_frame [simp]:
  "fresh n (res\<lparr> r_flags := f \<rparr>) = fresh n res" "fresh n (res\<lparr> tcp_port := p \<rparr>) = fresh n res" "fresh n (res\<lparr> udp_port := p \<rparr>) = fresh n res"
  "fresh n (res\<lparr> need_ip4 := b \<rparr>) = fresh n res" "fresh n (res\<lparr> need_ip6 := b \<rparr>) = fresh n res"
  by (simp_all add: fresh_def res_ok_def)

lemma fresh_inv: "fresh n res \<Longrightarrow> res_inv res res"
  by (simp add: fresh_def res_inv_def)

lemma inv_fresh: "fresh n res0 \<Longrightarrow> res_inv res0 res \<Longrightarrow> fresh n res"
  by (simp add: fresh_def res_inv_def same_request_def)

lemma fresh_answer: "fresh n res \<Longrightarrow> rc \<le> 0 \<Longrightarrow> answer n rc (res_mem res)"
  by (simp add: answer_le_0 fresh_def res_ok_def res_mem_def)

text \<open>A step of the resolution: it is over with an answer, or it goes on.\<close>

definition goes_on :: "nat \<Rightarrow> int \<Rightarrow> dns_result \<Rightarrow> bool" where
  "goes_on n rc res \<longleftrightarrow> (if rc = 0 then fresh n res else answer n rc (res_mem res))"

lemma try_port_goes_on: "fresh n res \<Longrightarrow> post (try_port g res) (\<lambda>(rc, res'). goes_on n rc res')"
  unfolding try_port_def Let_def by (intro post_intros) (simp_all add: goes_on_def fresh_answer)

lemma ipstr_decode_length:
  assumes "length stk = 16"
  shows "post (ipstr_decode str stk) (\<lambda>(type, ip). length ip = 16)"
proof -
  obtain n ip where 4: "ip4_str_decode (slice_bytes str) stk 0 = Some (n, ip)" "length ip = 16"
    using ip4_str_decode_safe [of 0 stk "slice_bytes str"] assms by auto
  obtain m ip6 where 6: "ip6_str_decode (slice_bytes str) ip = Some (m, ip6)" "length ip6 = 16"
    if "n = 0"
    using ip6_loop_safe [of ip 0 0 None 0 "slice_bytes str" 0 "slice_bytes str" 0 0] 4(2) overlong_iff [OF _ 4(1)] that assms
    by (auto simp: ip6_str_decode_def)
  show ?thesis using 4 6 by (cases "n = 0") (auto simp: ipstr_decode_def post_simps)
qed

lemma found_goes_on: "fresh n res \<Longrightarrow> post (found res) (\<lambda>(rc, res'). goes_on n rc res')"
  by (rule post_mono [OF found_answer]) (auto simp: fresh_def goes_on_def)

lemma add_ip_fresh:
  assumes "fresh n res" "type = DNS_IPV4 \<Longrightarrow> 4 \<le> length ip" "type = DNS_IPV6 \<Longrightarrow> 16 \<le> length ip"
  shows "post (res_add_ip res type ip) (\<lambda>(rc, res'). fresh n res')"
  by (rule post_mono [OF res_add_ip_inv [OF fresh_inv [OF assms(1)] assms(2,3)]]) (auto intro: inv_fresh [OF assms(1)])

lemma try_hostname_goes_on:
  assumes f: "fresh n res" and stk: "length stk = 16"
  shows "post (try_hostname stk res) (\<lambda>(rc, res'). goes_on n rc res')"
proof -
  let ?step = "\<lambda>res. if slice_bytes (r_host res) = [] then do {
          let passive = (r_flags res AND DNS_PASSIVE \<noteq> 0);
          (_, res) \<leftarrow> (if need_ip4 res then res_add_ip res DNS_IPV4 (if passive then ip4_any else ip4_loopback) else Some (0, res));
          (_, res) \<leftarrow> (if need_ip6 res then res_add_ip res DNS_IPV6 (if passive then ip6_any else ip6_loopback) else Some (0, res));
          found res
        }
        else do {
          (type, ip) \<leftarrow> ipstr_decode (r_host res) stk;
          if type = 0 then Some (0, res)
          else
            let allow = r_flags res AND (DNS_IPV4 OR DNS_IPV6 OR DNS_V4MAPPED);
                allow = (if allow AND DNS_V4MAPPED \<noteq> 0 then allow OR DNS_IPV4 else allow)
            in if allow AND type = 0 then Some (-1, res)
               else do { (_, res) \<leftarrow> res_add_ip res type ip; found res }
        }"
  have main: "post (?step res) (\<lambda>(rc, res'). goes_on n rc res')" if f: "fresh n res" for res
  proof (rule post_if)
    have 4: "post (if b then res_add_ip res DNS_IPV4 (if c then ip4_any else ip4_loopback) else Some (0, res)) (\<lambda>(_, res'). fresh n res')"
      if "fresh n res" for b c res
      using add_ip_fresh [OF that, of DNS_IPV4] that dns_flags_distinct by (simp add: post_simps ip4_any_def ip4_loopback_def)
    have 6: "post (if b then res_add_ip res DNS_IPV6 (if c then ip6_any else ip6_loopback) else Some (0, res)) (\<lambda>(_, res'). fresh n res')"
      if "fresh n res" for b c res
      using add_ip_fresh [OF that, of DNS_IPV6] that dns_flags_distinct by (simp add: post_simps ip6_any_def ip6_loopback_def)
    show "post (do {
          let passive = (r_flags res AND DNS_PASSIVE \<noteq> 0);
          (_, res) \<leftarrow> (if need_ip4 res then res_add_ip res DNS_IPV4 (if passive then ip4_any else ip4_loopback) else Some (0, res));
          (_, res) \<leftarrow> (if need_ip6 res then res_add_ip res DNS_IPV6 (if passive then ip6_any else ip6_loopback) else Some (0, res));
          found res
        }) (\<lambda>(rc, res'). goes_on n rc res')"
      unfolding Let_def by (rule post_bind2 [OF 4 [OF f]], rule post_bind2 [OF 6], assumption, rule found_goes_on)
  next
    show "post (do {
          (type, ip) \<leftarrow> ipstr_decode (r_host res) stk;
          if type = 0 then Some (0, res)
          else
            let allow = r_flags res AND (DNS_IPV4 OR DNS_IPV6 OR DNS_V4MAPPED);
                allow = (if allow AND DNS_V4MAPPED \<noteq> 0 then allow OR DNS_IPV4 else allow)
            in if allow AND type = 0 then Some (-1, res)
               else do { (_, res) \<leftarrow> res_add_ip res type ip; found res }
        }) (\<lambda>(rc, res'). goes_on n rc res')"
      apply (rule post_bind2 [OF ipstr_decode_length [OF stk]], rule post_if)
      subgoal using f by (simp add: post_simps goes_on_def)
      unfolding Let_def
      apply (rule post_if)
      subgoal using f by (simp add: post_simps goes_on_def fresh_answer)
      subgoal by (rule post_bind2 [OF add_ip_fresh [OF f]]) (auto intro: found_goes_on)
      done
  qed
  show ?thesis unfolding try_hostname_def by (intro post_let main) (use f in simp)
qed

text \<open>
  The state the resolver works on: the addresses of the cache, of the host table and of the array of
  the caller have the bytes of their family, and the array for a numeric address has 16 bytes.
\<close>

definition sane_call :: "globs \<Rightarrow> bytes \<Rightarrow> dns_sockaddr list \<Rightarrow> bool" where
  "sane_call g stk addrs \<longleftrightarrow> length stk = 16 \<and> cache_sane (glob_cache g) \<and> (\<forall>a \<in> set (h_addrs (glob_hosts g)). addr_sane a) \<and>
    (\<forall>a \<in> set addrs. addr_sane a)"

lemma try_hosts_goes_on:
  assumes f: "fresh n res" and h: "\<forall>a \<in> set (h_addrs (glob_hosts g)). addr_sane a"
  shows "post (try_hosts g res) (\<lambda>(rc, res'). goes_on n rc res')"
proof -
  have get: "post (hosts_get (glob_hosts g) name) (\<lambda>a. \<forall>x. a = Some x \<longrightarrow> addr_sane x)" for name
    unfolding hosts_get_def by (intro post_intros) (use h ptr_at_lt in \<open>auto intro!: bspec [OF h] nth_mem\<close>)
  have add: "post (do { (_, res) \<leftarrow> res_add_addr res a; found res }) (\<lambda>(rc, res'). goes_on n rc res')" if "addr_sane a" for a
    by (rule post_bind2 [OF res_add_addr_inv [OF fresh_inv [OF f] that]]) (auto intro: found_goes_on inv_fresh [OF f])
  show ?thesis
    unfolding try_hosts_def
    by (rule post_bindI [OF get], rule post_option) (use f add in \<open>simp_all add: post_simps goes_on_def\<close>)
qed

lemma dns_resolv_post:
  assumes law: "renv_law opened env" and junk: "16 \<le> length (re_junk env)" and s: "sane_call g stk addrs"
  shows "post (dns_resolv env tmp stk w g flags host port addrs)
    (\<lambda>(rc, as, g', w'). answer (length addrs) rc as \<and> fds_same opened w w' \<and> g_inv g g')"
proof -
  note d = s [unfolded sane_call_def]
  have g: "g_inv g g" using d by (simp add: g_inv_def)
  have f: "fresh (length addrs) (res_init flags host port addrs)"
    using d by (simp add: fresh_def res_init_def res_ok_def)
  have stop: "post (Some (rc, res_mem res, g, w)) (\<lambda>(rc, as, g', w'). answer (length addrs) rc as \<and> fds_same opened w w' \<and> g_inv g g')"
    if "rc \<noteq> 0" "goes_on (length addrs) rc res" for rc res
    using that g by (simp add: post_simps goes_on_def)
  show ?thesis
    unfolding dns_resolv_def
    apply (rule post_if)
    subgoal using g by (simp add: post_simps answer_def)
    apply (rule post_bind2 [OF try_port_goes_on [OF f]], rule post_if, erule stop, assumption)
    apply (rule post_bind2 [OF try_hostname_goes_on [where n = "length addrs"]])
    subgoal by (simp add: goes_on_def)
    subgoal using d by simp
    apply (rule post_if, erule stop, assumption)
    apply (rule post_bind2 [OF try_hosts_goes_on [where n = "length addrs"]])
    subgoal by (simp add: goes_on_def)
    subgoal using d by simp
    apply (rule post_if, erule stop, assumption)
    subgoal premises p for _ _ _ _ rc res
    proof -
      have f: "fresh (length addrs) res" using p by (simp add: goes_on_def)
      have a: "attempt opened g res w res g w" using g fresh_inv [OF f] by (simp add: attempt_def)
      show ?thesis
        by (rule post_bind4 [OF try_nameservers_answer [OF law junk a]]) (use f in \<open>simp add: post_simps fresh_def\<close>)
    qed
    done
qed

text \<open>
  C8. The answers of the resolver: for every system that keeps its descriptors in order, every
  configuration, cache, host table and nameserver, whenever \<open>dns_resolv\<close> returns, its value is at most
  the number of addresses the caller has room for, nothing was stored outside the array of the caller
  (what is would stand behind the array in the result), and the first addresses of it, as many as the
  value says, are well-formed IPv4 or IPv6 socket addresses.
\<close>

theorem dns_resolv_answers:
  assumes "renv_law opened env" "16 \<le> length (re_junk env)" "sane_call g stk addrs"
    and "dns_resolv env tmp stk w g flags host port addrs = Some (rc, as, g', w')"
  shows "length as = length addrs \<and> rc \<le> int (length addrs) \<and> (\<forall>k. int k < rc \<longrightarrow> addr_ok (as ! k))"
  using postD [OF dns_resolv_post [OF assms(1-3)] assms(4)] by (simp add: answer_def)

text \<open>
  C9. The resolver leaks no descriptor and keeps its tables: whenever \<open>dns_resolv\<close> returns, with an
  answer or an error and after any number of nameservers, timeouts and failed connections, the open
  descriptors are those before the call, the configuration and the tables of hosts and services are
  unchanged, and the state is again one the resolver can be called in.
\<close>

theorem dns_resolv_no_leak:
  assumes "renv_law opened env" "16 \<le> length (re_junk env)" "sane_call g stk addrs"
    and "dns_resolv env tmp stk w g flags host port addrs = Some (rc, as, g', w')"
  shows "opened w' = opened w \<and> glob_cfg g' = glob_cfg g \<and> glob_hosts g' = glob_hosts g \<and> glob_svcs g' = glob_svcs g \<and>
    cache_sane (glob_cache g')"
  using postD [OF dns_resolv_post [OF assms(1-3)] assms(4)] by (simp add: fds_same_def g_inv_def)

text \<open>
  C37. A truncated response is never repeated over TCP: whatever a nameserver sends, \<open>try_nameserver\<close>
  does not return \<open>DNS_ETRUNC\<close>, since \<open>chk_dnsrsp\<close> returns it without storing it in \<open>last_rc\<close>, so that the
  second call in \<open>query_name\<close> is never made.
\<close>

theorem try_nameserver_no_fallback:
  assumes "renv_law opened env" "16 \<le> length (re_junk env)" "cache_sane (glob_cache g)" "fresh n res"
    and "try_nameserver env w g name addr secs tcp res = Some (rc, res', g', w')"
  shows "rc \<noteq> R_ETRUNC \<and> rc \<le> 0"
proof -
  have "attempt opened g res w res g w" using assms(3) fresh_inv [OF assms(4)] by (simp add: attempt_def g_inv_def)
  from postD [OF try_nameserver_inv [OF assms(1,2) this] assms(5)] show ?thesis by simp
qed

section \<open>A system\<close>

text \<open>A system whose state is the set of open descriptors; it has no files and no nameserver can be reached.\<close>

definition lone_env :: "int set renv" where
  "lone_env = \<lparr> re_open = (\<lambda>w path. (-1, w)), re_read = (\<lambda>w fd n. (RdErr EAGAIN, w)), re_write = (\<lambda>w fd bs. (WrErr EAGAIN, w)),
    re_close = (\<lambda>w fd. w - {fd}), re_socket = (\<lambda>w f t. if 3 \<in> w then (-1, w) else (3, insert 3 w)),
    re_connect = (\<lambda>w fd a. (ConnFailed, w)), re_sockerr = (\<lambda>w fd. (None, w)), re_poll = (\<lambda>w fd ev ms. ((0, False), w)),
    re_now_ms = (\<lambda>w. (0, w)), re_tid = (\<lambda>w. (1, w)), re_run = (\<lambda>w. True), re_calloc = (\<lambda>n. True), re_un = (\<lambda>_. 0), re_uz = (\<lambda>_. 0),
    re_junk = replicate 16 0 \<rparr>"

lemma lone_env_law: "renv_law id lone_env"
  by (simp add: renv_law_def lone_env_def)

lemma lone_env_junk: "16 \<le> length (re_junk lone_env)"
  by (simp add: lone_env_def)

lemma sane_call_zero: "sane_call globs_zero (replicate 16 0) [sockaddr_zero, sockaddr_zero]"
  by (simp add: sane_call_def globs_zero_def cache_sane_def)

lemma lone_loopback:
  "dns_resolv lone_env [] (replicate 16 0) {0, 1, 2} globs_zero (DNS_TCP OR DNS_IPV4) None None [sockaddr_zero, sockaddr_zero] =
    Some (1, [snd (sockaddr_load DNS_IPV4 ip4_loopback DNS_TCP 0), snd (sockaddr_load DNS_IPV4 ip4_loopback DNS_TCP 0)], globs_zero, {0, 1, 2})"
  by (simp add: dns_resolv_def res_init_def try_port_def try_hostname_def Let_def dns_flag_defs res_add_ip_def res_add_ip_port_def res_put_def res_get_def
      res_mem_def ip4_loopback_def
      res_isfull_def sockaddr_load_def found_def fixup_addrs_def)

theorem dns_resolv_answers_witness:
  "\<exists>rc as g' w'. dns_resolv lone_env [] (replicate 16 0) {0, 1, 2} globs_zero (DNS_TCP OR DNS_IPV4) None None [sockaddr_zero, sockaddr_zero] = Some (rc, as, g', w') \<and>
    length as = 2 \<and> rc = 1 \<and> addr_ok (as ! 0)"
  using dns_resolv_answers [OF lone_env_law lone_env_junk sane_call_zero lone_loopback] lone_loopback by simp

theorem dns_resolv_no_leak_witness:
  "\<exists>rc as g' w'. dns_resolv lone_env [] (replicate 16 0) {0, 1, 2} globs_zero (DNS_TCP OR DNS_IPV4) None None [sockaddr_zero, sockaddr_zero] = Some (rc, as, g', w') \<and>
    w' = {0, 1, 2} \<and> cache_sane (glob_cache g')"
  using dns_resolv_no_leak [OF lone_env_law lone_env_junk sane_call_zero lone_loopback] lone_loopback by simp

definition wait_res :: dns_result where
  "wait_res = (res_init (DNS_TCP OR DNS_IPV4) (Some (ascii ''db'')) None [sockaddr_zero, sockaddr_zero])\<lparr> need_ip4 := True \<rparr>"

lemma lone_nameserver:
  "try_nameserver lone_env {0, 1, 2} globs_zero (Some (ascii ''db'')) (snd (sockaddr_load DNS_IPV4 ip4_loopback 0 53)) 5 False wait_res =
    Some (DNS_OK, wait_res, globs_zero, {0, 1, 2})"
  by (simp add: try_nameserver_def connect_now_def ns_init_def do_connect_def lone_env_def sockaddr_load_def dns_flag_defs sock_zero_def Let_def
      get_deadline_ms_def poll_loop.simps dns_sock_close_def ns_getrc_def get_rcode_def get_query_def ns_query_def query_zero_def resolv_codes wait_res_def
      res_init_def dns_type_defs)

theorem try_nameserver_no_fallback_witness:
  "\<exists>rc res' g' w'. try_nameserver lone_env {0, 1, 2} globs_zero (Some (ascii ''db'')) (snd (sockaddr_load DNS_IPV4 ip4_loopback 0 53)) 5 False wait_res =
    Some (rc, res', g', w') \<and> rc \<noteq> R_ETRUNC \<and> rc \<le> 0"
proof -
  have "fresh 2 wait_res" by (simp add: fresh_def wait_res_def res_init_def res_ok_def)
  moreover have "cache_sane (glob_cache globs_zero)" by (simp add: globs_zero_def cache_sane_def)
  ultimately show ?thesis
    using try_nameserver_no_fallback [OF lone_env_law lone_env_junk _ _ lone_nameserver] lone_nameserver by blast
qed

section \<open>A nameserver that cannot be reached\<close>

text \<open>
  C38. A nameserver that cannot be asked ends the resolution: when no socket can be made or the
  connection is refused, \<open>try_nameserver\<close> returns \<open>DNS_OK\<close> without an address, so that \<open>query_name\<close>
  does not go on to the other nameservers of the configuration.
\<close>

theorem unreachable_nameserver_ends_query:
  assumes "re_socket env w (da_family addr) (if cf_use_tcp cfg then SOCK_STREAM else SOCK_DGRAM) = (fd, w1)"
    and "fd = -1 \<or> fst (re_connect env w1 fd addr) = ConnFailed"
  shows "\<exists>w'. query_round env name cfg (addr # addrs) rc w g res = Some (True, DNS_OK, res, g, w')"
proof -
  obtain r w2 where c: "re_connect env w1 fd addr = (r, w2)" by fastforce
  have "\<exists>w'. try_nameserver env w g name addr secs (cf_use_tcp cfg) res = Some (DNS_OK, res, g, w')" for secs
    using assms c
    by (cases "fd = -1") (simp_all add: try_nameserver_def connect_now_def do_connect_def ns_init_def Let_def poll_loop.simps ns_getrc_def get_rcode_def
        get_query_def ns_query_def query_zero_def resolv_codes split: prod.split)
  then obtain w' where "try_nameserver env w g name addr (timeout_secs cfg) (cf_use_tcp cfg) res = Some (DNS_OK, res, g, w')" by blast
  then show ?thesis by (simp add: stop_query_def R_ETRUNC_def DNS_OK_def)
qed

theorem unreachable_nameserver_ends_query_witness:
  "\<exists>w'. query_round lone_env (Some (ascii ''db'')) (glob_cfg globs_zero)
    [snd (sockaddr_load DNS_IPV4 ip4_loopback 0 53), snd (sockaddr_load DNS_IPV4 [10, 0, 0, 1] 0 53)] DNS_ERR {0, 1, 2} globs_zero wait_res =
    Some (True, DNS_OK, wait_res, globs_zero, w')"
  by (rule unreachable_nameserver_ends_query [of _ _ _ _ 3 "{0, 1, 2, 3}"])
    (simp_all add: lone_env_def sockaddr_load_def dns_flag_defs globs_zero_def insert_commute)

end
