(* ===== verification/Resolv_Numeric.thy ===== *)
theory Resolv_Numeric
  imports Resolv_Safety
begin

text \<open>
  Resolving a numeric address and port with \<open>dns_resolv\<close>: the text of an address and of a port
  gives that address and that port, at once and for every state of the resolver.
\<close>

text \<open>The IPv4 addresses of a request: one per kind of socket that the flags ask for.\<close>

definition wanted :: "u32 \<Rightarrow> nat list" where
  "wanted flags = (if flags AND DNS_TCP \<noteq> 0 then [SOCK_STREAM] else []) @ (if flags AND DNS_UDP \<noteq> 0 then [SOCK_DGRAM] else [])"

definition v4_addr :: "bytes \<Rightarrow> u16 \<Rightarrow> nat \<Rightarrow> dns_sockaddr" where
  "v4_addr ip port t = \<lparr> da_family = AF_INET, da_len = 16, da_port = bswap16 port, da_ip = ip, da_sock_type = t \<rparr>"

lemma word_and_or_0: "(x :: 'a :: len word) AND (a OR b) = 0 \<longleftrightarrow> x AND a = 0 \<and> x AND b = 0"
  by (simp add: bit_eq_iff bit_simps) blast

lemma try_port_numeric:
  assumes "wanted (r_flags res) \<noteq> []" "r_port res = Some (uint16_toa port)"
  shows "\<exists>tcp udp. try_port g res = Some (0, res\<lparr> tcp_port := tcp, udp_port := udp \<rparr>) \<and>
    (r_flags res AND DNS_TCP \<noteq> 0 \<longrightarrow> tcp = uint port) \<and> (r_flags res AND DNS_UDP \<noteq> 0 \<longrightarrow> udp = uint port)"
proof -
  let ?p = "Some (uint16_toa port)"
  have p: "slice_tou32 ?p = ucast port" "slice_isnumeric ?p" "slice_bytes ?p \<noteq> []"
    using dec_digits_numeral by (simp_all add: slice_tou32_def slice_isnumeric_def uint16_toa_eq str_tou32_dec_digits str_isnumeric_def)
  have lt: "uint port < 2 ^ LENGTH(16)" by (rule unsigned_less)
  then have u: "uint (ucast port :: u32) = uint port" by (simp add: unsigned_ucast_eq take_bit_int_eq_self)
  then have le: "\<not> (ucast port :: u32) > 65535" using lt by (simp add: word_less_def)
  show ?thesis
    by (rule exI [of _ "if r_flags res AND DNS_TCP \<noteq> 0 then uint port else tcp_port res"],
        rule exI [of _ "if r_flags res AND DNS_UDP \<noteq> 0 then uint port else udp_port res"])
      (use assms p le u in \<open>auto simp: try_port_def Let_def wanted_def word_and_or_0 split: if_splits\<close>)
qed

lemma ipstr_decode_text:
  assumes "length ip = 4" "length stk = 16"
  shows "\<exists>rest. ipstr_decode (Some (ip4_text ip)) stk = Some (DNS_IPV4, ip @ rest)"
proof -
  have "ip4_text ip \<noteq> []" by (simp add: ip4_text_def)
  then show ?thesis
    using ip4_str_decode_text [of ip "[]" 0 stk] assms by (auto simp: ipstr_decode_def)
qed

lemma sockaddr_load_v4:
  assumes "length ip = 4"
  shows "sockaddr_load DNS_IPV4 (ip @ rest) DNS_TCP port = (True, v4_addr ip port SOCK_STREAM)"
    and "sockaddr_load DNS_IPV4 (ip @ rest) DNS_UDP port = (True, v4_addr ip port SOCK_DGRAM)"
  using assms dns_flags_distinct by (simp_all add: sockaddr_load_def v4_addr_def)

text \<open>Adding the addresses of an empty result and putting them together.\<close>

lemma found_numeric:
  assumes ip: "length ip = 4" and w: "wanted (r_flags res) \<noteq> []" and room: "2 * length (wanted (r_flags res)) \<le> max_addr res + 1"
    and z: "num_ip4 res = 0" "num_ip6 res = 0" "num_addr res = 0" "length (r_addrs res) = max_addr res" "r_stray res = []"
    and g_def: "g = (if r_flags res AND DNS_V4MAPPED \<noteq> 0 then v4_mapped else id)"
    and t: "r_flags res AND DNS_TCP \<noteq> 0 \<longrightarrow> tcp_port res = uint port" and u: "r_flags res AND DNS_UDP \<noteq> 0 \<longrightarrow> udp_port res = uint port"
  shows "\<exists>res'. do { (_, res) \<leftarrow> res_add_ip res DNS_IPV4 (ip @ rest); found res } = Some (int (length (wanted (r_flags res))), res') \<and>
    take (length (wanted (r_flags res))) (res_mem res') =
      map (\<lambda>t. g (v4_addr ip port t)) (wanted (r_flags res))"
proof -
  let ?m = "max_addr res" and ?a = "r_addrs res"
  note l = sockaddr_load_v4 [OF ip]
  have one: "\<exists>res'. found (res\<lparr> r_addrs := ?a[?m - 1 := x], num_ip4 := 1, num_addr := 1 \<rparr>) = Some (1, res') \<and> take 1 (res_mem res') = [g x]"
    if m1: "1 \<le> ?m" for x
  proof -
    have n: "nat (int ?m - 1) = ?m - 1" using m1 by simp
    let ?as = "?a[?m - 1 := x]"
    have x: "?as ! (?m - 1) = x" "length ?as = ?m" using m1 z(4) by simp_all
    then have "fixup_addrs (res\<lparr> r_addrs := ?as, num_ip4 := 1, num_addr := 1 \<rparr>) = Some (res\<lparr> r_addrs := ?as[0 := g x], num_ip4 := 1, num_addr := 1 \<rparr>)"
      using m1 z n by (simp add: fixup_addrs_def Let_def g_def res_get_def res_put_def)
    moreover have "take 1 (?as[0 := g x]) = [g x]" using m1 x(2) by (cases ?as) auto
    ultimately show ?thesis using z(5) by (simp add: found_def res_mem_def)
  qed
  have two: "\<exists>res'. found (res\<lparr> r_addrs := ?a[?m - 1 := x, ?m - 2 := y], num_ip4 := 2, num_addr := 2 \<rparr>) = Some (2, res') \<and>
      take (Suc (Suc 0)) (res_mem res') = [g x, g y]" if m1: "3 \<le> ?m" for x y
  proof -
    have n: "nat (int ?m - 1) = ?m - 1" "nat (int ?m - 2) = ?m - 2" using m1 by simp_all
    let ?as = "?a[?m - 1 := x, ?m - 2 := y]"
    have x: "?as ! (?m - 1) = x" "?as ! (?m - 2) = y" "length ?as = ?m" using m1 z(4) by simp_all
    have "?as[0 := g x] ! (?m - 2) = y" using m1 x(2) by simp
    then have "fixup_addrs (res\<lparr> r_addrs := ?as, num_ip4 := 2, num_addr := 2 \<rparr>) =
        Some (res\<lparr> r_addrs := ?as[0 := g x, 1 := g y], num_ip4 := 2, num_addr := 2 \<rparr>)"
      using m1 z n x by (simp add: fixup_addrs_def Let_def numeral_2_eq_2 g_def res_get_def res_put_def)
    moreover have "take (Suc (Suc 0)) (?as[0 := g x, 1 := g y]) = [g x, g y]"
      using m1 x(3) by (cases ?as; cases "tl ?as") (auto simp: numeral_2_eq_2)
    ultimately show ?thesis using z(5) by (simp add: found_def res_mem_def)
  qed
  have n: "nat (int ?m - 1) = ?m - 1" "nat (int ?m - 2) = ?m - 2" if "2 \<le> ?m" using that by simp_all
  consider "r_flags res AND DNS_TCP \<noteq> 0" "r_flags res AND DNS_UDP = 0" | "r_flags res AND DNS_TCP = 0" "r_flags res AND DNS_UDP \<noteq> 0"
    | "r_flags res AND DNS_TCP \<noteq> 0" "r_flags res AND DNS_UDP \<noteq> 0"
    using w by (auto simp: wanted_def split: if_splits)
  then show ?thesis
  proof cases
    case 1
    then have m: "1 \<le> ?m" using room by (simp add: wanted_def)
    have "res_add_ip res DNS_IPV4 (ip @ rest) = Some (int ?m - 1, res\<lparr> r_addrs := ?a[?m - 1 := v4_addr ip port SOCK_STREAM], num_ip4 := 1, num_addr := 1 \<rparr>)"
      using 1 m z t l by (simp add: res_add_ip_def res_add_ip_port_def res_put_def ip res_isfull_def nat_diff_distrib)
    then show ?thesis using one [OF m, of "v4_addr ip port SOCK_STREAM"] 1 by (simp add: wanted_def)
  next
    case 2
    then have m: "1 \<le> ?m" using room by (simp add: wanted_def)
    have "res_add_ip res DNS_IPV4 (ip @ rest) = Some (int ?m - 1, res\<lparr> r_addrs := ?a[?m - 1 := v4_addr ip port SOCK_DGRAM], num_ip4 := 1, num_addr := 1 \<rparr>)"
      using 2 m z u l by (simp add: res_add_ip_def res_add_ip_port_def res_put_def ip res_isfull_def nat_diff_distrib)
    then show ?thesis using one [OF m, of "v4_addr ip port SOCK_DGRAM"] 2 by (simp add: wanted_def)
  next
    case 3
    then have m: "3 \<le> ?m" using room by (simp add: wanted_def)
    have "res_add_ip res DNS_IPV4 (ip @ rest) = Some (int ?m - 2,
        res\<lparr> r_addrs := ?a[?m - 1 := v4_addr ip port SOCK_STREAM, ?m - 2 := v4_addr ip port SOCK_DGRAM], num_ip4 := 2, num_addr := 2 \<rparr>)"
      using 3 m z t u l n by (simp add: res_add_ip_def res_add_ip_port_def res_put_def ip res_isfull_def)
    then show ?thesis using two [OF m, of "v4_addr ip port SOCK_STREAM" "v4_addr ip port SOCK_DGRAM"] 3 by (simp add: wanted_def)
  qed
qed

text \<open>A host whose text is read as an IPv4 address is resolved to the bytes that were read.\<close>

lemma dns_resolv_v4:
  assumes "length ip = 4" "flags AND DNS_IPV4 \<noteq> 0" "wanted flags \<noteq> []" "2 * length (wanted flags) \<le> length addrs + 1"
    and "g = (if flags AND DNS_V4MAPPED \<noteq> 0 then v4_mapped else id)"
    and host: "host \<noteq> []" "ipstr_decode (Some host) stk = Some (DNS_IPV4, ip @ rest)"
  shows "\<exists>as. dns_resolv env tmp stk w gs flags (Some host) (Some (uint16_toa port)) addrs = Some (int (length (wanted flags)), as, gs, w) \<and>
    take (length (wanted flags)) as = map (\<lambda>t. g (v4_addr ip port t)) (wanted flags)"
proof -
  let ?res = "res_init flags (Some host) (Some (uint16_toa port)) addrs"
  obtain tcp udp where p: "try_port gs ?res = Some (0, ?res\<lparr> tcp_port := tcp, udp_port := udp \<rparr>)"
    "flags AND DNS_TCP \<noteq> 0 \<longrightarrow> tcp = uint port" "flags AND DNS_UDP \<noteq> 0 \<longrightarrow> udp = uint port"
    using try_port_numeric [of ?res port gs] assms(3) by (auto simp: res_init_def)
  define res where "res = ?res\<lparr> tcp_port := tcp, udp_port := udp, need_ip6 := (flags AND DNS_IPV6 \<noteq> 0), need_ip4 := True \<rparr>"
  have "(flags AND (DNS_IPV4 OR DNS_IPV6 OR DNS_V4MAPPED)) AND DNS_IPV4 \<noteq> 0" "DNS_IPV4 \<noteq> 0"
    using assms(2) by (simp_all add: dns_flag_defs and.assoc)
  moreover have "((flags AND x) OR DNS_IPV4) AND DNS_IPV4 \<noteq> 0" for x
    by (simp add: word_ao_absorbs) (simp add: dns_flag_defs)
  ultimately have h: "try_hostname stk (?res\<lparr> tcp_port := tcp, udp_port := udp \<rparr>) = do { (_, res) \<leftarrow> res_add_ip res DNS_IPV4 (ip @ rest); found res }"
    using assms(2) host by (simp add: try_hostname_def Let_def res_init_def res_def word_and_or_0)
  have "\<exists>res'. do { (_, res) \<leftarrow> res_add_ip res DNS_IPV4 (ip @ rest); found res } = Some (int (length (wanted (r_flags res))), res') \<and>
    take (length (wanted (r_flags res))) (res_mem res') = map (\<lambda>t. g (v4_addr ip port t)) (wanted (r_flags res))"
    by (rule found_numeric) (use assms p in \<open>simp_all add: res_def res_init_def\<close>)
  then obtain res' where r: "try_hostname stk (?res\<lparr> tcp_port := tcp, udp_port := udp \<rparr>) = Some (int (length (wanted flags)), res')"
    "take (length (wanted flags)) (res_mem res') = map (\<lambda>t. g (v4_addr ip port t)) (wanted flags)"
    unfolding h by (auto simp: res_def res_init_def)
  have "addrs \<noteq> []" using assms(3,4) by (cases "wanted flags") auto
  then have "dns_resolv env tmp stk w gs flags (Some host) (Some (uint16_toa port)) addrs = Some (int (length (wanted flags)), res_mem res', gs, w)"
    using assms(3) unfolding dns_resolv_def p(1) by (simp add: r(1))
  then show ?thesis using r(2) by blast
qed

text \<open>
  C21. Resolving a numeric address: for the text of an IPv4 address and of a port, \<open>dns_resolv\<close> returns,
  for every state of the resolver and without a system call, one address for each kind of socket that
  the flags ask for, TCP first, with exactly these four bytes and this port in network order, mapped
  to IPv6 under \<open>DNS_V4MAPPED\<close>.  The array must have room for twice the addresses less one.
\<close>

theorem dns_resolv_numeric:
  assumes "length ip = 4" "length stk = 16" "flags AND DNS_IPV4 \<noteq> 0" "wanted flags \<noteq> []" "2 * length (wanted flags) \<le> length addrs + 1"
    and "g = (if flags AND DNS_V4MAPPED \<noteq> 0 then v4_mapped else id)"
  shows "\<exists>as. dns_resolv env tmp stk w gs flags (Some (ip4_text ip)) (Some (uint16_toa port)) addrs = Some (int (length (wanted flags)), as, gs, w) \<and>
    take (length (wanted flags)) as = map (\<lambda>t. g (v4_addr ip port t)) (wanted flags)"
proof -
  obtain rest where d: "ipstr_decode (Some (ip4_text ip)) stk = Some (DNS_IPV4, ip @ rest)" using ipstr_decode_text [OF assms(1,2)] by blast
  have "ip4_text ip \<noteq> []" by (simp add: ip4_text_def)
  from dns_resolv_v4 [OF assms(1,3-6) this d] show ?thesis .
qed

theorem dns_resolv_numeric_witness:
  "\<exists>as. dns_resolv lone_env [] (replicate 16 0) {0, 1, 2} globs_zero (DNS_TCP OR DNS_IPV4) (Some (ip4_text [10, 0, 0, 1])) (Some (uint16_toa 8080)) [sockaddr_zero] =
      Some (1, as, globs_zero, {0, 1, 2}) \<and> take 1 as = [v4_addr [10, 0, 0, 1] 8080 SOCK_STREAM]"
  using dns_resolv_numeric [of "[10, 0, 0, 1]" "replicate 16 0" "DNS_TCP OR DNS_IPV4" "[sockaddr_zero]" id lone_env "[]" "{0, 1, 2}" globs_zero 8080]
  by (simp add: wanted_def dns_flag_defs)

text \<open>
  C39. A host of digits can be resolved to memory that was never written: \<open>ip4_str_decode\<close> returns -1 for
  a group of more than three digits, which \<open>ipstr_decode\<close> takes for success, so that the host \<open>0001\<close> is
  resolved to the first four bytes that happen to be in the array on the stack.
\<close>

theorem dns_resolv_uninitialised:
  assumes "length stk = 16"
  shows "\<exists>as. dns_resolv env tmp stk w gs (DNS_TCP OR DNS_IPV4) (Some (ascii ''0001'')) (Some (uint16_toa port)) [a] = Some (1, as, gs, w) \<and>
    take 1 as = [v4_addr (take 4 stk) port SOCK_STREAM]"
proof -
  have "ipstr_decode (Some (ascii ''0001'')) stk = Some (DNS_IPV4, stk)"
    by (simp add: ipstr_decode_def ip4_str_decode_def is_numeral_def)
  then have "ipstr_decode (Some (ascii ''0001'')) stk = Some (DNS_IPV4, take 4 stk @ drop 4 stk)" by simp
  from dns_resolv_v4 [OF _ _ _ _ _ _ this, of "DNS_TCP OR DNS_IPV4" "[a]" id env tmp w gs port] assms show ?thesis
    by (simp add: wanted_def dns_flag_defs)
qed

theorem dns_resolv_uninitialised_witness:
  "\<exists>as. dns_resolv lone_env [] ([192, 168, 0, 7] @ replicate 12 0) {0, 1, 2} globs_zero (DNS_TCP OR DNS_IPV4) (Some (ascii ''0001'')) (Some (uint16_toa 80)) [sockaddr_zero] =
      Some (1, as, globs_zero, {0, 1, 2}) \<and> take 1 as = [v4_addr [192, 168, 0, 7] 80 SOCK_STREAM]"
  using dns_resolv_uninitialised [of "[192, 168, 0, 7] @ replicate 12 0" lone_env "[]" "{0, 1, 2}" globs_zero 80 sockaddr_zero] by simp

end
