(* ===== verification/Resolv_Text.thy ===== *)
theory Resolv_Text
  imports Resolv_Result
begin

text \<open>
  The texts of addresses for the log in \<open>src/src/dns_resolv.c\<close>: \<open>dns_sockaddr_tostr\<close> with its 16 static
  buffers, and \<open>dns_socktype_tostr\<close>.
\<close>

record addr_bufs =
  ab_bufs :: "bytes list"
  ab_idx :: nat

text \<open>
  The result is the index of the buffer that is returned, or \<open>None\<close> for the text of a null pointer.
  After the port the code sets its pointer \<open>str\<close> to 0 instead of storing a terminator.
\<close>

definition dns_sockaddr_tostr :: "addr_bufs \<Rightarrow> dns_sockaddr option \<Rightarrow> nat option \<times> addr_bufs" where
  "dns_sockaddr_tostr ab addr =
    (let i = ab_idx ab; buf = ab_bufs ab ! i; len = IP_ADDRPORT_STRLEN;
         ab = ab\<lparr> ab_idx := (i + 1) AND 15 \<rparr>
     in case addr of
          None \<Rightarrow> (None, ab)
        | Some a \<Rightarrow>
            let port = (\<lambda>(n, buf). if da_port a = 0 then buf else write_at (write_at buf n [colon]) (n + 1) (uint16_toa (bswap16 (da_port a))));
                buf = (case da_family a of
                    AF_INET \<Rightarrow> if da_len a \<noteq> 16 then buf else port (ip4_str_encode (da_ip a) buf 0 len)
                  | AF_INET6 \<Rightarrow> if da_len a \<noteq> 28 then buf
                      else port (ip6_str_encode (da_ip a) (if da_port a \<noteq> 0 then 5 else 4) buf len)
                  | AF_OTHER \<Rightarrow> buf)
            in (Some i, ab\<lparr> ab_bufs := (ab_bufs ab)[i := buf] \<rparr>))"

definition dns_socktype_tostr :: "dns_sockaddr \<Rightarrow> bytes" where
  "dns_socktype_tostr a =
    (if da_sock_type a = SOCK_STREAM then ascii ''TCP'' else if da_sock_type a = SOCK_DGRAM then ascii ''UDP'' else ascii ''???'')"

text \<open>
  The text of an IPv4 address with a port is the address, a colon and the port, but it is not
  terminated: the bytes behind it are those of the last address that was printed into the buffer.
\<close>

theorem dns_sockaddr_tostr_v4:
  assumes "addr4_ok a" "da_port a \<noteq> 0" "ab_idx ab < length (ab_bufs ab)" "length (ab_bufs ab ! ab_idx ab) = IP_ADDRPORT_STRLEN"
    and "dns_sockaddr_tostr ab (Some a) = (r, ab')" and "text = ip4_text (da_ip a) @ [colon] @ uint16_toa (bswap16 (da_port a))"
  shows "r = Some (ab_idx ab) \<and> ab_bufs ab' ! ab_idx ab = text @ drop (length text) (ab_bufs ab ! ab_idx ab)"
proof -
  let ?b = "ab_bufs ab ! ab_idx ab" and ?t = "ip4_text (da_ip a)" and ?p = "uint16_toa (bswap16 (da_port a))"
  have e: "ip4_str_encode (da_ip a) ?b 0 IP_ADDRPORT_STRLEN = (length ?t, write_at ?b 0 (?t @ [0]))"
    by (rule ip4_str_encode_eq) (simp add: IP_ADDRPORT_STRLEN_def IP6_ADDR_STRLEN_def IP4_ADDR_STRLEN_def)
  have l: "length ?t \<le> 15" "length ?p \<ge> 1" using length_ip4_text by (auto simp: uint16_toa_eq Suc_le_eq)
  have "write_at (write_at (write_at ?b 0 (?t @ [0])) (length ?t) [colon]) (length ?t + 1) ?p = text @ drop (length text) ?b"
    using l assms(4,6) by (simp add: write_at_def add.commute)
  then show ?thesis using assms e by (auto simp: dns_sockaddr_tostr_def Let_def addr4_ok_def)
qed

end
