(* ===== verification/Client.thy ===== *)
theory Client
  imports Server
begin

text \<open>
  The client program \<open>src/src/client.c\<close>: two pipes, one between the terminal and the server and one back,
  each with a socket it receives from and a socket it sends to, and the loop over \<open>poll\<close> that copies
  the data.  A result \<open>None\<close> is a loop that does not end.
\<close>

section \<open>State\<close>

text \<open>
  The pipe of the server sends and receives on its first socket; that of the user sends on the first
  and receives on the second.  The two sockets of a pipe are given the same two arrays, of which the
  one for sending is used by the socket that sends and the other by the socket that receives.
\<close>

record my_pipe =
  mp_socks :: "simple_sock list"
  mp_send :: nat
  mp_recv :: nat
  poll_in :: int
  poll_out :: int

record poll_ent =
  pe_fd :: int
  pe_events :: nat
  pe_revents :: nat

text \<open>The events are the values of the system.\<close>

definition ev_in :: nat where "ev_in = 1"
definition ev_out :: nat where "ev_out = 4"
definition ev_err :: nat where "ev_err = 8"
definition ev_hup :: nat where "ev_hup = 16"

text \<open>
  The system of the client: \<open>ce_poll\<close> gets the descriptors and events and returns the events that
  occurred at each index, or an error; \<open>ce_run\<close> is the flag the signal handler clears.
\<close>

record 'w cenv =
  ce_heap :: heap_env
  ce_os :: "'w os"
  ce_resolv :: "'w resolver"
  ce_dns_init :: "'w \<Rightarrow> int \<times> 'w"
  ce_signals :: "'w \<Rightarrow> int \<times> 'w"
  ce_run :: "'w \<Rightarrow> bool"
  ce_poll :: "'w \<Rightarrow> (int \<times> nat) list \<Rightarrow> (io_err + (nat \<Rightarrow> nat)) \<times> 'w"

definition send_of :: "my_pipe \<Rightarrow> simple_sock" where
  "send_of p = mp_socks p ! mp_send p"

definition recv_of :: "my_pipe \<Rightarrow> simple_sock" where
  "recv_of p = mp_socks p ! mp_recv p"

definition set_send :: "my_pipe \<Rightarrow> simple_sock \<Rightarrow> my_pipe" where
  "set_send p s = p\<lparr> mp_socks := (mp_socks p)[mp_send p := s] \<rparr>"

definition set_recv :: "my_pipe \<Rightarrow> simple_sock \<Rightarrow> my_pipe" where
  "set_recv p s = p\<lparr> mp_socks := (mp_socks p)[mp_recv p := s] \<rparr>"

definition SOCK_INIT :: "int \<Rightarrow> nat \<Rightarrow> nat \<Rightarrow> bytes \<Rightarrow> bytes \<Rightarrow> simple_sock" where
  "SOCK_INIT fd mline msize buf1 buf2 =
    sock_zero\<lparr> sk_fd := fd, max_line := mline, min_size := msize, recv_buf := RWBUF_INIT buf1, send_buf := RWBUF_INIT buf2 \<rparr>"

definition MY_PIPE_INIT :: "int \<Rightarrow> int \<Rightarrow> my_pipe" where
  "MY_PIPE_INIT rfd wfd =
    (let data = replicate 8192 0 in
     \<lparr> mp_socks = [SOCK_INIT rfd MAX_LINE 0 data data, SOCK_INIT wfd MAX_LINE 0 data data], mp_send = 0, mp_recv = 1, poll_in = -1, poll_out = -1 \<rparr>)"

section \<open>Copying\<close>

definition my_pipe_isbusy :: "my_pipe \<Rightarrow> bool" where
  "my_pipe_isbusy conn \<longleftrightarrow> sock_isbusy (send_of conn) \<and> \<not> sock_mustclose (send_of conn)"

definition my_pipe_iseof :: "my_pipe \<Rightarrow> bool" where
  "my_pipe_iseof conn \<longleftrightarrow> sock_read_done (recv_of conn) \<or> sock_mustclose (recv_of conn)"

definition set_fd_off :: "poll_ent list \<Rightarrow> int \<Rightarrow> poll_ent list" where
  "set_fd_off fds i = fds[nat i := (fds ! nat i)\<lparr> pe_fd := -1 \<rparr>]"

definition set_out :: "poll_ent list \<Rightarrow> my_pipe \<Rightarrow> poll_ent list" where
  "set_out fds p = fds[nat (poll_out p) := (fds ! nat (poll_out p))\<lparr> pe_events := (if sock_sendbuf_used (send_of p) \<noteq> 0 then ev_out else 0) \<rparr>]"

text \<open>The lines that are only logged.\<close>

partial_function (option) log_lines :: "simple_sock \<Rightarrow> bool \<Rightarrow> (int \<times> simple_sock) option" where
  "log_lines sock eof =
    (case sock_recv_line sock eof of (rc, line, sock) \<Rightarrow> if rc > 0 then log_lines sock eof else Some (rc, sock))"

text \<open>The loop of \<open>my_pipe_readwrite\<close>: the last code, or \<open>None\<close> when the code returns in it.\<close>

partial_function (option) copy_loop ::
    "'w cenv \<Rightarrow> bool \<Rightarrow> 'w \<Rightarrow> my_pipe \<Rightarrow> my_pipe \<Rightarrow> poll_ent list \<Rightarrow> (int option \<times> my_pipe \<times> my_pipe \<times> poll_ent list \<times> 'w) option" where
  "copy_loop env log w src dst fds =
    (case sock_recv (ce_heap env) (ce_os env) w (recv_of src) of (rc, sock, w) \<Rightarrow>
     let src = set_recv src sock in
     if rc \<noteq> SOCK_DATA then Some (Some rc, src, dst, fds, w)
     else
       let str = sock_recv_str (recv_of src) in
       case sock_send_str (ce_heap env) (ce_os env) w (send_of dst) str of (rc, sock, w) \<Rightarrow>
       let dst = set_send dst sock in
       if rc < 0 then Some (None, src, dst, set_fd_off fds (poll_out dst), w)
       else
         let fds = set_out fds dst in
         if \<not> log then copy_loop env log w (set_recv src (snd (sock_recvbuf_consume (recv_of src) (length (slice_bytes str))))) dst fds
         else Option.bind (log_lines (recv_of src) (sock_iseof (recv_of src))) (\<lambda>(rc, sock).
           let src = set_recv src sock in
           if rc < 0 then Some (Some rc, src, dst, fds, w)
           else
             let str = sock_recv_str (recv_of src);
                 src = (if slice_cmpmem str (ascii ''> '') = 0 then set_recv src (snd (sock_recvbuf_consume (recv_of src) (length (slice_bytes str)))) else src)
             in copy_loop env log w src dst fds))"

definition my_pipe_readwrite ::
    "'w cenv \<Rightarrow> bool \<Rightarrow> 'w \<Rightarrow> my_pipe \<Rightarrow> my_pipe \<Rightarrow> poll_ent list \<Rightarrow> (my_pipe \<times> my_pipe \<times> poll_ent list \<times> 'w) option" where
  "my_pipe_readwrite env log w src dst fds = do {
    (r, src, dst, fds, w) \<leftarrow> copy_loop env log w src dst fds;
    case r of
      None \<Rightarrow> Some (src, dst, fds, w)
    | Some rc \<Rightarrow>
        if rc \<ge> 0 then Some (src, dst, fds, w)
        else if rc = SOCK_AGAIN then Some (src, dst, fds, w)
        else
          let fds = set_fd_off fds (poll_in src)
          in if rc \<noteq> SOCK_CLOSED then Some (src, dst, fds, w)
             else Some (src, set_send dst (sock_write_close (send_of dst) False), fds, w)
  }"

definition my_pipe_drain :: "'w cenv \<Rightarrow> 'w \<Rightarrow> my_pipe \<Rightarrow> poll_ent list \<Rightarrow> my_pipe \<times> poll_ent list \<times> 'w" where
  "my_pipe_drain env w conn fds =
    (case sock_send (ce_os env) w (send_of conn) of (rc, sock, w) \<Rightarrow>
     let conn = set_send conn sock;
         fds = (if rc < 0 then set_fd_off fds (poll_out conn) else fds)
     in (conn, set_out fds conn, w))"

text \<open>Sending the end of a finished direction: whether the program stops, and the pipe.\<close>

definition pipe_fin :: "'w cenv \<Rightarrow> 'w \<Rightarrow> my_pipe \<Rightarrow> poll_ent list \<Rightarrow> bool \<times> my_pipe \<times> poll_ent list \<times> 'w" where
  "pipe_fin env w p fds =
    (if sock_write_done (send_of p) then
       case sock_sendfin (ce_os env) w (send_of p) of (rc, sock, w) \<Rightarrow>
         let p = set_send p sock in if rc \<noteq> 0 then (True, p, fds, w) else (False, p, set_fd_off fds (poll_out p), w)
     else (False, p, fds, w))"

definition my_pipe_stop :: "'w cenv \<Rightarrow> 'w \<Rightarrow> my_pipe \<Rightarrow> my_pipe \<Rightarrow> poll_ent list \<Rightarrow> bool \<times> my_pipe \<times> my_pipe \<times> poll_ent list \<times> 'w" where
  "my_pipe_stop env w user serv fds =
    (case pipe_fin env w serv fds of (stop, serv, fds, w) \<Rightarrow>
     if stop then (True, user, serv, fds, w)
     else case pipe_fin env w user fds of (stop, user, fds, w) \<Rightarrow>
     if stop then (True, user, serv, fds, w)
     else
       let ingress_done = (my_pipe_iseof user \<and> \<not> my_pipe_isbusy serv);
           egress_done = (my_pipe_iseof serv \<and> \<not> my_pipe_isbusy user);
           ingress_done = (if egress_done \<and> \<not> ingress_done then True else ingress_done)
       in (ingress_done \<and> egress_done, user, serv, fds, w))"

definition set_fd :: "simple_sock \<Rightarrow> int \<Rightarrow> poll_ent list \<Rightarrow> nat \<Rightarrow> int \<times> poll_ent list" where
  "set_fd sock idx fds events = (idx, fds[nat idx := (fds ! nat idx)\<lparr> pe_fd := sk_fd sock, pe_events := events \<rparr>])"

section \<open>The program\<close>

definition set_revents :: "poll_ent list \<Rightarrow> (nat \<Rightarrow> nat) \<Rightarrow> poll_ent list" where
  "set_revents fds rs = map (\<lambda>i. (fds ! i)\<lparr> pe_revents := rs i \<rparr>) [0..<length fds]"

text \<open>One turn of the loop after \<open>poll\<close> has stored its events.\<close>

definition client_turn ::
    "'w cenv \<Rightarrow> bool \<Rightarrow> 'w \<Rightarrow> my_pipe \<Rightarrow> my_pipe \<Rightarrow> poll_ent list \<Rightarrow> (bool \<times> my_pipe \<times> my_pipe \<times> poll_ent list \<times> 'w) option" where
  "client_turn env log w user serv fds = do {
    let (serv, fds, w) = (if pe_revents (fds ! 3) AND ev_out \<noteq> 0 then my_pipe_drain env w serv fds else (serv, fds, w));
    (serv, user, fds, w) \<leftarrow> (if pe_revents (fds ! 2) AND (ev_in OR ev_hup OR ev_err) \<noteq> 0 then my_pipe_readwrite env log w serv user fds
      else Some (serv, user, fds, w));
    let (user, fds, w) = (if pe_revents (fds ! 1) AND ev_out \<noteq> 0 then my_pipe_drain env w user fds else (user, fds, w));
    (user, serv, fds, w) \<leftarrow> (if pe_revents (fds ! 0) AND (ev_in OR ev_hup OR ev_err) \<noteq> 0 then my_pipe_readwrite env log w user serv fds
      else Some (user, serv, fds, w));
    Some (my_pipe_stop env w user serv fds)
  }"

partial_function (option) client_loop :: "'w cenv \<Rightarrow> bool \<Rightarrow> 'w \<Rightarrow> my_pipe \<Rightarrow> my_pipe \<Rightarrow> poll_ent list \<Rightarrow> (my_pipe \<times> my_pipe \<times> 'w) option" where
  "client_loop env log w user serv fds =
    (if \<not> ce_run env w then Some (user, serv, w)
     else case ce_poll env w (map (\<lambda>e. (pe_fd e, pe_events e)) fds) of
       (Inl e, w) \<Rightarrow> if e = EINTR then client_loop env log w user serv fds else Some (user, serv, w)
     | (Inr rs, w) \<Rightarrow> Option.bind (client_turn env log w user serv (set_revents fds rs)) (\<lambda>(stop, user, serv, fds, w).
         if stop then Some (user, serv, w) else client_loop env log w user serv fds))"

definition client_opts :: "cmd_opt list" where
  "client_opts = map (\<lambda>(n, a). \<lparr> opt_name = ascii n, has_arg = a, opt_code = 0 \<rparr>)
    [(''--help'', 0), (''--hostname'', 1), (''--port'', 1), (''--log-line'', 0), (''--log-level'', 1), (''--argv'', 0)]"

record client_cfg =
  cc_host :: slice
  cc_port :: slice
  cc_log_line :: bool
  cc_log_level :: int

text \<open>
  The options: \<open>None\<close> in the sum when \<open>--help\<close> ends the program.  The result of \<open>opt_setint\<close> is
  overwritten by that of the next option.
\<close>

partial_function (option) client_args :: "client_cfg \<Rightarrow> cmd_argv \<Rightarrow> (unit + int \<times> client_cfg) option" where
  "client_args cfg parser =
    (case cmd_argv_next parser of (rc, parser) \<Rightarrow>
       if rc < 0 then Some (Inr (rc, cfg))
       else if rc = 0 then Some (Inl ())
       else if rc = 1 then client_args (cfg\<lparr> cc_host := arg_value parser \<rparr>) parser
       else if rc = 2 then client_args (cfg\<lparr> cc_port := arg_value parser \<rparr>) parser
       else if rc = 3 then client_args (cfg\<lparr> cc_log_line := True \<rparr>) parser
       else if rc = 4 then Option.bind (opt_setint (cc_log_level cfg) parser) (\<lambda>(_, n). client_args (cfg\<lparr> cc_log_level := n \<rparr>) parser)
       else client_args cfg parser)"

text \<open>\<open>fatal_error\<close> ends the program with \<open>EXIT_FAILURE\<close>, which is 1.\<close>

definition client_main :: "'w cenv \<Rightarrow> 'w \<Rightarrow> bytes list \<Rightarrow> (int \<times> 'w) option" where
  "client_main env w args = do {
    r \<leftarrow> client_args \<lparr> cc_host = None, cc_port = Some (ascii ''6379''), cc_log_line = False, cc_log_level = LOG_INFO \<rparr>
      \<lparr> argv = args, opts = client_opts, argv_idx = 0, opt_idx = 0, arg_name = None, arg_value = None \<rparr>;
    case r of
      Inl _ \<Rightarrow> Some (0, w)
    | Inr (rc, cfg) \<Rightarrow>
        if rc \<noteq> OPT_EOF then Some (-1, w)
        else if cc_host cfg = None then Some (1, w)
        else case ce_signals env w of (rc, w) \<Rightarrow>
        if rc \<noteq> 0 then Some (1, w)
        else case ce_dns_init env w of (rc, w) \<Rightarrow>
        if rc \<noteq> 0 then Some (1, w)
        else
          let serv = MY_PIPE_INIT (-1) (-1);
              mode = push_bit SOCK_ANY 1 OR push_bit SOCK_TCP 1 OR push_bit SOCK_NONBLK 1
          in case sock_client (ce_os env) (ce_resolv env) w (mp_socks serv ! 0) mode (cc_host cfg) (cc_port cfg) of (rc, sock, w) \<Rightarrow>
          let serv = serv\<lparr> mp_socks := (mp_socks serv)[0 := sock] \<rparr> in
          if rc \<noteq> 0 then Some (1, w)
          else
            let serv = serv\<lparr> mp_send := 0, mp_recv := 0 \<rparr>;
                user = MY_PIPE_INIT 1 0;
                mode = push_bit SOCK_FILE 1 OR push_bit SOCK_NONBLK 1
            in case sock_set_mode (ce_os env) w (send_of user) mode of (rc, sock, w) \<Rightarrow>
            let user = set_send user sock in
            if rc \<noteq> 0 then Some (1, w)
            else case sock_set_mode (ce_os env) w (recv_of user) mode of (rc, sock, w) \<Rightarrow>
            let user = set_recv user sock in
            if rc \<noteq> 0 then Some (1, w)
            else do {
              let fds = replicate 4 \<lparr> pe_fd = 0, pe_events = 0, pe_revents = 0 \<rparr>;
              let (i, fds) = set_fd (recv_of user) 0 fds ev_in;
              let (j, fds) = set_fd (send_of user) 1 fds 0;
              let user = user\<lparr> poll_in := i, poll_out := j \<rparr>;
              let (i, fds) = set_fd (recv_of serv) 2 fds ev_in;
              let (j, fds) = set_fd (send_of serv) 3 fds 0;
              let serv = serv\<lparr> poll_in := i, poll_out := j \<rparr>;
              (user, serv, w) \<leftarrow> client_loop env (cc_log_line cfg) w user serv fds;
              Some (0, snd (snd (sock_close (ce_os env) w (recv_of serv) 0)))
            }
  }"

end
