(* ===== verification/Client_Relay.thy ===== *)
theory Client_Relay
  imports Client Sock_Stream
begin

text \<open>
  What \<open>my_pipe_readwrite\<close> of \<open>src/src/client.c\<close> does to the two streams it joins: without logging every
  byte that is read is written, once and in order, and the end is passed on only after the last of
  them; with logging an unfinished line is written again.
\<close>

section \<open>The streams of one call\<close>

text \<open>Reading and writing leave a part of the state of the system alone.\<close>

definition quiet_read :: "('w \<Rightarrow> 'a) \<Rightarrow> int \<Rightarrow> 'w os \<Rightarrow> bool" where
  "quiet_read f fd os \<longleftrightarrow> (\<forall>w n. f (snd (os_read os w fd n)) = f w)"

definition quiet_write :: "('w \<Rightarrow> 'a) \<Rightarrow> int \<Rightarrow> 'w os \<Rightarrow> bool" where
  "quiet_write f fd os \<longleftrightarrow> (\<forall>w bs. f (snd (os_write os w fd bs)) = f w)"

lemma read_loop_quiet:
  assumes "quiet_read f (sk_fd sock) os" "read_loop os w sock len acc = (ec, data, sock', w')"
  shows "f w' = f w \<and> (ec = SOCK_CLOSED \<longrightarrow> recv_fin sock')"
  using assms(2)
proof (induction len arbitrary: acc w rule: less_induct)
  case (less len)
  have q: "f (snd (os_read os w (sk_fd sock) len)) = f w" using assms(1) by (simp add: quiet_read_def)
  show ?case
  proof (cases "len = 0")
    case True
    then show ?thesis using less.prems by (subst (asm) read_loop.simps) (simp add: sock_codes)
  next
    case False
    obtain r w1 where r: "os_read os w (sk_fd sock) len = (r, w1)" by fastforce
    show ?thesis
    proof (cases r)
      case (RdErr e)
      then show ?thesis using less.prems r q False by (subst (asm) read_loop.simps) (auto simp: io_code_def sock_codes split: if_splits)
    next
      case (Got bs)
      show ?thesis
      proof (cases "bs = [] \<or> bit (sk_mode sock) SOCK_UDP")
        case True
        then show ?thesis using less.prems r q False Got by (subst (asm) read_loop.simps) (auto simp: sock_codes split: if_splits)
      next
        case bs: False
        then have "read_loop os w1 sock (len - length bs) (acc @ bs) = (ec, data, sock', w')"
          using less.prems r Got False by (subst (asm) read_loop.simps) simp
        from less.IH [OF _ this] show ?thesis using q r bs False by (cases bs) auto
      qed
    qed
  qed
qed

lemma sock_recv_quiet:
  assumes "quiet_read f (sk_fd sock) os" "min_size sock = 0" "sock_recv env os w sock = (rc, sock', w')"
  shows "f w' = f w \<and> (rc = SOCK_CLOSED \<longrightarrow> recv_fin sock')"
proof -
  obtain ec data s1 w1 where r: "read_loop os w sock (rwbuf_space (recv_buf sock)) [] = (ec, data, s1, w1)" by (metis prod_cases4)
  note q = read_loop_quiet [OF assms(1) r]
  show ?thesis using assms(2,3) r q
    by (auto simp: sock_recv_def sock_read_data_def Let_def sock_codes split: if_splits)
qed

lemma writev_loop_quiet:
  assumes "quiet_write f (sk_fd sock) os" "writev_loop os w sock iovs n = (ec, m, iovs', sock', w')"
  shows "f w' = f w"
  using assms(2)
proof (induction "length (concat iovs)" arbitrary: iovs n w rule: less_induct)
  case less
  have q: "f (snd (os_write os w (sk_fd sock) (concat iovs))) = f w" using assms(1) by (simp add: quiet_write_def)
  show ?case
  proof (cases "concat iovs = []")
    case True
    then show ?thesis using less.prems by (subst (asm) writev_loop.simps) simp
  next
    case False
    obtain r w1 where r: "os_write os w (sk_fd sock) (concat iovs) = (r, w1)" by fastforce
    show ?thesis
    proof (cases "\<exists>k. r = Wrote k \<and> k \<noteq> 0")
      case True
      then obtain k where k: "r = Wrote k" "k \<noteq> 0" by blast
      have "writev_loop os w1 sock (iovs_advance k iovs) (n + k) = (ec, m, iovs', sock', w')"
        using less.prems r k False by (subst (asm) writev_loop.simps) (simp del: concat_eq_Nil_conv)
      moreover have "length (concat (iovs_advance k iovs)) < length (concat iovs)"
        unfolding concat_iovs_advance using k(2) False by (cases "concat iovs") simp_all
      ultimately show ?thesis using less.hyps q r by fastforce
    next
      case no: False
      then show ?thesis using less.prems r q False by (subst (asm) writev_loop.simps) (auto split: wr_res.splits if_splits simp del: concat_eq_Nil_conv)
    qed
  qed
qed

lemma sock_send_str_all:
  assumes "write_law out (sk_fd sock) os" "accepts_all (sk_fd sock) os" "quiet_write f (sk_fd sock) os"
    and "rwbuf_inv (send_buf sock)" "rwbuf_content (send_buf sock) = []" "\<not> sys_err sock" "\<not> fin_sent sock" "mem \<noteq> []"
  shows "\<exists>b w'. sock_send_str env os w sock (Some mem) = (0, sock\<lparr> send_buf := b \<rparr>, w') \<and> rwbuf_inv b \<and> rwbuf_content b = [] \<and>
    out w' = out w @ mem \<and> f w' = f w"
proof -
  have bl: "backlog (send_buf sock) = []" using backlog_content [OF assms(4)] assms(5) by simp
  obtain w1 where w1: "writev_loop os w sock [[], mem] 0 = (SOCK_OK, length mem, [[], []], sock, w1)" "out w1 = out w @ mem"
    using writev_all [OF assms(1,2), of "[[], mem]" w] assms(8) by auto
  obtain b where b: "rwbuf_rdinc (send_buf sock) 0 = (0, b)" "rwbuf_inv b" "rwbuf_content b = []"
    using rwbuf_rdinc_spec [OF assms(4), of 0] assms(5) by (metis drop0 le0 prod.collapse)
  have "sock_send_str env os w sock (Some mem) = (0, sock\<lparr> send_buf := b \<rparr>, w1)"
    using w1(1) b(1) assms(6-8) by (simp add: sock_send_str_def sock_send_mem_def send_iovs_def sock_write_iovs_def bl slice_bytes_def)
  then show ?thesis using b w1 writev_loop_quiet [OF assms(3) w1(1)] by blast
qed

section \<open>The loop\<close>

text \<open>
  The system of a copy: the source is read and the destination written, each without an effect on the
  other, and the destination takes all it is given.
\<close>

definition relay_law :: "('w \<Rightarrow> bytes) \<Rightarrow> ('w \<Rightarrow> bytes) \<Rightarrow> int \<Rightarrow> int \<Rightarrow> 'w os \<Rightarrow> bool" where
  "relay_law inp out rfd wfd os \<longleftrightarrow> read_law inp rfd os \<and> quiet_read out rfd os \<and>
    write_law out wfd os \<and> accepts_all wfd os \<and> quiet_write inp wfd os"

text \<open>A pipe that can be read from with nothing unread, and one that can be written to with nothing unsent.\<close>

definition src_idle :: "my_pipe \<Rightarrow> bool" where
  "src_idle p \<longleftrightarrow> mp_recv p < length (mp_socks p) \<and> min_size (recv_of p) = 0 \<and>
    rwbuf_inv (recv_buf (recv_of p)) \<and> rwbuf_content (recv_buf (recv_of p)) = []"

definition dst_idle :: "my_pipe \<Rightarrow> bool" where
  "dst_idle p \<longleftrightarrow> mp_send p < length (mp_socks p) \<and> \<not> sys_err (send_of p) \<and> \<not> fin_sent (send_of p) \<and>
    rwbuf_inv (send_buf (send_of p)) \<and> rwbuf_content (send_buf (send_of p)) = []"

lemma recv_of_set [simp]: "mp_recv p < length (mp_socks p) \<Longrightarrow> recv_of (set_recv p s) = s"
  by (simp add: recv_of_def set_recv_def)

lemma send_of_set [simp]: "mp_send p < length (mp_socks p) \<Longrightarrow> send_of (set_send p s) = s"
  by (simp add: send_of_def set_send_def)

lemma set_recv_sel [simp]: "mp_recv (set_recv p s) = mp_recv p" "length (mp_socks (set_recv p s)) = length (mp_socks p)"
  "poll_in (set_recv p s) = poll_in p"
  by (simp_all add: set_recv_def)

lemma set_send_sel [simp]: "mp_send (set_send p s) = mp_send p" "length (mp_socks (set_send p s)) = length (mp_socks p)"
  "poll_out (set_send p s) = poll_out p"
  by (simp_all add: set_send_def)

lemma copy_loop_relays:
  assumes "src_idle src" "dst_idle dst" "relay_law inp out (sk_fd (recv_of src)) (sk_fd (send_of dst)) (ce_os env)"
    and "recv_fin (recv_of src) \<longrightarrow> inp w = []"
  shows "\<exists>rc src' dst' fds' w'. copy_loop env False w src dst fds = Some (Some rc, src', dst', fds', w') \<and>
    src_idle src' \<and> dst_idle dst' \<and> out w' @ inp w' = out w @ inp w \<and> (rc = SOCK_CLOSED \<longrightarrow> inp w' = []) \<and>
    send_fin (send_of dst') = send_fin (send_of dst)"
  using assms
proof (induction "length (inp w)" arbitrary: w src dst fds rule: less_induct)
  case less
  let ?os = "ce_os env" and ?r = "recv_of src" and ?s = "send_of dst"
  note L = less.prems(3) [unfolded relay_law_def]
  note S = less.prems(1) [unfolded src_idle_def] and D = less.prems(2) [unfolded dst_idle_def]
  obtain rc r1 w1 where r: "sock_recv (ce_heap env) ?os w ?r = (rc, r1, w1)" by (metis prod_cases3)
  obtain d b c s where d: "inp w = d @ inp w1" "rwbuf_inv (recv_buf r1)" "rwbuf_content (recv_buf r1) = d"
    "if d \<noteq> [] then rc = SOCK_DATA else rc \<le> 0" "r1 = ?r\<lparr> sys_err := b, recv_fin := c, recv_buf := s \<rparr>"
    "recv_fin r1 \<longrightarrow> recv_fin ?r \<or> inp w1 = []"
    using sock_recv_stream [OF _ _ _ r, of inp] L S by auto
  have q: "out w1 = out w" "rc = SOCK_CLOSED \<longrightarrow> recv_fin r1" using sock_recv_quiet [OF _ _ r, of out] L S by auto
  have f: "recv_fin r1 \<longrightarrow> inp w1 = []" using d(1,6) less.prems(4) by auto
  show ?case
  proof (cases "d = []")
    case True
    then have "rc \<noteq> SOCK_DATA" using d(4) by (auto simp: sock_codes)
    then have "copy_loop env False w src dst fds = Some (Some rc, set_recv src r1, dst, fds, w1)"
      using r by (subst copy_loop.simps) simp
    moreover have "src_idle (set_recv src r1)" using S d True by (auto simp: src_idle_def)
    ultimately show ?thesis using True d(1) q f less.prems(2) by auto
  next
    case False
    then have rc: "rc = SOCK_DATA" using d(4) by simp
    obtain b2 w2 where s2: "sock_send_str (ce_heap env) ?os w1 ?s (Some d) = (0, ?s\<lparr> send_buf := b2 \<rparr>, w2)"
      "rwbuf_inv b2" "rwbuf_content b2 = []" "out w2 = out w1 @ d" "inp w2 = inp w1"
      using sock_send_str_all [of out ?s ?os inp d "ce_heap env" w1] L D False by auto
    define b3 where "b3 = snd (rwbuf_rdinc (recv_buf r1) (length d))"
    define src2 where "src2 = set_recv (set_recv src r1) (r1\<lparr> recv_buf := b3 \<rparr>)"
    define dst2 where "dst2 = set_send dst (?s\<lparr> send_buf := b2 \<rparr>)"
    have b3: "rwbuf_inv b3" "rwbuf_content b3 = []" using rwbuf_rdinc_spec [OF d(2), of "length d"] d(3) by (simp_all add: b3_def)
    have e: "copy_loop env False w src dst fds = copy_loop env False w2 src2 dst2 (set_out fds dst2)"
      using r rc s2(1) S D d(3) backlog_content [OF d(2)]
      by (subst copy_loop.simps) (simp add: sock_recv_str_def sock_recvbuf_consume_def slice_bytes_def src2_def dst2_def b3_def Let_def split_beta)
    have i: "src_idle src2" "dst_idle dst2" using S D b3 s2 d(5) by (auto simp: src_idle_def dst_idle_def src2_def dst2_def)
    have l: "relay_law inp out (sk_fd (recv_of src2)) (sk_fd (send_of dst2)) ?os" "recv_fin (recv_of src2) \<longrightarrow> inp w2 = []"
      using less.prems(3) S D d(5) f s2(5) by (auto simp: src2_def dst2_def)
    have "length (inp w2) < length (inp w)" using d(1) False s2(5) by simp
    from less.hyps [OF this i l, of "set_out fds dst2"] show ?thesis using e s2(4,5) q(1) d(1) D by (auto simp: dst2_def)
  qed
qed

text \<open>
  C10. The client copies faithfully.  Without \<open>--log-line\<close>, from a source with nothing unread to a
  destination with nothing unsent that takes all it is given, \<open>my_pipe_readwrite\<close> ends; what has been
  written followed by what can still be read is what it was before, so no byte is lost, repeated or
  reordered; both buffers are empty again; and the destination is marked for closing only when the
  source has no byte left.
\<close>

theorem my_pipe_readwrite_relays:
  assumes "src_idle src" "dst_idle dst" "relay_law inp out (sk_fd (recv_of src)) (sk_fd (send_of dst)) (ce_os env)"
    and "recv_fin (recv_of src) \<longrightarrow> inp w = []"
  shows "\<exists>src' dst' fds' w'. my_pipe_readwrite env False w src dst fds = Some (src', dst', fds', w') \<and>
    src_idle src' \<and> dst_idle dst' \<and> out w' @ inp w' = out w @ inp w \<and>
    (send_fin (send_of dst') \<longrightarrow> send_fin (send_of dst) \<or> inp w' = [])"
proof -
  obtain rc src' dst' fds' w' where c: "copy_loop env False w src dst fds = Some (Some rc, src', dst', fds', w')"
    "src_idle src'" "dst_idle dst'" "out w' @ inp w' = out w @ inp w" "rc = SOCK_CLOSED \<longrightarrow> inp w' = []"
    "send_fin (send_of dst') = send_fin (send_of dst)"
    using copy_loop_relays [OF assms, of fds] by blast
  have "dst_idle (set_send dst' (sock_write_close (send_of dst') False))"
    using c(3) by (auto simp: dst_idle_def sock_write_close_def)
  then show ?thesis using c by (auto simp: my_pipe_readwrite_def Let_def)
qed

text \<open>
  A system with what can be read, in the pieces in which it arrives, and what was written; an empty
  piece is a moment at which nothing has arrived, and after the last piece the source has ended.
\<close>

definition pieces_os :: "(bytes list \<times> bytes) os" where
  "pieces_os = \<lparr> os_read = (\<lambda>(ps, out) fd n. case ps of [] \<Rightarrow> (Got [], (ps, out))
      | p # ps \<Rightarrow> if p = [] then (RdErr EAGAIN, (ps, out)) else (Got (take n p), (if n < length p then drop n p # ps else ps, out))),
    os_write = (\<lambda>(ps, out) fd bs. (Wrote (length bs), (ps, out @ bs))),
    os_shutdown = (\<lambda>w fd. (None, w)), os_close = (\<lambda>w fd. (True, w)), os_socket = (\<lambda>w f t b. (3, w)),
    os_connect = (\<lambda>w fd a. (True, w)), os_getfl = (\<lambda>w fd. (True, w)), os_setfl = (\<lambda>w fd. (True, w)),
    os_sockopt = (\<lambda>w fd s. (True, w)), os_bind = (\<lambda>w fd a. (True, w)), os_listen = (\<lambda>w fd. (True, w)),
    os_accept = (\<lambda>w fd b. ((-1, sample_addr 0), w)) \<rparr>"

definition pieces_env :: "(bytes list \<times> bytes) cenv" where
  "pieces_env = \<lparr> ce_heap = no_heap, ce_os = pieces_os, ce_resolv = (\<lambda>w flags host port. (Inl 0, w)), ce_dns_init = (\<lambda>w. (0, w)), ce_signals = (\<lambda>w. (0, w)),
    ce_run = (\<lambda>w. True), ce_poll = (\<lambda>w fds. (Inr (\<lambda>i. 0), w)) \<rparr>"

definition sample_pipe :: my_pipe where
  "sample_pipe = \<lparr> mp_socks = [sample_sock], mp_send = 0, mp_recv = 0, poll_in = 0, poll_out = 1 \<rparr>"

definition two_ents :: "poll_ent list" where
  "two_ents = replicate 2 \<lparr> pe_fd = 3, pe_events = 0, pe_revents = 0 \<rparr>"

lemma pieces_law: "relay_law (\<lambda>w. concat (fst w)) snd rfd wfd pieces_os"
  by (auto simp: relay_law_def read_law_def write_law_def quiet_read_def quiet_write_def accepts_all_def pieces_os_def split: list.splits)

theorem my_pipe_readwrite_relays_witness:
  "\<exists>src' dst' fds' w'. my_pipe_readwrite pieces_env False ([[65, 66], [], [67]], [90]) sample_pipe sample_pipe two_ents = Some (src', dst', fds', w') \<and>
    snd w' @ concat (fst w') = [90, 65, 66, 67] \<and> (send_fin (send_of dst') \<longrightarrow> concat (fst w') = [])"
proof -
  have i: "src_idle sample_pipe" "dst_idle sample_pipe" "\<not> recv_fin (recv_of sample_pipe)" "\<not> send_fin (send_of sample_pipe)"
    using sample_bufs by (simp_all add: src_idle_def dst_idle_def recv_of_def send_of_def sample_pipe_def) (simp_all add: sample_sock_def)
  have "relay_law (\<lambda>w. concat (fst w)) snd (sk_fd (recv_of sample_pipe)) (sk_fd (send_of sample_pipe)) (ce_os pieces_env)"
    by (simp add: pieces_env_def pieces_law)
  from my_pipe_readwrite_relays [OF i(1,2) this, of "([[65, 66], [], [67]], [90])" two_ents] i(3,4) show ?thesis by auto
qed

section \<open>Logged lines\<close>

lemma log_step:
  assumes "sock_recv (ce_heap env) (ce_os env) w (recv_of src) = (SOCK_DATA, r, w1)" "mp_recv src < length (mp_socks src)"
    and "sock_send_str (ce_heap env) (ce_os env) w1 (send_of dst) (sock_recv_str r) = (0, s, w2)"
    and "log_lines r (sock_iseof r) = Some (0, r')" "slice_cmpmem (sock_recv_str r') (ascii ''> '') \<noteq> 0"
  shows "copy_loop env True w src dst fds =
    copy_loop env True w2 (set_recv (set_recv src r) r') (set_send dst s) (set_out fds (set_send dst s))"
  using assms by (subst copy_loop.simps) (simp add: Let_def)

text \<open>The socket with what it has received in its buffer, of which the first \<open>n\<close> bytes are unread.\<close>

definition holding :: "nat \<Rightarrow> bytes \<Rightarrow> simple_sock" where
  "holding n bs = sample_sock\<lparr> recv_buf := (RWBUF_INIT (bs @ replicate (16 - length bs) 0))\<lparr> rb_widx := n \<rparr> \<rparr>"

lemma pieces_read_loop:
  "p \<noteq> [] \<Longrightarrow> length p \<le> n \<Longrightarrow> \<not> bit (sk_mode sock) SOCK_UDP \<Longrightarrow>
    read_loop pieces_os (p # ps, out) sock n acc = read_loop pieces_os (ps, out) sock (n - length p) (acc @ p)"
  "0 < n \<Longrightarrow> read_loop pieces_os ([] # ps, out) sock n acc = (io_code (recv_timeout sock) EAGAIN, acc, sock, (ps, out))"
  "0 < n \<Longrightarrow> read_loop pieces_os ([], out) sock n acc = (SOCK_CLOSED, acc, sock\<lparr> recv_fin := True \<rparr>, ([], out))"
  by (subst read_loop.simps; auto simp: pieces_os_def io_fail_def)+

lemmas holding_simps = holding_def sample_sock_def RWBUF_INIT_def rwbuf_used_def rwbuf_space_def sz_sub_def sz_add_def rb_mem_def segment_def sock_codes

lemma pieces_recv:
  "sock_recv no_heap pieces_os ([[65, 66], [], [67, 10], []], []) sample_sock = (SOCK_DATA, holding 2 [65, 66], ([[67, 10], []], []))"
  "sock_recv no_heap pieces_os ([[67, 10], []], [65, 66]) (holding 2 [65, 66]) = (SOCK_DATA, holding 4 [65, 66, 67, 10], ([], [65, 66]))"
  "sock_recv no_heap pieces_os ([], out) (holding 0 [65, 66, 67, 10]) =
    (SOCK_CLOSED, (holding 0 [65, 66, 67, 10])\<lparr> recv_fin := True \<rparr>, ([], out))"
  by (simp_all add: sock_recv_def sock_read_data_def pieces_read_loop holding_simps rwbuf_poke_def write_at_def)

lemma pieces_send:
  "sock_send_str no_heap pieces_os (ps, out) sample_sock (Some (b # bs)) = (0, sample_sock, (ps, out @ b # bs))"
proof -
  have "writev_loop pieces_os (ps, out) sample_sock [[], b # bs] 0 = (SOCK_OK, length (b # bs), [[], []], sample_sock, (ps, out @ b # bs))"
    by (subst writev_loop.simps, subst writev_loop.simps) (simp add: pieces_os_def)
  moreover have "rwbuf_rdinc (send_buf sample_sock) 0 = (0, send_buf sample_sock)" "backlog (send_buf sample_sock) = []"
    "\<not> sys_err sample_sock" "\<not> fin_sent sample_sock"
    by (simp_all add: rwbuf_rdinc_def backlog_def holding_simps)
  ultimately show ?thesis
    by (simp add: sock_send_str_def sock_send_mem_def send_iovs_def sock_write_iovs_def slice_bytes_def)
qed

lemma holding_str: "sock_recv_str (holding 2 [65, 66]) = Some [65, 66]" "sock_recv_str (holding 4 [65, 66, 67, 10]) = Some [65, 66, 67, 10]"
  "sock_recv_str (holding 0 bs) = Some []"
  by (simp_all add: sock_recv_str_def backlog_def holding_simps)

lemma pieces_line:
  "sock_recv_line (holding 2 [65, 66]) False = (0, None, holding 2 [65, 66])"
  "sock_recv_line (holding 4 [65, 66, 67, 10]) False = (4, Some [65, 66, 67], holding 0 [65, 66, 67, 10])"
  "sock_recv_line (holding 0 [65, 66, 67, 10]) False = (0, None, holding 0 [65, 66, 67, 10])"
  by (simp_all add: sock_recv_line_def rwbuf_readline_def holding_simps trim_crlf_def RWBUF_NOLOG_def RWBUF_EOF_def RWBUF_ADDNUL_def)

lemma pieces_log:
  "log_lines (holding 2 [65, 66]) False = Some (0, holding 2 [65, 66])"
  "log_lines (holding 4 [65, 66, 67, 10]) False = Some (0, holding 0 [65, 66, 67, 10])"
  by (simp add: log_lines.simps [of "holding 2 [65, 66]"] pieces_line)
    (simp add: log_lines.simps [of "holding 4 [65, 66, 67, 10]"] log_lines.simps [of "holding 0 [65, 66, 67, 10]"] pieces_line)

text \<open>
  With \<open>--log-line\<close> the part of a line that has arrived is written and stays in the receive buffer, so
  that it is written again with the rest: of a line that arrives as \<open>AB\<close> and \<open>C\<close>, \<open>ABABC\<close> is sent.
\<close>

theorem log_line_repeats:
  "\<exists>src' dst' fds'. my_pipe_readwrite pieces_env True ([[65, 66], [], [67, 10], []], []) sample_pipe sample_pipe two_ents =
    Some (src', dst', fds', ([], [65, 66, 65, 66, 67, 10]))"
proof -
  let ?p = "\<lambda>s. sample_pipe\<lparr> mp_socks := [s] \<rparr>"
  have p: "sample_pipe = ?p sample_sock" "recv_of (?p s) = s" "send_of (?p s) = s" "set_recv (?p s) t = ?p t" "set_send (?p s) t = ?p t"
    "mp_recv sample_pipe = 0" for s t
    by (simp_all add: sample_pipe_def recv_of_def send_of_def set_recv_def set_send_def)
  have e: "ce_heap pieces_env = no_heap" "ce_os pieces_env = pieces_os" by (simp_all add: pieces_env_def)
  have g: "\<not> sock_iseof (holding n bs)" for n bs by (simp add: sock_iseof_def holding_def sample_sock_def)
  have c: "slice_cmpmem (Some [65, 66]) [62, 32] \<noteq> 0" "slice_cmpmem (Some []) [62, 32] \<noteq> 0" by code_simp+
  have s1: "copy_loop pieces_env True ([[65, 66], [], [67, 10], []], []) (?p sample_sock) (?p sample_sock) fds =
      copy_loop pieces_env True ([[67, 10], []], [65, 66]) (?p (holding 2 [65, 66])) (?p sample_sock) (set_out fds (?p sample_sock))" for fds
    using log_step [of pieces_env "([[65, 66], [], [67, 10], []], [])" "?p sample_sock" "holding 2 [65, 66]" "([[67, 10], []], [])"
      "?p sample_sock" sample_sock "([[67, 10], []], [65, 66])" "holding 2 [65, 66]" fds]
    by (simp add: p(2-) e g c holding_str pieces_recv pieces_send pieces_log)
  have s2: "copy_loop pieces_env True ([[67, 10], []], [65, 66]) (?p (holding 2 [65, 66])) (?p sample_sock) fds =
      copy_loop pieces_env True ([], [65, 66, 65, 66, 67, 10]) (?p (holding 0 [65, 66, 67, 10])) (?p sample_sock) (set_out fds (?p sample_sock))" for fds
    using log_step [of pieces_env "([[67, 10], []], [65, 66])" "?p (holding 2 [65, 66])" "holding 4 [65, 66, 67, 10]" "([], [65, 66])"
      "?p sample_sock" sample_sock "([], [65, 66, 65, 66, 67, 10])" "holding 0 [65, 66, 67, 10]" fds]
    by (simp add: p(2-) e g c holding_str pieces_recv pieces_send pieces_log)
  have s3: "copy_loop pieces_env True ([], out) (?p (holding 0 [65, 66, 67, 10])) dst fds =
      Some (Some SOCK_CLOSED, ?p ((holding 0 [65, 66, 67, 10])\<lparr> recv_fin := True \<rparr>), dst, fds, ([], out))" for out dst fds
    by (subst copy_loop.simps) (simp add: p(2-) e pieces_recv sock_codes)
  show ?thesis unfolding my_pipe_readwrite_def by (subst (1 2) p(1)) (simp add: s1 s2 s3 sock_codes Let_def)
qed

end
