(* ===== verification/Spec2Isabelle.thy ===== *)
theory Spec2Isabelle
  imports Rwbuf Hashmap_Ops Db_Store Util Inet Dns_Query Server_Session Server_State Resolv_Numeric Resolv_Text Client_Relay
begin

text \<open>
  A verification development for a key/value database server, its socket layer, its DNS codec,
  its resolver, its client and its helper libraries, written in C (\<open>src/src\<close>).

  \<^bold>\<open>The program.\<close>  \<open>server.c\<close> is an event loop over \<open>epoll\<close>: it accepts clients, reads their lines through
  the buffered sockets of \<open>sock.c\<close>, executes the commands SET, GET, DEL and QUIT on the store of
  \<open>db.c\<close>, and keeps its clients in the list of \<open>list.h\<close>.  A socket owns two buffers of \<open>rwbuf.c\<close>.
  Addresses come from the resolver \<open>dns_resolv.c\<close>, which uses the codec \<open>dns_proto.c\<close>, the address
  readers and printers of \<open>str_util.c\<close>, and the hash maps of \<open>hashmap.h\<close> and \<open>hashmap_impl.h\<close>.  Slices,
  string buffers and numbers are in \<open>str_util.h\<close> and \<open>util.c\<close>.  \<open>client.c\<close> copies between
  the terminal and a server through two pairs of sockets.  \<open>launcher.c\<close>, \<open>lau_child.c\<close> and \<open>ns_util.c\<close>
  start the programs in containers.

  \<^bold>\<open>The theories\<close>, in the order of their dependence:
  \<^item> \<open>Prelude\<close>: sizes with the wrap-around of \<open>size_t\<close>, memory blocks, \<open>memchr\<close> and \<open>memcmp\<close>.
  \<^item> \<open>Codec\<close>, \<open>Strings\<close>: \<open>str_util.h\<close>.  Decimal and hexadecimal numbers, big-endian integers, slices,
    string buffers.  Printing and reading numbers are inverse; trimming and splitting meet their
    descriptions.
  \<^item> \<open>Rwbuf\<close>: \<open>rwbuf.c\<close>.  The buffer is a queue of bytes over any sequence of writes and reads,
    and its line reader refines the splitting of that queue.
  \<^item> \<open>Map_Interface\<close>, \<open>Hashmap\<close>, \<open>Hashmap_Ops\<close>: \<open>hashmap.h\<close>, \<open>hashmap_impl.h\<close>.  Open addressing with
    deletion by back-shifting and resizing refines finite maps; the contract is the locale of
    \<open>Map_Interface\<close>, which the string-keyed and integer-keyed instances interpret.
  \<^item> \<open>Db\<close>, \<open>Db_Store\<close>: \<open>db.c\<close>.  Chains of records in a heap of offsets, in memory and in a mapped file,
    refine a finite map for keys of which, within one bucket, none begins with another; what a file
    check establishes.
  \<^item> \<open>Util\<close>: \<open>util.c\<close>.  Number printers with their static buffers and the option parser.
  \<^item> \<open>Inet\<close>: \<open>str_util.c\<close>.  IPv4 and IPv6 addresses: printing and reading are inverse, and reading stays
    in bounds except on the strings of one described form.
  \<^item> \<open>Dns_Name\<close>, \<open>Dns_Types\<close>, \<open>Dns_Decode\<close>, \<open>Dns_Safety\<close>, \<open>Dns_Encode\<close>, \<open>Dns_Query\<close>: \<open>dns_proto.c\<close>.  Names with
    compression, messages, the decoder as a state monad over the packet, the encoder.  The names
    that the decoder accepts are described exactly, and are more than the documented format allows;
    decoding and encoding stay in bounds under stated conditions, a family of packets is given on which
    the decoder does not, and a query comes back from its packet.
  \<^item> \<open>Sock\<close>, \<open>Sock_Stream\<close>: \<open>sock.c\<close>.  The operations over a record of system calls; the output is the
    stream that was written, and connecting leaks no descriptor.
  \<^item> \<open>Resolv_Result\<close>, \<open>Resolv_Conf\<close>, \<open>Resolv_Query\<close>, \<open>Resolv_Text\<close>: \<open>dns_resolv.c\<close>.  The array of addresses, the
    configuration, hosts and services files, the cache, the queries over the sockets of a nameserver
    and the search list up to \<open>dns_resolv\<close>, and the text of an address.
  \<^item> \<open>Resolv_Safety\<close>, \<open>Resolv_Numeric\<close>: under the laws of the system, whenever \<open>dns_resolv\<close> returns, its value
    is at most the number of addresses the array holds, nothing was stored outside the array and the
    open descriptors are those before the call.  That it returns is not claimed for queries over the network, where its loop over \<open>poll\<close> can
    go on without end; an IPv4 address given as text is shown to come back as it is.
  \<^item> \<open>Linked_List\<close>: \<open>list.h\<close>.  The circular list on a memory of elements refines sequences.
  \<^item> \<open>Server\<close>, \<open>Server_Session\<close>, \<open>Server_State\<close>: \<open>server.c\<close>.  The whole program as functions on its state; the
    lines of a client, up to a failure of its socket, are executed as a session over a finite map, however
    the input is cut into chunks, for keys the store can tell apart; the event loop keeps the list of clients and the open descriptors consistent, and the
    program ends with the descriptors it started with.
  \<^item> \<open>Client\<close>, \<open>Client_Relay\<close>: \<open>client.c\<close>.  The program that joins the terminal and a server; without logging
    it copies every byte once and in order, with logging it repeats unfinished lines.

  \<^bold>\<open>Conventions.\<close>  Bytes are \<open>8 word\<close>, C integers are words or \<open>int\<close> with the wrap-around written out,
  sizes are \<open>nat\<close> below \<open>2 ^ 64\<close>, pointers that may be null are options.  A result \<open>None\<close> of an operation is an access
  out of bounds, the use of freed memory or a loop that does not end; theorems that an operation
  returns state that the result is \<open>Some\<close>.  The array of results of the resolver is an exception: stores
  outside of it are kept beside it and stand behind it in the result.  The system is a record of functions on a state of a
  type variable; what a theorem relies on of it (a write accepts a prefix, a read delivers the next
  bytes, \<open>close\<close> releases a descriptor) is a named predicate of the theorem, and its witness gives a
  concrete system that satisfies it.  There is no fuel: loops are structural recursion, functions
  with a termination proof, or partial functions whose termination is a lemma where the code ends.

  \<^bold>\<open>Not modelled.\<close>  \<open>log.c\<close> and \<open>log.h\<close> (output only), \<open>launcher.c\<close>, \<open>lau_child.c\<close> and \<open>ns_util.c\<close> (almost all of
  it Linux system calls on namespaces, mounts and processes), the parts of \<open>util.c\<close> that run programs,
  set up signals and print usage texts, the texts of messages for the log, and the build and
  deployment files.  The sockets, the server and the client take the resolver as a parameter;
  \<open>dns_resolv.c\<close> is modelled on its own over another record of system calls.
\<close>

end
